(* ===== verification/Xf_Prelude.thy ===== *)
theory Xf_Prelude
  imports Main "HOL-Library.Word"
begin

text \<open>
  Shared vocabulary of the development: the fixed-width integer types of
  \<^verbatim>\<open>include/xfutil/types.h\<close>, bounds-checked memory copies, the theorem collections the
  components feed, and the generic facts on words and lists that their proofs share.

  Memory conventions. A readable region of memory is the list of its bytes. A copy that
  would leave its source or its destination is the value \<^const>\<open>None\<close>: every operation
  that copies memory has an \<open>option\<close> result, and memory safety of an operation is the
  theorem that the result is not \<^const>\<open>None\<close>.
\<close>

unbundle bit_operations_syntax

section \<open>Integer types and theorem collections\<close>

type_synonym u8 = "8 word"
type_synonym u16 = "16 word"
type_synonym u32 = "32 word"
type_synonym u64 = "64 word"
type_synonym bytes = "8 word list"

named_theorems codec_defs \<open>definitions of the byte codecs\<close>
named_theorems codec_rt \<open>round-trip equations of the byte codecs\<close>
named_theorems codec_len \<open>lengths of encodings\<close>

section \<open>Bounds-checked memory copies\<close>

definition mem_read :: "bytes \<Rightarrow> nat \<Rightarrow> bytes option" where
  "mem_read src n = (if n \<le> length src then Some (take n src) else None)"

definition mem_write :: "bytes \<Rightarrow> nat \<Rightarrow> bytes \<Rightarrow> bytes option" where
  "mem_write dst off src =
     (if off + length src \<le> length dst
      then Some (take off dst @ src @ drop (off + length src) dst)
      else None)"

text \<open>The C string stored in a region: the bytes before the first NUL.\<close>

definition cstr :: "bytes \<Rightarrow> bytes" where
  "cstr b = takeWhile (\<lambda>c. c \<noteq> 0) b"

lemma mem_read_exact [simp]: "n = length src \<Longrightarrow> mem_read src n = Some src"
  by (simp add: mem_read_def)

lemma mem_read_Some_iff:
  "mem_read src n = Some b \<longleftrightarrow> n \<le> length src \<and> b = take n src"
  by (auto simp: mem_read_def)

lemma mem_write_Some_iff:
  "mem_write dst off src = Some d \<longleftrightarrow>
     off + length src \<le> length dst \<and> d = take off dst @ src @ drop (off + length src) dst"
  by (auto simp: mem_write_def)

lemma mem_write_length: "mem_write dst off src = Some d \<Longrightarrow> length d = length dst"
  by (auto simp: mem_write_Some_iff)

lemma mem_write_take:
  "mem_write dst off src = Some d \<Longrightarrow> take (off + length src) d = take off dst @ src"
  by (auto simp: mem_write_Some_iff)

lemma cstr_id: "0 \<notin> set b \<Longrightarrow> cstr (b @ 0 # r) = b"
  unfolding cstr_def by (subst takeWhile_append2) auto

lemma cstr_no_nul: "0 \<notin> set (cstr b)"
  by (auto simp: cstr_def dest: set_takeWhileD)

section \<open>Words\<close>

lemma unat_drop_bit_div: "unat (drop_bit n (w :: 'a::len word)) = unat w div 2 ^ n"
  by (metis drop_bit_eq_div unat_drop_bit_eq)

lemma drop_bit_less: "0x80 \<le> (w :: u64) \<Longrightarrow> unat (drop_bit 7 w) < unat w"
  by (auto simp: unat_drop_bit_div word_le_nat_alt)

lemma word_lt_pow2_bit:
  "bit (w :: 'a::len word) m \<Longrightarrow> unat w < 2 ^ k \<Longrightarrow> m < k"
proof (rule ccontr)
  assume b: "bit w m" and lt: "unat w < 2 ^ k" and "\<not> m < k"
  then have "unat w < 2 ^ m"
    by (meson leI less_le_trans one_le_numeral power_increasing)
  then have "unat w div 2 ^ m = 0" by simp
  with b show False
    by (metis bit_iff_odd drop_bit_eq_div even_zero unat_drop_bit_div unat_0_iff)
qed

lemma unat_ucast_take_bit: "unat (ucast (w :: 'a::len word) :: 'b::len word) = unat w mod 2 ^ LENGTH('b)"
  by (simp add: unsigned_ucast_eq take_bit_eq_mod)

lemma unat_bound: "unat (w :: 'a::len word) < 2 ^ LENGTH('a)"
  by (rule unsigned_less)

lemma unat_ucast_small: "unat (w :: 'a::len word) < 2 ^ LENGTH('b) \<Longrightarrow> unat (ucast w :: 'b::len word) = unat w"
  by (simp add: unat_ucast_take_bit)

lemma unat_ucast_up:
  fixes w :: "'a::len word"
  assumes "LENGTH('a) \<le> LENGTH('b::len)"
  shows "unat (ucast w :: 'b word) = unat w"
proof -
  have "unat w < 2 ^ LENGTH('a)" by (rule unat_bound)
  also have "\<dots> \<le> 2 ^ LENGTH('b)" using assms by (intro power_increasing) auto
  finally show ?thesis by (rule unat_ucast_small)
qed

lemma unat_of_nat_small: "n < 2 ^ LENGTH('a) \<Longrightarrow> unat (of_nat n :: 'a::len word) = n"
  by (simp add: unat_of_nat)

text \<open>Rounding down to a power of two.\<close>

lemma unat_and_not_mask:
  fixes w :: "'a::len word"
  shows "unat (w AND NOT (mask n)) = unat w div 2 ^ n * 2 ^ n"
proof -
  have eq: "w AND NOT (mask n) = push_bit n (drop_bit n w)"
    by (rule bit_word_eqI) (auto simp: bit_simps)
  have "unat (push_bit n (drop_bit n w)) = take_bit LENGTH('a) (unat w div 2 ^ n * 2 ^ n)"
    unfolding unsigned_push_bit_eq unat_drop_bit_div by (simp add: push_bit_eq_mult)
  moreover have "unat w div 2 ^ n * 2 ^ n < 2 ^ LENGTH('a)"
    using unat_bound [of w] div_times_less_eq_dividend le_less_trans by blast
  ultimately show ?thesis unfolding eq by (simp add: take_bit_eq_mod)
qed

lemma unat_minus_of_nat:
  fixes w :: "'a::len word"
  assumes "x \<le> unat w"
  shows "unat (w - of_nat x) = unat w - x"
proof -
  have "unat (of_nat x :: 'a word) = x"
    using assms by (simp add: unat_of_nat_small le_less_trans)
  with assms show ?thesis
    by (simp add: unat_sub word_le_nat_alt)
qed

end
