(* ===== verification/Types.thy ===== *)
theory Types
  imports Xf_Prelude
begin

text \<open>
  \<^verbatim>\<open>include/xfutil/types.h\<close>: the integer types with the sizes the header asserts, the macros, and the
  two allocation wrappers and the buffer guard of \<^verbatim>\<open>strutil.h\<close>. The word types of the prelude stand for
  the typedefs; a floating point value is the word of its bits, a pointer a 64 bit address. Macros
  without a fixed type are polymorphic, as their text is.
\<close>

section \<open>Definitions\<close>

text \<open>The size in bytes of a type that is a word.\<close>

definition sizeof :: "'a::len word itself \<Rightarrow> nat" where
  "sizeof t = LENGTH('a) div 8"

definition static_asserts :: bool where
  "static_asserts \<longleftrightarrow>
     sizeof TYPE(64 word) = 8 \<and> sizeof TYPE(u8) = 1 \<and> sizeof TYPE(u16) = 2 \<and>
     sizeof TYPE(u32) = 4 \<and> sizeof TYPE(u64) = 8"

definition KiB :: "u64 \<Rightarrow> u64" where "KiB x = 1024 * x"
definition MiB :: "u64 \<Rightarrow> u64" where "MiB x = 1024 * KiB x"
definition GiB :: "u64 \<Rightarrow> u64" where "GiB x = 1024 * MiB x"

definition MAX_macro :: "'a::linorder \<Rightarrow> 'a \<Rightarrow> 'a" where
  "MAX_macro x y = (if x > y then x else y)"

definition MIN_macro :: "'a::linorder \<Rightarrow> 'a \<Rightarrow> 'a" where
  "MIN_macro x y = (if x < y then x else y)"

definition ARRAY_SIZE :: "nat \<Rightarrow> nat \<Rightarrow> nat" where
  "ARRAY_SIZE array_bytes element_bytes = array_bytes div element_bytes"

text \<open>The third macro argument only selects the offset of the member.\<close>

definition container_of :: "u64 \<Rightarrow> u64 \<Rightarrow> u64" where
  "container_of ptr offset = ptr - offset"

definition INVALID_FIELD_ID :: int where "INVALID_FIELD_ID = -1"
definition END_FIELD_ID :: int where "END_FIELD_ID = 0"
definition MIN_FIELD_ID :: int where "MIN_FIELD_ID = 1"
definition MAX_FIELD_ID :: int where "MAX_FIELD_ID = 32767"

text \<open>
  \<^verbatim>\<open>xmalloc\<close> with an alignment: the two assertions in front of the call, which only a build with
  assertions evaluates, and the result from the answer of \<^verbatim>\<open>posix_memalign\<close> (its code and the address
  it stored), null when the code is not zero.
\<close>

definition xmalloc_asserts :: "u64 \<Rightarrow> u64 \<Rightarrow> bool" where
  "xmalloc_asserts sz align \<longleftrightarrow> sz AND (sz - 1) = 0 \<and> align AND (align - 1) = 0"

definition xmalloc_aligned :: "(u64 \<Rightarrow> u64 \<Rightarrow> int \<times> nat) \<Rightarrow> u64 \<Rightarrow> u64 \<Rightarrow> nat" where
  "xmalloc_aligned posix_memalign sz align =
     (case posix_memalign align sz of (res, buf) \<Rightarrow> if res = 0 then buf else 0)"

text \<open>A guard holds the buffer it is made with; its destructor frees it (the address in the result).\<close>

record BufferGuard =
  guard_buf :: nat

definition BufferGuard_new :: "nat \<Rightarrow> BufferGuard" where
  "BufferGuard_new buf = \<lparr>guard_buf = buf\<rparr>"

definition BufferGuard_destroy :: "BufferGuard \<Rightarrow> nat" where
  "BufferGuard_destroy g = guard_buf g"

section \<open>Lemmas\<close>

lemma static_asserts_hold: "static_asserts"
  by (simp add: static_asserts_def sizeof_def)

lemma MAX_MIN_eq [simp]: "MAX_macro x y = max x y" "MIN_macro x y = min x y"
  by (auto simp: MAX_macro_def MIN_macro_def max_def min_def)

lemma sizes_unat:
  "unat (KiB x) = 2 ^ 10 * unat x mod 2 ^ 64"
  "unat (MiB x) = 2 ^ 20 * unat x mod 2 ^ 64"
  "unat (GiB x) = 2 ^ 30 * unat x mod 2 ^ 64"
  by (simp_all add: KiB_def MiB_def GiB_def unat_word_ariths mod_mult_right_eq flip: mult.assoc)

text \<open>The sizes are exact below \<open>2 ^ 34\<close> GiB, and wrap from there on.\<close>

lemma GiB_exact: "unat (GiB x) = 2 ^ 30 * unat x \<longleftrightarrow> unat x < 2 ^ 34"
  unfolding sizes_unat by (auto simp: mod_eq_self_iff_div_eq_0 div_eq_0_iff)

lemma container_of_member [simp]: "container_of (obj + offset) offset = obj"
  by (simp add: container_of_def)

text \<open>Which sizes the assertion of \<^verbatim>\<open>xmalloc\<close> admits: zero and the powers of two.\<close>

lemma nat_and_pred_zero_iff: "(n :: nat) AND (n - 1) = 0 \<longleftrightarrow> n = 0 \<or> (\<exists>k. n = 2 ^ k)"
proof (induction n rule: less_induct)
  case (less n)
  consider "n = 0" | m where "n = 2 * m" "0 < m" | m where "n = 2 * m + 1"
    by (metis oddE evenE gr0I mult_0_right)
  then show ?case
  proof cases
    case 2
    have pred: "n - 1 = 2 * (m - 1) + 1" using 2 by simp
    have low: "bit (n - 1) i \<longleftrightarrow> i = 0 \<or> bit (m - 1) (i - 1)" for i
      unfolding pred by (cases i) (auto simp: bit_Suc bit_0)
    have "n AND (n - 1) = 2 * (m AND (m - 1))"
    proof (rule bit_eqI)
      fix i
      show "bit (n AND (n - 1)) i = bit (2 * (m AND (m - 1))) i"
        unfolding bit_and_iff low by (cases i) (auto simp: bit_Suc bit_double_iff bit_and_iff 2(1))
    qed
    moreover have "(\<exists>k. n = 2 ^ k) \<longleftrightarrow> (\<exists>k. m = 2 ^ k)"
    proof
      assume "\<exists>k. n = 2 ^ k"
      then obtain k where "2 * m = 2 ^ k" using 2 by auto
      then show "\<exists>k. m = 2 ^ k" by (cases k) (auto simp: Suc_double_not_eq_double)
    next
      assume "\<exists>k. m = 2 ^ k"
      then show "\<exists>k. n = 2 ^ k" using 2 by (metis power_Suc)
    qed
    ultimately show ?thesis using less.IH [of m] 2 by simp
  next
    case 3
    have "n AND (n - 1) = 2 * m"
    proof (rule bit_eqI)
      fix i
      show "bit (n AND (n - 1)) i = bit (2 * m) i"
        unfolding bit_and_iff 3 by (cases i) (auto simp: bit_Suc bit_double_iff)
    qed
    moreover have "(\<exists>k. n = 2 ^ k) \<longleftrightarrow> m = 0"
    proof
      assume "\<exists>k. n = 2 ^ k"
      then obtain k where "2 * m + 1 = 2 ^ k" using 3 by auto
      then show "m = 0" by (cases k) (auto, presburger)
    next
      assume "m = 0"
      then show "\<exists>k. n = 2 ^ k" using 3 by (auto intro: exI [of _ 0])
    qed
    ultimately show ?thesis using 3 by simp
  qed simp
qed

lemma and_pred_zero_iff:
  fixes x :: "'a::len word"
  shows "x AND (x - 1) = 0 \<longleftrightarrow> x = 0 \<or> (\<exists>k. unat x = 2 ^ k)"
proof (cases "x = 0")
  case False
  have "x AND (x - 1) = 0 \<longleftrightarrow> unat (x AND (x - 1)) = 0" by (simp add: unat_eq_0)
  also have "unat (x AND (x - 1)) = unat x AND (unat x - 1)"
    using False by (simp add: unsigned_and_eq unat_minus_one)
  finally show ?thesis using nat_and_pred_zero_iff [of "unat x"] False by (simp add: unat_eq_0)
qed simp

lemma xmalloc_asserts_iff:
  "xmalloc_asserts sz align \<longleftrightarrow>
     (sz = 0 \<or> (\<exists>k. unat sz = 2 ^ k)) \<and> (align = 0 \<or> (\<exists>k. unat align = 2 ^ k))"
  by (simp add: xmalloc_asserts_def and_pred_zero_iff)

end
