(* ===== verification/Transition.thy ===== *)
theory Transition
  imports Xf_Prelude "HOL-Library.Multiset"
begin

text \<open>
  What the step relations of the development share. A component that runs concurrently is a
  relation between states; \<open>simulation\<close> says that one relation carries out another one, and
  \<open>bounded_progress\<close> that a system of threads gets to its end: it is never stuck before, and its
  runs are bounded apart from the steps that the environment makes at will (labelled \<^const>\<open>True\<close>; here
  the spurious wake-ups of condition variables). Both are interpreted on the queue with its threads,
  on the logger with its threads and on the asynchronous I/O service.
\<close>

section \<open>Simulation\<close>

locale simulation =
  fixes cstep :: "'c \<Rightarrow> 'c \<Rightarrow> bool"
    and astep :: "'a \<Rightarrow> 'a \<Rightarrow> bool"
    and match :: "'c \<Rightarrow> 'a \<Rightarrow> bool"
  assumes follow: "cstep c d \<Longrightarrow> match c a \<Longrightarrow> \<exists>b. astep\<^sup>*\<^sup>* a b \<and> match d b"
begin

lemma follow_run: "cstep\<^sup>*\<^sup>* c d \<Longrightarrow> match c a \<Longrightarrow> \<exists>b. astep\<^sup>*\<^sup>* a b \<and> match d b"
proof (induction rule: rtranclp_induct)
  case (step d e)
  then obtain b where "astep\<^sup>*\<^sup>* a b" "match d b" by blast
  with follow [OF step.hyps(2)] show ?case by (meson rtranclp_trans)
qed blast

text \<open>What holds in every state the abstract system reaches holds of the concrete one.\<close>

lemma invariant_transfer:
  assumes "cstep\<^sup>*\<^sup>* c d" and "match c a" and "\<And>b. astep\<^sup>*\<^sup>* a b \<Longrightarrow> P b"
  shows "\<exists>b. match d b \<and> P b"
  using follow_run [OF assms(1,2)] assms(3) by blast

end

section \<open>Runs with labels\<close>

fun labelled_run :: "('l \<Rightarrow> 's \<Rightarrow> 's \<Rightarrow> bool) \<Rightarrow> 'l list \<Rightarrow> 's \<Rightarrow> 's \<Rightarrow> bool" where
  "labelled_run step [] s t \<longleftrightarrow> s = t"
| "labelled_run step (l # ls) s t \<longleftrightarrow> (\<exists>u. step l s u \<and> labelled_run step ls u t)"

definition any_label :: "('l \<Rightarrow> 's \<Rightarrow> 's \<Rightarrow> bool) \<Rightarrow> 's \<Rightarrow> 's \<Rightarrow> bool" where
  "any_label step s t \<longleftrightarrow> (\<exists>l. step l s t)"

lemma any_labelI: "step l s t \<Longrightarrow> any_label step s t"
  by (auto simp: any_label_def)

lemma labelled_run_rtranclp: "labelled_run step ls s t \<Longrightarrow> (any_label step)\<^sup>*\<^sup>* s t"
proof (induction ls arbitrary: s)
  case (Cons l ls)
  then obtain u where "step l s u" "(any_label step)\<^sup>*\<^sup>* u t" by auto
  then show ?case by (blast intro: any_labelI converse_rtranclp_into_rtranclp)
qed simp

lemma rtranclp_any_label: "(step l)\<^sup>*\<^sup>* s t \<Longrightarrow> (any_label step)\<^sup>*\<^sup>* s t"
proof (induction rule: rtranclp_induct)
  case (step t u)
  then show ?case by (blast intro: any_labelI rtranclp.rtrancl_into_rtrancl)
qed simp

section \<open>Progress\<close>

locale bounded_progress =
  fixes step :: "bool \<Rightarrow> 's \<Rightarrow> 's \<Rightarrow> bool"
    and ok :: "'s \<Rightarrow> bool"
    and final :: "'s \<Rightarrow> bool"
    and weight :: "'s \<Rightarrow> nat"
  assumes keeps: "step l s t \<Longrightarrow> ok s \<Longrightarrow> ok t"
    and own_step: "step False s t \<Longrightarrow> ok s \<Longrightarrow> weight t < weight s"
    and other_step: "step True s t \<Longrightarrow> ok s \<Longrightarrow> weight t \<le> Suc (weight s)"
    and not_stuck: "ok s \<Longrightarrow> \<not> final s \<Longrightarrow> \<exists>t. step False s t"
begin

lemma ok_reachable: "(any_label step)\<^sup>*\<^sup>* s t \<Longrightarrow> ok s \<Longrightarrow> ok t"
  by (induction rule: rtranclp_induct) (auto simp: any_label_def intro: keeps)

text \<open>With \<open>k\<close> steps of the environment a run has at most \<open>weight s + 2 * k\<close> steps.\<close>

lemma run_weight:
  "labelled_run step ls s t \<Longrightarrow> ok s \<Longrightarrow>
   length (filter Not ls) + weight t \<le> weight s + length (filter id ls)"
proof (induction ls arbitrary: s)
  case (Cons l ls)
  then obtain u where u: "step l s u" "labelled_run step ls u t" by auto
  have "ok u" by (rule keeps [OF u(1) Cons.prems(2)])
  with Cons.IH [OF u(2)] own_step [of s u] other_step [of s u] u(1) Cons.prems(2) show ?case
    by (cases l) auto
qed simp

lemma run_bounded:
  assumes "labelled_run step ls s t" and "ok s"
  shows "length ls \<le> weight s + 2 * length (filter id ls)"
proof -
  have "length ls = length (filter id ls) + length (filter Not ls)"
    using sum_length_filter_compl [of id ls] by (simp add: comp_def)
  with run_weight [OF assms] show ?thesis by simp
qed

lemma runs_to_end: "ok s \<Longrightarrow> \<exists>t. (step False)\<^sup>*\<^sup>* s t \<and> final t"
proof (induction "weight s" arbitrary: s rule: less_induct)
  case less
  show ?case
  proof (cases "final s")
    case False
    with less.prems obtain u where u: "step False s u" using not_stuck by blast
    with less.hyps [OF own_step [OF u less.prems] keeps [OF u less.prems]]
    show ?thesis by (meson converse_rtranclp_into_rtranclp)
  qed auto
qed

end

section \<open>Lists of threads\<close>

text \<open>Changing one thread of a list changes a sum over the list by what that thread adds to it.\<close>

lemma sum_list_update_nat:
  fixes f :: "'a \<Rightarrow> nat"
  assumes "i < length xs"
  shows "sum_list (map f (xs[i := x])) + f (xs ! i) = sum_list (map f xs) + f x"
proof -
  have 1: "xs = take i xs @ xs ! i # drop (Suc i) xs" using assms by (simp add: id_take_nth_drop)
  have 2: "xs[i := x] = take i xs @ x # drop (Suc i) xs" using assms by (simp add: upd_conv_take_nth_drop)
  have "sum_list (map f xs) = sum_list (map f (take i xs)) + f (xs ! i) + sum_list (map f (drop (Suc i) xs))"
    by (subst 1) simp
  moreover have "sum_list (map f (xs[i := x])) =
      sum_list (map f (take i xs)) + f x + sum_list (map f (drop (Suc i) xs))"
    unfolding 2 by simp
  ultimately show ?thesis by simp
qed

lemma sum_list_member_le: "x \<in> set xs \<Longrightarrow> (f :: 'a \<Rightarrow> nat) x \<le> sum_list (map f xs)"
  by (induction xs) auto

text \<open>Things with at most one owner, where every thread owns a list of things.\<close>

definition sole :: "'a multiset \<Rightarrow> bool" where
  "sole M \<longleftrightarrow> (\<forall>a. count M a \<le> 1)"

lemma sole_add: "sole (add_mset x M) \<longleftrightarrow> sole M \<and> x \<notin># M"
  by (auto simp: sole_def not_in_iff le_Suc_eq split: if_splits)

lemma sole_subset: "sole M \<Longrightarrow> N \<subseteq># M \<Longrightarrow> sole N"
  unfolding sole_def subseteq_mset_def by (meson le_trans)

lemma mset_concat_update:
  assumes "i < length xs"
  shows "mset (concat (map f (xs[i := x]))) + mset (f (xs ! i)) = mset (concat (map f xs)) + mset (f x)"
proof -
  have 1: "xs = take i xs @ xs ! i # drop (Suc i) xs" using assms by (simp add: id_take_nth_drop)
  have 2: "xs[i := x] = take i xs @ x # drop (Suc i) xs" using assms by (simp add: upd_conv_take_nth_drop)
  have "mset (concat (map f xs)) = mset (concat (map f (take i xs))) + mset (f (xs ! i)) +
      mset (concat (map f (drop (Suc i) xs)))" by (subst 1) simp
  moreover have "mset (concat (map f (xs[i := x]))) = mset (concat (map f (take i xs))) + mset (f x) +
      mset (concat (map f (drop (Suc i) xs)))" unfolding 2 by simp
  ultimately show ?thesis by simp
qed

lemma mset_concat_member: "x \<in> set xs \<Longrightarrow> mset (f x) \<subseteq># mset (concat (map f xs))"
  by (induction xs) (auto intro: subset_mset.add_increasing subset_mset.add_increasing2)

lemma mset_concat_two:
  assumes "i < j" and "j < length xs"
  shows "mset (f (xs ! i)) + mset (f (xs ! j)) \<subseteq># mset (concat (map f xs))"
proof -
  have 1: "xs = take i xs @ xs ! i # drop (Suc i) xs" using assms by (simp add: id_take_nth_drop)
  have "xs ! j = drop (Suc i) xs ! (j - Suc i)" using assms by simp
  moreover have "j - Suc i < length (drop (Suc i) xs)" using assms by simp
  ultimately have "xs ! j \<in> set (drop (Suc i) xs)" by (metis nth_mem)
  from mset_concat_member [OF this, of f]
  show ?thesis by (subst (3) 1) (simp add: subset_mset.add_mono subset_mset.add_increasing)
qed

lemma sole_concat_apart:
  assumes "sole (mset (concat (map f xs)))" and "i < length xs" and "j < length xs" and "i \<noteq> j"
    and "x \<in> set (f (xs ! i))"
  shows "x \<notin> set (f (xs ! j))"
proof
  assume y: "x \<in> set (f (xs ! j))"
  have "sole (mset (f (xs ! i)) + mset (f (xs ! j)))"
    using mset_concat_two [of i j xs f] mset_concat_two [of j i xs f] assms(2-4) sole_subset [OF assms(1)]
    by (cases i j rule: linorder_cases) (auto simp: add.commute)
  then have "count (mset (f (xs ! i))) x + count (mset (f (xs ! j))) x \<le> 1" by (simp add: sole_def)
  moreover have "0 < count (mset (f (xs ! i))) x" "0 < count (mset (f (xs ! j))) x"
    using assms(5) y by (simp_all add: count_mset_0_iff)
  ultimately show False by linarith
qed

end
