(* ===== verification/Strutil.thy ===== *)
theory Strutil
  imports Xf_Prelude "HOL-Library.List_Lexorder" "HOL-Library.Sublist"
begin

text \<open>
  \<^verbatim>\<open>include/xfutil/strutil.h\<close> and \<^verbatim>\<open>src/strutil.cpp\<close>: the C string copies, the growable
  buffer \<^verbatim>\<open>String\<close> and the non-owning \<^verbatim>\<open>StrView\<close>.

  A \<^verbatim>\<open>StrView\<close> is a pointer and a size. The pointer is modelled by the bytes that can be read
  from it onwards, so a view is well formed when its size does not exceed that region.
  \<^verbatim>\<open>malloc\<close> is a parameter of the operations that allocate: it maps a size to the bytes of
  a fresh (uninitialised) region, or to \<^const>\<open>None\<close> for a null pointer.
\<close>

section \<open>C string copies\<close>

definition StrCpy :: "bytes \<Rightarrow> nat \<Rightarrow> bytes \<Rightarrow> bytes option" where
  "StrCpy dst dst_len src =
     (let n = min dst_len (Suc (length (cstr src))) in
      case mem_read src n of
        None \<Rightarrow> None
      | Some b \<Rightarrow>
          (case mem_write dst 0 b of
             None \<Rightarrow> None
           | Some d \<Rightarrow>
               if 0 < dst_len then mem_write d (dst_len - 1) [0] else None))"

definition StrCpy_n :: "bytes \<Rightarrow> nat \<Rightarrow> bytes \<Rightarrow> nat \<Rightarrow> bytes option" where
  "StrCpy_n dst dst_len src src_len =
     (let min_len = min dst_len src_len in
      case mem_read src min_len of
        None \<Rightarrow> None
      | Some b \<Rightarrow>
          (case mem_write dst 0 b of
             None \<Rightarrow> None
           | Some d \<Rightarrow>
               if 0 < min_len then mem_write d (min_len - 1) [0] else None))"

section \<open>String\<close>

type_synonym malloc_fn = "nat \<Rightarrow> bytes option"

record String_t =
  m_buf :: "bytes option"
  m_size :: u64
  m_capacity :: u64

definition String_new :: String_t where
  "String_new = \<lparr>m_buf = None, m_size = 0, m_capacity = 0\<rparr>"

definition String_Data :: "String_t \<Rightarrow> bytes option" where
  "String_Data s = m_buf s"

definition String_Size :: "String_t \<Rightarrow> u64" where
  "String_Size s = m_size s"

definition String_Empty :: "String_t \<Rightarrow> bool" where
  "String_Empty s \<longleftrightarrow> m_size s = 0"

definition String_Reserve :: "malloc_fn \<Rightarrow> String_t \<Rightarrow> u64 \<Rightarrow> (bool \<times> String_t) option" where
  "String_Reserve malloc s sz =
     (if sz \<le> m_capacity s then Some (True, s)
      else
        (case malloc (unat sz) of
           None \<Rightarrow> Some (False, s)
         | Some ptr \<Rightarrow>
             (case m_buf s of
                None \<Rightarrow> Some (True, s\<lparr>m_buf := Some ptr, m_capacity := sz\<rparr>)
              | Some b \<Rightarrow>
                  (case mem_read b (unat (m_size s)) of
                     None \<Rightarrow> None
                   | Some src \<Rightarrow>
                       (case mem_write ptr 0 src of
                          None \<Rightarrow> None
                        | Some p \<Rightarrow> Some (True, s\<lparr>m_buf := Some p, m_capacity := sz\<rparr>))))))"

definition String_Resize :: "malloc_fn \<Rightarrow> String_t \<Rightarrow> u64 \<Rightarrow> (bool \<times> String_t) option" where
  "String_Resize malloc s sz =
     (case String_Reserve malloc s sz of
        None \<Rightarrow> None
      | Some (True, s') \<Rightarrow> Some (True, s'\<lparr>m_size := sz\<rparr>)
      | Some (False, s') \<Rightarrow> Some (False, s'))"

definition String_copy_tail :: "String_t \<Rightarrow> bytes \<Rightarrow> u64 \<Rightarrow> (bool \<times> String_t) option" where
  "String_copy_tail s data sz =
     (case mem_read data (unat sz) of
        None \<Rightarrow> None
      | Some src \<Rightarrow>
          (case m_buf s of
             None \<Rightarrow> if sz = 0 then Some (True, s\<lparr>m_size := m_size s + sz\<rparr>) else None
           | Some b \<Rightarrow>
               (case mem_write b (unat (m_size s)) src of
                  None \<Rightarrow> None
                | Some b' \<Rightarrow> Some (True, s\<lparr>m_buf := Some b', m_size := m_size s + sz\<rparr>))))"

definition String_Append ::
    "malloc_fn \<Rightarrow> String_t \<Rightarrow> bytes \<Rightarrow> u64 \<Rightarrow> (bool \<times> String_t) option" where
  "String_Append malloc s data sz =
     (if m_size s + sz > m_capacity s
      then
        (case String_Reserve malloc s (sz + m_capacity s * 2) of
           None \<Rightarrow> None
         | Some (False, s') \<Rightarrow> Some (False, s')
         | Some (True, s') \<Rightarrow> String_copy_tail s' data sz)
      else String_copy_tail s data sz)"

definition String_Clear :: "String_t \<Rightarrow> String_t" where
  "String_Clear s = s\<lparr>m_size := 0\<rparr>"

definition String_Assign ::
    "malloc_fn \<Rightarrow> String_t \<Rightarrow> bytes \<Rightarrow> u64 \<Rightarrow> (bool \<times> String_t) option" where
  "String_Assign malloc s data sz = String_Append malloc (s\<lparr>m_size := 0\<rparr>) data sz"

text \<open>A read or write through \<^verbatim>\<open>operator[]\<close>; \<^const>\<open>None\<close> outside the buffer.\<close>

definition String_at :: "String_t \<Rightarrow> u64 \<Rightarrow> u8 option" where
  "String_at s idx =
     (case m_buf s of
        None \<Rightarrow> None
      | Some b \<Rightarrow> if idx < m_size s \<and> unat idx < length b then Some (b ! unat idx) else None)"

text \<open>The destructor: the buffer that is freed, and the string then.\<close>

definition String_destroy :: "String_t \<Rightarrow> bytes option \<times> String_t" where
  "String_destroy s = (m_buf s, s\<lparr>m_buf := None\<rparr>)"

section \<open>StrView\<close>

record StrView =
  sv_data :: bytes
  sv_size :: u64

definition StrView_Init :: StrView where
  "StrView_Init = \<lparr>sv_data = [0], sv_size = 0\<rparr>"

definition StrView_Set :: "bytes \<Rightarrow> u64 \<Rightarrow> StrView" where
  "StrView_Set data sz = \<lparr>sv_data = data, sv_size = sz\<rparr>"

definition StrView_Set_cstr :: "bytes \<Rightarrow> StrView" where
  "StrView_Set_cstr data = \<lparr>sv_data = data, sv_size = of_nat (length (cstr data))\<rparr>"

definition StrView_Set_String :: "String_t \<Rightarrow> StrView" where
  "StrView_Set_String s =
     \<lparr>sv_data = (case String_Data s of None \<Rightarrow> [] | Some b \<Rightarrow> b), sv_size = String_Size s\<rparr>"

text \<open>From a \<^verbatim>\<open>std::string\<close>: its bytes with the NUL that \<^verbatim>\<open>data()\<close> shows behind them.\<close>

definition StrView_Set_std :: "bytes \<Rightarrow> StrView" where
  "StrView_Set_std str = \<lparr>sv_data = str @ [0], sv_size = of_nat (length str)\<rparr>"

definition StrView_Data :: "StrView \<Rightarrow> bytes" where
  "StrView_Data v = sv_data v"

definition StrView_Size :: "StrView \<Rightarrow> u64" where
  "StrView_Size v = sv_size v"

definition StrView_Empty :: "StrView \<Rightarrow> bool" where
  "StrView_Empty v \<longleftrightarrow> sv_size v = 0"

definition StrView_Clear :: "StrView \<Rightarrow> StrView" where
  "StrView_Clear v = v\<lparr>sv_data := [0], sv_size := 0\<rparr>"

definition StrView_at :: "StrView \<Rightarrow> u64 \<Rightarrow> u8 option" where
  "StrView_at v idx = (if idx < sv_size v then Some (sv_data v ! unat idx) else None)"

definition StrView_Skip :: "StrView \<Rightarrow> u64 \<Rightarrow> StrView option" where
  "StrView_Skip v n =
     (if n \<le> sv_size v
      then Some (v\<lparr>sv_data := drop (unat n) (sv_data v), sv_size := sv_size v - n\<rparr>)
      else None)"

text \<open>
  \<^verbatim>\<open>memcmp\<close> compares bytes as \<^verbatim>\<open>unsigned char\<close>; only the sign of its result is specified,
  and only the sign is used by its callers.
\<close>

fun memcmp :: "bytes \<Rightarrow> bytes \<Rightarrow> nat \<Rightarrow> int" where
  "memcmp a b 0 = 0"
| "memcmp a b (Suc n) =
     (if a ! 0 = b ! 0 then memcmp (drop 1 a) (drop 1 b) n
      else if a ! 0 < b ! 0 then -1 else 1)"

definition StrView_Compare :: "StrView \<Rightarrow> StrView \<Rightarrow> int" where
  "StrView_Compare v dst =
     (let min_size = min (sv_size v) (sv_size dst);
          ret = memcmp (sv_data v) (sv_data dst) (unat min_size)
      in if ret = 0
         then (if sv_size v < sv_size dst then -1
               else if sv_size v > sv_size dst then 1 else ret)
         else ret)"

definition StrView_less :: "StrView \<Rightarrow> StrView \<Rightarrow> bool" where
  "StrView_less v dst \<longleftrightarrow> StrView_Compare v dst < 0"

definition StrView_eq :: "StrView \<Rightarrow> StrView \<Rightarrow> bool" where
  "StrView_eq v dst \<longleftrightarrow>
     sv_size v = sv_size dst \<and> memcmp (sv_data v) (sv_data dst) (unat (sv_size dst)) = 0"

definition StrView_neq :: "StrView \<Rightarrow> StrView \<Rightarrow> bool" where
  "StrView_neq v dst \<longleftrightarrow>
     sv_size v \<noteq> sv_size dst \<or> memcmp (sv_data v) (sv_data dst) (unat (sv_size dst)) \<noteq> 0"

definition StrView_StartWith :: "StrView \<Rightarrow> StrView \<Rightarrow> bool" where
  "StrView_StartWith v str \<longleftrightarrow>
     sv_size v \<ge> sv_size str \<and> memcmp (sv_data v) (sv_data str) (unat (sv_size str)) = 0"

definition StrView_EndWith :: "StrView \<Rightarrow> StrView \<Rightarrow> bool" where
  "StrView_EndWith v str \<longleftrightarrow>
     sv_size v \<ge> sv_size str \<and>
     memcmp (drop (unat (sv_size v - sv_size str)) (sv_data v)) (sv_data str)
       (unat (sv_size str)) = 0"

function prefix_loop :: "bytes \<Rightarrow> bytes \<Rightarrow> nat \<Rightarrow> nat \<Rightarrow> nat" where
  "prefix_loop a b min_len i =
     (if i < min_len then (if a ! i \<noteq> b ! i then i else prefix_loop a b min_len (Suc i))
      else min_len)"
  by pat_completeness auto
termination
  by (relation "measure (\<lambda>(a, b, min_len, i). min_len - i)") auto

text \<open>\<^verbatim>\<open>uint32_t min_len = MIN(size, str.size)\<close> keeps the low 32 bits of the smaller size.\<close>

definition GetPrefixLength :: "StrView \<Rightarrow> StrView \<Rightarrow> u32" where
  "GetPrefixLength v str =
     (let min_len = (ucast (min (sv_size v) (sv_size str)) :: u32)
      in of_nat (prefix_loop (sv_data v) (sv_data str) (unat min_len) 0))"

text \<open>
  The trim loops stop at the first character above the space. The build passes
  \<^verbatim>\<open>-fsigned-char\<close>, so a byte from \<^verbatim>\<open>0x80\<close> up is negative there and is trimmed too.
\<close>

definition above_space :: "u8 \<Rightarrow> bool" where
  "above_space c \<longleftrightarrow> sint c > 32"

function trim_left_loop :: "bytes \<Rightarrow> nat \<Rightarrow> nat \<Rightarrow> nat" where
  "trim_left_loop data sz skip =
     (if skip < sz
      then (if above_space (data ! skip) then skip else trim_left_loop data sz (Suc skip))
      else skip)"
  by pat_completeness auto
termination
  by (relation "measure (\<lambda>(data, sz, skip). sz - skip)") auto

function trim_right_loop :: "bytes \<Rightarrow> nat \<Rightarrow> nat \<Rightarrow> nat" where
  "trim_right_loop data sz skip =
     (if skip < sz
      then (if above_space (data ! (sz - 1 - skip)) then skip
            else trim_right_loop data sz (Suc skip))
      else skip)"
  by pat_completeness auto
termination
  by (relation "measure (\<lambda>(data, sz, skip). sz - skip)") auto

definition StrView_TrimLeft :: "StrView \<Rightarrow> StrView" where
  "StrView_TrimLeft v =
     (let skip = trim_left_loop (sv_data v) (unat (sv_size v)) 0
      in v\<lparr>sv_data := drop skip (sv_data v), sv_size := sv_size v - of_nat skip\<rparr>)"

definition StrView_TrimRight :: "StrView \<Rightarrow> StrView" where
  "StrView_TrimRight v =
     (let skip = trim_right_loop (sv_data v) (unat (sv_size v)) 0
      in v\<lparr>sv_size := sv_size v - of_nat skip\<rparr>)"

text \<open>The \<^verbatim>\<open>std::string\<close> overloads; a \<^verbatim>\<open>std::string\<close> is the list of its bytes.\<close>

definition TrimLeft :: "bytes \<Rightarrow> bytes" where
  "TrimLeft value = drop (trim_left_loop value (length value) 0) value"

definition TrimRight :: "bytes \<Rightarrow> bytes" where
  "TrimRight value =
     take (length value - trim_right_loop value (length value) 0) value"

section \<open>Specification vocabulary\<close>

definition malloc_ok :: "malloc_fn \<Rightarrow> bool" where
  "malloc_ok malloc \<longleftrightarrow> (\<forall>n b. malloc n = Some b \<longrightarrow> length b = n)"

definition String_inv :: "String_t \<Rightarrow> bool" where
  "String_inv s \<longleftrightarrow>
     m_size s \<le> m_capacity s \<and>
     (case m_buf s of None \<Rightarrow> m_capacity s = 0 | Some b \<Rightarrow> length b = unat (m_capacity s))"

definition String_bytes :: "String_t \<Rightarrow> bytes" where
  "String_bytes s =
     (case m_buf s of None \<Rightarrow> [] | Some b \<Rightarrow> take (unat (m_size s)) b)"

definition view_ok :: "StrView \<Rightarrow> bool" where
  "view_ok v \<longleftrightarrow> unat (sv_size v) \<le> length (sv_data v)"

definition sv_bytes :: "StrView \<Rightarrow> bytes" where
  "sv_bytes v = take (unat (sv_size v)) (sv_data v)"

section \<open>Views\<close>

declare prefix_loop.simps [simp del] trim_left_loop.simps [simp del] trim_right_loop.simps [simp del]

lemma memcmp_take:
  "n \<le> length a \<Longrightarrow> n \<le> length b \<Longrightarrow>
   memcmp a b n = (if take n a = take n b then 0 else if take n a < take n b then -1 else 1)"
proof (induction a b n rule: memcmp.induct)
  case (1 a b)
  then show ?case by simp
next
  case (2 a b n)
  then obtain x xs y ys where "a = x # xs" "b = y # ys"
    by (metis Suc_le_length_iff)
  with 2 show ?case by auto
qed

lemma less_prefix_split:
  fixes xs ys :: bytes
  defines "k \<equiv> min (length xs) (length ys)"
  shows "xs < ys \<longleftrightarrow> (if take k xs = take k ys then length xs < length ys else take k xs < take k ys)"
  unfolding k_def
proof (induction xs arbitrary: ys)
  case Nil
  then show ?case by (cases ys) auto
next
  case (Cons x xs)
  then show ?case by (cases ys) auto
qed

lemma eq_prefix_split:
  fixes xs ys :: bytes
  defines "k \<equiv> min (length xs) (length ys)"
  shows "xs = ys \<longleftrightarrow> take k xs = take k ys \<and> length xs = length ys"
  unfolding k_def by auto

lemma StrView_Set_std_bytes:
  assumes "length str < 2 ^ 64"
  shows "view_ok (StrView_Set_std str)" and "sv_bytes (StrView_Set_std str) = str"
  using assms by (simp_all add: view_ok_def sv_bytes_def StrView_Set_std_def unat_of_nat take_bit_nat_eq_self)

lemma length_sv_bytes [simp]: "view_ok v \<Longrightarrow> length (sv_bytes v) = unat (sv_size v)"
  by (simp add: view_ok_def sv_bytes_def)

lemma take_sv_bytes [simp]: "n \<le> unat (sv_size v) \<Longrightarrow> take n (sv_bytes v) = take n (sv_data v)"
  by (simp add: sv_bytes_def)

text \<open>
  For well-formed views, the sign of \<^verbatim>\<open>StrView::Compare\<close> decides the lexicographic
  order of the viewed byte strings (bytes compared unsigned, a proper prefix is smaller):
  negative, zero and positive are exactly smaller, equal and greater.
\<close>

theorem StrView_Compare_lexicographic:
  assumes "view_ok a" and "view_ok b"
  shows "(StrView_Compare a b < 0 \<longleftrightarrow> sv_bytes a < sv_bytes b) \<and>
         (StrView_Compare a b = 0 \<longleftrightarrow> sv_bytes a = sv_bytes b) \<and>
         (StrView_Compare a b > 0 \<longleftrightarrow> sv_bytes b < sv_bytes a)"
proof -
  let ?k = "min (unat (sv_size a)) (unat (sv_size b))"
  have k: "unat (min (sv_size a) (sv_size b)) = ?k"
    by (simp add: min_def word_le_nat_alt)
  have m: "memcmp (sv_data a) (sv_data b) ?k =
     (if take ?k (sv_bytes a) = take ?k (sv_bytes b) then 0
      else if take ?k (sv_bytes a) < take ?k (sv_bytes b) then -1 else 1)"
    using assms by (simp add: memcmp_take view_ok_def)
  let ?x = "take ?k (sv_bytes a)" and ?y = "take ?k (sv_bytes b)"
  have ab: "sv_bytes a < sv_bytes b \<longleftrightarrow> (if ?x = ?y then sv_size a < sv_size b else ?x < ?y)"
    and ba: "sv_bytes b < sv_bytes a \<longleftrightarrow> (if ?y = ?x then sv_size b < sv_size a else ?y < ?x)"
    and eq: "sv_bytes a = sv_bytes b \<longleftrightarrow> ?x = ?y \<and> sv_size a = sv_size b"
    using assms less_prefix_split [of "sv_bytes a" "sv_bytes b"]
      less_prefix_split [of "sv_bytes b" "sv_bytes a"] eq_prefix_split [of "sv_bytes a" "sv_bytes b"]
    by (simp_all add: word_less_nat_alt min.commute word_unat_eq_iff del: take_sv_bytes)
  have c: "StrView_Compare a b =
     (if ?x = ?y then (if sv_size a < sv_size b then -1 else if sv_size a > sv_size b then 1 else 0)
      else if ?x < ?y then -1 else 1)"
    unfolding StrView_Compare_def Let_def k m by simp
  show ?thesis
    unfolding ab ba eq c by (cases ?x ?y rule: linorder_cases) auto
qed

theorem StrView_Compare_lexicographic_witness:
  "view_ok (StrView_Set [97, 98] 2) \<and> view_ok (StrView_Set [97, 255, 0] 3) \<and>
   StrView_Compare (StrView_Set [97, 98] 2) (StrView_Set [97, 255, 0] 3) < 0"
proof -
  have "view_ok (StrView_Set [97, 98] 2)" "view_ok (StrView_Set [97, 255, 0] 3)"
    by (simp_all add: view_ok_def StrView_Set_def)
  then show ?thesis
    using StrView_Compare_lexicographic [of "StrView_Set [97, 98] 2" "StrView_Set [97, 255, 0] 3"]
    by (simp add: sv_bytes_def StrView_Set_def)
qed

lemma memcmp_zero_iff:
  "n \<le> length a \<Longrightarrow> n \<le> length b \<Longrightarrow> memcmp a b n = 0 \<longleftrightarrow> take n a = take n b"
  by (simp add: memcmp_take)

lemma suffix_iff_drop:
  "suffix xs ys \<longleftrightarrow> length xs \<le> length ys \<and> drop (length ys - length xs) ys = xs"
  by (auto simp: suffix_def) (metis append_take_drop_id)

lemma prefix_iff_take: "prefix xs ys \<longleftrightarrow> length xs \<le> length ys \<and> take (length xs) ys = xs"
  by (auto simp: prefix_def) (metis append_take_drop_id)

text \<open>
  On well-formed views, \<^verbatim>\<open>operator==\<close>, \<^verbatim>\<open>operator!=\<close>, \<^verbatim>\<open>StartWith\<close> and
  \<^verbatim>\<open>EndWith\<close> decide equality, inequality, the prefix and the suffix relation of the
  viewed byte strings.
\<close>

theorem StrView_predicates:
  assumes "view_ok v" and "view_ok w"
  shows "(StrView_eq v w \<longleftrightarrow> sv_bytes v = sv_bytes w) \<and>
         (StrView_neq v w \<longleftrightarrow> sv_bytes v \<noteq> sv_bytes w) \<and>
         (StrView_StartWith v w \<longleftrightarrow> prefix (sv_bytes w) (sv_bytes v)) \<and>
         (StrView_EndWith v w \<longleftrightarrow> suffix (sv_bytes w) (sv_bytes v))"
proof -
  let ?m = "unat (sv_size v)" and ?n = "unat (sv_size w)"
  have len: "length (sv_bytes v) = ?m" "length (sv_bytes w) = ?n"
    using assms by simp_all
  have sz: "sv_bytes v = sv_bytes w \<Longrightarrow> sv_size v = sv_size w"
    using len by (simp add: word_unat_eq_iff)
  have eq: "StrView_eq v w \<longleftrightarrow> sv_bytes v = sv_bytes w"
  proof (cases "sv_size v = sv_size w")
    case True
    with assms show ?thesis
      by (simp add: StrView_eq_def memcmp_zero_iff view_ok_def sv_bytes_def)
  next
    case False
    with sz show ?thesis by (auto simp: StrView_eq_def)
  qed
  moreover have "StrView_neq v w \<longleftrightarrow> \<not> StrView_eq v w"
    by (simp add: StrView_neq_def StrView_eq_def)
  moreover have "StrView_StartWith v w \<longleftrightarrow> prefix (sv_bytes w) (sv_bytes v)"
    using assms unfolding prefix_iff_take len
    by (auto simp: StrView_StartWith_def memcmp_zero_iff view_ok_def word_le_nat_alt sv_bytes_def
        min_absorb1)
  moreover have "StrView_EndWith v w \<longleftrightarrow> suffix (sv_bytes w) (sv_bytes v)"
    using assms unfolding suffix_iff_drop len
    by (auto simp: StrView_EndWith_def memcmp_zero_iff view_ok_def word_le_nat_alt sv_bytes_def
        unat_sub drop_take min_absorb1)
  ultimately show ?thesis by simp
qed

theorem StrView_predicates_witness:
  "view_ok (StrView_Set [1, 2, 3] 3) \<and> view_ok (StrView_Set [2, 3] 2) \<and>
   StrView_EndWith (StrView_Set [1, 2, 3] 3) (StrView_Set [2, 3] 2) \<and>
   \<not> StrView_StartWith (StrView_Set [1, 2, 3] 3) (StrView_Set [2, 3] 2)"
proof -
  have "view_ok (StrView_Set [1, 2, 3] 3)" "view_ok (StrView_Set [2, 3] 2)"
    by (simp_all add: view_ok_def StrView_Set_def)
  then show ?thesis
    using StrView_predicates [of "StrView_Set [1, 2, 3] 3" "StrView_Set [2, 3] 2"]
    by (simp add: sv_bytes_def StrView_Set_def suffix_def)
qed

section \<open>Trimming\<close>

lemma trim_left_loop_eq:
  "skip \<le> n \<Longrightarrow> n \<le> length d \<Longrightarrow>
   drop (trim_left_loop d n skip) (take n d) = dropWhile (\<lambda>c. \<not> above_space c) (drop skip (take n d))
   \<and> trim_left_loop d n skip \<le> n"
proof (induction d n skip rule: trim_left_loop.induct)
  case (1 d n skip)
  show ?case
  proof (cases "skip < n")
    case True
    with 1(3) have "drop skip (take n d) = d ! skip # drop (Suc skip) (take n d)"
      by (simp add: Cons_nth_drop_Suc [symmetric])
    with 1 True show ?thesis
      by (auto simp: trim_left_loop.simps [of d n skip])
  next
    case False
    with 1 show ?thesis by (simp add: trim_left_loop.simps [of d n n])
  qed
qed

lemma trim_right_loop_eq:
  "skip \<le> n \<Longrightarrow> n \<le> length d \<Longrightarrow>
   take (n - trim_right_loop d n skip) d =
     rev (dropWhile (\<lambda>c. \<not> above_space c) (rev (take (n - skip) d)))
   \<and> trim_right_loop d n skip \<le> n"
proof (induction d n skip rule: trim_right_loop.induct)
  case (1 d n skip)
  show ?case
  proof (cases "skip < n")
    case True
    then have s: "n - skip = Suc (n - 1 - skip)" by simp
    with 1(3) have "take (n - skip) d = take (n - 1 - skip) d @ [d ! (n - 1 - skip)]"
      by (simp add: take_Suc_conv_app_nth)
    with 1 True show ?thesis
      by (auto simp: trim_right_loop.simps [of d n skip])
  next
    case False
    with 1 show ?thesis by (simp add: trim_right_loop.simps [of d n n])
  qed
qed

lemma Trim_eq:
  "TrimLeft s = dropWhile (\<lambda>c. \<not> above_space c) s \<and>
   TrimRight s = rev (dropWhile (\<lambda>c. \<not> above_space c) (rev s))"
  using trim_left_loop_eq [of 0 "length s" s] trim_right_loop_eq [of 0 "length s" s]
  by (simp add: TrimLeft_def TrimRight_def)

text \<open>
  \<^verbatim>\<open>TrimLeft\<close> and \<^verbatim>\<open>TrimRight\<close>, on views and on \<^verbatim>\<open>std::string\<close>, remove exactly the
  longest run of bytes that are not above the space (as signed characters) from their end of
  the string, and a trimmed view is still well formed.
\<close>

theorem StrView_Trim_spec:
  assumes "view_ok v"
  shows "view_ok (StrView_TrimLeft v) \<and> sv_bytes (StrView_TrimLeft v) = TrimLeft (sv_bytes v) \<and>
         view_ok (StrView_TrimRight v) \<and> sv_bytes (StrView_TrimRight v) = TrimRight (sv_bytes v) \<and>
         TrimLeft s = dropWhile (\<lambda>c. \<not> above_space c) s \<and>
         TrimRight s = rev (dropWhile (\<lambda>c. \<not> above_space c) (rev s))"
proof -
  let ?n = "unat (sv_size v)"
  let ?l = "trim_left_loop (sv_data v) ?n 0" and ?r = "trim_right_loop (sv_data v) ?n 0"
  have l: "drop ?l (sv_bytes v) = TrimLeft (sv_bytes v)" "?l \<le> ?n"
    and r: "take (?n - ?r) (sv_data v) = TrimRight (sv_bytes v)" "?r \<le> ?n"
    using trim_left_loop_eq [of 0 ?n "sv_data v"] trim_right_loop_eq [of 0 ?n "sv_data v"] assms
    by (auto simp: view_ok_def sv_bytes_def Trim_eq)
  have u: "x \<le> ?n \<Longrightarrow> unat (sv_size v - of_nat x) = ?n - x" for x
    by (rule unat_minus_of_nat)
  show ?thesis
    using assms l r u [OF l(2)] u [OF r(2)]
    by (auto simp: StrView_TrimLeft_def StrView_TrimRight_def view_ok_def sv_bytes_def Let_def
        drop_take Trim_eq)
qed

theorem StrView_Trim_spec_witness:
  "view_ok (StrView_Set [32, 200, 65, 9] 4) \<and>
   sv_bytes (StrView_TrimLeft (StrView_Set [32, 200, 65, 9] 4)) = [65, 9] \<and>
   sv_bytes (StrView_TrimRight (StrView_Set [32, 200, 65, 9] 4)) = [32, 200, 65]"
proof -
  have ok: "view_ok (StrView_Set [32, 200, 65, 9] 4)"
    by (simp add: view_ok_def StrView_Set_def)
  show ?thesis
    using ok StrView_Trim_spec [OF ok, of "[]"]
    by (simp add: Trim_eq sv_bytes_def StrView_Set_def above_space_def)
qed

section \<open>Common prefix\<close>

lemma prefix_loop_eq:
  "i \<le> n \<Longrightarrow> n \<le> length a \<Longrightarrow> n \<le> length b \<Longrightarrow> take i a = take i b \<Longrightarrow>
   (let k = prefix_loop a b n i in
     k \<le> n \<and> take k a = take k b \<and> (k < n \<longrightarrow> a ! k \<noteq> b ! k))"
proof (induction a b n i rule: prefix_loop.induct)
  case (1 a b n i)
  show ?case
  proof (cases "i < n")
    case True
    with 1 show ?thesis
      by (cases "a ! i = b ! i") (auto simp: prefix_loop.simps [of a b n i] take_Suc_conv_app_nth Let_def)
  next
    case False
    with 1 show ?thesis by (simp add: prefix_loop.simps [of a b n n] Let_def)
  qed
qed

text \<open>
  For well-formed views of which the shorter is under 4 GiB, \<^verbatim>\<open>GetPrefixLength\<close> is the
  length of the longest common prefix: the prefixes agree and, unless one string is used up,
  the next bytes differ.
\<close>

theorem GetPrefixLength_spec:
  assumes "view_ok v" "view_ok w" "unat (min (sv_size v) (sv_size w)) < 2 ^ 32"
  defines "k \<equiv> unat (GetPrefixLength v w)"
  shows "k \<le> length (sv_bytes v) \<and> k \<le> length (sv_bytes w) \<and>
     take k (sv_bytes v) = take k (sv_bytes w) \<and>
     (k < length (sv_bytes v) \<and> k < length (sv_bytes w) \<longrightarrow> sv_bytes v ! k \<noteq> sv_bytes w ! k)"
proof -
  let ?n = "min (unat (sv_size v)) (unat (sv_size w))"
  have m: "unat (min (sv_size v) (sv_size w)) = ?n"
    by (simp add: min_def word_le_nat_alt)
  then have n: "unat (ucast (min (sv_size v) (sv_size w)) :: u32) = ?n"
    using assms(3) by (simp add: unat_ucast_small)
  let ?k = "prefix_loop (sv_data v) (sv_data w) ?n 0"
  have p: "?k \<le> ?n \<and> take ?k (sv_data v) = take ?k (sv_data w) \<and>
      (?k < ?n \<longrightarrow> sv_data v ! ?k \<noteq> sv_data w ! ?k)"
    using prefix_loop_eq [of 0 ?n "sv_data v" "sv_data w"] assms(1,2)
    by (simp add: view_ok_def Let_def)
  then have "?k \<le> ?n" by blast
  also have "?n < 2 ^ LENGTH(32)" using assms(3) unfolding m by simp
  finally have "?k < 2 ^ LENGTH(32)" .
  then have "k = ?k"
    by (simp add: k_def GetPrefixLength_def n unat_of_nat_small)
  with p assms(1,2) show ?thesis
    by (simp add: sv_bytes_def view_ok_def)
qed

theorem GetPrefixLength_spec_witness:
  "view_ok (StrView_Set [1, 2, 3] 3) \<and> view_ok (StrView_Set [1, 2, 9, 9] 4) \<and>
   take (unat (GetPrefixLength (StrView_Set [1, 2, 3] 3) (StrView_Set [1, 2, 9, 9] 4))) [1, 2, 3] =
   take (unat (GetPrefixLength (StrView_Set [1, 2, 3] 3) (StrView_Set [1, 2, 9, 9] 4)))
     [1, 2, 9, 9 :: u8]"
proof -
  have "view_ok (StrView_Set [1, 2, 3] 3)" "view_ok (StrView_Set [1, 2, 9, 9] 4)"
    by (simp_all add: view_ok_def StrView_Set_def)
  then show ?thesis
    using GetPrefixLength_spec [of "StrView_Set [1, 2, 3] 3" "StrView_Set [1, 2, 9, 9] 4"]
    by (simp add: sv_bytes_def StrView_Set_def min_def)
qed

text \<open>
  Because \<^verbatim>\<open>min_len\<close> is a \<^verbatim>\<open>uint32_t\<close>, two views of exactly 4 GiB have prefix length
  0 whatever they hold.
\<close>

theorem GetPrefixLength_truncates:
  assumes "sv_size v = 2 ^ 32" "sv_size w = 2 ^ 32"
  shows "GetPrefixLength v w = 0"
  using assms by (simp add: GetPrefixLength_def prefix_loop.simps)

theorem GetPrefixLength_truncates_witness:
  "sv_size (StrView_Set [] (2 ^ 32)) = 2 ^ 32 \<and>
   GetPrefixLength (StrView_Set [] (2 ^ 32)) (StrView_Set [] (2 ^ 32)) = 0"
  using GetPrefixLength_truncates [of "StrView_Set [] (2 ^ 32)" "StrView_Set [] (2 ^ 32)"]
  by (simp add: StrView_Set_def)

section \<open>C string copies\<close>

lemma cstr_append_nul: "take (length (cstr b)) b = cstr b"
  by (simp add: cstr_def takeWhile_eq_take [symmetric])


text \<open>
  Copying a NUL-terminated string into a buffer of positive length stays inside the
  buffer, keeps what lies behind the first \<^verbatim>\<open>dst_len\<close> bytes and leaves the C string of the
  first \<^verbatim>\<open>dst_len - 1\<close> characters of the source.
\<close>

theorem StrCpy_spec:
  assumes "0 < n" "n \<le> length dst" "0 \<in> set src"
  shows "\<exists>d. StrCpy dst n src = Some d \<and> length d = length dst \<and> cstr d = take (n - 1) (cstr src) \<and>
     drop n d = drop n dst"
proof -
  let ?k = "length (cstr src)"
  obtain rest where src: "src = cstr src @ 0 # rest"
    using assms(3) unfolding cstr_def
    by (metis (mono_tags, lifting) dropWhile_eq_Cons_conv dropWhile_eq_Nil_conv list.exhaust takeWhile_dropWhile_id)
  have no: "0 \<notin> set (cstr src)" by (rule cstr_no_nul)
  then have no': "0 \<notin> set (take i (cstr src))" for i by (meson in_set_takeD)
  show ?thesis
  proof (cases "n \<le> Suc ?k")
    case True
    then have t: "take (n - Suc 0) src = take (n - Suc 0) (cstr src)"
      by (subst src) simp
    have "Suc ?k \<le> length src" by (subst (2) src) simp
    with True have r: "mem_read src n = Some (take n src)" "length (take n src) = n"
      by (simp_all add: mem_read_def)
    have "StrCpy dst n src = Some (take (n - 1) (cstr src) @ 0 # drop n dst)"
      using True assms(1,2) r by (simp add: StrCpy_def mem_write_def t min_absorb1)
    with True assms(1,2) show ?thesis by (simp add: cstr_id [OF no'])
  next
    case False
    have r: "mem_read src (Suc ?k) = Some (cstr src @ [0])"
      unfolding mem_read_def by (subst (1 2) src) simp
    from False obtain j where n: "n = Suc (Suc ?k + j)"
      by (metis less_imp_Suc_add not_le)
    let ?t = "take j (drop (Suc ?k) dst)"
    have "StrCpy dst n src = Some (cstr src @ 0 # ?t @ 0 # drop n dst)"
      using assms(2) r by (simp add: n StrCpy_def mem_write_def add.commute)
    with assms(2) show ?thesis by (simp add: cstr_id [OF no] n)
  qed
qed

theorem StrCpy_spec_witness:
  "\<exists>d. StrCpy [9, 9, 9, 9] 3 [65, 66, 67, 0] = Some d \<and> length d = length [9, 9, 9, 9 :: u8] \<and>
     cstr d = [65, 66] \<and> drop 3 d = [9]"
  using StrCpy_spec [of 3 "[9, 9, 9, 9]" "[65, 66, 67, 0]"] by (simp add: cstr_def)

section \<open>String\<close>

lemma String_Reserve_cases:
  assumes "String_inv s" and "malloc_ok malloc"
  obtains (grown) s' where "String_Reserve malloc s n = Some (True, s')" "String_inv s'"
      "String_bytes s' = String_bytes s" "m_size s' = m_size s"
      "m_capacity s' = max n (m_capacity s)"
    | (failed) "String_Reserve malloc s n = Some (False, s)" "malloc (unat n) = None"
        "m_capacity s < n"
proof (cases "n \<le> m_capacity s")
  case True
  with assms show ?thesis
    by (intro grown [of s]) (auto simp: String_Reserve_def max_def)
next
  case False
  show ?thesis
  proof (cases "malloc (unat n)")
    case None
    with False show ?thesis by (intro failed) (auto simp: String_Reserve_def)
  next
    case (Some ptr)
    then have len: "length ptr = unat n" using assms(2) by (auto simp: malloc_ok_def)
    have lt: "unat (m_size s) \<le> unat (m_capacity s)" "unat (m_capacity s) < unat n"
      using assms(1) False by (auto simp: String_inv_def word_le_nat_alt)
    show ?thesis
    proof (cases "m_buf s")
      case None
      with Some False len assms(1) lt show ?thesis
        by (intro grown [of "s\<lparr>m_buf := Some ptr, m_capacity := n\<rparr>"])
          (auto simp: String_Reserve_def String_inv_def String_bytes_def word_le_nat_alt max_def)
    next
      case (Some b)
      let ?p = "take (unat (m_size s)) b @ drop (unat (m_size s)) ptr"
      have "length b = unat (m_capacity s)"
        using Some assms(1) by (simp add: String_inv_def)
      with Some \<open>malloc (unat n) = Some ptr\<close> False len assms(1) lt show ?thesis
        by (intro grown [of "s\<lparr>m_buf := Some ?p, m_capacity := n\<rparr>"])
          (auto simp: String_Reserve_def String_inv_def String_bytes_def word_le_nat_alt max_def
            mem_read_def mem_write_def)
    qed
  qed
qed

lemma String_copy_tail_ok:
  assumes "String_inv s" and "unat (m_size s) + unat n \<le> unat (m_capacity s)"
    and "unat n \<le> length data"
  obtains s' where "String_copy_tail s data n = Some (True, s')" "String_inv s'"
    "String_bytes s' = String_bytes s @ take (unat n) data"
proof -
  have sum: "unat (m_size s + n) = unat (m_size s) + unat n"
    using assms(2) unat_bound [of "m_capacity s"] by (intro unat_add_lem [THEN iffD1]) simp
  show ?thesis
  proof (cases "m_buf s")
    case None
    with assms have "n = 0" "m_size s = 0" "m_capacity s = 0"
      by (auto simp: String_inv_def unat_0_iff)
    with None assms show ?thesis
      by (intro that [of "s\<lparr>m_size := m_size s + n\<rparr>"])
        (auto simp: String_copy_tail_def String_inv_def String_bytes_def mem_read_def)
  next
    case (Some b)
    then have "length b = unat (m_capacity s)" using assms(1) by (simp add: String_inv_def)
    with Some assms sum show ?thesis
      by (intro that [of "s\<lparr>m_buf := Some (take (unat (m_size s)) b @ take (unat n) data @
              drop (unat (m_size s) + unat n) b), m_size := m_size s + n\<rparr>"])
        (auto simp: String_copy_tail_def String_inv_def String_bytes_def mem_read_def mem_write_def
          word_le_nat_alt min_absorb1)
  qed
qed

text \<open>
  Appending to a well-formed \<^verbatim>\<open>String\<close>, unless the requested capacity overflows
  \<^verbatim>\<open>size_t\<close>, never writes outside the buffer: it either appends exactly the given bytes and
  keeps the class invariant, or returns false with the string unchanged because \<^verbatim>\<open>malloc\<close>
  failed for \<^verbatim>\<open>size + 2 * capacity\<close> bytes.
\<close>

theorem String_Append_spec:
  assumes "String_inv s" and "malloc_ok malloc" and "unat n \<le> length data"
    and "unat n + 2 * unat (m_capacity s) < 2 ^ 64"
  shows "(\<exists>s'. String_Append malloc s data n = Some (True, s') \<and> String_inv s' \<and>
            String_bytes s' = String_bytes s @ take (unat n) data) \<or>
         (String_Append malloc s data n = Some (False, s) \<and>
            malloc (unat n + 2 * unat (m_capacity s)) = None)"
proof -
  have sz: "unat (m_size s) \<le> unat (m_capacity s)"
    using assms(1) by (simp add: String_inv_def word_le_nat_alt)
  have sum: "unat (m_size s + n) = unat (m_size s) + unat n"
    using assms(4) sz by (intro unat_add_lem [THEN iffD1]) simp
  have dbl: "unat (m_capacity s * 2) = 2 * unat (m_capacity s)"
    using assms(4) by (simp add: unat_word_ariths)
  have grow: "unat (n + m_capacity s * 2) = unat n + 2 * unat (m_capacity s)"
    using assms(4) dbl by (simp add: unat_word_ariths)
  show ?thesis
  proof (cases "m_size s + n > m_capacity s")
    case True
    show ?thesis
      using assms(1,2)
    proof (cases rule: String_Reserve_cases [where n = "n + m_capacity s * 2"])
      case (grown s')
      have "unat (m_size s') + unat n \<le> unat (m_capacity s')"
        using grown sz grow by (simp add: word_le_nat_alt max_def)
      then show ?thesis
        using grown True assms(3)
        by (elim String_copy_tail_ok [OF grown(2)]) (auto simp: String_Append_def)
    next
      case failed
      with True grow show ?thesis by (simp add: String_Append_def)
    qed
  next
    case False
    then have "unat (m_size s) + unat n \<le> unat (m_capacity s)"
      using sum by (simp add: word_less_nat_alt)
    with False assms(3) show ?thesis
      by (elim String_copy_tail_ok [OF assms(1)]) (auto simp: String_Append_def)
  qed
qed

theorem String_Append_spec_witness:
  "String_inv String_new \<and> malloc_ok (\<lambda>n. Some (replicate n 0)) \<and>
   (\<exists>s'. String_Append (\<lambda>n. Some (replicate n 0)) String_new [104, 105] 2 = Some (True, s') \<and>
      String_inv s' \<and> String_bytes s' = [104, 105])"
proof -
  have "String_inv String_new" "malloc_ok (\<lambda>n. Some (replicate n 0))"
    by (simp_all add: String_inv_def String_new_def malloc_ok_def)
  then show ?thesis
    using String_Append_spec [of String_new "\<lambda>n. Some (replicate n 0)" 2 "[104, 105]"]
    by (simp add: String_new_def String_bytes_def)
qed

text \<open>
  \<^verbatim>\<open>Resize\<close> keeps the class invariant and the common prefix of the contents, sets the
  size to the requested one, and fails without a change exactly when growing needs an
  allocation that \<^verbatim>\<open>malloc\<close> refuses.
\<close>

theorem String_Resize_spec:
  assumes "String_inv s" and "malloc_ok malloc"
  shows "(\<exists>s'. String_Resize malloc s n = Some (True, s') \<and> String_inv s' \<and> m_size s' = n \<and>
            (\<forall>k. k \<le> min (unat n) (unat (m_size s)) \<longrightarrow>
               take k (String_bytes s') = take k (String_bytes s))) \<or>
         (String_Resize malloc s n = Some (False, s) \<and> m_capacity s < n \<and> malloc (unat n) = None)"
  using assms
proof (cases rule: String_Reserve_cases [where n = n])
  case (grown s')
  have "String_inv (s'\<lparr>m_size := n\<rparr>)"
    using grown by (auto simp: String_inv_def max_def split: option.splits)
  moreover have "take k (String_bytes (s'\<lparr>m_size := n\<rparr>)) = take k (String_bytes s)"
    if "k \<le> min (unat n) (unat (m_size s))" for k
    using that grown(3,4) unfolding grown(3) [symmetric]
    by (cases "m_buf s'") (auto simp: String_bytes_def min_absorb1)
  ultimately show ?thesis
    using grown by (auto simp: String_Resize_def)
next
  case failed
  then show ?thesis by (simp add: String_Resize_def)
qed

theorem String_Resize_spec_witness:
  "String_inv String_new \<and> malloc_ok (\<lambda>n. None) \<and>
   String_Resize (\<lambda>n. None) String_new 5 = Some (False, String_new)"
proof -
  have "String_inv String_new" "malloc_ok (\<lambda>n. None)"
    by (simp_all add: String_inv_def String_new_def malloc_ok_def)
  then show ?thesis
    using String_Resize_spec [of String_new "\<lambda>n. None" 5]
    by (auto simp: String_new_def String_Resize_def String_Reserve_def)
qed

section \<open>Histories of a String\<close>

text \<open>
  The calls of a client. \<open>str_spec\<close> is what it may expect of the contents: \<open>ok\<close> is the result of the
  call, a call that fails leaves the contents (those of \<open>Assign\<close>: empties them), and the bytes
  \<open>Resize\<close> adds are whatever the buffer holds.
\<close>

datatype string_op = OpAppend bytes | OpAssign bytes | OpResize u64 | OpReserve u64 | OpClear

fun String_exec :: "malloc_fn \<Rightarrow> string_op \<Rightarrow> String_t \<Rightarrow> (bool \<times> String_t) option" where
  "String_exec malloc (OpAppend data) s = String_Append malloc s data (of_nat (length data))"
| "String_exec malloc (OpAssign data) s = String_Assign malloc s data (of_nat (length data))"
| "String_exec malloc (OpResize n) s = String_Resize malloc s n"
| "String_exec malloc (OpReserve n) s = String_Reserve malloc s n"
| "String_exec malloc OpClear s = Some (True, String_Clear s)"

fun str_spec :: "string_op \<Rightarrow> bool \<Rightarrow> bytes \<Rightarrow> bytes \<Rightarrow> bool" where
  "str_spec (OpAppend data) ok xs ys \<longleftrightarrow> ys = (if ok then xs @ data else xs)"
| "str_spec (OpAssign data) ok xs ys \<longleftrightarrow> ys = (if ok then data else [])"
| "str_spec (OpResize n) ok xs ys \<longleftrightarrow>
     (if ok then length ys = unat n \<and> take (length xs) ys = take (unat n) xs else ys = xs)"
| "str_spec (OpReserve n) ok xs ys \<longleftrightarrow> ys = xs"
| "str_spec OpClear ok xs ys \<longleftrightarrow> ys = []"

text \<open>No allocation and no argument is larger than the address space of a process, 47 bits.\<close>

definition ADDRESS_SPACE :: nat where "ADDRESS_SPACE = 2 ^ 47"

definition malloc_bounded :: "malloc_fn \<Rightarrow> bool" where
  "malloc_bounded malloc \<longleftrightarrow> (\<forall>n b. malloc n = Some b \<longrightarrow> length b = n \<and> n < ADDRESS_SPACE)"

fun op_bounded :: "string_op \<Rightarrow> bool" where
  "op_bounded (OpAppend data) \<longleftrightarrow> length data < ADDRESS_SPACE"
| "op_bounded (OpAssign data) \<longleftrightarrow> length data < ADDRESS_SPACE"
| "op_bounded _ \<longleftrightarrow> True"

definition String_ok :: "String_t \<Rightarrow> bool" where
  "String_ok s \<longleftrightarrow> String_inv s \<and> unat (m_capacity s) < ADDRESS_SPACE"

inductive string_run :: "malloc_fn \<Rightarrow> String_t \<Rightarrow> bytes \<Rightarrow> bool" for malloc where
  start: "string_run malloc String_new []"
| step: "string_run malloc s xs \<Longrightarrow> op_bounded op \<Longrightarrow> String_exec malloc op s = Some (ok, s') \<Longrightarrow>
    str_spec op ok xs ys \<Longrightarrow> String_bytes s' = ys \<Longrightarrow> string_run malloc s' ys"

lemma String_bytes_length: "String_inv s \<Longrightarrow> length (String_bytes s) = unat (m_size s)"
  by (auto simp: String_inv_def String_bytes_def word_le_nat_alt split: option.splits)

lemma String_Reserve_capacity:
  "String_Reserve malloc s n = Some (ok, s') \<Longrightarrow> malloc_bounded malloc \<Longrightarrow> unat (m_capacity s) < ADDRESS_SPACE \<Longrightarrow>
   unat (m_capacity s') < ADDRESS_SPACE"
  by (auto simp: String_Reserve_def malloc_bounded_def split: if_splits option.splits)

lemma String_Append_capacity:
  "String_Append malloc s data n = Some (ok, s') \<Longrightarrow> malloc_bounded malloc \<Longrightarrow> unat (m_capacity s) < ADDRESS_SPACE \<Longrightarrow>
   unat (m_capacity s') < ADDRESS_SPACE"
  by (auto simp: String_Append_def String_copy_tail_def split: if_splits option.splits bool.splits)
    (blast dest: String_Reserve_capacity)+

lemma String_Append_bounded:
  assumes "String_ok s" and "malloc_bounded malloc" and "length data < ADDRESS_SPACE"
  shows "\<exists>ok s'. String_Append malloc s data (of_nat (length data)) = Some (ok, s') \<and> String_ok s' \<and>
     String_bytes s' = (if ok then String_bytes s @ data else String_bytes s) \<and> (\<not> ok \<longrightarrow> s' = s)"
proof -
  have n: "unat (of_nat (length data) :: u64) = length data"
    using assms(3) by (intro unat_of_nat_small) (simp add: ADDRESS_SPACE_def)
  have m: "malloc_ok malloc" using assms(2) by (simp add: malloc_bounded_def malloc_ok_def)
  have c: "String_inv s" "unat (m_capacity s) < ADDRESS_SPACE" using assms(1) by (simp_all add: String_ok_def)
  from String_Append_spec [OF c(1) m, of "of_nat (length data)" data] n c(2) assms(3)
  obtain ok s' where "String_Append malloc s data (of_nat (length data)) = Some (ok, s')" "String_inv s'"
    "String_bytes s' = (if ok then String_bytes s @ data else String_bytes s)" "\<not> ok \<longrightarrow> s' = s"
    using c(1) by (fastforce simp: ADDRESS_SPACE_def)
  with String_Append_capacity [OF this(1) assms(2) c(2)] show ?thesis by (auto simp: String_ok_def)
qed

lemma String_exec_ok:
  assumes "String_ok s" and "malloc_bounded malloc" and "op_bounded op"
  shows "\<exists>ok s'. String_exec malloc op s = Some (ok, s') \<and> String_ok s' \<and>
     str_spec op ok (String_bytes s) (String_bytes s')"
proof -
  have m: "malloc_ok malloc" using assms(2) by (simp add: malloc_bounded_def malloc_ok_def)
  have c: "String_inv s" "unat (m_capacity s) < ADDRESS_SPACE" using assms(1) by (simp_all add: String_ok_def)
  show ?thesis
  proof (cases op)
    case (OpAppend data)
    then show ?thesis using String_Append_bounded [OF assms(1,2), of data] assms(3) by auto
  next
    case (OpAssign data)
    have "String_ok (s\<lparr>m_size := 0\<rparr>)" using assms(1) by (simp add: String_ok_def String_inv_def split: option.splits)
    moreover have "String_bytes (s\<lparr>m_size := 0\<rparr>) = []" by (simp add: String_bytes_def split: option.splits)
    ultimately show ?thesis
      using String_Append_bounded [of "s\<lparr>m_size := 0\<rparr>" malloc data] assms(2,3) OpAssign
      by (auto simp: String_Assign_def)
  next
    case (OpResize n)
    from String_Resize_spec [OF c(1) m, of n] show ?thesis
    proof (elim disjE exE conjE)
      fix s'
      assume r: "String_Resize malloc s n = Some (True, s')" "String_inv s'" "m_size s' = n"
        and t: "\<forall>k\<le>min (unat n) (unat (m_size s)). take k (String_bytes s') = take k (String_bytes s)"
      have "unat (m_capacity s') < ADDRESS_SPACE"
        using r(1) String_Reserve_capacity [OF _ assms(2) c(2)]
        by (fastforce simp: String_Resize_def split: option.splits bool.splits)
      moreover have "take (unat (m_size s)) (String_bytes s') = take (unat n) (String_bytes s)"
        using spec [OF t, of "min (unat n) (unat (m_size s))"] String_bytes_length [OF r(2)] String_bytes_length [OF c(1)] r(3)
        by (cases "unat n \<le> unat (m_size s)") (simp_all add: min_def)
      ultimately show ?thesis
        using r OpResize String_bytes_length [OF r(2)] String_bytes_length [OF c(1)] by (auto simp: String_ok_def)
    qed (use OpResize assms(1) in auto)
  next
    case (OpReserve n)
    show ?thesis
      using c(1) m
    proof (cases rule: String_Reserve_cases [where n = n])
      case (grown s')
      with String_Reserve_capacity [OF grown(1) assms(2) c(2)] OpReserve show ?thesis by (auto simp: String_ok_def)
    next
      case failed
      with OpReserve assms(1) show ?thesis by auto
    qed
  next
    case OpClear
    then show ?thesis
      using assms(1) by (auto simp: String_Clear_def String_ok_def String_inv_def String_bytes_def split: option.splits)
  qed
qed

lemma string_run_ok:
  "string_run malloc s xs \<Longrightarrow> malloc_bounded malloc \<Longrightarrow> String_ok s \<and> String_bytes s = xs"
proof (induction rule: string_run.induct)
  case start
  then show ?case by (simp add: String_ok_def String_inv_def String_new_def String_bytes_def ADDRESS_SPACE_def)
next
  case (step s xs op ok s' ys)
  from String_exec_ok [OF _ step.prems step.hyps(2), of s] step show ?case by auto
qed

text \<open>
  C30: whatever calls a client makes on a \<^verbatim>\<open>String\<close> (append, assign, resize, reserve, clear) and whichever
  allocations fail, no call reads or writes outside a buffer, the class invariant (size within
  capacity, capacity the size of the buffer) holds in between, the contents are those of the byte
  sequence specification, and reading an index below the size through \<^verbatim>\<open>operator[]\<close> gives that byte.
\<close>

theorem String_histories_typed:
  assumes "string_run malloc s xs" and "malloc_bounded malloc"
  shows "String_inv s \<and> String_bytes s = xs \<and> unat (m_size s) = length xs \<and> (String_Empty s \<longleftrightarrow> xs = []) \<and>
     (\<forall>idx. unat idx < length xs \<longrightarrow> String_at s idx = Some (xs ! unat idx)) \<and>
     (\<forall>op. op_bounded op \<longrightarrow> (\<exists>ok s'. String_exec malloc op s = Some (ok, s') \<and> String_inv s' \<and>
        str_spec op ok xs (String_bytes s')))"
proof -
  from string_run_ok [OF assms] have ok: "String_ok s" and xs: "String_bytes s = xs" by simp_all
  have inv: "String_inv s" using ok by (simp add: String_ok_def)
  have len: "unat (m_size s) = length xs" using String_bytes_length [OF inv] xs by simp
  have "String_at s idx = Some (xs ! unat idx)" if "unat idx < length xs" for idx
    using that inv xs [symmetric] len
    by (auto simp: String_at_def String_inv_def String_bytes_def word_less_nat_alt word_le_nat_alt split: option.splits)
  moreover have "String_Empty s \<longleftrightarrow> xs = []" using len by (auto simp: String_Empty_def unat_eq_0 [symmetric])
  moreover have "\<exists>ok s'. String_exec malloc op s = Some (ok, s') \<and> String_inv s' \<and> str_spec op ok xs (String_bytes s')"
    if "op_bounded op" for op
    using String_exec_ok [OF ok assms(2) that] xs by (auto simp: String_ok_def)
  ultimately show ?thesis using inv xs len by blast
qed

theorem String_histories_typed_witness:
  "\<exists>s. string_run (\<lambda>n. if n < 9 then Some (replicate n 0) else None) s [104, 105] \<and> String_at s 1 = Some 105"
proof -
  let ?m = "\<lambda>n. if n < 9 then Some (replicate n 0) else None :: bytes option"
  let ?s = "\<lparr>m_buf = Some [104, 105], m_size = 2, m_capacity = 2\<rparr>"
  have e: "String_exec ?m (OpAppend [104, 105]) String_new = Some (True, ?s)"
    by (simp add: String_Append_def String_Reserve_def String_copy_tail_def String_new_def mem_read_def mem_write_def
        word_less_nat_alt word_le_nat_alt)
  have r: "string_run ?m ?s [104, 105]"
    by (rule string_run.step [OF string_run.start, of "OpAppend [104, 105]"]) (use e in \<open>simp_all add: String_bytes_def ADDRESS_SPACE_def\<close>)
  have "malloc_bounded ?m" by (auto simp: malloc_bounded_def ADDRESS_SPACE_def split: if_splits)
  with String_histories_typed [OF r] have "unat idx < 2 \<longrightarrow> String_at ?s idx = Some ([104, 105] ! unat idx)" for idx by simp
  from this [of 1] r show ?thesis by auto
qed

end
