(* ===== verification/Coding.thy ===== *)
theory Coding
  imports Strutil
begin

text \<open>
  \<^verbatim>\<open>include/xfutil/coding.h\<close> and \<^verbatim>\<open>src/coding.cpp\<close>: fixed-width little-endian integers,
  zig-zag, base-128 varints (forward and reversed) and length-prefixed strings.

  An encoder writes bytes from \<^verbatim>\<open>buf\<close> onwards and returns the pointer behind them: its model
  returns the list of the bytes written. A decoder has the cursor \<^verbatim>\<open>buf\<close> and the value as
  in/out parameters and \<^verbatim>\<open>end\<close> as bound: its model takes the bytes in \<^verbatim>\<open>[buf, end)\<close> (and the
  old value where the code may keep it) and returns the result, the value and the bytes that
  remain. Overloads are told apart by the suffix of the C++ type. Signed integers are words
  read in two's complement. A float is its bit pattern, as the unions in the code read it.
\<close>

section \<open>Fixed-width integers\<close>

definition MAX_V16_SIZE :: nat where "MAX_V16_SIZE = 3"
definition MAX_V32_SIZE :: nat where "MAX_V32_SIZE = 5"
definition MAX_V64_SIZE :: nat where "MAX_V64_SIZE = 10"

definition EncodeFixed_u8 :: "u8 \<Rightarrow> bytes" where
  [codec_defs]: "EncodeFixed_u8 value = [value]"

definition EncodeFixed_u16 :: "u16 \<Rightarrow> bytes" where
  [codec_defs]: "EncodeFixed_u16 value = [ucast value, ucast (drop_bit 8 value)]"

definition EncodeFixed_u32 :: "u32 \<Rightarrow> bytes" where
  [codec_defs]: "EncodeFixed_u32 value =
     [ucast value, ucast (drop_bit 8 value), ucast (drop_bit 16 value),
      ucast (drop_bit 24 value)]"

definition EncodeFixed_u64 :: "u64 \<Rightarrow> bytes" where
  [codec_defs]: "EncodeFixed_u64 value =
     [ucast value, ucast (drop_bit 8 value), ucast (drop_bit 16 value),
      ucast (drop_bit 24 value), ucast (drop_bit 32 value), ucast (drop_bit 40 value),
      ucast (drop_bit 48 value), ucast (drop_bit 56 value)]"

definition DecodeFixed_u8 :: "bytes \<Rightarrow> u8 \<Rightarrow> bool \<times> u8 \<times> bytes" where
  [codec_defs]: "DecodeFixed_u8 buf v =
     (if 1 \<le> length buf then (True, buf ! 0, drop 1 buf) else (False, v, buf))"

definition DecodeFixed_u16 :: "bytes \<Rightarrow> u16 \<Rightarrow> bool \<times> u16 \<times> bytes" where
  [codec_defs]: "DecodeFixed_u16 buf v =
     (if 2 \<le> length buf
      then (True, ucast (buf ! 0) OR push_bit 8 (ucast (buf ! 1)), drop 2 buf)
      else (False, v, buf))"

definition DecodeFixed_u32 :: "bytes \<Rightarrow> u32 \<Rightarrow> bool \<times> u32 \<times> bytes" where
  [codec_defs]: "DecodeFixed_u32 buf v =
     (if 4 \<le> length buf
      then (True,
            ucast (buf ! 0) OR push_bit 8 (ucast (buf ! 1)) OR push_bit 16 (ucast (buf ! 2))
              OR push_bit 24 (ucast (buf ! 3)),
            drop 4 buf)
      else (False, v, buf))"

definition DecodeFixed_u64 :: "bytes \<Rightarrow> u64 \<Rightarrow> bool \<times> u64 \<times> bytes" where
  [codec_defs]: "DecodeFixed_u64 buf v =
     (if 8 \<le> length buf
      then (True,
            ucast (buf ! 0) OR push_bit 8 (ucast (buf ! 1)) OR push_bit 16 (ucast (buf ! 2))
              OR push_bit 24 (ucast (buf ! 3)) OR push_bit 32 (ucast (buf ! 4))
              OR push_bit 40 (ucast (buf ! 5)) OR push_bit 48 (ucast (buf ! 6))
              OR push_bit 56 (ucast (buf ! 7)),
            drop 8 buf)
      else (False, v, buf))"

section \<open>Floats\<close>

datatype float_t = Float u32
datatype double_t = Double u64

fun float_bits :: "float_t \<Rightarrow> u32" where
  "float_bits (Float i) = i"

fun double_bits :: "double_t \<Rightarrow> u64" where
  "double_bits (Double l) = l"

definition EncodeFloat :: "float_t \<Rightarrow> bytes" where
  [codec_defs]: "EncodeFloat value = EncodeFixed_u32 (float_bits value)"

definition EncodeDouble :: "double_t \<Rightarrow> bytes" where
  [codec_defs]: "EncodeDouble value = EncodeFixed_u64 (double_bits value)"

text \<open>The local union is not initialised: \<open>junk\<close> is what it happens to hold.\<close>

definition DecodeFloat :: "u32 \<Rightarrow> bytes \<Rightarrow> bool \<times> float_t \<times> bytes" where
  [codec_defs]: "DecodeFloat junk buf =
     (let (ret, i, buf') = DecodeFixed_u32 buf junk in (ret, Float i, buf'))"

definition DecodeDouble :: "u64 \<Rightarrow> bytes \<Rightarrow> bool \<times> double_t \<times> bytes" where
  [codec_defs]: "DecodeDouble junk buf =
     (let (ret, l, buf') = DecodeFixed_u64 buf junk in (ret, Double l, buf'))"

section \<open>Zig-zag\<close>

text \<open>
  The 16-bit overloads compute in \<^verbatim>\<open>int\<close> (integer promotion) and truncate the result; the
  wider ones compute at their own width.
\<close>

definition EncodeZigZag_i16 :: "u16 \<Rightarrow> u16" where
  "EncodeZigZag_i16 value =
     (let w = (scast value :: u32) in ucast (push_bit 1 w XOR signed_drop_bit 15 w))"

definition EncodeZigZag_i32 :: "u32 \<Rightarrow> u32" where
  "EncodeZigZag_i32 value = push_bit 1 value XOR signed_drop_bit 31 value"

definition EncodeZigZag_i64 :: "u64 \<Rightarrow> u64" where
  "EncodeZigZag_i64 value = push_bit 1 value XOR signed_drop_bit 63 value"

definition DecodeZigZag_u16 :: "u16 \<Rightarrow> u16" where
  "DecodeZigZag_u16 value =
     ucast (drop_bit 1 (ucast value :: u32) XOR - (ucast (value AND 1) :: u32))"

definition DecodeZigZag_u32 :: "u32 \<Rightarrow> u32" where
  "DecodeZigZag_u32 value = drop_bit 1 value XOR - (value AND 1)"

definition DecodeZigZag_u64 :: "u64 \<Rightarrow> u64" where
  "DecodeZigZag_u64 value = drop_bit 1 value XOR - (value AND 1)"

section \<open>Varints\<close>

function EncodeVarint_u64 :: "u64 \<Rightarrow> bytes" where
  "EncodeVarint_u64 v =
     (if v \<ge> 0x80 then ucast (v OR 0x80) # EncodeVarint_u64 (drop_bit 7 v) else [ucast v])"
  by pat_completeness auto
termination
  by (relation "measure unat") (simp_all add: drop_bit_less)

definition EncodeVarint_u16 :: "u16 \<Rightarrow> bytes" where
  "EncodeVarint_u16 v = EncodeVarint_u64 (ucast v)"

definition EncodeVarint_u32 :: "u32 \<Rightarrow> bytes" where
  "EncodeVarint_u32 v = EncodeVarint_u64 (ucast v)"

definition EncodeVarint_i16 :: "u16 \<Rightarrow> bytes" where
  "EncodeVarint_i16 v = EncodeVarint_u16 (EncodeZigZag_i16 v)"

definition EncodeVarint_i32 :: "u32 \<Rightarrow> bytes" where
  "EncodeVarint_i32 v = EncodeVarint_u32 (EncodeZigZag_i32 v)"

definition EncodeVarint_i64 :: "u64 \<Rightarrow> bytes" where
  "EncodeVarint_i64 v = EncodeVarint_u64 (EncodeZigZag_i64 v)"

text \<open>The loop of \<^verbatim>\<open>DecodeVarint\<close>: it stops at \<^verbatim>\<open>shift >= 64\<close> or at the end of the input.\<close>

fun DecodeVarint_loop :: "nat \<Rightarrow> bytes \<Rightarrow> u64 \<Rightarrow> bool \<times> u64 \<times> bytes" where
  "DecodeVarint_loop shift [] v = (False, v, [])"
| "DecodeVarint_loop shift (c # buf) v =
     (if shift < 64
      then let b = (ucast c :: u64) in
           if b \<ge> 0x80
           then DecodeVarint_loop (shift + 7) buf (v OR push_bit shift (b AND 0x7f))
           else (True, v OR push_bit shift b, buf)
      else (False, v, c # buf))"

definition DecodeVarint_u64 :: "bytes \<Rightarrow> bool \<times> u64 \<times> bytes" where
  "DecodeVarint_u64 buf = DecodeVarint_loop 0 buf 0"

definition DecodeVarint_u16 :: "bytes \<Rightarrow> bool \<times> u16 \<times> bytes" where
  "DecodeVarint_u16 buf =
     (let (ret, uv64, buf') = DecodeVarint_u64 buf in (ret, ucast uv64, buf'))"

definition DecodeVarint_i16 :: "bytes \<Rightarrow> bool \<times> u16 \<times> bytes" where
  "DecodeVarint_i16 buf =
     (let (ret, uv64, buf') = DecodeVarint_u64 buf
      in (ret, DecodeZigZag_u16 (ucast uv64), buf'))"

definition DecodeVarint_u32 :: "bytes \<Rightarrow> bool \<times> u32 \<times> bytes" where
  "DecodeVarint_u32 buf =
     (let (ret, uv64, buf') = DecodeVarint_u64 buf in (ret, ucast uv64, buf'))"

definition DecodeVarint_i32 :: "bytes \<Rightarrow> bool \<times> u32 \<times> bytes" where
  "DecodeVarint_i32 buf =
     (let (ret, uv64, buf') = DecodeVarint_u64 buf
      in (ret, DecodeZigZag_u32 (ucast uv64), buf'))"

definition DecodeVarint_i64 :: "bytes \<Rightarrow> bool \<times> u64 \<times> bytes" where
  "DecodeVarint_i64 buf =
     (let (ret, uv64, buf') = DecodeVarint_u64 buf in (ret, DecodeZigZag_u64 uv64, buf'))"

section \<open>Reversed varints\<close>

definition EncodeVarintR :: "u32 \<Rightarrow> bytes" where
  "EncodeVarintR v =
     (if v < 2 ^ 7 then [ucast v]
      else if v < 2 ^ 14 then [ucast (drop_bit 7 v), ucast (v OR 0x80)]
      else if v < 2 ^ 21 then
        [ucast (drop_bit 14 v), ucast (drop_bit 7 v OR 0x80), ucast (v OR 0x80)]
      else if v < 2 ^ 28 then
        [ucast (drop_bit 21 v), ucast (drop_bit 14 v OR 0x80), ucast (drop_bit 7 v OR 0x80),
         ucast (v OR 0x80)]
      else
        [ucast (drop_bit 28 v), ucast (drop_bit 21 v OR 0x80), ucast (drop_bit 14 v OR 0x80),
         ucast (drop_bit 7 v OR 0x80), ucast (v OR 0x80)])"

text \<open>
  \<^verbatim>\<open>DecodeVarintR\<close> walks down from \<^verbatim>\<open>rbuf\<close>. Both pointers are positions in the region
  \<open>mem\<close>; a read at a position outside it is \<^const>\<open>None\<close>. The only bound the loop checks is
  \<^verbatim>\<open>rbuf < rend\<close>, as in the source.
\<close>

function DecodeVarintR_loop ::
    "bytes \<Rightarrow> int \<Rightarrow> int \<Rightarrow> nat \<Rightarrow> u32 \<Rightarrow> (bool \<times> u32 \<times> int) option" where
  "DecodeVarintR_loop mem rbuf rend shift v =
     (if shift < 32 \<and> rbuf < rend
      then (if 0 \<le> rbuf \<and> rbuf < int (length mem)
            then let b = (ucast (mem ! nat rbuf) :: u32) in
                 if b \<ge> 0x80
                 then DecodeVarintR_loop mem (rbuf - 1) rend (shift + 7)
                        (v OR push_bit shift (b AND 0x7f))
                 else Some (True, v OR push_bit shift b, rbuf - 1)
            else None)
      else Some (False, v, rbuf))"
  by pat_completeness auto
termination
  by (relation "measure (\<lambda>(mem, rbuf, rend, shift, v). 32 - shift)") auto

definition DecodeVarintR :: "bytes \<Rightarrow> int \<Rightarrow> int \<Rightarrow> (bool \<times> u32 \<times> int) option" where
  "DecodeVarintR mem rbuf rend = DecodeVarintR_loop mem rbuf rend 0 0"

section \<open>Strings\<close>

text \<open>\<^verbatim>\<open>memcpy\<close> from a region shorter than \<^verbatim>\<open>str_len\<close> is \<^const>\<open>None\<close>.\<close>

definition EncodeString :: "bytes \<Rightarrow> u64 \<Rightarrow> bytes option" where
  "EncodeString str str_len =
     (case mem_read str (unat str_len) of
        None \<Rightarrow> None
      | Some b \<Rightarrow> Some (EncodeVarint_u64 str_len @ b))"

definition EncodeString_cstr :: "bytes option \<Rightarrow> bytes option" where
  "EncodeString_cstr str =
     (case str of
        None \<Rightarrow> EncodeString [] 0
      | Some s \<Rightarrow> EncodeString s (of_nat (length (cstr s))))"

definition EncodeString_view :: "StrView \<Rightarrow> bytes option" where
  "EncodeString_view str = EncodeString (sv_data str) (sv_size str)"

text \<open>
  \<^verbatim>\<open>DecodeString\<close> compares the pointers \<^verbatim>\<open>buf + len\<close> and \<^verbatim>\<open>end\<close>. \<open>addr\<close> is the numeric value of
  \<^verbatim>\<open>buf\<close> on entry; the sums wrap at 64 bits. When the check lets a length pass that exceeds
  the input, view and cursor leave \<^verbatim>\<open>[buf, end)\<close>: that outcome is \<^const>\<open>None\<close>.
\<close>

definition DecodeString :: "u64 \<Rightarrow> bytes \<Rightarrow> StrView \<Rightarrow> (bool \<times> StrView \<times> bytes) option" where
  "DecodeString addr buf v =
     (let (ret, len, buf') = DecodeVarint_u64 buf in
      if \<not> ret then Some (False, v, buf')
      else let p = addr + of_nat (length buf - length buf');
               e = addr + of_nat (length buf)
           in if p + len > e then Some (False, v, buf')
              else if unat len \<le> length buf'
              then Some (True, StrView_Set buf' len, drop (unat len) buf')
              else None)"

section \<open>Specification vocabulary\<close>

text \<open>Decoding \<open>n\<close> values one after the other; the first failure makes the whole fail.\<close>

fun decode_seq :: "(bytes \<Rightarrow> bool \<times> 'a \<times> bytes) \<Rightarrow> nat \<Rightarrow> bytes \<Rightarrow> ('a list \<times> bytes) option" where
  "decode_seq dec 0 buf = Some ([], buf)"
| "decode_seq dec (Suc n) buf =
     (case dec buf of
        (False, v, buf') \<Rightarrow> None
      | (True, v, buf') \<Rightarrow> map_option (\<lambda>(vs, r). (v # vs, r)) (decode_seq dec n buf'))"

declare EncodeVarint_u64.simps [simp del] DecodeVarintR_loop.simps [simp del]

section \<open>Fixed-width round trips\<close>

lemma fixed_u8_rt [codec_rt]: "DecodeFixed_u8 (EncodeFixed_u8 x @ rest) v = (True, x, rest)"
  by (simp add: codec_defs)

lemma fixed_u16_rt [codec_rt]: "DecodeFixed_u16 (EncodeFixed_u16 x @ rest) v = (True, x, rest)"
  by (auto simp: codec_defs bit_simps intro!: bit_eqI)

lemma bit_chunk_cases:
  "n < (8::nat) \<or> (8 \<le> n \<and> n < 16) \<or> (16 \<le> n \<and> n < 24) \<or> (24 \<le> n \<and> n < 32) \<or>
   (32 \<le> n \<and> n < 40) \<or> (40 \<le> n \<and> n < 48) \<or> (48 \<le> n \<and> n < 56) \<or> 56 \<le> n"
  by linarith

lemma fixed_u32_rt [codec_rt]: "DecodeFixed_u32 (EncodeFixed_u32 x @ rest) v = (True, x, rest)"
proof -
  have "ucast (ucast x :: u8) OR push_bit 8 (ucast (ucast (drop_bit 8 x) :: u8)) OR
      push_bit 16 (ucast (ucast (drop_bit 16 x) :: u8)) OR
      push_bit 24 (ucast (ucast (drop_bit 24 x) :: u8)) = x" (is "?l = x")
  proof (rule bit_eqI)
    fix n assume "possible_bit TYPE(u32) n"
    then show "bit ?l n = bit x n"
      using bit_chunk_cases [of n] by (elim disjE) (auto simp: bit_simps)
  qed
  then show ?thesis by (simp add: codec_defs)
qed

lemma fixed_u64_rt [codec_rt]: "DecodeFixed_u64 (EncodeFixed_u64 x @ rest) v = (True, x, rest)"
proof -
  have "ucast (ucast x :: u8) OR push_bit 8 (ucast (ucast (drop_bit 8 x) :: u8)) OR
      push_bit 16 (ucast (ucast (drop_bit 16 x) :: u8)) OR
      push_bit 24 (ucast (ucast (drop_bit 24 x) :: u8)) OR
      push_bit 32 (ucast (ucast (drop_bit 32 x) :: u8)) OR
      push_bit 40 (ucast (ucast (drop_bit 40 x) :: u8)) OR
      push_bit 48 (ucast (ucast (drop_bit 48 x) :: u8)) OR
      push_bit 56 (ucast (ucast (drop_bit 56 x) :: u8)) = x" (is "?l = x")
  proof (rule bit_eqI)
    fix n assume "possible_bit TYPE(u64) n"
    then show "bit ?l n = bit x n"
      using bit_chunk_cases [of n] by (elim disjE) (auto simp: bit_simps)
  qed
  then show ?thesis by (simp add: codec_defs)
qed

lemma float_rt [codec_rt]: "DecodeFloat junk (EncodeFloat x @ rest) = (True, x, rest)"
  using fixed_u32_rt [of "float_bits x" rest junk]
  by (cases x) (simp add: DecodeFloat_def EncodeFloat_def)

lemma double_rt [codec_rt]: "DecodeDouble junk (EncodeDouble x @ rest) = (True, x, rest)"
  using fixed_u64_rt [of "double_bits x" rest junk]
  by (cases x) (simp add: DecodeDouble_def EncodeDouble_def)

section \<open>Varint round trips\<close>

lemma bit_0x80: "bit (0x80 :: int) n \<longleftrightarrow> n = 7"
proof -
  have "(0x80 :: int) = 2 ^ 7" by simp
  then show ?thesis by (simp only: bit_exp_iff) auto
qed

lemma mask_0x7f: "(0x7f :: 'a::len word) = mask 7"
  by (simp add: mask_eq_exp_minus_1)

lemma word_ge_if_bit: "bit (w :: 'a::len word) k \<Longrightarrow> 2 ^ k \<le> unat w"
  using word_lt_pow2_bit [of w k k] by (meson less_irrefl not_le)

lemma varint_byte:
  fixes v :: u64
  assumes "8 \<le> LENGTH('a::len)"
  shows "0x80 \<le> (ucast (ucast (v OR 0x80) :: u8) :: 'a word)"
    and "(ucast (ucast (v OR 0x80) :: u8) :: 'a word) AND 0x7f = ucast v AND 0x7f"
proof -
  let ?b = "ucast (ucast (v OR 0x80) :: u8) :: 'a word"
  have "bit ?b 7" using assms by (simp add: bit_simps bit_0x80)
  then show "0x80 \<le> ?b"
    using le_trans [OF take_bit_nat_less_eq_self word_ge_if_bit [of ?b 7]]
    by (simp add: word_le_nat_alt)
  show "?b AND 0x7f = ucast v AND 0x7f"
    unfolding mask_0x7f by (rule bit_eqI) (auto simp: bit_simps bit_0x80)
qed

lemma push_bit_split:
  "push_bit s (v AND 0x7f) OR push_bit (s + 7) (drop_bit 7 v) = push_bit s (v :: 'a::len word)"
  unfolding mask_0x7f
proof (rule bit_eqI)
  fix n assume "possible_bit TYPE('a word) n"
  then show "bit (push_bit s (v AND mask 7) OR push_bit (s + 7) (drop_bit 7 v)) n =
    bit (push_bit s v) n"
    by (cases "n < s + 7") (auto simp: bit_simps)
qed

lemma varint_last_byte:
  fixes v :: u64
  assumes "v < 0x80"
  shows "(ucast (ucast v :: u8) :: 'a::len word) = ucast v"
    and "8 \<le> LENGTH('a) \<Longrightarrow> \<not> 0x80 \<le> (ucast v :: 'a word)"
proof -
  have v: "unat v < 2 ^ 7" using assms by (simp add: word_less_nat_alt)
  show "(ucast (ucast v :: u8) :: 'a word) = ucast v"
    by (intro bit_eqI) (auto simp: bit_simps dest: word_lt_pow2_bit [OF _ v])
  assume L: "8 \<le> LENGTH('a)"
  then have "(2::nat) ^ 8 \<le> 2 ^ LENGTH('a)" by (intro power_increasing) auto
  then have "unat (of_nat 0x80 :: 'a word) = 0x80" by (intro unat_of_nat_small) simp
  moreover have "unat (ucast v :: 'a word) \<le> unat v" by (simp add: unat_ucast_take_bit)
  ultimately show "\<not> 0x80 \<le> (ucast v :: 'a word)" using v by (simp add: word_le_nat_alt)
qed

lemma DecodeVarint_loop_rt:
  "s < 64 \<Longrightarrow> unat v < 2 ^ (64 - s) \<Longrightarrow>
   DecodeVarint_loop s (EncodeVarint_u64 v @ rest) acc = (True, acc OR push_bit s v, rest)"
proof (induction v arbitrary: s acc rule: EncodeVarint_u64.induct)
  case (1 v)
  show ?case
  proof (cases "v \<ge> 0x80")
    case True
    have "s + 7 < 64"
    proof (rule ccontr)
      assume "\<not> s + 7 < 64"
      then have "(2::nat) ^ (64 - s) \<le> 2 ^ 7" by (intro power_increasing) auto
      with 1(3) True show False by (simp add: word_le_nat_alt)
    qed
    moreover have "unat (drop_bit 7 v) < 2 ^ (64 - (s + 7))"
    proof -
      have "64 - s = 57 - s + 7" using calculation by simp
      then have "(2::nat) ^ (64 - s) = 2 ^ (57 - s) * 2 ^ 7" by (simp only: power_add)
      with 1(3) show ?thesis by (simp add: unat_drop_bit_div less_mult_imp_div_less)
    qed
    ultimately show ?thesis
      using True 1 by (simp add: EncodeVarint_u64.simps [of v] varint_byte Let_def push_bit_split or.assoc
          del: push_bit_and)
  next
    case False
    with 1(2) varint_last_byte [of v, where 'a = 64] show ?thesis
      by (simp add: EncodeVarint_u64.simps [of v] Let_def)
  qed
qed

lemma varint_u64_rt [codec_rt]: "DecodeVarint_u64 (EncodeVarint_u64 v @ rest) = (True, v, rest)"
  using unat_bound [of v] by (simp add: DecodeVarint_u64_def DecodeVarint_loop_rt)

lemma EncodeVarint_u64_length:
  "unat v < 2 ^ (7 * n) \<Longrightarrow> 0 < n \<Longrightarrow> length (EncodeVarint_u64 v) \<le> n"
proof (induction v arbitrary: n rule: EncodeVarint_u64.induct)
  case (1 v)
  show ?case
  proof (cases "v \<ge> 0x80")
    case True
    then have "n \<noteq> 1" using 1(2) by (auto simp: word_le_nat_alt)
    then obtain m where n: "n = Suc m" "0 < m" using 1(3) by (cases n) auto
    have "unat (drop_bit 7 v) < 2 ^ (7 * m)"
      using 1(2) by (simp add: unat_drop_bit_div less_mult_imp_div_less n power_add mult.commute)
    with 1(1) True n show ?thesis by (simp add: EncodeVarint_u64.simps [of v])
  next
    case False
    with 1(3) show ?thesis by (simp add: EncodeVarint_u64.simps [of v])
  qed
qed

lemma EncodeVarint_u64_nonempty [simp]: "EncodeVarint_u64 v \<noteq> []"
  by (simp add: EncodeVarint_u64.simps [of v])

lemma ucast_down_up:
  fixes x :: "'a::len word"
  shows "LENGTH('a) \<le> LENGTH('b::len) \<Longrightarrow> ucast (ucast x :: 'b word) = x"
  by (rule bit_eqI) (auto simp: bit_simps)


section \<open>Zig-zag\<close>

lemma bit_sign_fill:
  "bit (signed_drop_bit (LENGTH('a) - Suc 0) (v :: 'a::len word)) n \<longleftrightarrow>
     n < LENGTH('a) \<and> bit v (LENGTH('a) - Suc 0)"
  by (cases n) (auto simp: bit_signed_drop_bit_iff Suc_le_eq dest: bit_imp_le_length)

lemma zigzag_generic:
  fixes v :: "'a::len word"
  defines "e \<equiv> push_bit 1 v XOR signed_drop_bit (LENGTH('a) - Suc 0) v"
  shows "drop_bit 1 e XOR - (e AND 1) = v"
proof -
  let ?s = "bit v (LENGTH('a) - Suc 0)"
  have bits: "bit e n \<longleftrightarrow> n < LENGTH('a) \<and> (n \<noteq> 0 \<and> bit v (n - 1)) \<noteq> ?s" for n
    unfolding e_def bit_xor_iff bit_sign_fill bit_push_bit_iff
    by (cases n) (auto dest: bit_imp_le_length)
  have "- (e AND 1) = (if ?s then -1 else 0)"
    using bits [of 0] by (simp add: and_one_eq mod_2_eq_odd bit_0)
  then have "bit (drop_bit 1 e XOR - (e AND 1)) n = bit v n" if "n < LENGTH('a)" for n
    using that by (cases "n = LENGTH('a) - Suc 0") (auto simp: bit_simps bits)
  then show ?thesis by (intro bit_eqI) simp
qed

lemma uint_of_int_range:
  "0 \<le> k \<Longrightarrow> k < 2 ^ LENGTH('a) \<Longrightarrow> uint (word_of_int k :: 'a::len word) = k"
  by (simp add: uint_word_of_int)

lemma zigzag_value:
  fixes v :: "'a::len word"
  defines "e \<equiv> push_bit 1 v XOR signed_drop_bit (LENGTH('a) - Suc 0) v"
  shows "uint e = (if 0 \<le> sint v then 2 * sint v else - 2 * sint v - 1)"
proof -
  let ?L = "LENGTH('a)" and ?x = "sint v"
  have L: "(2::int) ^ ?L = 2 * 2 ^ (?L - Suc 0)" by (simp flip: power_Suc)
  have x: "- (2 ^ (?L - Suc 0)) \<le> ?x" "?x < 2 ^ (?L - Suc 0)"
    using sint_ge [of v] sint_lt [of v] by simp_all
  have v2: "push_bit 1 v = word_of_int (2 * ?x)" by simp
  have sgn: "bit v (?L - Suc 0) \<longleftrightarrow> ?x < 0" by (simp add: bit_last_iff)
  show ?thesis
  proof (cases "?x < 0")
    case True
    then have "signed_drop_bit (?L - Suc 0) v = -1"
      by (intro bit_eqI) (simp add: bit_sign_fill sgn)
    then have "e = word_of_int (NOT (2 * ?x))"
      by (simp add: e_def not_eq_complement)
    moreover have "0 \<le> NOT (2 * ?x)" "NOT (2 * ?x) < 2 ^ ?L"
      using x True by (simp_all add: not_int_def L)
    ultimately have "uint e = NOT (2 * ?x)" by (simp only: uint_of_int_range)
    with True show ?thesis by (simp add: not_int_def)
  next
    case False
    then have "signed_drop_bit (?L - Suc 0) v = 0"
      by (intro bit_eqI) (simp add: bit_sign_fill sgn)
    then have "e = word_of_int (2 * ?x)" unfolding e_def v2 by simp
    moreover have "uint (word_of_int (2 * ?x) :: 'a word) = 2 * ?x"
      using False x by (intro uint_of_int_range) (simp_all add: L)
    ultimately show ?thesis using False by simp
  qed
qed

lemma zigzag_i64_rt: "DecodeZigZag_u64 (EncodeZigZag_i64 v) = v"
  using zigzag_generic [of v] by (simp add: DecodeZigZag_u64_def EncodeZigZag_i64_def)

lemma zigzag_i32_rt: "DecodeZigZag_u32 (EncodeZigZag_i32 v) = v"
  using zigzag_generic [of v] by (simp add: DecodeZigZag_u32_def EncodeZigZag_i32_def)

lemma EncodeZigZag_i16_alt: "EncodeZigZag_i16 v = push_bit 1 v XOR signed_drop_bit 15 v"
proof (rule bit_eqI)
  fix n assume "possible_bit TYPE(u16) n"
  then show "bit (EncodeZigZag_i16 v) n = bit (push_bit 1 v XOR signed_drop_bit 15 v) n"
    by (cases n) (auto simp: EncodeZigZag_i16_def bit_simps bit_signed_drop_bit_iff Let_def
        simp del: push_bit_Suc)
qed

lemma DecodeZigZag_u16_alt: "DecodeZigZag_u16 v = drop_bit 1 v XOR - (v AND 1)"
proof -
  have "v AND 1 = of_bool (bit v 0)" by (simp add: and_one_eq mod_2_eq_odd bit_0)
  then show ?thesis
    by (cases "bit v 0") (auto intro!: bit_eqI simp: DecodeZigZag_u16_def bit_simps)
qed

lemma zigzag_i16_rt: "DecodeZigZag_u16 (EncodeZigZag_i16 v) = v"
  using zigzag_generic [of v] by (simp add: EncodeZigZag_i16_alt DecodeZigZag_u16_alt)

lemma zigzag_value_i16:
  "uint (EncodeZigZag_i16 v) = (if 0 \<le> sint v then 2 * sint v else - 2 * sint v - 1)"
  using zigzag_value [of v] unfolding EncodeZigZag_i16_alt by simp

lemma zigzag_value_i32:
  "uint (EncodeZigZag_i32 v) = (if 0 \<le> sint v then 2 * sint v else - 2 * sint v - 1)"
  using zigzag_value [of v] unfolding EncodeZigZag_i32_def by simp

lemma zigzag_value_i64:
  "uint (EncodeZigZag_i64 v) = (if 0 \<le> sint v then 2 * sint v else - 2 * sint v - 1)"
  using zigzag_value [of v] unfolding EncodeZigZag_i64_def by simp

section \<open>Varints of the other types\<close>

lemma varint_u16_rt [codec_rt]: "DecodeVarint_u16 (EncodeVarint_u16 v @ rest) = (True, v, rest)"
  by (simp add: DecodeVarint_u16_def EncodeVarint_u16_def varint_u64_rt ucast_down_up)

lemma varint_u32_rt [codec_rt]: "DecodeVarint_u32 (EncodeVarint_u32 v @ rest) = (True, v, rest)"
  by (simp add: DecodeVarint_u32_def EncodeVarint_u32_def varint_u64_rt ucast_down_up)

lemma varint_i16_rt [codec_rt]: "DecodeVarint_i16 (EncodeVarint_i16 v @ rest) = (True, v, rest)"
  by (simp add: DecodeVarint_i16_def EncodeVarint_i16_def EncodeVarint_u16_def varint_u64_rt
      ucast_down_up zigzag_i16_rt)

lemma varint_i32_rt [codec_rt]: "DecodeVarint_i32 (EncodeVarint_i32 v @ rest) = (True, v, rest)"
  by (simp add: DecodeVarint_i32_def EncodeVarint_i32_def EncodeVarint_u32_def varint_u64_rt
      ucast_down_up zigzag_i32_rt)

lemma varint_i64_rt [codec_rt]: "DecodeVarint_i64 (EncodeVarint_i64 v @ rest) = (True, v, rest)"
  by (simp add: DecodeVarint_i64_def EncodeVarint_i64_def varint_u64_rt zigzag_i64_rt)


section \<open>Reversed varints\<close>

lemma ucast_or_0x80: "(ucast (drop_bit k (ucast (v :: u32) :: u64) OR 0x80) :: u8) = ucast (drop_bit k v OR 0x80)"
  by (rule bit_eqI) (auto simp: bit_simps dest: bit_imp_le_length)

lemma ucast_ucast_drop: "(ucast (drop_bit k (ucast (v :: u32) :: u64)) :: u8) = ucast (drop_bit k v)"
  by (rule bit_eqI) (auto simp: bit_simps dest: bit_imp_le_length)

lemma drop_bit_ge_0x80: "0x80 \<le> drop_bit k (ucast (v :: u32) :: u64) \<longleftrightarrow> \<not> unat v < 2 ^ (k + 7)"
proof -
  have "unat (ucast v :: u64) = unat v" using unat_bound [of v] by (intro unat_ucast_small) simp
  then have "0x80 \<le> drop_bit k (ucast v :: u64) \<longleftrightarrow> 2 ^ 7 \<le> unat v div 2 ^ k"
    by (simp add: word_le_nat_alt unat_drop_bit_div)
  also have "\<dots> \<longleftrightarrow> \<not> unat v < 2 ^ (k + 7)"
    by (simp add: div_less_iff_less_mult power_add mult.commute not_less [symmetric])
  finally show ?thesis .
qed

lemma EncodeVarint_drop:
  "EncodeVarint_u64 (drop_bit k (ucast (v :: u32))) =
    (if unat v < 2 ^ (k + 7) then [ucast (drop_bit k v)]
     else ucast (drop_bit k v OR 0x80) # EncodeVarint_u64 (drop_bit (k + 7) (ucast v)))"
  by (subst EncodeVarint_u64.simps) (simp add: drop_bit_ge_0x80 ucast_or_0x80 ucast_ucast_drop drop_bit_drop_bit add.commute)

lemma EncodeVarintR_rev: "EncodeVarintR v = rev (EncodeVarint_u64 (ucast v))"
proof -
  have lt: "v < 2 ^ 7 \<longleftrightarrow> unat v < 2 ^ 7" "v < 2 ^ 14 \<longleftrightarrow> unat v < 2 ^ 14" 
     "v < 2 ^ 21 \<longleftrightarrow> unat v < 2 ^ 21" "v < 2 ^ 28 \<longleftrightarrow> unat v < 2 ^ 28"
    by (simp_all add: word_less_nat_alt)
  have "EncodeVarint_u64 (ucast v) =
     (if unat v < 2 ^ 7 then [ucast v] else ucast (v OR 0x80) # EncodeVarint_u64 (drop_bit 7 (ucast v)))"
    using EncodeVarint_drop [of 0 v] by simp
  then show ?thesis
    using unat_bound [of v]
    unfolding EncodeVarintR_def lt by (simp add: EncodeVarint_drop [of 7] EncodeVarint_drop [of 14] EncodeVarint_drop [of 21] EncodeVarint_drop [of 28])
qed

lemma DecodeVarintR_loop_rt:
  "s < 32 \<Longrightarrow> unat v < 2 ^ (32 - s) \<Longrightarrow>
   int (length pre + length (EncodeVarint_u64 v)) \<le> rend \<Longrightarrow>
   DecodeVarintR_loop (pre @ rev (EncodeVarint_u64 v) @ post)
     (int (length pre + length (EncodeVarint_u64 v)) - 1) rend s acc =
   Some (True, acc OR push_bit s (ucast v), int (length pre) - 1)"
proof (induction v arbitrary: s acc post rule: EncodeVarint_u64.induct)
  case (1 v)
  show ?case
  proof (cases "v \<ge> 0x80")
    case True
    let ?e = "EncodeVarint_u64 (drop_bit 7 v)" and ?c = "ucast (v OR 0x80) :: u8"
    have enc: "EncodeVarint_u64 v = ?c # ?e" using True by (simp add: EncodeVarint_u64.simps [of v])
    have s7: "s + 7 < 32"
    proof (rule ccontr)
      assume "\<not> s + 7 < 32"
      then have "(2::nat) ^ (32 - s) \<le> 2 ^ 7" by (intro power_increasing) auto
      with 1(3) True show False by (simp add: word_le_nat_alt)
    qed
    have small: "unat (drop_bit 7 v) < 2 ^ (32 - (s + 7))"
    proof -
      have "32 - s = 25 - s + 7" using s7 by simp
      then have "(2::nat) ^ (32 - s) = 2 ^ (25 - s) * 2 ^ 7" by (simp only: power_add)
      with 1(3) show ?thesis by (simp add: unat_drop_bit_div less_mult_imp_div_less)
    qed
    have nth: "(pre @ rev (EncodeVarint_u64 v) @ post) ! (length pre + length ?e) = ?c"
      by (simp add: enc nth_append)
    have read: "DecodeVarintR_loop (pre @ rev (EncodeVarint_u64 v) @ post)
        (int (length pre + length ?e)) rend s acc =
      DecodeVarintR_loop (pre @ rev ?e @ ?c # post) (int (length pre + length ?e) - 1) rend (s + 7)
        (acc OR push_bit s (ucast v AND 0x7f))"
      using 1(2,4) nth
      by (subst DecodeVarintR_loop.simps) (simp add: enc varint_byte Let_def nat_add_distrib del: push_bit_and)
    also have "\<dots> = Some (True, acc OR push_bit s (ucast v AND 0x7f) OR push_bit (s + 7) (ucast (drop_bit 7 v)), int (length pre) - 1)"
      using 1(1) [OF True s7 small, of "?c # post" ] 1(4) by (simp add: enc or.assoc del: push_bit_and)
    also have "acc OR push_bit s (ucast v AND 0x7f) OR push_bit (s + 7) (ucast (drop_bit 7 v)) = acc OR push_bit s (ucast v :: u32)"
    proof -
      have v32: "unat v < 2 ^ 32"
        using 1(3) power_increasing [of "32 - s" 32 "2::nat"] by simp
      have "ucast (drop_bit 7 v) = drop_bit 7 (ucast v :: u32)"
        by (intro bit_eqI) (auto simp: bit_simps dest: word_lt_pow2_bit [OF _ v32])
      then show ?thesis by (simp add: push_bit_split or.assoc del: push_bit_and)
    qed
    finally show ?thesis by (simp add: enc)
  next
    case False
    with 1(2-4) varint_last_byte [of v, where 'a = 32] show ?thesis
      by (simp add: EncodeVarint_u64.simps [of v] Let_def DecodeVarintR_loop.simps not_le [symmetric])
  qed
qed


section \<open>What a varint decoder consumes\<close>

lemma ucast_ge_0x80: "0x80 \<le> (ucast (c :: u8) :: u64) \<longleftrightarrow> \<not> c < 0x80"
  by (simp add: word_le_nat_alt word_less_nat_alt unat_ucast_up not_less)

lemma DecodeVarint_loop_suffix:
  "DecodeVarint_loop s buf v = (ret, w, rest) \<Longrightarrow> s \<le> 70 \<Longrightarrow>
   \<exists>used. buf = used @ rest \<and> 7 * length used + s \<le> 70 \<and> (ret = (\<exists>c \<in> set used. c < 0x80))"
proof (induction s buf v rule: DecodeVarint_loop.induct)
  case (1 shift v)
  then show ?case by simp
next
  case (2 shift c buf v)
  consider (more) "shift < 64" "\<not> c < 0x80" | (last) "shift < 64" "c < 0x80" | (stop) "64 \<le> shift"
    by linarith
  then show ?case
  proof cases
    case more
    with 2(2) have "DecodeVarint_loop (shift + 7) buf (v OR push_bit shift (ucast c AND 0x7f)) =
        (ret, w, rest)"
      by (simp add: Let_def ucast_ge_0x80 del: push_bit_and)
    with 2(1) more obtain used where "buf = used @ rest" "7 * length used + (shift + 7) \<le> 70"
        "ret = (\<exists>c \<in> set used. c < 0x80)"
      by (auto simp: Let_def ucast_ge_0x80)
    with more show ?thesis by (intro exI [of _ "c # used"]) simp
  next
    case last
    with 2(2) have "rest = buf" "ret" by (simp_all add: Let_def ucast_ge_0x80)
    with last show ?thesis by (intro exI [of _ "[c]"]) simp
  next
    case stop
    with 2(2,3) show ?thesis by (intro exI [of _ "[]"]) simp
  qed
qed

lemma DecodeVarint_loop_truncated:
  "n < length (EncodeVarint_u64 v) \<Longrightarrow> s + 7 * n < 71 \<Longrightarrow>
   \<exists>w. DecodeVarint_loop s (take n (EncodeVarint_u64 v)) acc = (False, w, [])"
proof (induction v arbitrary: n s acc rule: EncodeVarint_u64.induct)
  case (1 v)
  show ?case
  proof (cases n)
    case 0
    then show ?thesis by simp
  next
    case (Suc m)
    with 1(2) have ge: "v \<ge> 0x80" by (simp add: EncodeVarint_u64.simps [of v] split: if_splits)
    then have enc: "EncodeVarint_u64 v = ucast (v OR 0x80) # EncodeVarint_u64 (drop_bit 7 v)"
      by (simp add: EncodeVarint_u64.simps [of v])
    have "m < length (EncodeVarint_u64 (drop_bit 7 v))" using Suc 1(2) enc by simp
    with 1(1) [OF ge, of m "s + 7"] 1(3) Suc show ?thesis
      by (simp add: enc varint_byte Let_def)
  qed
qed

lemma EncodeVarint_u64_length10: "length (EncodeVarint_u64 v) \<le> 10"
  using unat_bound [of v] by (intro EncodeVarint_u64_length) auto

lemma EncodeVarint_u16_length: "length (EncodeVarint_u64 (ucast (v :: u16))) \<le> 3"
  using unat_bound [of v] by (intro EncodeVarint_u64_length) (simp_all add: unat_ucast_small)

lemma EncodeVarint_u32_length: "length (EncodeVarint_u64 (ucast (v :: u32))) \<le> 5"
  using unat_bound [of v] by (intro EncodeVarint_u64_length) (simp_all add: unat_ucast_small)

section \<open>The codec interface\<close>

text \<open>
  What a client of an encoder/decoder pair relies on: decoding what was encoded, whatever
  follows it, returns the value and exactly what follows. Encodings are then self-delimiting,
  and any sequence of values can be written back to back and read again.
\<close>

locale codec =
  fixes enc :: "'a \<Rightarrow> bytes"
    and dec :: "bytes \<Rightarrow> bool \<times> 'a \<times> bytes"
  assumes dec_enc: "dec (enc x @ rest) = (True, x, rest)"
begin

lemma enc_unique: "enc x @ r = enc y @ s \<Longrightarrow> x = y \<and> r = s"
  by (metis dec_enc prod.inject)

lemma decode_seq_concat:
  "decode_seq dec (length xs) (concat (map enc xs) @ rest) = Some (xs, rest)"
  by (induction xs) (simp_all add: dec_enc)

end

interpretation fixed8: codec EncodeFixed_u8 "\<lambda>buf. DecodeFixed_u8 buf v" for v
  by unfold_locales (rule fixed_u8_rt)

interpretation fixed16: codec EncodeFixed_u16 "\<lambda>buf. DecodeFixed_u16 buf v" for v
  by unfold_locales (rule fixed_u16_rt)

interpretation fixed32: codec EncodeFixed_u32 "\<lambda>buf. DecodeFixed_u32 buf v" for v
  by unfold_locales (rule fixed_u32_rt)

interpretation fixed64: codec EncodeFixed_u64 "\<lambda>buf. DecodeFixed_u64 buf v" for v
  by unfold_locales (rule fixed_u64_rt)

interpretation floats: codec EncodeFloat "DecodeFloat junk" for junk
  by unfold_locales (rule float_rt)

interpretation doubles: codec EncodeDouble "DecodeDouble junk" for junk
  by unfold_locales (rule double_rt)

interpretation varint_u16: codec EncodeVarint_u16 DecodeVarint_u16
  by unfold_locales (rule varint_u16_rt)

interpretation varint_u32: codec EncodeVarint_u32 DecodeVarint_u32
  by unfold_locales (rule varint_u32_rt)

interpretation varint_u64: codec EncodeVarint_u64 DecodeVarint_u64
  by unfold_locales (rule varint_u64_rt)

interpretation varint_i16: codec EncodeVarint_i16 DecodeVarint_i16
  by unfold_locales (rule varint_i16_rt)

interpretation varint_i32: codec EncodeVarint_i32 DecodeVarint_i32
  by unfold_locales (rule varint_i32_rt)

interpretation varint_i64: codec EncodeVarint_i64 DecodeVarint_i64
  by unfold_locales (rule varint_i64_rt)

section \<open>Properties\<close>

text \<open>
  C17: any sequence of values encoded back to back with \<^verbatim>\<open>EncodeVarint\<close> (of each of the six
  integer types) is read back by as many \<^verbatim>\<open>DecodeVarint\<close> calls, which leave the cursor
  exactly behind it.
\<close>

theorem varint_streams:
  "decode_seq DecodeVarint_u16 (length a) (concat (map EncodeVarint_u16 a) @ r) = Some (a, r) \<and>
   decode_seq DecodeVarint_u32 (length b) (concat (map EncodeVarint_u32 b) @ r) = Some (b, r) \<and>
   decode_seq DecodeVarint_u64 (length c) (concat (map EncodeVarint_u64 c) @ r) = Some (c, r) \<and>
   decode_seq DecodeVarint_i16 (length a) (concat (map EncodeVarint_i16 a) @ r) = Some (a, r) \<and>
   decode_seq DecodeVarint_i32 (length b) (concat (map EncodeVarint_i32 b) @ r) = Some (b, r) \<and>
   decode_seq DecodeVarint_i64 (length c) (concat (map EncodeVarint_i64 c) @ r) = Some (c, r)"
  by (simp add: varint_u16.decode_seq_concat varint_u32.decode_seq_concat
      varint_u64.decode_seq_concat varint_i16.decode_seq_concat varint_i32.decode_seq_concat
      varint_i64.decode_seq_concat)

text \<open>
  The same for the fixed-width encodings and for floats and doubles, whatever the old
  values and the uninitialised locals hold.
\<close>

theorem fixed_streams:
  "decode_seq (\<lambda>buf. DecodeFixed_u8 buf v8) (length a) (concat (map EncodeFixed_u8 a) @ r)
     = Some (a, r) \<and>
   decode_seq (\<lambda>buf. DecodeFixed_u16 buf v16) (length b) (concat (map EncodeFixed_u16 b) @ r)
     = Some (b, r) \<and>
   decode_seq (\<lambda>buf. DecodeFixed_u32 buf v32) (length c) (concat (map EncodeFixed_u32 c) @ r)
     = Some (c, r) \<and>
   decode_seq (\<lambda>buf. DecodeFixed_u64 buf v64) (length d) (concat (map EncodeFixed_u64 d) @ r)
     = Some (d, r) \<and>
   decode_seq (DecodeFloat v32) (length e) (concat (map EncodeFloat e) @ r) = Some (e, r) \<and>
   decode_seq (DecodeDouble v64) (length f) (concat (map EncodeDouble f) @ r) = Some (f, r)"
  by (simp add: fixed8.decode_seq_concat fixed16.decode_seq_concat fixed32.decode_seq_concat
      fixed64.decode_seq_concat floats.decode_seq_concat doubles.decode_seq_concat)

lemma varint_limits_reached:
  "length (EncodeVarint_u16 (- 1)) = MAX_V16_SIZE"
  "length (EncodeVarint_u32 (- 1)) = MAX_V32_SIZE"
  "length (EncodeVarint_u64 (- 1)) = MAX_V64_SIZE"
  by code_simp+

text \<open>
  C37: a varint is never empty and fits the documented maximum of its type, 3, 5 and 10 bytes,
  and each of these limits is the least possible one: the largest value of the type fills it.
\<close>

theorem varint_sizes:
  "0 < length (EncodeVarint_u16 a) \<and> length (EncodeVarint_u16 a) \<le> MAX_V16_SIZE \<and>
   0 < length (EncodeVarint_u32 b) \<and> length (EncodeVarint_u32 b) \<le> MAX_V32_SIZE \<and>
   0 < length (EncodeVarint_u64 c) \<and> length (EncodeVarint_u64 c) \<le> MAX_V64_SIZE \<and>
   length (EncodeVarint_u16 (- 1)) = MAX_V16_SIZE \<and>
   length (EncodeVarint_u32 (- 1)) = MAX_V32_SIZE \<and>
   length (EncodeVarint_u64 (- 1)) = MAX_V64_SIZE"
  using varint_limits_reached EncodeVarint_u16_length [of a] EncodeVarint_u32_length [of b]
    EncodeVarint_u64_length10 [of c]
  by (simp add: MAX_V16_SIZE_def MAX_V32_SIZE_def MAX_V64_SIZE_def EncodeVarint_u16_def
      EncodeVarint_u32_def)

text \<open>
  Zig-zag maps a signed value to its reference value, \<open>2 n\<close> for \<open>n \<ge> 0\<close> and \<open>-2 n - 1\<close>
  otherwise, at each width and including the most negative value, and decoding inverts it.
\<close>

theorem ZigZag_correct:
  "uint (EncodeZigZag_i16 a) = (if 0 \<le> sint a then 2 * sint a else - 2 * sint a - 1) \<and>
   uint (EncodeZigZag_i32 b) = (if 0 \<le> sint b then 2 * sint b else - 2 * sint b - 1) \<and>
   uint (EncodeZigZag_i64 c) = (if 0 \<le> sint c then 2 * sint c else - 2 * sint c - 1) \<and>
   DecodeZigZag_u16 (EncodeZigZag_i16 a) = a \<and>
   DecodeZigZag_u32 (EncodeZigZag_i32 b) = b \<and>
   DecodeZigZag_u64 (EncodeZigZag_i64 c) = c"
  by (simp only: zigzag_value_i16 zigzag_value_i32 zigzag_value_i64 zigzag_i16_rt zigzag_i32_rt
      zigzag_i64_rt simp_thms)

text \<open>
  Cut off anywhere, a varint does not decode: the decoder consumes all the input and
  returns false.
\<close>

theorem DecodeVarint_truncated:
  assumes "n < length (EncodeVarint_u64 v)"
  shows "fst (DecodeVarint_u64 (take n (EncodeVarint_u64 v))) = False \<and>
         snd (snd (DecodeVarint_u64 (take n (EncodeVarint_u64 v)))) = []"
proof -
  have "7 * n < 71" using assms EncodeVarint_u64_length10 [of v] by simp
  with DecodeVarint_loop_truncated [OF assms, of 0 0] show ?thesis
    by (auto simp: DecodeVarint_u64_def)
qed

theorem DecodeVarint_truncated_witness:
  "1 < length (EncodeVarint_u64 300) \<and>
   fst (DecodeVarint_u64 (take 1 (EncodeVarint_u64 300))) = False"
proof -
  have "1 < length (EncodeVarint_u64 300)" by code_simp
  with DecodeVarint_truncated [of 1 300] show ?thesis by simp
qed

text \<open>
  On arbitrary input the varint decoder stays in bounds: it reads a prefix of at most
  ten bytes, leaves the cursor behind that prefix, and succeeds exactly when the prefix holds
  a byte without the continuation bit.
\<close>

theorem DecodeVarint_consumes:
  "\<exists>used. buf = used @ snd (snd (DecodeVarint_u64 buf)) \<and> length used \<le> MAX_V64_SIZE \<and>
     (fst (DecodeVarint_u64 buf) = (\<exists>c \<in> set used. c < 0x80))"
proof -
  obtain ret w rest where d: "DecodeVarint_loop 0 buf 0 = (ret, w, rest)"
    by (metis prod_cases3)
  from DecodeVarint_loop_suffix [OF this] obtain used where
    "buf = used @ rest" "7 * length used \<le> 70" "ret = (\<exists>c \<in> set used. c < 0x80)"
    by auto
  then show ?thesis
    unfolding DecodeVarint_u64_def d by (intro exI [of _ used]) (simp add: MAX_V64_SIZE_def)
qed

text \<open>
  The reversed encoding is the forward varint read backwards, and \<^verbatim>\<open>DecodeVarintR\<close>
  started on its last byte returns the value and stops right in front of it, wherever the
  encoding lies in memory.
\<close>

theorem VarintR_roundtrip:
  "EncodeVarintR v = rev (EncodeVarint_u32 v) \<and>
   DecodeVarintR (pre @ EncodeVarintR v @ post)
     (int (length pre + length (EncodeVarintR v)) - 1)
     (int (length (pre @ EncodeVarintR v @ post))) =
     Some (True, v, int (length pre) - 1)"
proof -
  have "unat (ucast v :: u64) < 2 ^ 32"
    using unat_bound [of v] by (subst unat_ucast_small) simp_all
  then show ?thesis
    using DecodeVarintR_loop_rt [of 0 "ucast v" pre "int (length (pre @ EncodeVarintR v @ post))"
        post 0]
    by (simp add: DecodeVarintR_def EncodeVarintR_rev EncodeVarint_u32_def ucast_down_up)
qed

text \<open>
  \<^verbatim>\<open>DecodeVarintR\<close> has no lower bound: on a buffer whose first byte has the continuation
  bit set it reads the byte in front of the buffer.
\<close>

theorem DecodeVarintR_underrun:
  assumes "0x80 \<le> c"
  shows "DecodeVarintR [c] 0 1 = None"
proof -
  have "(0x80 :: u32) \<le> ucast c"
    using assms by (simp add: word_le_nat_alt unat_ucast_up)
  then show ?thesis
    by (simp add: DecodeVarintR_def DecodeVarintR_loop.simps Let_def)
qed

theorem DecodeVarintR_underrun_witness:
  "(0x80 :: u8) \<le> 0xff \<and> DecodeVarintR [0xff] 0 1 = None"
  using DecodeVarintR_underrun [of "0xff"] by simp

section \<open>Strings\<close>

lemma DecodeString_rt:
  assumes "EncodeString str n = Some bs" and "unat addr + length (bs @ rest) < 2 ^ 64"
  shows "DecodeString addr (bs @ rest) v =
    Some (True, StrView_Set (take (unat n) str @ rest) n, rest)"
proof -
  let ?e = "EncodeVarint_u64 n"
  have bs: "bs = ?e @ take (unat n) str" and len: "length (take (unat n) str) = unat n"
    using assms(1) by (auto simp: EncodeString_def mem_read_Some_iff split: option.splits)
  have dec: "DecodeVarint_u64 (bs @ rest) = (True, n, take (unat n) str @ rest)"
    using varint_u64_rt [of n "take (unat n) str @ rest"] by (simp add: bs)
  let ?p = "addr + of_nat (length ?e)" and ?t = "addr + of_nat (length (bs @ rest))"
  have used: "length (bs @ rest) - length (take (unat n) str @ rest) = length ?e"
    by (simp add: bs)
  have "unat (?p + n) = unat addr + length ?e + unat n"
    using assms(2) len by (simp add: bs unat_word_ariths unat_of_nat)
  moreover have "unat ?t = unat addr + length (bs @ rest)"
    using assms(2) by (simp add: unat_word_ariths unat_of_nat)
  ultimately have "\<not> ?p + n > ?t"
    using len by (simp add: bs word_less_nat_alt)
  then show ?thesis
    using len by (simp only: DecodeString_def dec Let_def prod.case used) simp
qed

text \<open>
  A string encoded from a well-formed view decodes, at any address whose buffer does not
  wrap around the address space, to a well-formed view of the same bytes, with the cursor
  behind it.
\<close>

theorem String_roundtrip:
  assumes "view_ok str" and "EncodeString_view str = Some bs"
    and "unat addr + length (bs @ rest) < 2 ^ 64"
  shows "\<exists>w. DecodeString addr (bs @ rest) v = Some (True, w, rest) \<and> view_ok w \<and>
     sv_bytes w = sv_bytes str"
  using assms DecodeString_rt [of "sv_data str" "sv_size str" bs addr rest v]
  by (auto simp: EncodeString_view_def view_ok_def sv_bytes_def StrView_Set_def)

theorem String_roundtrip_witness:
  "view_ok (StrView_Set [104, 105] 2) \<and>
   EncodeString_view (StrView_Set [104, 105] 2) = Some [2, 104, 105] \<and>
   (\<exists>w. DecodeString 4096 [2, 104, 105, 7] StrView_Init = Some (True, w, [7]) \<and> view_ok w \<and>
     sv_bytes w = [104, 105])"
proof -
  have ok: "view_ok (StrView_Set [104, 105] 2)"
    by (simp add: view_ok_def StrView_Set_def)
  have bytes: "sv_bytes (StrView_Set [104, 105] 2) = [104, 105]"
    by (simp add: sv_bytes_def StrView_Set_def)
  have enc: "EncodeString_view (StrView_Set [104, 105] 2) = Some [2, 104, 105]"
    by (simp add: EncodeString_view_def EncodeString_def StrView_Set_def
        EncodeVarint_u64.simps)
  show ?thesis
    using ok enc String_roundtrip [OF ok enc, of 4096 "[7]" StrView_Init]
    unfolding bytes by simp
qed

text \<open>
  A length of \<^verbatim>\<open>2^64 - 1\<close> passes the check \<^verbatim>\<open>buf + len > end\<close>, because the pointer sum
  wraps: ten bytes of input make \<^verbatim>\<open>DecodeString\<close> accept a string that lies outside the
  buffer.
\<close>

theorem DecodeString_wraps:
  assumes "addr + 10 \<noteq> 0"
  shows "DecodeString addr (EncodeVarint_u64 (-1)) v = None"
proof -
  have dec: "DecodeVarint_u64 (EncodeVarint_u64 (-1)) = (True, -1, [])"
    using varint_u64_rt [of "-1" "[]"] by simp
  have len: "length (EncodeVarint_u64 (-1)) = 10" by code_simp
  have "\<not> w + (-1) > w" if "w \<noteq> 0" for w :: u64
    using that by (simp add: word_less_nat_alt unat_minus_one)
  from this [OF assms] have "\<not> addr + 10 + (-1) > addr + 10" .
  then show ?thesis
    by (simp only: DecodeString_def dec len Let_def prod.case) (simp add: unat_gt_0)
qed
theorem DecodeString_wraps_witness:
  "(4096 :: u64) + 10 \<noteq> 0 \<and>
   DecodeString 4096 (EncodeVarint_u64 (-1)) StrView_Init = None"
  using DecodeString_wraps [of 4096 StrView_Init] by simp

end
