(* ===== verification/Hash.thy ===== *)
theory Hash
  imports Coding
begin

text \<open>
  \<^verbatim>\<open>src/hash.cpp\<close>: the 32-bit multiplicative hash over a byte string and its two fast paths
  for integers. \<^verbatim>\<open>data\<close> and \<^verbatim>\<open>len\<close> are the list of the \<^verbatim>\<open>len\<close> bytes at \<^verbatim>\<open>data\<close>; the main loop
  advances \<^verbatim>\<open>data\<close> through \<^verbatim>\<open>DecodeFixed\<close>, as the source does.
\<close>

section \<open>Definitions\<close>

text \<open>\<^verbatim>\<open>Decode\<close>: the \<^verbatim>\<open>switch\<close> falls through from the case of its length.\<close>

definition Decode :: "bytes \<Rightarrow> nat \<Rightarrow> u32" where
  "Decode data len =
     (let v = (0 :: u32);
          v = (if len = 3 then v OR push_bit 16 (ucast (data ! 2)) else v);
          v = (if len = 3 \<or> len = 2 then v OR push_bit 8 (ucast (data ! 1)) else v);
          v = (if len = 3 \<or> len = 2 \<or> len = 1 then v OR ucast (data ! 0) else v)
      in v)"

function Hash32_loop :: "u32 \<Rightarrow> u32 \<Rightarrow> u32 \<Rightarrow> bytes \<Rightarrow> u32 \<times> bytes" where
  "Hash32_loop seed h v data =
     (case DecodeFixed_u32 data v of
        (True, v', data') \<Rightarrow> Hash32_loop seed ((h + v') * seed) v' data'
      | (False, v', data') \<Rightarrow> (h, data'))"
  by pat_completeness auto
termination
  by (relation "measure (\<lambda>(seed, h, v, data). length data)")
    (auto simp: DecodeFixed_u32_def split: if_splits)

text \<open>
  \<^verbatim>\<open>v\<close> is not initialised before the loop: \<open>junk\<close> is its first value. \<^verbatim>\<open>seed * len\<close> is computed
  in \<^verbatim>\<open>size_t\<close> and truncated.
\<close>

definition Hash32 :: "u32 \<Rightarrow> bytes \<Rightarrow> u32 \<Rightarrow> u32" where
  "Hash32 junk data seed =
     (let len = length data;
          h = ucast ((ucast seed :: u64) * of_nat len);
          (h, data') = Hash32_loop seed h junk data;
          len = len mod 4
      in if len \<noteq> 0 then (h + Decode data' len) * seed else h)"

definition Hash32_u32 :: "u32 \<Rightarrow> u32 \<Rightarrow> u32" where
  "Hash32_u32 value seed = (ucast ((ucast seed :: u64) * 4) + value) * seed"

definition Hash32_u64 :: "u64 \<Rightarrow> u32 \<Rightarrow> u32" where
  "Hash32_u64 value seed =
     (let h = (ucast ((ucast seed :: u64) * 8) :: u32);
          h = ucast ((ucast h :: u64) + (value AND 0xFFFFFFFF)) * seed;
          h = (h + ucast (drop_bit 32 value)) * seed
      in h)"

section \<open>Reference: Horner evaluation over little-endian groups\<close>

text \<open>Groups of four bytes, little-endian, the last one padded with zero bytes.\<close>

definition le32 :: "bytes \<Rightarrow> u32" where
  "le32 g = foldr (\<lambda>c acc. ucast c + 256 * acc) g 0"

fun groups32 :: "bytes \<Rightarrow> u32 list" where
  "groups32 (a # b # c # d # rest) = le32 [a, b, c, d] # groups32 rest"
| "groups32 [] = []"
| "groups32 tail = [le32 tail]"

section \<open>The byte loop\<close>

declare Hash32_loop.simps [simp del]

lemma or_push_bit_eq_add:
  fixes x :: u32
  assumes "unat x < 2 ^ k"
  shows "x OR push_bit k y = x + push_bit k y"
proof (rule disjunctive_add_eq_or [symmetric])
  show "x AND push_bit k y = 0"
    by (rule bit_eqI) (auto simp: bit_simps dest: word_lt_pow2_bit [OF _ assms])
qed

lemma push_bit_256: "push_bit 8 y = 256 * (y :: u32)" "push_bit 16 y = 65536 * (y :: u32)"
  "push_bit 24 y = 16777216 * (y :: u32)"
  by (simp_all add: push_bit_eq_mult mult.commute)

lemma byte_sum_bounds:
  fixes a b c :: u8
  shows "unat (ucast a :: u32) < 2 ^ 8"
    and "unat (ucast a + push_bit 8 (ucast b) :: u32) < 2 ^ 16"
    and "unat (ucast a + push_bit 8 (ucast b) + push_bit 16 (ucast c) :: u32) < 2 ^ 24"
  using unat_bound [of a] unat_bound [of b] unat_bound [of c]
  by (simp_all add: push_bit_256 unat_word_ariths unat_ucast_up)

lemma bytes_or_le32:
  fixes a b c d :: u8
  shows "ucast a OR push_bit 8 (ucast b) = le32 [a, b]"
    and "ucast a OR push_bit 8 (ucast b) OR push_bit 16 (ucast c) = le32 [a, b, c]"
    and "ucast a OR push_bit 8 (ucast b) OR push_bit 16 (ucast c) OR push_bit 24 (ucast d) =
      le32 [a, b, c, d]"
  by (simp_all only: or.assoc [symmetric] or_push_bit_eq_add [OF byte_sum_bounds(1)]
      or_push_bit_eq_add [OF byte_sum_bounds(2)] or_push_bit_eq_add [OF byte_sum_bounds(3)])
    (simp_all add: push_bit_256 le32_def algebra_simps)

lemma DecodeFixed_u32_le32:
  "DecodeFixed_u32 (a # b # c # d # rest) v = (True, le32 [a, b, c, d], rest)"
  by (simp add: DecodeFixed_u32_def bytes_or_le32)

lemma Decode_le32:
  "Decode [a] (Suc 0) = le32 [a]" "Decode [a, b] 2 = le32 [a, b]" "Decode [a, b, c] 3 = le32 [a, b, c]"
proof -
  show "Decode [a] (Suc 0) = le32 [a]" by (simp add: Decode_def le32_def)
  show "Decode [a, b] 2 = le32 [a, b]"
    using bytes_or_le32(1) [of a b] by (simp add: Decode_def or.commute)
  show "Decode [a, b, c] 3 = le32 [a, b, c]"
    using bytes_or_le32(2) [of a b c] by (simp add: Decode_def or.commute or.left_commute)
qed

lemma Hash32_loop_short: "length data < 4 \<Longrightarrow> Hash32_loop seed h v data = (h, data)"
  by (subst Hash32_loop.simps) (simp add: DecodeFixed_u32_def)

lemma Hash32_loop_groups:
  "(case Hash32_loop seed h v data of (h', data') \<Rightarrow>
     if length data mod 4 \<noteq> 0 then (h' + Decode data' (length data mod 4)) * seed else h') =
   fold (\<lambda>g h. (h + g) * seed) (groups32 data) h"
proof (induction data arbitrary: h v rule: groups32.induct)
  case (1 a b c d rest)
  have m: "length (a # b # c # d # rest) mod 4 = length rest mod 4"
    using mod_add_self2 [of "length rest" 4] by simp
  show ?case
    unfolding m using 1 by (subst Hash32_loop.simps) (simp add: DecodeFixed_u32_le32)
qed (simp_all add: Hash32_loop_short Decode_le32 flip: numeral_2_eq_2 numeral_3_eq_3)


lemma ucast_mult_add_32:
  fixes x y :: u64
  shows "(ucast (x * y) :: u32) = ucast x * ucast y" and "(ucast (x + y) :: u32) = ucast x + ucast y"
  by (simp_all add: word_unat_eq_iff unat_ucast_take_bit unat_word_ariths mod_mod_cancel
      mod_mult_eq mod_add_eq)

lemma ucast_of_nat_32: "(ucast (of_nat n :: u64) :: u32) = of_nat n"
  by (simp add: word_unat_eq_iff unat_ucast_take_bit unat_of_nat mod_mod_cancel)

lemma le32_EncodeFixed:
  "le32 [ucast v, ucast (drop_bit 8 v), ucast (drop_bit 16 v), ucast (drop_bit 24 v)] = (v :: u32)"
  using fixed_u32_rt [of v "[]" 0] by (simp add: EncodeFixed_u32_def DecodeFixed_u32_le32)

lemma EncodeFixed_u64_halves:
  "EncodeFixed_u64 b = EncodeFixed_u32 (ucast b) @ EncodeFixed_u32 (ucast (drop_bit 32 b))"
  by (auto simp: EncodeFixed_u64_def EncodeFixed_u32_def bit_simps intro!: bit_eqI)

lemma Hash32_fold:
  "Hash32 junk data seed =
     fold (\<lambda>g h. (h + g) * seed) (groups32 data) (seed * of_nat (length data))"
proof -
  have "(ucast ((ucast seed :: u64) * of_nat n) :: u32) = seed * of_nat n" for n
    by (simp add: ucast_mult_add_32 ucast_of_nat_32 ucast_down_up)
  then show ?thesis
    using Hash32_loop_groups [where h = "seed * of_nat (length data)" and seed = seed]
    by (simp add: Hash32_def Let_def split: prod.splits)
qed

section \<open>Properties\<close>

text \<open>
  \<^verbatim>\<open>Hash32\<close> is the Horner evaluation \<open>h := (h + g) * seed\<close>, started at \<open>seed * len\<close>, over
  the little-endian 32-bit groups of the input with the last group zero-padded, modulo
  \<open>2 ^ 32\<close>; what the uninitialised local holds does not matter.
\<close>

theorem Hash32_horner:
  "Hash32 junk data seed =
     fold (\<lambda>g h. (h + g) * seed) (groups32 data) (seed * of_nat (length data))"
  by (rule Hash32_fold)

text \<open>
  The integer overloads hash a value exactly as the byte version hashes its fixed-width
  little-endian encoding.
\<close>

theorem Hash32_integer_paths:
  "Hash32_u32 a seed = Hash32 junk (EncodeFixed_u32 a) seed \<and>
   Hash32_u64 b seed = Hash32 junk (EncodeFixed_u64 b) seed"
proof
  show "Hash32_u32 a seed = Hash32 junk (EncodeFixed_u32 a) seed"
    by (simp add: Hash32_fold EncodeFixed_u32_def le32_EncodeFixed Hash32_u32_def
        ucast_mult_add_32 ucast_down_up)
  have low: "(ucast (b AND 0xFFFFFFFF) :: u32) = ucast b"
  proof -
    have m: "(0xFFFFFFFF :: u64) = mask 32" by (simp add: mask_eq_exp_minus_1)
    show ?thesis unfolding m by (auto intro!: bit_eqI simp: bit_simps)
  qed
  have "Hash32 junk (EncodeFixed_u64 b) seed =
      ((seed * 8 + ucast b) * seed + ucast (drop_bit 32 b)) * seed"
    unfolding Hash32_fold EncodeFixed_u64_halves
    by (simp add: EncodeFixed_u32_def le32_EncodeFixed)
  then show "Hash32_u64 b seed = Hash32 junk (EncodeFixed_u64 b) seed"
    by (simp add: Hash32_u64_def Let_def ucast_mult_add_32 ucast_down_up low)
qed

end
