(* ===== verification/Bloom_Filter.thy ===== *)
theory Bloom_Filter
  imports Xf_Prelude
begin

text \<open>
  \<^verbatim>\<open>include/xfutil/bloom_filter.h\<close> and \<^verbatim>\<open>src/bloom_filter.cpp\<close>. The filter's string is the list
  of its bytes. Sizes are natural numbers: a count and a width of 32 bits each have a product
  below \<open>2 ^ 64 - 7\<close>, so no 64-bit sum of the code wraps. A modulus of 0 traps and is
  \<^const>\<open>None\<close>.
\<close>

section \<open>Definitions\<close>

record BloomFilter =
  m_bitnum_perkey :: u32
  m_k_num :: nat
  m_data :: bytes

text \<open>
  \<^verbatim>\<open>(uint32_t)(bitnum_perkey * 0.69314)\<close> is the truncated product. For \<^verbatim>\<open>bitnum_perkey <= 44\<close>
  the exact product is at least \<open>10 ^ -5\<close> away from the next integer, far more than the
  rounding of a double, and above that both lie beyond the clamp to 30; so the exact quotient
  stands for it.
\<close>

definition BloomFilter_new :: "u32 \<Rightarrow> BloomFilter" where
  "BloomFilter_new bitnum_perkey =
     (let k_num = unat bitnum_perkey * 69314 div 100000;
          k_num = (if k_num < 1 then 1 else if k_num > 30 then 30 else k_num)
      in \<lparr>m_bitnum_perkey = bitnum_perkey, m_k_num = k_num, m_data = []\<rparr>)"

text \<open>\<^verbatim>\<open>std::string::resize\<close>\<close>

definition resize_bytes :: "bytes \<Rightarrow> nat \<Rightarrow> bytes" where
  "resize_bytes d n = take n d @ replicate (n - length d) 0"

definition rotate_hash :: "u32 \<Rightarrow> u32" where
  "rotate_hash hc = drop_bit 1 hc OR push_bit 31 hc"

definition set_bit_at :: "bytes \<Rightarrow> nat \<Rightarrow> bytes" where
  "set_bit_at d bit_pos =
     d[bit_pos div 8 := d ! (bit_pos div 8) OR push_bit (bit_pos mod 8) 1]"

fun add_probes :: "nat \<Rightarrow> nat \<Rightarrow> u32 \<Rightarrow> bytes \<Rightarrow> bytes" where
  "add_probes 0 total_bits hc d = d"
| "add_probes (Suc j) total_bits hc d =
     add_probes j total_bits (rotate_hash hc) (set_bit_at d (unat hc mod total_bits))"

definition filter_bytes :: "BloomFilter \<Rightarrow> nat \<Rightarrow> nat" where
  "filter_bytes bf count = (count * unat (m_bitnum_perkey bf) + 7) div 8"

fun Create_loop :: "BloomFilter \<Rightarrow> nat \<Rightarrow> u32 list \<Rightarrow> bytes \<Rightarrow> bytes" where
  "Create_loop bf total_bits [] d = d"
| "Create_loop bf total_bits (hc # hashs) d =
     Create_loop bf total_bits hashs (add_probes (m_k_num bf) total_bits hc d)"

text \<open>\<^verbatim>\<open>Create(hash_ptr, count)\<close>: \<open>hashs\<close> lists the \<^verbatim>\<open>count\<close> values at \<^verbatim>\<open>hash_ptr\<close>.\<close>

definition BloomFilter_Create ::
    "BloomFilter \<Rightarrow> u32 list \<Rightarrow> (bool \<times> BloomFilter) option" where
  "BloomFilter_Create bf hashs =
     (if length hashs = 0 then Some (False, bf)
      else let total_bytes = filter_bytes bf (length hashs);
               total_bits = total_bytes * 8;
               d = resize_bytes (m_data bf) total_bytes
           in if total_bits = 0 then None
              else Some (True, bf\<lparr>m_data := Create_loop bf total_bits hashs d\<rparr>))"

text \<open>\<^verbatim>\<open>Create(std::deque&)\<close> pops the hashes while it adds them; the deque is an in/out value.\<close>

fun Create_deque_loop :: "BloomFilter \<Rightarrow> nat \<Rightarrow> u32 list \<Rightarrow> bytes \<Rightarrow> bytes \<times> u32 list" where
  "Create_deque_loop bf total_bits [] d = (d, [])"
| "Create_deque_loop bf total_bits (hc # hashs) d =
     Create_deque_loop bf total_bits hashs (add_probes (m_k_num bf) total_bits hc d)"

definition BloomFilter_Create_deque ::
    "BloomFilter \<Rightarrow> u32 list \<Rightarrow> (bool \<times> BloomFilter \<times> u32 list) option" where
  "BloomFilter_Create_deque bf hashs =
     (if hashs = [] then Some (False, bf, hashs)
      else let total_bytes = filter_bytes bf (length hashs);
               total_bits = total_bytes * 8;
               d = resize_bytes (m_data bf) total_bytes
           in if total_bits = 0 then None
              else let (d', hashs') = Create_deque_loop bf total_bits hashs d
                   in Some (True, bf\<lparr>m_data := d'\<rparr>, hashs'))"

definition BloomFilter_Attach :: "BloomFilter \<Rightarrow> bytes \<Rightarrow> BloomFilter" where
  "BloomFilter_Attach bf data = bf\<lparr>m_data := data\<rparr>"

fun check_probes :: "nat \<Rightarrow> nat \<Rightarrow> u32 \<Rightarrow> bytes \<Rightarrow> bool" where
  "check_probes 0 total_bits hc d = True"
| "check_probes (Suc j) total_bits hc d =
     (let bit_pos = unat hc mod total_bits in
      if d ! (bit_pos div 8) AND push_bit (bit_pos mod 8) 1 = 0 then False
      else check_probes j total_bits (rotate_hash hc) d)"

definition BloomFilter_Check :: "BloomFilter \<Rightarrow> u32 \<Rightarrow> bool" where
  "BloomFilter_Check bf hc =
     (if m_data bf = [] then True
      else check_probes (m_k_num bf) (length (m_data bf) * 8) hc (m_data bf))"

section \<open>Specification vocabulary\<close>

text \<open>The bit set a filter string stands for, and the bit positions a hash value probes.\<close>

definition bits_of :: "bytes \<Rightarrow> nat set" where
  "bits_of d = {i. i < 8 * length d \<and> bit (d ! (i div 8)) (i mod 8)}"

definition probes :: "nat \<Rightarrow> nat \<Rightarrow> u32 \<Rightarrow> nat set" where
  "probes k total_bits hc = (\<lambda>j. unat ((rotate_hash ^^ j) hc) mod total_bits) ` {..<k}"

section \<open>The filter string as a bit set\<close>

lemma length_set_bit_at [simp]: "length (set_bit_at d i) = length d"
  by (simp add: set_bit_at_def)

lemma length_add_probes [simp]: "length (add_probes k t hc d) = length d"
  by (induction k arbitrary: hc d) simp_all

lemma length_Create_loop [simp]: "length (Create_loop bf t hs d) = length d"
  by (induction hs arbitrary: d) simp_all

lemma length_resize_bytes [simp]: "length (resize_bytes d n) = n"
  by (simp add: resize_bytes_def)

lemma bit_exp_u8: "bit (2 ^ k :: u8) n \<longleftrightarrow> n = k \<and> n < 8"
  by (auto simp: bit_exp_iff)

lemma bits_of_set_bit_at:
  assumes "i < 8 * length d"
  shows "bits_of (set_bit_at d i) = insert i (bits_of d)"
proof -
  have "j \<in> bits_of (set_bit_at d i) \<longleftrightarrow> j = i \<or> j \<in> bits_of d" for j
  proof (cases "j div 8 = i div 8")
    case True
    then have "j mod 8 = i mod 8 \<longleftrightarrow> j = i"
      by (metis div_mult_mod_eq)
    with True assms show ?thesis
      by (auto simp: bits_of_def set_bit_at_def bit_or_iff bit_exp_u8)
  next
    case False
    then show ?thesis using assms by (auto simp: bits_of_def set_bit_at_def)
  qed
  then show ?thesis by blast
qed

lemma probes_Suc: "probes (Suc k) t hc = insert (unat hc mod t) (probes k t (rotate_hash hc))"
  by (simp add: probes_def lessThan_Suc_eq_insert_0 image_image funpow_swap1 o_def)

lemma bits_of_add_probes:
  "length d * 8 = t \<Longrightarrow> 0 < t \<Longrightarrow> bits_of (add_probes k t hc d) = bits_of d \<union> probes k t hc"
proof (induction k arbitrary: hc d)
  case 0
  then show ?case by (simp add: probes_def)
next
  case (Suc k)
  then have "unat hc mod t < 8 * length d" by (simp add: mult.commute)
  with Suc show ?case by (simp add: bits_of_set_bit_at probes_Suc)
qed

lemma bits_of_Create_loop:
  "length d * 8 = t \<Longrightarrow> 0 < t \<Longrightarrow>
   bits_of (Create_loop bf t hs d) = bits_of d \<union> (\<Union>h \<in> set hs. probes (m_k_num bf) t h)"
  by (induction hs arbitrary: d) (auto simp: bits_of_add_probes)

lemma bit_test_iff: "d AND 2 ^ k = 0 \<longleftrightarrow> \<not> bit d k" if "k < 8" for d :: u8
  using that unfolding bit_eq_iff [of "d AND 2 ^ k" 0] by (auto simp: bit_and_iff bit_exp_u8)

lemma check_probes_iff:
  "length d * 8 = t \<Longrightarrow> 0 < t \<Longrightarrow> check_probes k t hc d \<longleftrightarrow> probes k t hc \<subseteq> bits_of d"
proof (induction k arbitrary: hc)
  case 0
  then show ?case by (simp add: probes_def)
next
  case (Suc k)
  then have "unat hc mod t < 8 * length d" by (simp add: mult.commute)
  with Suc show ?case
    by (auto simp: probes_Suc bit_test_iff bits_of_def Let_def)
qed

lemma Create_deque_loop_eq: "Create_deque_loop bf t hs d = (Create_loop bf t hs d, [])"
  by (induction hs arbitrary: d) simp_all

lemma filter_bytes_pos: "m_bitnum_perkey bf \<noteq> 0 \<Longrightarrow> 0 < n \<Longrightarrow> 0 < filter_bytes bf n"
proof -
  assume "m_bitnum_perkey bf \<noteq> 0" and "0 < n"
  then have "0 < n * unat (m_bitnum_perkey bf)" by (simp add: unat_gt_0)
  then show ?thesis by (simp add: filter_bytes_def div_greater_zero_iff)
qed

lemma Create_cases:
  assumes "m_bitnum_perkey bf \<noteq> 0" and "hs \<noteq> []"
  obtains bf' where "BloomFilter_Create bf hs = Some (True, bf')" "m_k_num bf' = m_k_num bf"
    "length (m_data bf') = filter_bytes bf (length hs)" "0 < filter_bytes bf (length hs)"
    "bits_of (m_data bf') = bits_of (resize_bytes (m_data bf) (filter_bytes bf (length hs))) \<union>
       (\<Union>h \<in> set hs. probes (m_k_num bf) (filter_bytes bf (length hs) * 8) h)"
proof -
  have "0 < filter_bytes bf (length hs)" using assms by (intro filter_bytes_pos) auto
  then show ?thesis
    using assms(2)
    by (intro that [of "bf\<lparr>m_data := Create_loop bf (filter_bytes bf (length hs) * 8) hs
            (resize_bytes (m_data bf) (filter_bytes bf (length hs)))\<rparr>"])
      (simp_all add: BloomFilter_Create_def Let_def bits_of_Create_loop)
qed

section \<open>Properties\<close>

text \<open>
  C21: no false negatives. With a non-zero number of bits per key and at least one hash,
  \<^verbatim>\<open>Create\<close> succeeds, whatever the filter held before, and \<^verbatim>\<open>Check\<close> then accepts every
  hash it was created from.
\<close>

theorem bloom_no_false_negatives:
  assumes "m_bitnum_perkey bf \<noteq> 0" and "hs \<noteq> []"
  shows "\<exists>bf'. BloomFilter_Create bf hs = Some (True, bf') \<and>
           (\<forall>h \<in> set hs. BloomFilter_Check bf' h)"
proof -
  obtain bf' where bf': "BloomFilter_Create bf hs = Some (True, bf')" "m_k_num bf' = m_k_num bf"
    "length (m_data bf') = filter_bytes bf (length hs)" "0 < filter_bytes bf (length hs)"
    "bits_of (m_data bf') = bits_of (resize_bytes (m_data bf) (filter_bytes bf (length hs))) \<union>
       (\<Union>h \<in> set hs. probes (m_k_num bf) (filter_bytes bf (length hs) * 8) h)"
    using assms by (rule Create_cases)
  then have "BloomFilter_Check bf' h" if "h \<in> set hs" for h
    using that by (auto simp: BloomFilter_Check_def check_probes_iff)
  with bf'(1) show ?thesis by blast
qed

theorem bloom_no_false_negatives_witness:
  "m_bitnum_perkey (BloomFilter_new 10) \<noteq> 0 \<and>
   (\<exists>bf'. BloomFilter_Create (BloomFilter_new 10) [7, 4118054813] = Some (True, bf') \<and>
      BloomFilter_Check bf' 7 \<and> BloomFilter_Check bf' 4118054813)"
proof -
  have "m_bitnum_perkey (BloomFilter_new 10) \<noteq> 0" by (simp add: BloomFilter_new_def Let_def)
  then show ?thesis
    using bloom_no_false_negatives [of "BloomFilter_new 10" "[7, 4118054813]"] by auto
qed

text \<open>
  C32: What \<^verbatim>\<open>Check\<close> accepts, exactly. After \<^verbatim>\<open>Create\<close> it accepts a hash if and only if
  each of its probe positions is a probe position of an added hash or a bit that was already
  set in the (resized) string the filter held before: a new filter has no such bit, a reused
  one keeps them.
\<close>

theorem bloom_check_exact:
  assumes "m_bitnum_perkey bf \<noteq> 0" and "hs \<noteq> []"
    and "BloomFilter_Create bf hs = Some (True, bf')"
  shows "BloomFilter_Check bf' x \<longleftrightarrow>
     probes (m_k_num bf) (8 * filter_bytes bf (length hs)) x \<subseteq>
       bits_of (resize_bytes (m_data bf) (filter_bytes bf (length hs))) \<union>
       (\<Union>h \<in> set hs. probes (m_k_num bf) (8 * filter_bytes bf (length hs)) h)"
  using assms(1,2)
proof (rule Create_cases)
  fix b assume "BloomFilter_Create bf hs = Some (True, b)" "m_k_num b = m_k_num bf"
    "length (m_data b) = filter_bytes bf (length hs)" "0 < filter_bytes bf (length hs)"
    "bits_of (m_data b) = bits_of (resize_bytes (m_data bf) (filter_bytes bf (length hs))) \<union>
       (\<Union>h \<in> set hs. probes (m_k_num bf) (filter_bytes bf (length hs) * 8) h)"
  with assms(3) show ?thesis
    by (auto simp: BloomFilter_Check_def check_probes_iff mult.commute [of 8])
qed

theorem bloom_check_exact_witness:
  "m_bitnum_perkey (BloomFilter_new 8) \<noteq> 0 \<and>
   (\<exists>bf'. BloomFilter_Create (BloomFilter_new 8) [1] = Some (True, bf') \<and>
      (BloomFilter_Check bf' 2 \<longleftrightarrow>
        probes 5 8 2 \<subseteq> bits_of (resize_bytes [] 1) \<union> probes 5 8 1))"
proof -
  have nz: "m_bitnum_perkey (BloomFilter_new 8) \<noteq> 0" by (simp add: BloomFilter_new_def Let_def)
  obtain bf' where c: "BloomFilter_Create (BloomFilter_new 8) [1] = Some (True, bf')"
    using Create_cases [OF nz, of "[1]"] by auto
  have "filter_bytes (BloomFilter_new 8) 1 = 1" "m_k_num (BloomFilter_new 8) = 5"
    "m_data (BloomFilter_new 8) = []"
    by (simp_all add: filter_bytes_def BloomFilter_new_def Let_def)
  with nz c show ?thesis
    using bloom_check_exact [OF nz _ c, of 2] by (intro conjI exI [of _ bf']) simp_all
qed

text \<open>
  The two \<^verbatim>\<open>Create\<close> overloads build the same filter, and the deque version leaves the
  deque empty; for no hashes both return false without a change, for zero bits per key both
  divide by zero.
\<close>

theorem bloom_create_overloads:
  "BloomFilter_Create_deque bf hs =
     map_option (\<lambda>(ret, bf'). (ret, bf', [])) (BloomFilter_Create bf hs) \<and>
   BloomFilter_Create bf [] = Some (False, bf) \<and>
   (m_bitnum_perkey bf = 0 \<longrightarrow> BloomFilter_Create bf (h # hs) = None)"
  by (auto simp: BloomFilter_Create_deque_def BloomFilter_Create_def Let_def Create_deque_loop_eq
      filter_bytes_def)

theorem bloom_create_overloads_witness:
  "BloomFilter_Create (BloomFilter_new 0) [5] = None"
  using bloom_create_overloads [of "BloomFilter_new 0" "[]" 5]
  by (simp add: BloomFilter_new_def Let_def)

text \<open>
  The sizes fit: for any 32-bit count the bit total rounded up to whole bytes stays below
  \<open>2 ^ 64\<close>, and the number of probes lies between 1 and 30.
\<close>

theorem bloom_size_bounds:
  fixes count :: u32
  shows "8 * filter_bytes bf (unat count) < 2 ^ 64 \<and>
    unat count * unat (m_bitnum_perkey bf) \<le> 8 * filter_bytes bf (unat count) \<and>
    1 \<le> m_k_num (BloomFilter_new n) \<and> m_k_num (BloomFilter_new n) \<le> 30"
proof -
  have "unat count \<le> 2 ^ 32 - 1" "unat (m_bitnum_perkey bf) \<le> 2 ^ 32 - 1"
    using unat_bound [of count] unat_bound [of "m_bitnum_perkey bf"] by simp_all
  then have "unat count * unat (m_bitnum_perkey bf) \<le> (2 ^ 32 - 1) * (2 ^ 32 - 1)"
    by (rule mult_le_mono)
  then show ?thesis
    by (auto simp: filter_bytes_def BloomFilter_new_def Let_def)
qed

end
