(* ===== verification/Intrusive_List.thy ===== *)
theory Intrusive_List
  imports Xf_Prelude
begin

text \<open>
  \<^verbatim>\<open>include/xfutil/list.h\<close>: circular doubly linked lists threaded through the nodes of other
  structures. The two pointer fields of every node are the two maps of a \<open>list_heap\<close>; a list
  is the address of its sentinel. Every operation is the sequence of field assignments of the
  source, in its order.
\<close>

section \<open>Definitions\<close>

record 'p list_heap =
  l_next :: "'p \<Rightarrow> 'p"
  l_prev :: "'p \<Rightarrow> 'p"

definition set_next :: "'p \<Rightarrow> 'p \<Rightarrow> 'p list_heap \<Rightarrow> 'p list_heap" where
  "set_next a b h = h\<lparr>l_next := (l_next h)(a := b)\<rparr>"

definition set_prev :: "'p \<Rightarrow> 'p \<Rightarrow> 'p list_heap \<Rightarrow> 'p list_heap" where
  "set_prev a b h = h\<lparr>l_prev := (l_prev h)(a := b)\<rparr>"

definition ListInit :: "'p \<Rightarrow> 'p list_heap \<Rightarrow> 'p list_heap" where
  "ListInit l h = set_prev l l (set_next l l h)"

definition ListEmtpy :: "'p list_heap \<Rightarrow> 'p \<Rightarrow> bool" where
  "ListEmtpy h l \<longleftrightarrow> l_next h l = l"

definition ListHead :: "'p list_heap \<Rightarrow> 'p \<Rightarrow> 'p" where
  "ListHead h l = l_next h l"

definition ListTail :: "'p list_heap \<Rightarrow> 'p \<Rightarrow> 'p" where
  "ListTail h l = l_prev h l"

definition ListInsert_at :: "'p \<Rightarrow> 'p \<Rightarrow> 'p \<Rightarrow> 'p list_heap \<Rightarrow> 'p list_heap" where
  "ListInsert_at new_node prv nxt h =
     (let h = set_prev nxt new_node h;
          h = set_next new_node nxt h;
          h = set_prev new_node prv h;
          h = set_next prv new_node h
      in h)"

definition ListAddHead :: "'p \<Rightarrow> 'p \<Rightarrow> 'p list_heap \<Rightarrow> 'p list_heap" where
  "ListAddHead new_node l h = ListInsert_at new_node l (l_next h l) h"

definition ListAddTail :: "'p \<Rightarrow> 'p \<Rightarrow> 'p list_heap \<Rightarrow> 'p list_heap" where
  "ListAddTail new_node l h = ListInsert_at new_node (l_prev h l) l h"

definition ListDelete_between :: "'p \<Rightarrow> 'p \<Rightarrow> 'p list_heap \<Rightarrow> 'p list_heap" where
  "ListDelete_between prv nxt h = set_next prv nxt (set_prev nxt prv h)"

definition ListDelete :: "'p \<Rightarrow> 'p list_heap \<Rightarrow> 'p list_heap" where
  "ListDelete nd h = ListDelete_between (l_prev h nd) (l_next h nd) h"

text \<open>
  The loop of the macro \<^verbatim>\<open>ListForeach\<close>: the nodes it visits. On a corrupt list it need not
  end, so the model counts down \<open>fuel\<close> and is \<^const>\<open>None\<close> when that runs out.
\<close>

fun ListForeach_from :: "nat \<Rightarrow> 'p list_heap \<Rightarrow> 'p \<Rightarrow> 'p \<Rightarrow> 'p list option" where
  "ListForeach_from 0 h l nd = None"
| "ListForeach_from (Suc fuel) h l nd =
     (if nd \<noteq> l then map_option (Cons nd) (ListForeach_from fuel h l (l_next h nd))
      else Some [])"

definition ListForeach :: "nat \<Rightarrow> 'p list_heap \<Rightarrow> 'p \<Rightarrow> 'p list option" where
  "ListForeach fuel h l = ListForeach_from fuel h l (l_next h l)"

section \<open>Specification vocabulary\<close>

text \<open>
  \<open>links h a xs b\<close>: following \<open>next\<close> from \<open>a\<close> passes exactly the nodes \<open>xs\<close> and arrives at
  \<open>b\<close>, and every step is undone by \<open>prev\<close>. \<open>dlist h l xs\<close>: the list with sentinel \<open>l\<close> holds
  exactly the nodes \<open>xs\<close>, each once, in this order.
\<close>

fun links :: "'p list_heap \<Rightarrow> 'p \<Rightarrow> 'p list \<Rightarrow> 'p \<Rightarrow> bool" where
  "links h a [] b \<longleftrightarrow> l_next h a = b \<and> l_prev h b = a"
| "links h a (x # xs) b \<longleftrightarrow> l_next h a = x \<and> l_prev h x = a \<and> links h x xs b"

definition dlist :: "'p list_heap \<Rightarrow> 'p \<Rightarrow> 'p list \<Rightarrow> bool" where
  "dlist h l xs \<longleftrightarrow> links h l xs l \<and> distinct (l # xs)"

section \<open>Link segments\<close>

lemma l_next_set_next [simp]: "l_next (set_next a b h) = (l_next h)(a := b)"
  and l_prev_set_next [simp]: "l_prev (set_next a b h) = l_prev h"
  and l_next_set_prev [simp]: "l_next (set_prev a b h) = l_next h"
  and l_prev_set_prev [simp]: "l_prev (set_prev a b h) = (l_prev h)(a := b)"
  by (simp_all add: set_next_def set_prev_def)

lemma links_append:
  "links h a (xs @ y # ys) b \<longleftrightarrow> links h a xs y \<and> links h y ys b"
  by (induction xs arbitrary: a) auto

lemma links_snoc: "links h a (xs @ [y]) b \<longleftrightarrow> links h a xs y \<and> l_next h y = b \<and> l_prev h b = y"
  using links_append [of h a xs y "[]" b] by simp

lemma links_first: "links h a xs b \<Longrightarrow> l_next h a = (case xs of [] \<Rightarrow> b | x # _ \<Rightarrow> x)"
  by (cases xs) auto

lemma links_last: "links h a xs b \<Longrightarrow> l_prev h b = (if xs = [] then a else last xs)"
  by (induction xs arbitrary: a) auto

text \<open>Frame: a segment depends on \<open>next\<close> of its start and nodes, on \<open>prev\<close> of its nodes and end.\<close>

lemma links_cong:
  assumes "\<And>x. x \<in> set (a # xs) \<Longrightarrow> l_next h' x = l_next h x"
    and "\<And>x. x \<in> set (xs @ [b]) \<Longrightarrow> l_prev h' x = l_prev h x"
  shows "links h' a xs b \<longleftrightarrow> links h a xs b"
  using assms by (induction xs arbitrary: a) auto

lemma links_set_next_other [simp]:
  "c \<notin> set (a # xs) \<Longrightarrow> links (set_next c d h) a xs b \<longleftrightarrow> links h a xs b"
  by (rule links_cong) auto

lemma links_set_prev_other [simp]:
  "c \<notin> set (xs @ [b]) \<Longrightarrow> links (set_prev c d h) a xs b \<longleftrightarrow> links h a xs b"
  by (rule links_cong) auto

section \<open>The operations on whole lists\<close>

lemma dlist_cong:
  assumes "\<And>x. x \<in> set (l # xs) \<Longrightarrow> l_next h' x = l_next h x \<and> l_prev h' x = l_prev h x"
  shows "dlist h' l xs \<longleftrightarrow> dlist h l xs"
  unfolding dlist_def using links_cong [of l xs h' h l] assms by auto

lemma dlist_ListAddHead:
  assumes "dlist h l xs" and "x \<notin> set (l # xs)"
  shows "dlist (ListAddHead x l h) l (x # xs)"
  using assms by (cases xs) (auto simp: dlist_def ListAddHead_def ListInsert_at_def Let_def)

lemma dlist_ListAddTail:
  assumes "dlist h l xs" and "x \<notin> set (l # xs)"
  shows "dlist (ListAddTail x l h) l (xs @ [x])"
proof (cases xs rule: rev_cases)
  case Nil
  with assms show ?thesis by (auto simp: dlist_def ListAddTail_def ListInsert_at_def)
next
  case (snoc ys y)
  with assms show ?thesis
    by (auto simp: dlist_def ListAddTail_def ListInsert_at_def links_append links_snoc Let_def)
qed

lemma dlist_ListDelete:
  assumes "dlist h l (xs @ x # ys)"
  shows "dlist (ListDelete x h) l (xs @ ys)"
proof (cases xs rule: rev_cases)
  case Nil
  with assms show ?thesis
    by (cases ys) (auto simp: dlist_def ListDelete_def ListDelete_between_def)
next
  case (snoc zs z)
  with assms show ?thesis
    by (cases ys)
      (auto simp: dlist_def ListDelete_def ListDelete_between_def links_append links_snoc)
qed

lemma dlist_neighbours:
  assumes "dlist h l (xs @ x # ys)"
  shows "l_prev h x \<in> set (l # xs @ x # ys)" and "l_next h x \<in> set (l # xs @ x # ys)"
proof -
  from assms have "links h l xs x" and "links h x ys l" by (auto simp: dlist_def links_append)
  from links_last [OF this(1)] links_first [OF this(2)]
  show "l_prev h x \<in> set (l # xs @ x # ys)" and "l_next h x \<in> set (l # xs @ x # ys)"
    by (auto split: list.splits)
qed

lemma dlist_ends:
  assumes "dlist h l xs"
  shows "l_next h l = (case xs of [] \<Rightarrow> l | x # _ \<Rightarrow> x)" and "l_prev h l = last (l # xs)"
  using links_first [of h l xs l] links_last [of h l xs l] assms by (auto simp: dlist_def)

lemma dlist_ListDelete_remove1:
  assumes "dlist h l xs" and "x \<in> set xs"
  shows "dlist (ListDelete x h) l (remove1 x xs)"
proof -
  from assms(2) obtain us vs where "xs = us @ x # vs" and "x \<notin> set us"
    by (meson split_list_first)
  then show ?thesis using dlist_ListDelete [of h l us x vs] assms by (simp add: remove1_append)
qed

text \<open>Frame: other lists keep their nodes.\<close>

lemma dlist_frame_add:
  assumes "dlist h l xs" and "dlist h m ys" and "set (l # xs) \<inter> set (m # ys) = {}"
    and "x \<notin> set (m # ys)"
  shows "dlist (ListAddHead x l h) m ys" and "dlist (ListAddTail x l h) m ys"
proof -
  from dlist_ends [OF assms(1)]
  have ends: "l_next h l \<in> set (l # xs)" "l_prev h l \<in> set (l # xs)"
    by (auto split: list.splits)
  have "dlist (ListAddHead x l h) m ys \<longleftrightarrow> dlist h m ys"
    by (rule dlist_cong) (use assms(3,4) ends in
      \<open>auto simp: ListAddHead_def ListInsert_at_def Let_def\<close>)
  moreover have "dlist (ListAddTail x l h) m ys \<longleftrightarrow> dlist h m ys"
    by (rule dlist_cong) (use assms(3,4) ends in
      \<open>auto simp: ListAddTail_def ListInsert_at_def Let_def\<close>)
  ultimately show "dlist (ListAddHead x l h) m ys" and "dlist (ListAddTail x l h) m ys"
    using assms(2) by simp_all
qed

lemma dlist_frame_delete:
  assumes "dlist h l xs" and "dlist h m ys" and "set (l # xs) \<inter> set (m # ys) = {}"
    and "x \<in> set xs"
  shows "dlist (ListDelete x h) m ys"
proof -
  from assms(4) obtain us vs where xs: "xs = us @ x # vs" by (auto simp: in_set_conv_decomp)
  from dlist_neighbours [of h l us x vs] assms(1)
  have "l_prev h x \<in> set (l # xs)" "l_next h x \<in> set (l # xs)" by (auto simp: xs)
  then have "dlist (ListDelete x h) m ys \<longleftrightarrow> dlist h m ys"
    by (intro dlist_cong) (use assms(3) in \<open>auto simp: ListDelete_def ListDelete_between_def\<close>)
  then show ?thesis using assms(2) by simp
qed

lemma ListForeach_from_links:
  assumes "links h a xs l" and "l \<notin> set xs" and "length xs < fuel"
  shows "ListForeach_from fuel h l (l_next h a) = Some xs"
  using assms
proof (induction xs arbitrary: a fuel)
  case Nil
  then show ?case by (cases fuel) auto
next
  case (Cons x xs)
  then obtain n where "fuel = Suc n" by (cases fuel) auto
  with Cons show ?case by auto
qed

section \<open>Properties\<close>

text \<open>
  C20: \<open>ListInit\<close> makes the empty list; \<open>ListAddHead\<close>, \<open>ListAddTail\<close> and \<open>ListDelete\<close> have
  on the sequence of nodes exactly the effect of consing, appending and removing the node, for
  every well-formed list (a node to be added must not be in the list yet, a node to be deleted
  must be in it), and \<open>ListEmtpy\<close>, \<open>ListHead\<close> and \<open>ListTail\<close> read that sequence.
\<close>

theorem ListOps_refine_sequences:
  assumes "dlist h l xs"
  shows "dlist (ListInit l h) l [] \<and>
     (x \<notin> set (l # xs) \<longrightarrow> dlist (ListAddHead x l h) l (x # xs)) \<and>
     (x \<notin> set (l # xs) \<longrightarrow> dlist (ListAddTail x l h) l (xs @ [x])) \<and>
     (x \<in> set xs \<longrightarrow> dlist (ListDelete x h) l (remove1 x xs)) \<and>
     (ListEmtpy h l \<longleftrightarrow> xs = []) \<and>
     ListHead h l = hd (xs @ [l]) \<and> ListTail h l = last (l # xs)"
proof -
  have "dlist (ListInit l h) l []" by (simp add: dlist_def ListInit_def)
  moreover have "x \<in> set xs \<Longrightarrow> dlist (ListDelete x h) l (remove1 x xs)"
    by (rule dlist_ListDelete_remove1 [OF assms])
  moreover have "ListEmtpy h l \<longleftrightarrow> xs = []"
    using assms dlist_ends(1) [OF assms] by (auto simp: ListEmtpy_def dlist_def split: list.splits)
  moreover have "ListHead h l = hd (xs @ [l])"
    using dlist_ends(1) [OF assms] by (simp add: ListHead_def split: list.splits)
  ultimately show ?thesis
    using assms dlist_ends(2) [OF assms] by (simp add: dlist_ListAddHead dlist_ListAddTail ListTail_def)
qed

theorem ListOps_refine_sequences_witness:
  "dlist (ListAddTail 2 0 (ListAddHead (1 :: nat) 0 \<lparr>l_next = \<lambda>p. p, l_prev = \<lambda>p. p\<rparr>)) 0 [1, 2] \<and>
   dlist (ListDelete 1 (ListAddTail 2 0 (ListAddHead (1 :: nat) 0
       \<lparr>l_next = \<lambda>p. p, l_prev = \<lambda>p. p\<rparr>))) 0 [2]"
proof -
  let ?h0 = "\<lparr>l_next = \<lambda>p. p, l_prev = \<lambda>p. p\<rparr> :: nat list_heap"
  have "dlist ?h0 0 []" by (simp add: dlist_def)
  from ListOps_refine_sequences [OF this, of 1] have 1: "dlist (ListAddHead 1 0 ?h0) 0 [1]" by simp
  from ListOps_refine_sequences [OF this, of 2]
  have 2: "dlist (ListAddTail 2 0 (ListAddHead 1 0 ?h0)) 0 [1, 2]" by simp
  with ListOps_refine_sequences [OF this, of 1] show ?thesis by simp
qed

text \<open>
  An operation on one list leaves every other list as it was: the nodes and the sentinel of
  a list that shares no node with it keep their order.
\<close>

theorem ListOps_frame:
  assumes "dlist h l xs" and "dlist h m ys" and "set (l # xs) \<inter> set (m # ys) = {}"
  shows "(x \<notin> set (m # ys) \<longrightarrow>
            dlist (ListAddHead x l h) m ys \<and> dlist (ListAddTail x l h) m ys) \<and>
         (x \<in> set xs \<longrightarrow> dlist (ListDelete x h) m ys)"
  using assms dlist_frame_add dlist_frame_delete by metis

theorem ListOps_frame_witness:
  "dlist (ListAddTail (5 :: nat) 0 \<lparr>l_next = \<lambda>p. p, l_prev = \<lambda>p. p\<rparr>) 9 []"
  using ListOps_frame [of "\<lparr>l_next = \<lambda>p. p, l_prev = \<lambda>p. p\<rparr> :: nat list_heap" 0 "[]" 9 "[]" 5]
  by (simp add: dlist_def)

text \<open>
  The loop of \<open>ListForeach\<close> ends on every well-formed list and visits every node once, in
  order.
\<close>

theorem ListForeach_visits:
  assumes "dlist h l xs" and "length xs < fuel"
  shows "ListForeach fuel h l = Some xs"
  using assms by (auto simp: ListForeach_def dlist_def intro: ListForeach_from_links)

theorem ListForeach_visits_witness:
  "ListForeach 3 (ListAddHead (1 :: nat) 0 \<lparr>l_next = \<lambda>p. p, l_prev = \<lambda>p. p\<rparr>) 0 = Some [1]"
proof -
  have "dlist (ListAddHead (1 :: nat) 0 \<lparr>l_next = \<lambda>p. p, l_prev = \<lambda>p. p\<rparr>) 0 [1]"
    by (intro dlist_ListAddHead) (simp_all add: dlist_def)
  from ListForeach_visits [OF this, of 3] show ?thesis by simp
qed

end
