(* ===== verification/Memory_Block.thy ===== *)
theory Memory_Block
  imports Xf_Prelude
begin

text \<open>
  \<^verbatim>\<open>src/memory_block.h\<close> and \<^verbatim>\<open>src/memory_block.cpp\<close>: carving one block of memory into elements of
  equal size. Addresses are natural numbers, \<open>0\<close> is the null pointer. The head lies at the start
  of the block at address \<open>base\<close>; the pointer-sized cells inside the block, through which the
  code threads its chain of released elements, are a map \<open>cells\<close> from addresses to the pointer
  read there (\<^verbatim>\<open>*(byte_t**)element\<close>). The list node of the head belongs to the pool that links
  the blocks and is modelled there. The theory starts with the contract that every allocator of
  the library is shown to satisfy, as a locale.
\<close>

section \<open>The contract of an allocator\<close>

text \<open>
  What clients do with an allocator: \<open>mem_run alloc release touch ok (s, L) (t, M)\<close> says that
  from state \<open>s\<close> with the elements \<open>L\<close> in use, some sequence of requests, releases of elements
  in use, and writes of clients into elements in use leads to state \<open>t\<close> with the elements \<open>M\<close>
  in use. The argument \<open>e\<close> of \<open>alloc\<close> is what the C library's allocator answers should it be
  asked, and \<open>ok\<close> is the promise of the C library on that answer.
\<close>

inductive mem_run :: "('e \<Rightarrow> 's \<Rightarrow> nat \<times> 's) \<Rightarrow> (nat \<Rightarrow> 's \<Rightarrow> 's) \<Rightarrow> (nat \<Rightarrow> 's \<Rightarrow> 's \<Rightarrow> bool) \<Rightarrow>
    ('e \<Rightarrow> 's \<Rightarrow> nat set \<Rightarrow> bool) \<Rightarrow> 's \<times> nat list \<Rightarrow> 's \<times> nat list \<Rightarrow> bool"
  for alloc release touch ok where
  start: "mem_run alloc release touch ok c c"
| take: "mem_run alloc release touch ok c (t, M) \<Longrightarrow> ok e t (set M) \<Longrightarrow> alloc e t = (p, u) \<Longrightarrow>
    mem_run alloc release touch ok c (u, if p = 0 then M else p # M)"
| give: "mem_run alloc release touch ok c (t, M) \<Longrightarrow> p \<in> set M \<Longrightarrow>
    mem_run alloc release touch ok c (release p t, remove1 p M)"
| poke: "mem_run alloc release touch ok c (t, M) \<Longrightarrow> p \<in> set M \<Longrightarrow> touch p t u \<Longrightarrow>
    mem_run alloc release touch ok c (u, M)"

text \<open>
  The laws: \<open>inv s L\<close> says that \<open>s\<close> is well formed and exactly the elements \<open>L\<close> are in use.
  \<open>alloc\<close> gives \<open>0\<close> or an element that is not in use, \<open>release\<close> takes back an element in use,
  writes into elements in use are harmless, and elements in use do not overlap.
\<close>

locale allocator =
  fixes inv :: "'s \<Rightarrow> nat set \<Rightarrow> bool"
    and alloc :: "'e \<Rightarrow> 's \<Rightarrow> nat \<times> 's"
    and release :: "nat \<Rightarrow> 's \<Rightarrow> 's"
    and touch :: "nat \<Rightarrow> 's \<Rightarrow> 's \<Rightarrow> bool"
    and ok :: "'e \<Rightarrow> 's \<Rightarrow> nat set \<Rightarrow> bool"
    and esize :: "'s \<Rightarrow> nat"
  assumes alloc_inv:
      "inv s L \<Longrightarrow> ok e s L \<Longrightarrow> alloc e s = (p, t) \<Longrightarrow> p \<noteq> 0 \<Longrightarrow> p \<notin> L \<and> inv t (insert p L)"
    and alloc_null: "inv s L \<Longrightarrow> ok e s L \<Longrightarrow> alloc e s = (0, t) \<Longrightarrow> inv t L"
    and release_inv: "inv s L \<Longrightarrow> p \<in> L \<Longrightarrow> inv (release p s) (L - {p})"
    and touch_inv: "inv s L \<Longrightarrow> p \<in> L \<Longrightarrow> touch p s t \<Longrightarrow> inv t L"
    and apart: "inv s L \<Longrightarrow> p \<in> L \<Longrightarrow> q \<in> L \<Longrightarrow> p < q \<Longrightarrow> p + esize s \<le> q"
begin

lemma run_inv:
  assumes "mem_run alloc release touch ok (s, L) c" and "inv s (set L)" and "distinct L"
  shows "inv (fst c) (set (snd c)) \<and> distinct (snd c)"
  using assms(1)
proof (induction "(s, L)" c rule: mem_run.induct)
  case start
  then show ?case using assms(2,3) by simp
next
  case (take t M e p u)
  then show ?case using alloc_inv [of t "set M" e p u] alloc_null [of t "set M" e u] by auto
next
  case (give t M p)
  then show ?case using release_inv [of t "set M" p] by (simp add: set_remove1_eq)
next
  case (poke t M p u)
  then show ?case using touch_inv [of t "set M" p u] by simp
qed

text \<open>No client is ever given memory that overlaps an element in use.\<close>

lemma run_safe:
  assumes "mem_run alloc release touch ok (s, L) (t, M)" and "inv s (set L)" and "distinct L"
  shows "distinct M \<and> (\<forall>p\<in>set M. \<forall>q\<in>set M. p < q \<longrightarrow> p + esize t \<le> q)"
  using run_inv [OF assms] apart [of t "set M"] by auto

end

section \<open>Definitions\<close>

record MemoryBlockHead =
  block_size :: u32
  element_size :: u32
  max_element_num :: u16
  element_used_cnt :: u16
  next_element_offset :: u32
  next_element_ptr :: nat

text \<open>\<^verbatim>\<open>sizeof(MemoryBlockHead)\<close>: two pointers, two words, two half words, a word and a pointer.\<close>

definition sizeof_head :: nat where
  "sizeof_head = 40"

definition MemoryBlockInit :: "u32 \<Rightarrow> u32 \<Rightarrow> MemoryBlockHead" where
  "MemoryBlockInit bs es =
     (let max_num = (ucast ((ucast bs - of_nat sizeof_head) div (ucast es :: u64)) :: u16)
      in \<lparr>block_size = bs, element_size = es, max_element_num = max_num, element_used_cnt = 0,
          next_element_offset = bs - ucast max_num * es, next_element_ptr = 0\<rparr>)"

definition MemoryAlloc ::
    "nat \<Rightarrow> MemoryBlockHead \<Rightarrow> (nat \<Rightarrow> nat) \<Rightarrow> nat \<times> MemoryBlockHead" where
  "MemoryAlloc base b cells =
     (if next_element_ptr b \<noteq> 0 then
        let element = next_element_ptr b
        in (element, b\<lparr>next_element_ptr := cells element,
                       element_used_cnt := element_used_cnt b + 1\<rparr>)
      else if next_element_offset b < block_size b then
        (base + unat (next_element_offset b),
         b\<lparr>next_element_offset := next_element_offset b + element_size b,
           element_used_cnt := element_used_cnt b + 1\<rparr>)
      else (0, b))"

definition MemoryFree ::
    "nat \<Rightarrow> nat \<Rightarrow> MemoryBlockHead \<Rightarrow> (nat \<Rightarrow> nat) \<Rightarrow> int \<times> MemoryBlockHead \<times> (nat \<Rightarrow> nat)" where
  "MemoryFree base element b cells =
     (if element < base \<or> element \<ge> base + unat (block_size b) then (-1, b, cells)
      else
        let cells = cells(element := next_element_ptr b);
            b = b\<lparr>next_element_ptr := element\<rparr>;
            b = b\<lparr>element_used_cnt := element_used_cnt b - 1\<rparr>
        in if element_used_cnt b = 0 then (1, b, cells)
           else if uint (element_used_cnt b) = uint (max_element_num b) - 1 then (0, b, cells)
           else (-1, b, cells))"

definition MemoryUsedSize :: "MemoryBlockHead \<Rightarrow> u32" where
  "MemoryUsedSize b = ucast (element_used_cnt b) * element_size b"

section \<open>Specification vocabulary\<close>

text \<open>
  \<open>slot base b i\<close> is the address of the \<open>i\<close>-th element; \<open>chain cells p F\<close> says that following
  the embedded pointers from \<open>p\<close> meets exactly the addresses \<open>F\<close>. In \<open>block_inv base b cells F n U\<close>
  the first \<open>n\<close> elements have been handed out at some time, \<open>U\<close> are in use and \<open>F\<close> were released,
  the last one first.
\<close>

definition slot :: "nat \<Rightarrow> MemoryBlockHead \<Rightarrow> nat \<Rightarrow> nat" where
  "slot base b i =
     base + (unat (block_size b) - unat (max_element_num b) * unat (element_size b))
     + i * unat (element_size b)"

fun chain :: "(nat \<Rightarrow> nat) \<Rightarrow> nat \<Rightarrow> nat list \<Rightarrow> bool" where
  "chain cells p [] \<longleftrightarrow> p = 0"
| "chain cells p (x # xs) \<longleftrightarrow> p = x \<and> x \<noteq> 0 \<and> chain cells (cells x) xs"

definition shape_ok :: "nat \<Rightarrow> MemoryBlockHead \<Rightarrow> bool" where
  "shape_ok base b \<longleftrightarrow> base > 0 \<and> 8 \<le> unat (element_size b) \<and>
     sizeof_head + unat (max_element_num b) * unat (element_size b) \<le> unat (block_size b)"

definition block_inv ::
    "nat \<Rightarrow> MemoryBlockHead \<Rightarrow> (nat \<Rightarrow> nat) \<Rightarrow> nat list \<Rightarrow> nat \<Rightarrow> nat set \<Rightarrow> bool" where
  "block_inv base b cells F n U \<longleftrightarrow> shape_ok base b \<and>
     n \<le> unat (max_element_num b) \<and> base + unat (next_element_offset b) = slot base b n \<and>
     set F \<union> U = slot base b ` {..<n} \<and> set F \<inter> U = {} \<and> distinct F \<and>
     chain cells (next_element_ptr b) F \<and> unat (element_used_cnt b) = card U"

definition block_ok :: "nat \<Rightarrow> MemoryBlockHead \<Rightarrow> (nat \<Rightarrow> nat) \<Rightarrow> nat set \<Rightarrow> bool" where
  "block_ok base b cells U \<longleftrightarrow> (\<exists>F n. block_inv base b cells F n U)"

section \<open>Slots\<close>

lemma slot_add: "slot base b i = slot base b 0 + i * unat (element_size b)"
  unfolding slot_def by simp

lemma slot_less [simp]: "shape_ok base b \<Longrightarrow> slot base b i < slot base b j \<longleftrightarrow> i < j"
  unfolding slot_add [of base b i] slot_add [of base b j] by (simp add: shape_ok_def)

lemma slot_eq [simp]: "shape_ok base b \<Longrightarrow> slot base b i = slot base b j \<longleftrightarrow> i = j"
  using slot_less [of base b i j] slot_less [of base b j i] by (metis less_irrefl nat_neq_iff)

lemma slot_inj: "shape_ok base b \<Longrightarrow> inj_on (slot base b) A"
  by (simp add: inj_on_def)

lemma slot_Suc: "slot base b (Suc i) = slot base b i + unat (element_size b)"
  by (simp add: slot_add [of base b "Suc i"] slot_add [of base b i])

lemma slot_apart:
  assumes "i < j"
  shows "slot base b i + unat (element_size b) \<le> slot base b j"
proof -
  have "Suc i * unat (element_size b) \<le> j * unat (element_size b)"
    using assms by (intro mult_le_mono1) simp
  then show ?thesis
    unfolding slot_add [of base b i] slot_add [of base b j] by simp
qed

lemma slot_range:
  assumes "shape_ok base b" and "i < unat (max_element_num b)"
  shows "base + sizeof_head \<le> slot base b i"
    and "slot base b i + unat (element_size b) \<le> base + unat (block_size b)"
proof -
  let ?e = "unat (element_size b)" and ?m = "unat (max_element_num b)"
  from assms show "base + sizeof_head \<le> slot base b i" by (auto simp: slot_def shape_ok_def)
  have "i * ?e + ?e \<le> ?m * ?e"
    using mult_le_mono1 [of "Suc i" ?m ?e] assms(2) by (simp add: algebra_simps)
  then show "slot base b i + ?e \<le> base + unat (block_size b)"
    using assms(1) by (simp add: slot_def shape_ok_def)
qed

lemma slot_full:
  "shape_ok base b \<Longrightarrow> slot base b (unat (max_element_num b)) = base + unat (block_size b)"
  by (simp add: slot_def shape_ok_def)

lemma chain_cong:
  "(\<And>x. x \<in> set F \<Longrightarrow> cells' x = cells x) \<Longrightarrow> chain cells' p F \<longleftrightarrow> chain cells p F"
  by (induction F arbitrary: p) auto

lemma chain_update [simp]: "e \<notin> set F \<Longrightarrow> chain (cells(e := v)) p F \<longleftrightarrow> chain cells p F"
  by (rule chain_cong) auto

section \<open>The operations keep the invariant\<close>

lemma slot_update [simp]:
  "slot base (b\<lparr>next_element_ptr := v\<rparr>) = slot base b"
  "slot base (b\<lparr>next_element_offset := w\<rparr>) = slot base b"
  "slot base (b\<lparr>element_used_cnt := c\<rparr>) = slot base b"
  by (auto simp: slot_def fun_eq_iff)

lemma shape_update [simp]:
  "shape_ok base (b\<lparr>next_element_ptr := v\<rparr>) = shape_ok base b"
  "shape_ok base (b\<lparr>next_element_offset := w\<rparr>) = shape_ok base b"
  "shape_ok base (b\<lparr>element_used_cnt := c\<rparr>) = shape_ok base b"
  by (auto simp: shape_ok_def)

lemma block_inv_card:
  assumes "block_inv base b cells F n U"
  shows "finite U" and "length F + card U = n" and "n < 65536"
proof -
  from assms have sh: "shape_ok base b" and un: "set F \<union> U = slot base b ` {..<n}"
    and dj: "set F \<inter> U = {}" and d: "distinct F" and n: "n \<le> unat (max_element_num b)"
    by (auto simp: block_inv_def)
  from un have "finite (set F \<union> U)" by simp
  then show fin: "finite U" by simp
  have "card (set F \<union> U) = n" unfolding un using slot_inj [OF sh] by (simp add: card_image)
  then show "length F + card U = n"
    using card_Un_disjoint [OF _ fin dj] d by (simp add: distinct_card)
  show "n < 65536" using n unat_bound [of "max_element_num b"] by simp
qed

lemma block_inv_slots:
  assumes "block_inv base b cells F n U" and "x \<in> set F \<union> U"
  obtains i where "x = slot base b i" and "i < n" and "i < unat (max_element_num b)"
  using assms by (auto simp: block_inv_def)

lemma block_inv_frame:
  "block_inv base b cells F n U \<Longrightarrow> (\<And>x. x \<in> set F \<Longrightarrow> cells' x = cells x) \<Longrightarrow>
   block_inv base b cells' F n U"
  using chain_cong [of F cells' cells] by (simp add: block_inv_def)

lemma MemoryBlockInit_fields [simp]:
  "block_size (MemoryBlockInit bs es) = bs"
  "element_size (MemoryBlockInit bs es) = es"
  "element_used_cnt (MemoryBlockInit bs es) = 0"
  "next_element_ptr (MemoryBlockInit bs es) = 0"
  "next_element_offset (MemoryBlockInit bs es) =
     bs - ucast (max_element_num (MemoryBlockInit bs es)) * es"
  by (simp_all add: MemoryBlockInit_def Let_def)

lemma MemoryBlockInit_max:
  assumes "sizeof_head \<le> unat bs"
  shows "unat (max_element_num (MemoryBlockInit bs es)) =
     (unat bs - sizeof_head) div unat es mod 65536"
proof -
  have "unat (ucast bs - of_nat sizeof_head :: u64) = unat bs - sizeof_head"
    using assms by (simp add: unat_minus_of_nat unat_ucast_up)
  moreover have "unat (ucast es :: u64) = unat es" by (simp add: unat_ucast_up)
  ultimately have "unat ((ucast bs - of_nat sizeof_head :: u64) div ucast es) =
      (unat bs - sizeof_head) div unat es"
    by (simp add: unat_div)
  then show ?thesis
    by (simp add: MemoryBlockInit_def Let_def unat_ucast_take_bit take_bit_eq_mod)
qed

lemma MemoryBlockInit_block_inv:
  assumes "base > 0" and "8 \<le> unat es" and "sizeof_head \<le> unat bs"
  shows "block_inv base (MemoryBlockInit bs es) cells [] 0 {}"
proof -
  let ?b = "MemoryBlockInit bs es"
  let ?m = "unat (max_element_num ?b)"
  have "?m * unat es \<le> (unat bs - sizeof_head) div unat es * unat es"
    unfolding MemoryBlockInit_max [OF assms(3)] by (intro mult_le_mono1) simp
  also have "\<dots> \<le> unat bs - sizeof_head" by simp
  finally have le: "?m * unat es \<le> unat bs - sizeof_head" .
  have "?m * unat es < 2 ^ 32"
    using le unat_bound [of bs] by simp
  then have "unat (ucast (max_element_num ?b) * es) = ?m * unat es"
    using unat_mult_lem [of "ucast (max_element_num ?b)" es] by (simp add: unat_ucast_up)
  then have "unat (next_element_offset ?b) = unat bs - ?m * unat es"
    using le by (simp add: unat_sub word_le_nat_alt)
  then show ?thesis
    using assms le by (simp add: block_inv_def shape_ok_def slot_def)
qed

lemma MemoryAlloc_reuse:
  assumes "block_inv base b cells (e # F) n U"
  shows "MemoryAlloc base b cells =
      (e, b\<lparr>next_element_ptr := cells e, element_used_cnt := element_used_cnt b + 1\<rparr>)"
    and "block_inv base (b\<lparr>next_element_ptr := cells e,
           element_used_cnt := element_used_cnt b + 1\<rparr>) cells F n (insert e U)"
proof -
  from assms have "next_element_ptr b = e" "e \<noteq> 0" by (auto simp: block_inv_def)
  then show "MemoryAlloc base b cells =
      (e, b\<lparr>next_element_ptr := cells e, element_used_cnt := element_used_cnt b + 1\<rparr>)"
    by (simp add: MemoryAlloc_def)
  from block_inv_card [OF assms] have fin: "finite U" and "card U + 1 < 65536" by auto
  then have "unat (element_used_cnt b + 1) = card U + 1"
    using assms by (subst unat_add_lem [THEN iffD1]) (simp_all add: block_inv_def)
  then show "block_inv base (b\<lparr>next_element_ptr := cells e,
           element_used_cnt := element_used_cnt b + 1\<rparr>) cells F n (insert e U)"
    using assms fin by (auto simp: block_inv_def)
qed

lemma MemoryAlloc_fresh:
  assumes "block_inv base b cells [] n U" and "n < unat (max_element_num b)"
  shows "MemoryAlloc base b cells =
      (slot base b n, b\<lparr>next_element_offset := next_element_offset b + element_size b,
                        element_used_cnt := element_used_cnt b + 1\<rparr>)"
    and "block_inv base (b\<lparr>next_element_offset := next_element_offset b + element_size b,
           element_used_cnt := element_used_cnt b + 1\<rparr>) cells [] (Suc n) (insert (slot base b n) U)"
proof -
  from assms(1) have sh: "shape_ok base b" and off: "base + unat (next_element_offset b) = slot base b n"
    and p: "next_element_ptr b = 0" and U: "U = slot base b ` {..<n}"
    by (auto simp: block_inv_def)
  note r = slot_range(2) [OF sh assms(2)]
  from r off sh have "next_element_offset b < block_size b"
    by (simp add: word_less_nat_alt shape_ok_def)
  with p off show "MemoryAlloc base b cells =
      (slot base b n, b\<lparr>next_element_offset := next_element_offset b + element_size b,
                        element_used_cnt := element_used_cnt b + 1\<rparr>)"
    by (simp add: MemoryAlloc_def)
  have "unat (next_element_offset b) + unat (element_size b) < 2 ^ 32"
    using r off unat_bound [of "block_size b"] by simp
  then have o': "unat (next_element_offset b + element_size b) =
      unat (next_element_offset b) + unat (element_size b)"
    using unat_add_lem [of "next_element_offset b" "element_size b"] by simp
  from block_inv_card [OF assms(1)] assms(2) unat_bound [of "max_element_num b"]
  have fin: "finite U" and c: "card U + 1 < 65536" by auto
  then have "unat (element_used_cnt b + 1) = card U + 1"
    using assms(1) by (subst unat_add_lem [THEN iffD1]) (simp_all add: block_inv_def)
  moreover have "slot base b n \<notin> U" using sh U by auto
  ultimately show "block_inv base (b\<lparr>next_element_offset := next_element_offset b + element_size b,
           element_used_cnt := element_used_cnt b + 1\<rparr>) cells [] (Suc n) (insert (slot base b n) U)"
    using assms fin o' off sh U by (simp add: block_inv_def slot_Suc lessThan_Suc)
qed

lemma MemoryAlloc_full:
  assumes "block_inv base b cells [] (unat (max_element_num b)) U"
  shows "MemoryAlloc base b cells = (0, b)"
proof -
  from assms have "base + unat (next_element_offset b) = base + unat (block_size b)"
    by (simp add: block_inv_def slot_full)
  then show ?thesis using assms by (simp add: MemoryAlloc_def block_inv_def word_less_nat_alt)
qed

lemma MemoryFree_block_inv:
  assumes "block_inv base b cells F n U" and "e \<in> U"
  shows "case MemoryFree base e b cells of (r, b', cells') \<Rightarrow>
     block_inv base b' cells' (e # F) n (U - {e}) \<and> cells' = cells(e := next_element_ptr b) \<and>
     block_size b' = block_size b \<and> element_size b' = element_size b \<and>
     max_element_num b' = max_element_num b \<and>
     r = (if U = {e} then 1 else if card U = unat (max_element_num b) then 0 else -1)"
proof -
  from assms(1) have sh: "shape_ok base b" by (simp add: block_inv_def)
  from block_inv_slots [OF assms(1), of e] assms(2)
  obtain i where i: "e = slot base b i" "i < unat (max_element_num b)" by auto
  note r = slot_range [OF sh i(2)]
  have in_block: "\<not> (e < base \<or> base + unat (block_size b) \<le> e)" and e0: "e \<noteq> 0"
    using r i(1) sh by (auto simp: shape_ok_def)
  from block_inv_card [OF assms(1)] have fin: "finite U" and le: "card U \<le> n" by auto
  have cnt: "unat (element_used_cnt b) = card U" using assms(1) by (simp add: block_inv_def)
  have pos: "0 < card U" using fin assms(2) by (auto simp: card_gt_0_iff)
  have dec: "unat (element_used_cnt b - 1) = card U - 1"
    using cnt pos by (simp add: unat_sub word_le_nat_alt)
  have one: "U = {e} \<longleftrightarrow> card U = 1" using assms(2) by (auto simp: card_1_singleton_iff)
  have z: "element_used_cnt b - 1 = 0 \<longleftrightarrow> U = {e}"
    using dec pos unfolding one unat_eq_0 [symmetric] by arith
  have f: "uint (element_used_cnt b - 1) = uint (max_element_num b) - 1 \<longleftrightarrow>
      card U = unat (max_element_num b)"
    using dec pos unfolding uint_nat by arith
  have "e \<notin> set F" using assms by (auto simp: block_inv_def)
  then have "block_inv base (b\<lparr>next_element_ptr := e, element_used_cnt := element_used_cnt b - 1\<rparr>)
      (cells(e := next_element_ptr b)) (e # F) n (U - {e})"
    using assms dec e0 fin by (auto simp: block_inv_def)
  then show ?thesis
    using in_block z f by (auto simp: MemoryFree_def Let_def)
qed

text \<open>
  Memory that a client writes through an element in use: every pointer-sized cell that overlaps
  the element may change, no other does.
\<close>

definition client_write :: "nat \<Rightarrow> nat \<Rightarrow> (nat \<Rightarrow> nat) \<Rightarrow> (nat \<Rightarrow> nat) \<Rightarrow> bool" where
  "client_write p sz cells cells' \<longleftrightarrow> (\<forall>a. \<not> (p < a + 8 \<and> a < p + sz) \<longrightarrow> cells' a = cells a)"

lemma block_inv_client_write:
  assumes "block_inv base b cells F n U" and "p \<in> U"
    and "client_write p (unat (element_size b)) cells cells'"
  shows "block_inv base b cells' F n U"
proof (rule block_inv_frame [OF assms(1)])
  fix x assume x: "x \<in> set F"
  from assms(1) have sh: "shape_ok base b" and "x \<noteq> p"
    using x assms(2) by (auto simp: block_inv_def)
  obtain i where i: "p = slot base b i" using block_inv_slots [OF assms(1), of p] assms(2) by auto
  obtain j where j: "x = slot base b j" using block_inv_slots [OF assms(1), of x] x by auto
  from i j \<open>x \<noteq> p\<close> have "i < j \<or> j < i" by (cases i j rule: linorder_cases) auto
  with slot_apart [of i j base b] slot_apart [of j i base b] sh i j
  have "\<not> (p < x + 8 \<and> x < p + unat (element_size b))" by (auto simp: shape_ok_def)
  then show "cells' x = cells x" using assms(3) by (simp add: client_write_def)
qed

lemma block_inv_apart:
  assumes "block_inv base b cells F n U" and "p \<in> U" and "q \<in> U" and "p < q"
  shows "p + unat (element_size b) \<le> q"
proof -
  from assms(1) have sh: "shape_ok base b" by (simp add: block_inv_def)
  obtain i where i: "p = slot base b i" using block_inv_slots [OF assms(1), of p] assms(2) by auto
  obtain j where j: "q = slot base b j" using block_inv_slots [OF assms(1), of q] assms(3) by auto
  from i j sh assms(4) show ?thesis using slot_apart [of i j base b] by simp
qed

lemma block_inv_range:
  assumes "block_inv base b cells F n U" and "p \<in> U"
  shows "base + sizeof_head \<le> p" and "p + unat (element_size b) \<le> base + unat (block_size b)"
proof -
  from assms(1) have sh: "shape_ok base b" by (simp add: block_inv_def)
  obtain i where "p = slot base b i" "i < unat (max_element_num b)"
    using block_inv_slots [OF assms(1), of p] assms(2) by auto
  with slot_range [OF sh, of i] show "base + sizeof_head \<le> p"
    and "p + unat (element_size b) \<le> base + unat (block_size b)" by simp_all
qed

text \<open>Allocation on every branch: reuse, a fresh slot, or nothing left.\<close>

lemma MemoryAlloc_block_ok:
  assumes "block_ok base b cells U" and "MemoryAlloc base b cells = (p, b')"
  shows "block_size b' = block_size b \<and> element_size b' = element_size b \<and>
     max_element_num b' = max_element_num b \<and>
     (if card U = unat (max_element_num b) then p = 0 \<and> b' = b
      else p \<notin> U \<and> p \<noteq> 0 \<and> block_ok base b' cells (insert p U))"
proof -
  from assms(1) obtain F n where inv: "block_inv base b cells F n U" by (auto simp: block_ok_def)
  note c = block_inv_card [OF inv]
  have n: "n \<le> unat (max_element_num b)" using inv by (simp add: block_inv_def)
  show ?thesis
  proof (cases F)
    case (Cons e G)
    with inv have e: "e \<notin> U" "e \<noteq> 0" "card U < unat (max_element_num b)"
      using c n by (auto simp: block_inv_def)
    from MemoryAlloc_reuse [of base b cells e G n U] inv Cons assms(2)
    have "p = e" "block_inv base b' cells G n (insert e U)" "block_size b' = block_size b"
      "element_size b' = element_size b" "max_element_num b' = max_element_num b" by auto
    with e show ?thesis by (auto simp: block_ok_def)
  next
    case Nil
    note inv = inv [unfolded Nil]
    from c Nil have cn: "card U = n" by simp
    show ?thesis
    proof (cases "n = unat (max_element_num b)")
      case True
      with MemoryAlloc_full [of base b cells U] inv assms(2) cn show ?thesis by simp
    next
      case False
      with n have lt: "n < unat (max_element_num b)" by simp
      from inv have sh: "shape_ok base b" and "U = slot base b ` {..<n}"
        by (auto simp: block_inv_def)
      then have "slot base b n \<notin> U" "slot base b n \<noteq> 0"
        using slot_range(1) [OF sh lt] by (auto simp: sizeof_head_def)
      with MemoryAlloc_fresh [OF inv lt] assms(2) cn False show ?thesis
        by (auto simp: block_ok_def)
    qed
  qed
qed

section \<open>A block is an allocator\<close>

definition block_alloc ::
    "nat \<Rightarrow> unit \<Rightarrow> MemoryBlockHead \<times> (nat \<Rightarrow> nat) \<Rightarrow> nat \<times> MemoryBlockHead \<times> (nat \<Rightarrow> nat)" where
  "block_alloc base e s = (let (p, b) = MemoryAlloc base (fst s) (snd s) in (p, b, snd s))"

definition block_release ::
    "nat \<Rightarrow> nat \<Rightarrow> MemoryBlockHead \<times> (nat \<Rightarrow> nat) \<Rightarrow> MemoryBlockHead \<times> (nat \<Rightarrow> nat)" where
  "block_release base p s = snd (MemoryFree base p (fst s) (snd s))"

definition block_touch ::
    "nat \<Rightarrow> MemoryBlockHead \<times> (nat \<Rightarrow> nat) \<Rightarrow> MemoryBlockHead \<times> (nat \<Rightarrow> nat) \<Rightarrow> bool" where
  "block_touch p s t \<longleftrightarrow> fst t = fst s \<and>
     client_write p (unat (element_size (fst s))) (snd s) (snd t)"

interpretation mb: allocator "\<lambda>s. block_ok base (fst s) (snd s)" "block_alloc base"
  "block_release base" block_touch "\<lambda>_ _ _. True" "\<lambda>s. unat (element_size (fst s))" for base
proof
  fix s t :: "MemoryBlockHead \<times> (nat \<Rightarrow> nat)" and L e p q
  assume inv: "block_ok base (fst s) (snd s) L"
  then obtain F n where i: "block_inv base (fst s) (snd s) F n L" by (auto simp: block_ok_def)
  { assume "block_alloc base e s = (p, t)" "p \<noteq> 0"
    with MemoryAlloc_block_ok [OF inv, of p "fst t"] show "p \<notin> L \<and> block_ok base (fst t) (snd t) (insert p L)"
      by (auto simp: block_alloc_def split: prod.splits if_splits) }
  { assume "block_alloc base e s = (0, t)"
    with MemoryAlloc_block_ok [OF inv, of 0 "fst t"] inv show "block_ok base (fst t) (snd t) L"
      by (auto simp: block_alloc_def split: prod.splits if_splits) }
  { assume "p \<in> L"
    from MemoryFree_block_inv [OF i this]
    show "block_ok base (fst (block_release base p s)) (snd (block_release base p s)) (L - {p})"
      by (auto simp: block_release_def block_ok_def split: prod.splits) }
  { assume "p \<in> L" "block_touch p s t"
    with block_inv_client_write [OF i, of p "snd t"] show "block_ok base (fst t) (snd t) L"
      by (auto simp: block_touch_def block_ok_def) }
  { assume "p \<in> L" "q \<in> L" "p < q"
    with block_inv_apart [OF i] show "p + unat (element_size (fst s)) \<le> q" by blast }
qed

section \<open>Properties\<close>

text \<open>
  \<open>MemoryAlloc\<close> fails exactly when all \<open>max_element_num\<close> elements are in use, and then
  changes nothing; otherwise it returns an element that was not in use and lies wholly inside the
  block and behind the head. No counter or offset wraps.
\<close>

theorem MemoryAlloc_spec:
  assumes "block_ok base b cells U" and "MemoryAlloc base b cells = (p, b')"
  shows "if card U = unat (max_element_num b) then p = 0 \<and> b' = b
     else p \<notin> U \<and> base + sizeof_head \<le> p \<and>
       p + unat (element_size b) \<le> base + unat (block_size b) \<and>
       unat (element_used_cnt b') = card U + 1 \<and> block_ok base b' cells (insert p U)"
proof (cases "card U = unat (max_element_num b)")
  case True
  with MemoryAlloc_block_ok [OF assms] show ?thesis by simp
next
  case False
  with MemoryAlloc_block_ok [OF assms]
  have b: "p \<notin> U" "block_ok base b' cells (insert p U)" "block_size b' = block_size b"
    "element_size b' = element_size b" by auto
  from b(2) obtain F n where i: "block_inv base b' cells F n (insert p U)"
    by (auto simp: block_ok_def)
  from block_inv_range [OF i, of p] block_inv_card(1) [OF i] i b False show ?thesis
    by (simp add: block_inv_def)
qed

theorem MemoryAlloc_spec_witness:
  "block_ok 1000 (MemoryBlockInit 4096 24) (\<lambda>_. 0) {} \<and>
   block_ok 1000 (snd (MemoryAlloc 1000 (MemoryBlockInit 4096 24) (\<lambda>_. 0))) (\<lambda>_. 0)
     {fst (MemoryAlloc 1000 (MemoryBlockInit 4096 24) (\<lambda>_. 0))}"
proof -
  let ?b = "MemoryBlockInit 4096 24"
  have ok: "block_ok 1000 ?b (\<lambda>_. 0) {}"
    using MemoryBlockInit_block_inv [of 1000 24 4096]
    by (auto simp: block_ok_def sizeof_head_def)
  have "unat (max_element_num ?b) = 169"
    by (simp add: MemoryBlockInit_max sizeof_head_def)
  with ok MemoryAlloc_spec [OF ok, of "fst (MemoryAlloc 1000 ?b (\<lambda>_. 0))"
      "snd (MemoryAlloc 1000 ?b (\<lambda>_. 0))"]
  show ?thesis by simp
qed

text \<open>
  \<open>MemoryFree\<close> of an element in use takes it back; its result is \<open>1\<close> exactly when the block
  is then empty, else \<open>0\<close> exactly when the block was full, else \<open>-1\<close>. A pointer outside the
  block is refused with \<open>-1\<close> and changes nothing.
\<close>

theorem MemoryFree_spec:
  assumes "block_ok base b cells U" and "MemoryFree base e b cells = (r, b', cells')"
  shows "(e \<in> U \<longrightarrow> block_ok base b' cells' (U - {e}) \<and>
            r = (if U = {e} then 1 else if card U = unat (max_element_num b) then 0 else -1)) \<and>
         (e < base \<or> base + unat (block_size b) \<le> e \<longrightarrow> r = -1 \<and> b' = b \<and> cells' = cells)"
proof -
  from assms(1) obtain F n where i: "block_inv base b cells F n U" by (auto simp: block_ok_def)
  from MemoryFree_block_inv [OF i, of e] assms(2)
  have "e \<in> U \<longrightarrow> block_ok base b' cells' (U - {e}) \<and>
      r = (if U = {e} then 1 else if card U = unat (max_element_num b) then 0 else -1)"
    by (auto simp: block_ok_def)
  moreover have "e < base \<or> base + unat (block_size b) \<le> e \<longrightarrow> r = -1 \<and> b' = b \<and> cells' = cells"
    using assms(2) by (auto simp: MemoryFree_def)
  ultimately show ?thesis by blast
qed

theorem MemoryFree_spec_witness:
  "block_ok 1000 (MemoryBlockInit 4096 24) (\<lambda>_. 0) {} \<and>
   MemoryFree 1000 5096 (MemoryBlockInit 4096 24) (\<lambda>_. 0) = (-1, MemoryBlockInit 4096 24, \<lambda>_. 0)"
proof -
  let ?b = "MemoryBlockInit 4096 24"
  have ok: "block_ok 1000 ?b (\<lambda>_. 0) {}"
    using MemoryBlockInit_block_inv [of 1000 24 4096] by (auto simp: block_ok_def sizeof_head_def)
  show ?thesis
    using ok MemoryFree_spec [OF ok, of 5096 "fst (MemoryFree 1000 5096 ?b (\<lambda>_. 0))"
        "fst (snd (MemoryFree 1000 5096 ?b (\<lambda>_. 0)))" "snd (snd (MemoryFree 1000 5096 ?b (\<lambda>_. 0)))"]
    by (simp add: prod_eq_iff)
qed

text \<open>
  C19: whatever sequence of allocations, releases of elements in use and writes into elements in
  use follows \<open>MemoryBlockInit\<close>, the elements in use are distinct and never overlap: the free
  chain threaded through released elements is never disturbed by clients.
\<close>

theorem MemoryBlock_histories_safe:
  assumes "base > 0" and "8 \<le> unat es" and "sizeof_head \<le> unat bs"
    and "mem_run (block_alloc base) (block_release base) block_touch (\<lambda>_ _ _. True)
           ((MemoryBlockInit bs es, cells), []) ((b, cells'), M)"
  shows "distinct M \<and> block_ok base b cells' (set M) \<and> unat (element_used_cnt b) = length M \<and>
     (\<forall>p\<in>set M. \<forall>q\<in>set M. p < q \<longrightarrow> p + unat (element_size b) \<le> q)"
proof -
  have "block_ok base (MemoryBlockInit bs es) cells {}"
    using MemoryBlockInit_block_inv [OF assms(1-3)] by (auto simp: block_ok_def)
  with mb.run_inv [OF assms(4)] mb.run_safe [OF assms(4)]
  show ?thesis by (auto simp: block_ok_def block_inv_def distinct_card)
qed

theorem MemoryBlock_histories_safe_witness:
  "distinct [1080 :: nat, 1040] \<and> unat (element_used_cnt (snd (MemoryAlloc 1000
     (snd (MemoryAlloc 1000 (MemoryBlockInit 120 40) (\<lambda>_. 0))) (\<lambda>_. 0)))) = 2"
proof -
  let ?s0 = "(MemoryBlockInit 120 40, \<lambda>_. 0) :: MemoryBlockHead \<times> (nat \<Rightarrow> nat)"
  let ?s1 = "snd (block_alloc 1000 () ?s0)" and ?s2 = "snd (block_alloc 1000 () (snd (block_alloc 1000 () ?s0)))"
  have a: "fst (block_alloc 1000 () ?s0) = 1040" "fst (block_alloc 1000 () ?s1) = 1080"
    by code_simp+
  have "mem_run (block_alloc 1000) (block_release 1000) block_touch (\<lambda>_ _ _. True)
      (?s0, []) (?s1, if (1040::nat) = 0 then [] else 1040 # [])"
    by (rule mem_run.take [of _ _ _ _ _ ?s0 _ "()"])
      (use a in \<open>auto intro: mem_run.start simp: prod_eq_iff\<close>)
  then have "mem_run (block_alloc 1000) (block_release 1000) block_touch (\<lambda>_ _ _. True)
      (?s0, []) (?s2, if (1080::nat) = 0 then [1040] else 1080 # [1040])"
    by (intro mem_run.take [of _ _ _ _ _ ?s1 _ "()"]) (use a in \<open>auto simp: prod_eq_iff\<close>)
  with MemoryBlock_histories_safe [of 1000 40 120 "\<lambda>_. 0" "fst ?s2" "snd ?s2" "[1080, 1040]"]
  show ?thesis by (simp add: sizeof_head_def block_alloc_def split_beta)
qed

end
