(* ===== verification/Block_Pool.thy ===== *)
theory Block_Pool
  imports Memory_Block Types
begin

text \<open>
  \<^verbatim>\<open>include/xfutil/block_pool.h\<close> and \<^verbatim>\<open>src/block_pool.cpp\<close>: a cache of large blocks in front of the C
  library's allocator. Addresses are natural numbers with \<open>0\<close> as the null pointer. The answer of
  the C library, should the code ask it, is an argument; a block handed back to the C library is
  a result. Every method body runs under the pool's spin lock, so a method is one step.
\<close>

section \<open>Definitions\<close>

record BlockPool =
  m_block_size :: u32
  m_cache_start :: nat
  m_cache_end :: nat
  m_free_blocks :: "nat list"

definition BLOCK_ALGIN :: u32 where
  "BLOCK_ALGIN = 4096"

definition BlockPool_new :: BlockPool where
  "BlockPool_new = \<lparr>m_block_size = 0, m_cache_start = 0, m_cache_end = 0, m_free_blocks = []\<rparr>"

fun push_blocks :: "nat \<Rightarrow> nat \<Rightarrow> nat \<Rightarrow> nat list \<Rightarrow> nat list" where
  "push_blocks 0 bs buf blocks = blocks"
| "push_blocks (Suc n) bs buf blocks = push_blocks n bs (buf + bs) (blocks @ [buf])"

definition BlockPool_Init :: "nat \<Rightarrow> u32 \<Rightarrow> u32 \<Rightarrow> BlockPool \<Rightarrow> bool \<times> BlockPool" where
  "BlockPool_Init malloc_res bs cache_num p =
     (if bs < BLOCK_ALGIN \<or> bs mod BLOCK_ALGIN \<noteq> 0 then (False, p)
      else if m_cache_start p \<noteq> 0 then (False, p)
      else
        let p = p\<lparr>m_block_size := bs\<rparr>;
            sz = (ucast (m_block_size p) * ucast cache_num :: u64);
            buf = malloc_res
        in if buf = 0 then (False, p)
           else (True, p\<lparr>m_cache_start := buf, m_cache_end := buf + unat sz,
                         m_free_blocks := push_blocks (unat cache_num) (unat (m_block_size p)) buf
                                            (m_free_blocks p)\<rparr>))"

definition BlockPool_Alloc :: "nat \<Rightarrow> BlockPool \<Rightarrow> nat \<times> BlockPool" where
  "BlockPool_Alloc malloc_res p =
     (case m_free_blocks p of
        buf # rest \<Rightarrow> (buf, p\<lparr>m_free_blocks := rest\<rparr>)
      | [] \<Rightarrow> (malloc_res, p))"

text \<open>The first component of the result is the block given to \<^verbatim>\<open>xfree\<close>, if any.\<close>

definition BlockPool_Free :: "nat \<Rightarrow> BlockPool \<Rightarrow> nat option \<times> BlockPool" where
  "BlockPool_Free block p =
     (if block \<ge> m_cache_start p \<and> block < m_cache_end p
      then (None, p\<lparr>m_free_blocks := block # m_free_blocks p\<rparr>)
      else (Some block, p))"

definition BlockPool_BlockSize :: "BlockPool \<Rightarrow> u32" where
  "BlockPool_BlockSize p = m_block_size p"

definition BlockPool_destroy :: "BlockPool \<Rightarrow> nat option \<times> BlockPool" where
  "BlockPool_destroy p =
     (if m_cache_start p \<noteq> 0
      then (Some (m_cache_start p), p\<lparr>m_cache_start := 0, m_cache_end := 0\<rparr>)
      else (None, p))"

section \<open>Specification vocabulary\<close>

text \<open>
  \<open>cached p\<close>: the blocks of the cache region. \<open>pool_inv p L\<close>: every cached block is either free
  or in use, never both, never twice; the other blocks in use lie outside the cache region and
  do not overlap. \<open>malloc_ok\<close>-style promise of the C library: a new block overlaps neither the
  cache region nor a block in use.
\<close>

definition cached :: "BlockPool \<Rightarrow> nat set" where
  "cached p = {m_cache_start p + i * unat (m_block_size p) | i.
     m_cache_start p + Suc i * unat (m_block_size p) \<le> m_cache_end p}"

definition beside :: "BlockPool \<Rightarrow> nat \<Rightarrow> bool" where
  "beside p x \<longleftrightarrow> m_cache_end p \<le> m_cache_start p \<or>
     x + unat (m_block_size p) \<le> m_cache_start p \<or> m_cache_end p \<le> x"

definition pool_inv :: "BlockPool \<Rightarrow> nat set \<Rightarrow> bool" where
  "pool_inv p L \<longleftrightarrow> 0 < unat (m_block_size p) \<and> 0 < m_cache_start p \<and>
     distinct (m_free_blocks p) \<and> set (m_free_blocks p) \<inter> L = {} \<and>
     set (m_free_blocks p) \<subseteq> cached p \<and> cached p \<subseteq> set (m_free_blocks p) \<union> L \<and>
     (\<forall>x\<in>L. x \<in> cached p \<or> beside p x) \<and>
     (\<forall>x\<in>L. \<forall>y\<in>L. x < y \<longrightarrow> x + unat (m_block_size p) \<le> y)"

definition block_answer_ok :: "nat \<Rightarrow> BlockPool \<Rightarrow> nat set \<Rightarrow> bool" where
  "block_answer_ok x p L \<longleftrightarrow> x = 0 \<or>
     (beside p x \<and> (\<forall>y\<in>L. x + unat (m_block_size p) \<le> y \<or> y + unat (m_block_size p) \<le> x))"

section \<open>The pool is an allocator\<close>

lemma push_blocks_eq:
  "push_blocks n bs buf blocks = blocks @ map (\<lambda>i. buf + i * bs) [0..<n]"
proof (induction n arbitrary: buf blocks)
  case (Suc n)
  have "[0..<Suc n] = 0 # map Suc [0..<n]" by (simp add: upt_conv_Cons map_Suc_upt del: upt_Suc)
  then show ?case by (simp add: Suc.IH del: upt_Suc)
qed simp

lemma cached_apart:
  assumes "x \<in> cached p" and "y \<in> cached p" and "x < y"
  shows "x + unat (m_block_size p) \<le> y"
proof -
  let ?s = "unat (m_block_size p)"
  from assms obtain i j where x: "x = m_cache_start p + i * ?s" and y: "y = m_cache_start p + j * ?s"
    by (auto simp: cached_def)
  with assms(3) have "i < j" by simp
  then have "Suc i * ?s \<le> j * ?s" by (intro mult_le_mono1) simp
  then show ?thesis by (simp add: x y)
qed

lemma cached_beside_apart:
  assumes "x \<in> cached p" and "beside p y"
  shows "x < y \<Longrightarrow> x + unat (m_block_size p) \<le> y" and "y < x \<Longrightarrow> y + unat (m_block_size p) \<le> x"
  using assms by (auto simp: cached_def beside_def)

lemma cached_in_range:
  assumes "x \<in> cached p" and "0 < unat (m_block_size p)"
  shows "m_cache_start p \<le> x" and "x < m_cache_end p"
  using assms by (auto simp: cached_def)

lemma cached_update [simp]: "cached (p\<lparr>m_free_blocks := v\<rparr>) = cached p"
  and beside_update [simp]: "beside (p\<lparr>m_free_blocks := v\<rparr>) = beside p"
  by (auto simp: cached_def beside_def fun_eq_iff)

lemma BlockPool_Alloc_inv:
  assumes "pool_inv p L" and "block_answer_ok e p L" and "BlockPool_Alloc e p = (x, q)" and "x \<noteq> 0"
  shows "x \<notin> L \<and> pool_inv q (insert x L)"
proof (cases "m_free_blocks p")
  case Nil
  with assms have "x = e" "q = p" "beside p x"
    and y: "\<forall>y\<in>L. x + unat (m_block_size p) \<le> y \<or> y + unat (m_block_size p) \<le> x"
    by (auto simp: BlockPool_Alloc_def block_answer_ok_def)
  then show ?thesis using assms(1) Nil by (auto simp: pool_inv_def)
next
  case (Cons f fs)
  with assms have q: "x = f" "q = p\<lparr>m_free_blocks := fs\<rparr>" by (auto simp: BlockPool_Alloc_def)
  from assms(1) Cons have f: "f \<in> cached p" "f \<notin> L" by (auto simp: pool_inv_def)
  have "x + unat (m_block_size p) \<le> y" if "y \<in> L" "x < y" for y
    using that assms(1) f cached_apart [of x p y] cached_beside_apart(1) [of x p y]
    by (auto simp: q pool_inv_def)
  moreover have "y + unat (m_block_size p) \<le> x" if "y \<in> L" "y < x" for y
    using that assms(1) f cached_apart [of y p x] cached_beside_apart(2) [of x p y]
    by (auto simp: q pool_inv_def)
  ultimately show ?thesis using assms(1) Cons f by (auto simp: pool_inv_def q)
qed

lemma BlockPool_Alloc_fields:
  assumes "BlockPool_Alloc e p = (x, q)"
  shows "m_block_size q = m_block_size p" and "cached q = cached p" and "beside q = beside p"
    and "x = e \<or> x \<in> set (m_free_blocks p)"
  using assms by (auto simp: BlockPool_Alloc_def split: list.splits)

lemma BlockPool_Alloc_nonzero:
  assumes "pool_inv p L" and "BlockPool_Alloc e p = (x, q)" and "e \<noteq> 0"
  shows "x \<noteq> 0"
proof (cases "x = e")
  case False
  with BlockPool_Alloc_fields(4) [OF assms(2)] assms(1) have "x \<in> cached p" by (auto simp: pool_inv_def)
  with cached_in_range(1) [of x p] assms(1) show ?thesis by (auto simp: pool_inv_def)
qed (use assms in simp)

lemma BlockPool_Free_inv:
  assumes "pool_inv p L" and "x \<in> L"
  shows "pool_inv (snd (BlockPool_Free x p)) (L - {x})"
    and "fst (BlockPool_Free x p) = (if x \<in> cached p then None else Some x)"
proof -
  have c: "m_cache_start p \<le> x \<and> x < m_cache_end p \<longleftrightarrow> x \<in> cached p"
    using assms cached_in_range [of x p] by (auto simp: pool_inv_def beside_def)
  show "fst (BlockPool_Free x p) = (if x \<in> cached p then None else Some x)"
    using c by (simp add: BlockPool_Free_def)
  show "pool_inv (snd (BlockPool_Free x p)) (L - {x})"
    using assms c by (auto simp: BlockPool_Free_def pool_inv_def)
qed

interpretation bp: allocator pool_inv BlockPool_Alloc "\<lambda>x p. snd (BlockPool_Free x p)"
  "\<lambda>_ p q. q = p" block_answer_ok "\<lambda>p. unat (m_block_size p)"
proof
  fix p q :: BlockPool and L e x y
  assume inv: "pool_inv p L"
  { assume "block_answer_ok e p L" "BlockPool_Alloc e p = (x, q)" "x \<noteq> 0"
    with BlockPool_Alloc_inv [OF inv] show "x \<notin> L \<and> pool_inv q (insert x L)" by blast }
  { assume "BlockPool_Alloc e p = (0, q)"
    moreover have "0 \<notin> set (m_free_blocks p)"
      using inv cached_in_range [of 0 p] by (auto simp: pool_inv_def)
    ultimately show "pool_inv q L"
      using inv by (auto simp: BlockPool_Alloc_def split: list.splits) }
  { assume "x \<in> L" then show "pool_inv (snd (BlockPool_Free x p)) (L - {x})"
      by (rule BlockPool_Free_inv [OF inv]) }
  { assume "x \<in> L" "y \<in> L" "x < y" then show "x + unat (m_block_size p) \<le> y"
      using inv by (simp add: pool_inv_def) }
qed (simp)

lemma BlockPool_Init_ok:
  assumes "BLOCK_ALGIN \<le> bs" and "bs mod BLOCK_ALGIN = 0" and "buf \<noteq> 0"
  shows "\<exists>p. BlockPool_Init buf bs num BlockPool_new = (True, p) \<and> pool_inv p {} \<and>
     m_block_size p = bs \<and> m_cache_start p = buf \<and> m_cache_end p = buf + unat bs * unat num \<and>
     m_free_blocks p = map (\<lambda>i. buf + i * unat bs) [0..<unat num]"
proof -
  have "unat bs * unat num < 2 ^ 32 * 2 ^ 32"
    using unat_bound [of bs] unat_bound [of num] by (intro mult_strict_mono) auto
  then have sz: "unat (ucast bs * ucast num :: u64) = unat bs * unat num"
    using unat_mult_lem [of "ucast bs :: u64" "ucast num"] by (simp add: unat_ucast_up)
  from assms(1) have pos: "0 < unat bs" by (simp add: BLOCK_ALGIN_def word_le_nat_alt)
  define p where "p = \<lparr>m_block_size = bs, m_cache_start = buf, m_cache_end = buf + unat bs * unat num,
      m_free_blocks = map (\<lambda>i. buf + i * unat bs) [0..<unat num]\<rparr>"
  have "buf + Suc i * unat bs \<le> buf + unat bs * unat num \<longleftrightarrow> i < unat num" for i
    using pos by (simp add: Suc_le_eq mult.commute del: mult_Suc)
  then have "cached p = set (m_free_blocks p)"
    by (auto simp: cached_def p_def simp del: mult_Suc)
  then have "pool_inv p {}"
    using assms(3) pos by (simp add: pool_inv_def p_def distinct_map inj_on_def)
  moreover have "BlockPool_Init buf bs num BlockPool_new = (True, p)"
    using assms sz by (simp add: BlockPool_Init_def BlockPool_new_def p_def push_blocks_eq)
  ultimately show ?thesis by (simp add: p_def)
qed

section \<open>Properties\<close>

text \<open>
  \<open>Init\<close> on a new pool succeeds exactly when the block size is a positive multiple of 4096
  and the C library has memory; the cache then holds \<open>cache_num\<close> adjacent blocks from the start
  of the buffer on, in order, and the size computation does not wrap. A second \<open>Init\<close> of a pool
  that succeeded is refused and changes nothing.
\<close>

theorem BlockPool_Init_spec:
  "(fst (BlockPool_Init buf bs num BlockPool_new) \<longleftrightarrow>
      BLOCK_ALGIN \<le> bs \<and> bs mod BLOCK_ALGIN = 0 \<and> buf \<noteq> 0) \<and>
   (case BlockPool_Init buf bs num BlockPool_new of (r, p) \<Rightarrow> r \<longrightarrow>
      pool_inv p {} \<and> m_free_blocks p = map (\<lambda>i. buf + i * unat bs) [0..<unat num] \<and>
      m_cache_end p = buf + unat bs * unat num \<and>
      BlockPool_Init buf' bs' num' p = (False, p))"
proof (cases "BLOCK_ALGIN \<le> bs \<and> bs mod BLOCK_ALGIN = 0 \<and> buf \<noteq> 0")
  case True
  then obtain p where p: "BlockPool_Init buf bs num BlockPool_new = (True, p)" "pool_inv p {}"
    "m_cache_start p = buf" "m_cache_end p = buf + unat bs * unat num"
    "m_free_blocks p = map (\<lambda>i. buf + i * unat bs) [0..<unat num]"
    using BlockPool_Init_ok [of bs buf num] by auto
  then have "BlockPool_Init buf' bs' num' p = (False, p)"
    using p(3) True by (simp add: BlockPool_Init_def)
  then show ?thesis using p True by simp
next
  case False
  then have "\<not> fst (BlockPool_Init buf bs num BlockPool_new)"
    by (auto simp: BlockPool_Init_def BlockPool_new_def)
  then show ?thesis using False by (auto split: prod.splits)
qed

theorem BlockPool_Init_spec_witness:
  "fst (BlockPool_Init 1000 8192 3 BlockPool_new) \<and>
   m_free_blocks (snd (BlockPool_Init 1000 8192 3 BlockPool_new)) = [1000, 9192, 17384]"
  using BlockPool_Init_spec [of 1000 8192 3 0 0 0]
  by (auto simp: BLOCK_ALGIN_def upt_rec split: prod.splits)

text \<open>
  C18: after a successful \<open>Init\<close>, whatever clients allocate and release, the blocks in use are
  distinct and do not overlap, provided the C library's own blocks overlap neither the cache nor
  a block in use.
\<close>

theorem BlockPool_histories_safe:
  assumes "BlockPool_Init buf bs num BlockPool_new = (True, p)"
    and "mem_run BlockPool_Alloc (\<lambda>x p. snd (BlockPool_Free x p)) (\<lambda>_ p q. q = p) block_answer_ok
           (p, []) (q, M)"
  shows "distinct M \<and> pool_inv q (set M) \<and>
     (\<forall>x\<in>set M. \<forall>y\<in>set M. x < y \<longrightarrow> x + unat (m_block_size q) \<le> y)"
proof -
  from assms(1) have "BLOCK_ALGIN \<le> bs" "bs mod BLOCK_ALGIN = 0" "buf \<noteq> 0"
    by (auto simp: BlockPool_Init_def BlockPool_new_def Let_def split: if_splits)
  with BlockPool_Init_ok [of bs buf num] assms(1) have "pool_inv p {}" by auto
  with bp.run_inv [OF assms(2)] bp.run_safe [OF assms(2)] show ?thesis by simp
qed

theorem BlockPool_histories_safe_witness:
  "BlockPool_Init 1000 4096 1 BlockPool_new = (True, \<lparr>m_block_size = 4096, m_cache_start = 1000,
     m_cache_end = 5096, m_free_blocks = [1000]\<rparr>) \<and>
   pool_inv \<lparr>m_block_size = 4096, m_cache_start = 1000, m_cache_end = 5096, m_free_blocks = []\<rparr>
     {9000, 1000}"
proof -
  let ?p = "\<lparr>m_block_size = 4096, m_cache_start = 1000, m_cache_end = 5096, m_free_blocks = [1000]\<rparr>"
  let ?q = "?p\<lparr>m_free_blocks := []\<rparr>"
  let ?run = "mem_run BlockPool_Alloc (\<lambda>x p. snd (BlockPool_Free x p)) (\<lambda>_ p q. q = p) block_answer_ok"
  have init: "BlockPool_Init 1000 4096 1 BlockPool_new = (True, ?p)" by code_simp
  have "?run (?p, []) (?q, if (1000::nat) = 0 then [] else 1000 # [])"
    by (rule mem_run.take [of _ _ _ _ _ ?p _ 0])
      (auto intro: mem_run.start simp: block_answer_ok_def BlockPool_Alloc_def)
  then have "?run (?p, []) (?q, if (9000::nat) = 0 then [1000] else 9000 # [1000])"
    by (intro mem_run.take [of _ _ _ _ _ ?q _ 9000])
      (auto simp: block_answer_ok_def BlockPool_Alloc_def beside_def)
  with BlockPool_histories_safe [OF init, of ?q "[9000, 1000]"] init show ?thesis by simp
qed

text \<open>
  \<open>Free\<close> sends every block in use back where it came from: a block of the cache becomes the
  next one \<open>Alloc\<close> returns and is never given to \<^verbatim>\<open>xfree\<close>; a block of the C library is given to
  \<^verbatim>\<open>xfree\<close> and never enters the cache.
\<close>

theorem BlockPool_Free_routes:
  assumes "pool_inv p L" and "x \<in> L" and "BlockPool_Free x p = (freed, q)"
  shows "pool_inv q (L - {x}) \<and>
     (if x \<in> cached p then freed = None \<and> fst (BlockPool_Alloc e q) = x
      else freed = Some x \<and> q = p)"
proof -
  from BlockPool_Free_inv [OF assms(1,2)] assms(3)
  have q: "pool_inv q (L - {x})" "freed = (if x \<in> cached p then None else Some x)" by simp_all
  with assms(3) show ?thesis
    by (auto simp: BlockPool_Free_def BlockPool_Alloc_def split: if_splits)
qed

theorem BlockPool_Free_routes_witness:
  "BlockPool_Free 1000 \<lparr>m_block_size = 4096, m_cache_start = 1000, m_cache_end = 5096,
     m_free_blocks = []\<rparr> = (None, \<lparr>m_block_size = 4096, m_cache_start = 1000, m_cache_end = 5096,
     m_free_blocks = [1000]\<rparr>) \<and>
   pool_inv \<lparr>m_block_size = 4096, m_cache_start = 1000, m_cache_end = 5096,
     m_free_blocks = [1000]\<rparr> {}"
proof -
  let ?p = "\<lparr>m_block_size = 4096, m_cache_start = 1000, m_cache_end = 5096, m_free_blocks = []\<rparr>"
  have "cached ?p = {1000}" by (auto simp: cached_def intro: exI [of _ 0])
  then have "pool_inv ?p {1000}" by (simp add: pool_inv_def)
  moreover have "BlockPool_Free 1000 ?p = (None, ?p\<lparr>m_free_blocks := [1000]\<rparr>)"
    by (simp add: BlockPool_Free_def)
  ultimately show ?thesis using BlockPool_Free_routes [of ?p "{1000}" 1000] by simp
qed

section \<open>The assertion of the aligned allocation\<close>

text \<open>
  \<open>Init\<close> accepts every multiple of 4096 as block size. \<open>Alloc\<close> passes it to the aligned \<^verbatim>\<open>xmalloc\<close>,
  whose assertion admits powers of two only: a build with assertions stops there for any other size.
\<close>

lemma BlockPool_xmalloc_asserts:
  assumes "BlockPool_Init buf bs num BlockPool_new = (True, p)"
  shows "xmalloc_asserts (ucast (m_block_size p)) (ucast BLOCK_ALGIN) \<longleftrightarrow> (\<exists>k. unat bs = 2 ^ k)"
proof -
  from assms have p: "m_block_size p = bs" and "BLOCK_ALGIN \<le> bs"
    by (auto simp: BlockPool_Init_def BlockPool_new_def Let_def split: if_splits)
  then have "unat bs \<noteq> 0" by (simp add: BLOCK_ALGIN_def word_le_nat_alt)
  moreover have "unat (ucast bs :: u64) = unat bs"
    by (rule unat_ucast_up) simp
  moreover have "\<exists>k. unat (ucast BLOCK_ALGIN :: u64) = 2 ^ k"
    by (rule exI [of _ 12]) (simp add: BLOCK_ALGIN_def)
  ultimately show ?thesis
    unfolding xmalloc_asserts_iff p by (auto simp flip: unat_eq_0)
qed

lemma BlockPool_xmalloc_asserts_12288:
  "fst (BlockPool_Init 20000 12288 3 BlockPool_new) \<and>
   \<not> xmalloc_asserts (ucast (12288 :: u32)) (ucast BLOCK_ALGIN)"
  by (simp add: BlockPool_Init_def BlockPool_new_def BLOCK_ALGIN_def xmalloc_asserts_def Let_def)

end
