(* ===== verification/Memory_Pool.thy ===== *)
theory Memory_Pool
  imports Block_Pool Intrusive_List "HOL-Library.Monad_Syntax"
begin

text \<open>
  \<^verbatim>\<open>include/xfutil/memory_pool.h\<close> and \<^verbatim>\<open>src/memory_pool.cpp\<close>: a pool of small elements of one size. A
  first block of elements is taken from the C library by \<open>Init\<close>; when it is exhausted, blocks of
  the block pool are carved into elements. Blocks with room are on \<^verbatim>\<open>m_free_list\<close>, full ones on
  \<^verbatim>\<open>m_full_list\<close>, and \<^verbatim>\<open>m_blocks\<close> (a \<^verbatim>\<open>std::set\<close>, here its elements in increasing order) holds the
  end of every block, through which an element finds its block.

  The state carries the block pool, the heads and the pointer cells of the memory it owns and the
  list nodes: a node is the sentinel of one of the two lists or the \<^verbatim>\<open>node\<close> field of the head at
  an address, so \<^verbatim>\<open>container_of\<close> is the inverse of \<open>HeadNode\<close>. \<^const>\<open>None\<close> is undefined behaviour (a
  null head dereferenced, a division by an element size of zero). \<open>Alloc\<close> and \<open>Free\<close> leave the mutex
  while they talk to the block pool; the parts under the lock are definitions of their own, and
  \<open>mp_step\<close> interleaves them. As in release builds, \<^verbatim>\<open>assert\<close> does nothing.
\<close>

section \<open>Definitions\<close>

datatype list_node = FreeList | FullList | HeadNode nat

record MemoryPool =
  m_block_pool :: BlockPool
  m_used_cnt :: u64
  m_cache_num :: u32
  m_element_size :: u32
  m_cache_block_head :: nat
  m_cache_block_end :: nat
  m_nodes :: "list_node list_heap"
  m_blocks :: "nat list"
  m_heads :: "nat \<Rightarrow> MemoryBlockHead"
  m_cells :: "nat \<Rightarrow> nat"

text \<open>The last two arguments are the contents of memory when the pool is made.\<close>

definition MemoryPool_new ::
    "BlockPool \<Rightarrow> list_node list_heap \<Rightarrow> (nat \<Rightarrow> MemoryBlockHead) \<Rightarrow> (nat \<Rightarrow> nat) \<Rightarrow> MemoryPool" where
  "MemoryPool_new bp nodes heads cells =
     \<lparr>m_block_pool = bp, m_used_cnt = 0, m_cache_num = 0, m_element_size = 0,
      m_cache_block_head = 0, m_cache_block_end = 0,
      m_nodes = ListInit FullList (ListInit FreeList nodes),
      m_blocks = [], m_heads = heads, m_cells = cells\<rparr>"

text \<open>The pointer the destructor gives to \<^verbatim>\<open>xfree\<close>.\<close>

definition MemoryPool_destroy :: "MemoryPool \<Rightarrow> nat option" where
  "MemoryPool_destroy p = (if m_cache_block_head p \<noteq> 0 then Some (m_cache_block_head p) else None)"

text \<open>\<^verbatim>\<open>ALIGN_UP(size, sizeof(void*))\<close> is computed in 64 bits and stored in 32.\<close>

definition ALIGN_UP_ptr :: "u32 \<Rightarrow> u32" where
  "ALIGN_UP_ptr sz = ucast ((ucast sz + (8 - 1)) AND NOT (8 - 1) :: u64)"

definition set_head :: "nat \<Rightarrow> MemoryBlockHead \<Rightarrow> MemoryPool \<Rightarrow> MemoryPool" where
  "set_head a b p = p\<lparr>m_heads := (m_heads p)(a := b)\<rparr>"

definition MemoryPool_Init :: "nat \<Rightarrow> u32 \<Rightarrow> u32 \<Rightarrow> MemoryPool \<Rightarrow> (bool \<times> MemoryPool) option" where
  "MemoryPool_Init malloc_res element_sz cache_num p =
     (let p = p\<lparr>m_cache_num := cache_num\<rparr>;
          p = p\<lparr>m_element_size := ALIGN_UP_ptr element_sz\<rparr>;
          total_size = (ucast cache_num * ucast (m_element_size p) + of_nat sizeof_head :: u64);
          p = p\<lparr>m_cache_block_head := malloc_res\<rparr>
      in if m_cache_block_head p = 0 then Some (False, p)
         else if m_element_size p = 0 then None
         else
           let p = p\<lparr>m_cache_block_end := m_cache_block_head p + unat total_size\<rparr>
           in Some (True, set_head (m_cache_block_head p)
                            (MemoryBlockInit (ucast total_size) (m_element_size p)) p))"

definition GetFreeMemoryBlock :: "MemoryPool \<Rightarrow> nat option" where
  "GetFreeMemoryBlock p =
     (if ListEmtpy (m_nodes p) FreeList then None
      else case ListHead (m_nodes p) FreeList of HeadNode a \<Rightarrow> Some a | _ \<Rightarrow> None)"

definition FindMemoryBlock :: "nat \<Rightarrow> MemoryPool \<Rightarrow> nat option" where
  "FindMemoryBlock ptr p =
     map_option (\<lambda>end. end - unat (BlockPool_BlockSize (m_block_pool p)))
       (find (\<lambda>end. ptr < end) (m_blocks p))"

definition RemoveMemoryBlock :: "nat \<Rightarrow> MemoryPool \<Rightarrow> MemoryPool" where
  "RemoveMemoryBlock head p =
     (let end = head + unat (BlockPool_BlockSize (m_block_pool p));
          p = p\<lparr>m_nodes := ListDelete (HeadNode head) (m_nodes p)\<rparr>
      in p\<lparr>m_blocks := removeAll end (m_blocks p)\<rparr>)"

definition AddMemoryBlock :: "nat \<Rightarrow> MemoryPool \<Rightarrow> MemoryPool" where
  "AddMemoryBlock head p =
     (let end = head + unat (BlockPool_BlockSize (m_block_pool p));
          p = p\<lparr>m_blocks := insort_insert end (m_blocks p)\<rparr>
      in p\<lparr>m_nodes := ListAddHead (HeadNode head) FreeList (m_nodes p)\<rparr>)"

text \<open>\<^verbatim>\<open>MemoryAlloc\<close> and \<^verbatim>\<open>MemoryFree\<close> on the head at an address of the pool's memory.\<close>

definition head_alloc :: "nat \<Rightarrow> MemoryPool \<Rightarrow> nat \<times> MemoryPool" where
  "head_alloc head p =
     (let (ptr, b) = MemoryAlloc head (m_heads p head) (m_cells p) in (ptr, set_head head b p))"

definition head_free :: "nat \<Rightarrow> nat \<Rightarrow> MemoryPool \<Rightarrow> int \<times> MemoryPool" where
  "head_free head element p =
     (let (ret, b, cells) = MemoryFree head element (m_heads p head) (m_cells p)
      in (ret, set_head head b (p\<lparr>m_cells := cells\<rparr>)))"

text \<open>
  \<open>Alloc\<close>, first part under the lock: an element of the first block, or of the first block on the
  free list; a block that has none left moves to the full list. The result \<open>0\<close> means that a new
  block is needed.
\<close>

definition Alloc_locked :: "MemoryPool \<Rightarrow> (nat \<times> MemoryPool) option" where
  "Alloc_locked p =
     (if m_cache_block_head p = 0 then None
      else
        let (ptr, p) = head_alloc (m_cache_block_head p) p
        in if ptr \<noteq> 0 then Some (ptr, p\<lparr>m_used_cnt := m_used_cnt p + 1\<rparr>)
           else case GetFreeMemoryBlock p of
             None \<Rightarrow> Some (0, p)
           | Some head \<Rightarrow>
               let (ptr, p) = head_alloc head p
               in if ptr \<noteq> 0 then Some (ptr, p\<lparr>m_used_cnt := m_used_cnt p + 1\<rparr>)
                  else
                    let p = p\<lparr>m_nodes := ListDelete (HeadNode head) (m_nodes p)\<rparr>;
                        p = p\<lparr>m_nodes := ListAddTail (HeadNode head) FullList (m_nodes p)\<rparr>
                    in Some (0, p))"

text \<open>
  The part of \<open>Alloc\<close> outside the lock: a block of the pool (\<open>malloc_res\<close> is the answer of the C
  library, should the pool ask it), its head and its first element.
\<close>

definition Alloc_block :: "nat \<Rightarrow> MemoryPool \<Rightarrow> (nat \<times> nat \<times> MemoryPool) option" where
  "Alloc_block malloc_res p =
     (let (head, bp) = BlockPool_Alloc malloc_res (m_block_pool p);
          p = p\<lparr>m_block_pool := bp\<rparr>
      in if head = 0 \<or> m_element_size p = 0 then None
         else
           let p = set_head head
                     (MemoryBlockInit (BlockPool_BlockSize (m_block_pool p)) (m_element_size p)) p;
               (ptr, p) = head_alloc head p
           in Some (head, ptr, p))"

definition Alloc_publish :: "nat \<Rightarrow> MemoryPool \<Rightarrow> MemoryPool" where
  "Alloc_publish head p =
     (let p = AddMemoryBlock head p in p\<lparr>m_used_cnt := m_used_cnt p + 1\<rparr>)"

definition MemoryPool_Alloc :: "nat \<Rightarrow> MemoryPool \<Rightarrow> (nat \<times> MemoryPool) option" where
  "MemoryPool_Alloc malloc_res p = do {
     (ptr, p) \<leftarrow> Alloc_locked p;
     if ptr \<noteq> 0 then Some (ptr, p)
     else do {
       (head, ptr, p) \<leftarrow> Alloc_block malloc_res p;
       Some (ptr, Alloc_publish head p)
     }
   }"

text \<open>\<open>Free\<close> under the lock; the result is a block that has become empty and goes back to the pool.\<close>

definition Free_locked :: "nat \<Rightarrow> MemoryPool \<Rightarrow> nat option \<times> MemoryPool" where
  "Free_locked element p =
     (if element < m_cache_block_end p \<and> element \<ge> m_cache_block_head p then
        let (_, p) = head_free (m_cache_block_head p) element p
        in (None, p\<lparr>m_used_cnt := m_used_cnt p - 1\<rparr>)
      else case FindMemoryBlock element p of
        None \<Rightarrow> (None, p)
      | Some head \<Rightarrow>
          let p = p\<lparr>m_used_cnt := m_used_cnt p - 1\<rparr>;
              (ret, p) = head_free head element p
          in if ret < 0 then (None, p)
             else if ret = 0 then
               let p = p\<lparr>m_nodes := ListDelete (HeadNode head) (m_nodes p)\<rparr>;
                   p = p\<lparr>m_nodes := ListAddTail (HeadNode head) FreeList (m_nodes p)\<rparr>
               in (None, p)
             else (Some head, RemoveMemoryBlock head p))"

definition Free_block :: "nat \<Rightarrow> MemoryPool \<Rightarrow> nat option \<times> MemoryPool" where
  "Free_block head p =
     (let (freed, bp) = BlockPool_Free head (m_block_pool p) in (freed, p\<lparr>m_block_pool := bp\<rparr>))"

text \<open>The first component of the result is the block that reaches \<^verbatim>\<open>xfree\<close>, if any.\<close>

definition MemoryPool_Free :: "nat \<Rightarrow> MemoryPool \<Rightarrow> nat option \<times> MemoryPool" where
  "MemoryPool_Free element p =
     (case Free_locked element p of
        (None, p) \<Rightarrow> (None, p)
      | (Some head, p) \<Rightarrow> Free_block head p)"

definition MaxUsedSize :: "MemoryPool \<Rightarrow> u64" where
  "MaxUsedSize p = of_nat (length (m_blocks p)) * ucast (BlockPool_BlockSize (m_block_pool p)) +
     ucast (m_element_size p) * ucast (m_cache_num p)"

definition UsedCount :: "MemoryPool \<Rightarrow> u64" where
  "UsedCount p = m_used_cnt p"

section \<open>Specification vocabulary\<close>

text \<open>
  The memory the pool carves: the first block, at \<open>m_cache_block_head\<close>, and the blocks \<open>B\<close> taken from the
  block pool. \<open>carved p a U\<close>: in the area at \<open>a\<close> exactly the elements \<open>U\<close> are in use. \<open>space_ok p Q B\<close>:
  the areas do not overlap; \<open>Q\<close> are the blocks of the block pool that others hold (other clients, and
  threads between two locked parts).
\<close>

definition area_size :: "MemoryPool \<Rightarrow> nat \<Rightarrow> u32" where
  "area_size p a = (if a = m_cache_block_head p
     then of_nat (m_cache_block_end p - m_cache_block_head p) else m_block_size (m_block_pool p))"

definition area :: "MemoryPool \<Rightarrow> nat \<Rightarrow> nat set" where
  "area p a = {a..<a + unat (area_size p a)}"

definition area_cap :: "MemoryPool \<Rightarrow> nat \<Rightarrow> nat" where
  "area_cap p a = unat (max_element_num (MemoryBlockInit (area_size p a) (m_element_size p)))"

definition carved :: "MemoryPool \<Rightarrow> nat \<Rightarrow> nat set \<Rightarrow> bool" where
  "carved p a U \<longleftrightarrow> block_ok a (m_heads p a) (m_cells p) U \<and>
     block_size (m_heads p a) = area_size p a \<and> element_size (m_heads p a) = m_element_size p \<and>
     unat (max_element_num (m_heads p a)) = area_cap p a"

definition space_ok :: "MemoryPool \<Rightarrow> nat set \<Rightarrow> nat set \<Rightarrow> bool" where
  "space_ok p Q B \<longleftrightarrow> pool_inv (m_block_pool p) (Q \<union> B) \<and> Q \<inter> B = {} \<and>
     0 < m_cache_block_head p \<and> m_cache_block_head p < m_cache_block_end p \<and>
     m_cache_block_end p - m_cache_block_head p < 2 ^ 32 \<and>
     (\<forall>x \<in> Q \<union> B \<union> cached (m_block_pool p). x + unat (m_block_size (m_block_pool p)) \<le> m_cache_block_head p \<or>
        m_cache_block_end p \<le> x)"

definition lists_ok :: "MemoryPool \<Rightarrow> nat list \<Rightarrow> nat list \<Rightarrow> bool" where
  "lists_ok p fr fu \<longleftrightarrow> dlist (m_nodes p) FreeList (map HeadNode fr) \<and>
     dlist (m_nodes p) FullList (map HeadNode fu) \<and> set fr \<inter> set fu = {} \<and>
     sorted (m_blocks p) \<and> distinct (m_blocks p) \<and>
     set (m_blocks p) = (\<lambda>h. h + unat (m_block_size (m_block_pool p))) ` (set fr \<union> set fu)"

definition heads_ok :: "MemoryPool \<Rightarrow> nat set \<Rightarrow> nat set \<Rightarrow> bool" where
  "heads_ok p B L \<longleftrightarrow> finite L \<and> L \<subseteq> (\<Union>a \<in> insert (m_cache_block_head p) B. area p a) \<and>
     (\<forall>a \<in> insert (m_cache_block_head p) B. carved p a (L \<inter> area p a))"

text \<open>
  The invariant, with the elements \<open>L\<close> in use and the blocks \<open>fr\<close> and \<open>fu\<close> on the two lists: no
  block that is kept is empty, and every block on the full list is full.
\<close>

definition mp_inv :: "MemoryPool \<Rightarrow> nat set \<Rightarrow> nat list \<Rightarrow> nat list \<Rightarrow> nat set \<Rightarrow> bool" where
  "mp_inv p Q fr fu L \<longleftrightarrow> space_ok p Q (set fr \<union> set fu) \<and> lists_ok p fr fu \<and>
     heads_ok p (set fr \<union> set fu) L \<and>
     (\<forall>h \<in> set fr \<union> set fu. L \<inter> area p h \<noteq> {}) \<and>
     (\<forall>h \<in> set fu. card (L \<inter> area p h) = area_cap p h) \<and>
     8 \<le> unat (m_element_size p) \<and> sizeof_head \<le> unat (m_block_size (m_block_pool p)) \<and>
     0 < unat (max_element_num (MemoryBlockInit (m_block_size (m_block_pool p)) (m_element_size p))) \<and>
     m_used_cnt p = of_nat (card L)"

definition mp_ok :: "MemoryPool \<Rightarrow> nat set \<Rightarrow> nat set \<Rightarrow> bool" where
  "mp_ok p Q L \<longleftrightarrow> (\<exists>fr fu. mp_inv p Q fr fu L)"

section \<open>Areas\<close>

lemma find_sorted_least:
  assumes "sorted xs" and "a \<in> set xs" and "P a" and "\<And>y. y \<in> set xs \<Longrightarrow> P y \<Longrightarrow> a \<le> y"
  shows "find P xs = Some (a :: 'a :: linorder)"
  using assms
proof (induction xs)
  case (Cons x xs)
  then show ?case
    by (cases "P x") (auto intro: antisym)
qed simp

lemma area_cache:
  assumes "space_ok p Q B"
  shows "m_cache_block_head p + unat (area_size p (m_cache_block_head p)) = m_cache_block_end p"
  using assms unat_of_nat_small [of "m_cache_block_end p - m_cache_block_head p", where ?'a = 32]
  by (simp add: area_size_def space_ok_def del: of_nat_diff)

lemma space_apart:
  assumes "space_ok p Q B" and "a \<in> insert (m_cache_block_head p) (Q \<union> B)"
    and "b \<in> insert (m_cache_block_head p) (Q \<union> B)" and "a < b"
  shows "a + unat (area_size p a) \<le> b"
proof -
  let ?c = "m_cache_block_head p" and ?s = "unat (m_block_size (m_block_pool p))"
  from assms(1) have s: "0 < ?s" and clear: "\<And>x. x \<in> Q \<union> B \<Longrightarrow> x + ?s \<le> ?c \<or> m_cache_block_end p \<le> x"
    and pl: "\<And>x y. x \<in> Q \<union> B \<Longrightarrow> y \<in> Q \<union> B \<Longrightarrow> x < y \<Longrightarrow> x + ?s \<le> y"
    by (auto simp: space_ok_def pool_inv_def)
  from assms(2-4) consider "a = ?c" "b \<in> Q \<union> B" "a < b" | "b = ?c" "a \<in> Q \<union> B" "a < b" | "a \<in> Q \<union> B" "b \<in> Q \<union> B" "a < b" "a \<noteq> ?c"
    by auto
  then show ?thesis
  proof cases
    case 1
    with clear [of b] s area_cache [OF assms(1)] show ?thesis by auto
  next
    case 2
    with clear [of a] assms(1) show ?thesis by (auto simp: area_size_def space_ok_def)
  next
    case 3
    with pl show ?thesis by (auto simp: area_size_def)
  qed
qed

lemma space_disjoint:
  assumes "space_ok p Q B" and "a \<in> insert (m_cache_block_head p) (Q \<union> B)"
    and "b \<in> insert (m_cache_block_head p) (Q \<union> B)" and "a \<noteq> b"
  shows "area p a \<inter> area p b = {}"
  using space_apart [OF assms(1), of a b] space_apart [OF assms(1), of b a] assms(2-4)
  by (cases a b rule: linorder_cases) (auto simp: area_def)

lemma space_cache_notin: "space_ok p Q B \<Longrightarrow> m_cache_block_head p \<notin> Q \<union> B"
  unfolding space_ok_def pool_inv_def by (metis UnI1 add_le_same_cancel1 leD)

text \<open>An area depends on its head and on the cells that lie wholly inside it.\<close>

lemma block_ok_frame:
  assumes "block_ok a b cells U"
    and "\<And>x. a + sizeof_head \<le> x \<Longrightarrow> x + 8 \<le> a + unat (block_size b) \<Longrightarrow> cells' x = cells x"
  shows "block_ok a b cells' U"
proof -
  from assms(1) obtain F n where i: "block_inv a b cells F n U" by (auto simp: block_ok_def)
  then have sh: "shape_ok a b" by (simp add: block_inv_def)
  have "cells' x = cells x" if x: "x \<in> set F" for x
  proof -
    from x block_inv_slots [OF i, of x] obtain j where "x = slot a b j" "j < unat (max_element_num b)"
      by auto
    with slot_range [OF sh, of j] sh show ?thesis by (intro assms(2)) (auto simp: shape_ok_def)
  qed
  from block_inv_frame [OF i this] show ?thesis by (auto simp: block_ok_def)
qed

lemma carved_frame:
  assumes "carved p a U" and "m_heads q a = m_heads p a" and "m_element_size q = m_element_size p"
    and "area_size q a = area_size p a"
    and "\<And>x. a + sizeof_head \<le> x \<Longrightarrow> x + 8 \<le> a + unat (area_size p a) \<Longrightarrow> m_cells q x = m_cells p x"
  shows "carved q a U"
  using assms block_ok_frame [of a "m_heads p a" "m_cells p" U "m_cells q"]
  by (auto simp: carved_def area_cap_def)

lemma carved_range:
  assumes "carved p a U" and "x \<in> U"
  shows "x \<in> area p a" and "a + sizeof_head \<le> x" and "x + unat (m_element_size p) \<le> a + unat (area_size p a)"
    and "8 \<le> unat (m_element_size p)"
proof -
  from assms obtain F n where i: "block_inv a (m_heads p a) (m_cells p) F n U"
    and z: "block_size (m_heads p a) = area_size p a" "element_size (m_heads p a) = m_element_size p"
    by (auto simp: carved_def block_ok_def)
  from i z show e: "8 \<le> unat (m_element_size p)" by (auto simp: block_inv_def shape_ok_def)
  from block_inv_range [OF i assms(2)] z
  show "a + sizeof_head \<le> x" and "x + unat (m_element_size p) \<le> a + unat (area_size p a)" by auto
  with e show "x \<in> area p a" by (auto simp: area_def sizeof_head_def)
qed

lemma carved_apart: "carved p a U \<Longrightarrow> x \<in> U \<Longrightarrow> y \<in> U \<Longrightarrow> x < y \<Longrightarrow> x + unat (m_element_size p) \<le> y"
  using block_inv_apart by (fastforce simp: carved_def block_ok_def)

section \<open>Requests and releases inside one area\<close>

lemma set_head_fields [simp]:
  "m_block_pool (set_head a b p) = m_block_pool p" "m_used_cnt (set_head a b p) = m_used_cnt p"
  "m_cache_num (set_head a b p) = m_cache_num p" "m_element_size (set_head a b p) = m_element_size p"
  "m_cache_block_head (set_head a b p) = m_cache_block_head p"
  "m_cache_block_end (set_head a b p) = m_cache_block_end p" "m_nodes (set_head a b p) = m_nodes p"
  "m_blocks (set_head a b p) = m_blocks p" "m_heads (set_head a b p) = (m_heads p)(a := b)"
  "m_cells (set_head a b p) = m_cells p"
  by (simp_all add: set_head_def)

lemma set_head_same [simp]: "set_head a (m_heads p a) p = p"
  by (simp add: set_head_def)

lemma area_pool:
  assumes "m_block_size bp = m_block_size (m_block_pool p)"
  shows "area_size (p\<lparr>m_block_pool := bp\<rparr>) = area_size p" and "area (p\<lparr>m_block_pool := bp\<rparr>) = area p"
    and "area_cap (p\<lparr>m_block_pool := bp\<rparr>) = area_cap p" and "carved (p\<lparr>m_block_pool := bp\<rparr>) = carved p"
  using assms by (auto simp: area_size_def area_def area_cap_def carved_def fun_eq_iff)

lemma area_update [simp]:
  "area_size (set_head a b p) = area_size p" "area (set_head a b p) = area p"
  "area_cap (set_head a b p) = area_cap p"
  "area_size (p\<lparr>m_cells := c\<rparr>) = area_size p" "area (p\<lparr>m_cells := c\<rparr>) = area p"
  "area_cap (p\<lparr>m_cells := c\<rparr>) = area_cap p"
  "area_size (p\<lparr>m_used_cnt := k\<rparr>) = area_size p" "area (p\<lparr>m_used_cnt := k\<rparr>) = area p"
  "area_cap (p\<lparr>m_used_cnt := k\<rparr>) = area_cap p"
  "area_size (p\<lparr>m_nodes := h\<rparr>) = area_size p" "area (p\<lparr>m_nodes := h\<rparr>) = area p"
  "area_cap (p\<lparr>m_nodes := h\<rparr>) = area_cap p"
  "area_size (p\<lparr>m_blocks := bs\<rparr>) = area_size p" "area (p\<lparr>m_blocks := bs\<rparr>) = area p"
  "area_cap (p\<lparr>m_blocks := bs\<rparr>) = area_cap p"
  by (simp_all add: area_size_def area_def area_cap_def fun_eq_iff)

text \<open>What happens inside one area does not concern another.\<close>

lemma carved_other:
  assumes "carved p h U" and "space_ok p Q B" and "h \<noteq> a"
    and "h \<in> insert (m_cache_block_head p) (Q \<union> B)" and "a \<in> insert (m_cache_block_head p) (Q \<union> B)"
    and "\<And>y. y \<notin> area p a \<Longrightarrow> cells y = m_cells p y"
  shows "carved (set_head a b (p\<lparr>m_cells := cells\<rparr>)) h U"
proof (rule carved_frame [OF assms(1)])
  fix y assume "h + sizeof_head \<le> y" and "y + 8 \<le> h + unat (area_size p h)"
  then have "y \<in> area p h" by (auto simp: area_def)
  with space_disjoint [OF assms(2), of h a] assms(3-5) have "y \<notin> area p a" by blast
  then show "m_cells (set_head a b (p\<lparr>m_cells := cells\<rparr>)) y = m_cells p y" by (simp add: assms(6))
qed (use assms in simp_all)

lemma heads_ok_area:
  assumes "heads_ok p B L" and "space_ok p Q B" and a: "a \<in> insert (m_cache_block_head p) B"
    and "carved (set_head a b (p\<lparr>m_cells := cells\<rparr>)) a (M \<inter> area p a)"
    and "\<And>y. y \<notin> area p a \<Longrightarrow> cells y = m_cells p y"
    and "finite M" and "\<And>y. y \<notin> area p a \<Longrightarrow> y \<in> M \<longleftrightarrow> y \<in> L"
  shows "heads_ok (set_head a b (p\<lparr>m_cells := cells\<rparr>)) B M"
proof -
  let ?q = "set_head a b (p\<lparr>m_cells := cells\<rparr>)"
  have "carved ?q h (M \<inter> area p h)" if h: "h \<in> insert (m_cache_block_head p) B" for h
  proof (cases "h = a")
    case False
    with h a have "area p h \<inter> area p a = {}" by (intro space_disjoint [OF assms(2)]) auto
    then have "M \<inter> area p h = L \<inter> area p h" using assms(7) by blast
    with carved_other [OF _ assms(2) False, of "L \<inter> area p h" cells b] h a assms(1,5)
    show ?thesis by (auto simp: heads_ok_def)
  qed (use assms(4) in simp)
  moreover have "M \<subseteq> (\<Union>a \<in> insert (m_cache_block_head p) B. area p a)"
    using assms(1,7) a unfolding heads_ok_def by blast
  ultimately show ?thesis using assms(6) by (simp add: heads_ok_def)
qed

lemma head_alloc_ok:
  assumes "heads_ok p B L" and "space_ok p Q B" and a: "a \<in> insert (m_cache_block_head p) B"
    and "head_alloc a p = (x, q)"
  shows "if card (L \<inter> area p a) = area_cap p a then x = 0 \<and> q = p
     else x \<noteq> 0 \<and> x \<notin> L \<and> x \<in> area p a \<and> heads_ok q B (insert x L) \<and> (\<exists>b. q = set_head a b p)"
proof -
  let ?U = "L \<inter> area p a"
  from assms(4) obtain b where b: "MemoryAlloc a (m_heads p a) (m_cells p) = (x, b)"
    and q: "q = set_head a b p" by (auto simp: head_alloc_def split: prod.splits)
  from assms(1) a have c: "carved p a ?U" by (auto simp: heads_ok_def)
  then have ok: "block_ok a (m_heads p a) (m_cells p) ?U" by (simp add: carved_def)
  note s = MemoryAlloc_block_ok [OF ok b]
  show ?thesis
  proof (cases "card ?U = area_cap p a")
    case True
    with s c q show ?thesis by (simp add: carved_def)
  next
    case False
    with s c have x: "x \<notin> ?U" "x \<noteq> 0" and c': "carved q a (insert x ?U)"
      by (auto simp: carved_def q)
    from carved_range(1) [OF c', of x] have xa: "x \<in> area p a" by (simp add: q)
    then have "insert x L \<inter> area p a = insert x ?U" by blast
    with c' have "carved (set_head a b (p\<lparr>m_cells := m_cells p\<rparr>)) a (insert x L \<inter> area p a)"
      by (simp add: q)
    from heads_ok_area [OF assms(1,2) a this] assms(1) xa
    have "heads_ok q B (insert x L)" by (auto simp: heads_ok_def q)
    with False x xa q show ?thesis by auto
  qed
qed

lemma head_free_ok:
  assumes "heads_ok p B L" and "space_ok p Q B" and a: "a \<in> insert (m_cache_block_head p) B"
    and x: "x \<in> L" "x \<in> area p a" and "head_free a x p = (r, q)"
  shows "heads_ok q B (L - {x}) \<and>
     r = (if L \<inter> area p a = {x} then 1 else if card (L \<inter> area p a) = area_cap p a then 0 else -1) \<and>
     (\<exists>b v. q = set_head a b (p\<lparr>m_cells := (m_cells p)(x := v)\<rparr>))"
proof -
  let ?U = "L \<inter> area p a"
  from assms(6) obtain b cells where b: "MemoryFree a x (m_heads p a) (m_cells p) = (r, b, cells)"
    and q: "q = set_head a b (p\<lparr>m_cells := cells\<rparr>)" by (auto simp: head_free_def split: prod.splits)
  from assms(1) a have c: "carved p a ?U" by (auto simp: heads_ok_def)
  then obtain F n where "block_inv a (m_heads p a) (m_cells p) F n ?U"
    by (auto simp: carved_def block_ok_def)
  from MemoryFree_block_inv [OF this, of x] x b
  have f: "block_ok a b cells (?U - {x})" "cells = (m_cells p)(x := next_element_ptr (m_heads p a))"
    "block_size b = block_size (m_heads p a)" "element_size b = element_size (m_heads p a)"
    "max_element_num b = max_element_num (m_heads p a)"
    "r = (if ?U = {x} then 1 else if card ?U = unat (max_element_num (m_heads p a)) then 0 else -1)"
    by (auto simp: block_ok_def)
  have "(L - {x}) \<inter> area p a = ?U - {x}" by blast
  with c f have "carved q a ((L - {x}) \<inter> area p a)" by (simp add: carved_def q)
  moreover have "finite (L - {x})" using assms(1) by (simp add: heads_ok_def)
  ultimately have "heads_ok q B (L - {x})"
    unfolding q by (intro heads_ok_area [OF assms(1,2) a]) (use x f(2) in auto)
  with f c q show ?thesis by (auto simp: carved_def)
qed

section \<open>The lists of blocks\<close>

lemma map_HeadNode_remove1: "map HeadNode (remove1 h xs) = remove1 (HeadNode h) (map HeadNode xs)"
  by (induction xs) auto

lemma lists_ok_nodes:
  assumes "lists_ok p fr fu"
  shows "distinct fr" and "distinct fu" and
    "set (FreeList # map HeadNode fr) \<inter> set (FullList # map HeadNode fu) = {}"
  using assms by (auto simp: lists_ok_def dlist_def distinct_map)

lemma lists_delete:
  assumes "lists_ok p fr fu" and "h \<in> set fr \<union> set fu"
  shows "dlist (ListDelete (HeadNode h) (m_nodes p)) FreeList (map HeadNode (remove1 h fr))"
    and "dlist (ListDelete (HeadNode h) (m_nodes p)) FullList (map HeadNode (remove1 h fu))"
proof -
  let ?d = "ListDelete (HeadNode h) (m_nodes p)"
  from assms(1) have d: "dlist (m_nodes p) FreeList (map HeadNode fr)"
    "dlist (m_nodes p) FullList (map HeadNode fu)" "set fr \<inter> set fu = {}" by (auto simp: lists_ok_def)
  note apart = lists_ok_nodes(3) [OF assms(1)]
  have "dlist ?d FreeList (map HeadNode (remove1 h fr)) \<and> dlist ?d FullList (map HeadNode (remove1 h fu))"
  proof (cases "h \<in> set fr")
    case True
    with d(3) have "remove1 h fu = fu" by (intro remove1_idem) blast
    with True dlist_ListDelete_remove1 [OF d(1), of "HeadNode h"]
      dlist_frame_delete [OF d(1,2) apart, of "HeadNode h"]
    show ?thesis by (simp add: map_HeadNode_remove1)
  next
    case False
    with assms(2) have "h \<in> set fu" by simp
    moreover have "remove1 h fr = fr" using False by (rule remove1_idem)
    moreover have "set (FullList # map HeadNode fu) \<inter> set (FreeList # map HeadNode fr) = {}"
      using apart by blast
    ultimately show ?thesis
      using dlist_ListDelete_remove1 [OF d(2), of "HeadNode h"]
        dlist_frame_delete [OF d(2,1), of "HeadNode h"] by (simp add: map_HeadNode_remove1)
  qed
  then show "dlist ?d FreeList (map HeadNode (remove1 h fr))"
    and "dlist ?d FullList (map HeadNode (remove1 h fu))" by simp_all
qed

lemma lists_ok_to_full:
  assumes "lists_ok p (h # fr) fu"
  shows "lists_ok (p\<lparr>m_nodes := ListAddTail (HeadNode h) FullList (ListDelete (HeadNode h) (m_nodes p))\<rparr>)
    fr (fu @ [h])"
proof -
  note n = lists_ok_nodes [OF assms]
  from n assms have h: "h \<notin> set fr" "h \<notin> set fu" by (auto simp: lists_ok_def)
  then have r: "remove1 h fu = fu" "remove1 h (h # fr) = fr" by (simp_all add: remove1_idem)
  note d = lists_delete [OF assms, of h, unfolded r, simplified]
  have "dlist (ListAddTail (HeadNode h) FullList (ListDelete (HeadNode h) (m_nodes p))) FullList
      (map HeadNode fu @ [HeadNode h])"
    by (rule dlist_ListAddTail [OF d(2)]) (use h in auto)
  moreover have "dlist (ListAddTail (HeadNode h) FullList (ListDelete (HeadNode h) (m_nodes p))) FreeList
      (map HeadNode fr)"
    by (rule dlist_frame_add(2) [OF d(2,1)]) (use h n in auto)
  ultimately show ?thesis using assms h by (auto simp: lists_ok_def)
qed

lemma lists_ok_to_free:
  assumes "lists_ok p fr fu" and "h \<in> set fr \<union> set fu"
  shows "lists_ok (p\<lparr>m_nodes := ListAddTail (HeadNode h) FreeList (ListDelete (HeadNode h) (m_nodes p))\<rparr>)
    (remove1 h fr @ [h]) (remove1 h fu)"
proof -
  note d = lists_delete [OF assms] and n = lists_ok_nodes [OF assms(1)]
  then have h: "h \<notin> set (remove1 h fr)" "h \<notin> set (remove1 h fu)" by auto
  have "dlist (ListAddTail (HeadNode h) FreeList (ListDelete (HeadNode h) (m_nodes p))) FreeList
      (map HeadNode (remove1 h fr) @ [HeadNode h])"
    by (rule dlist_ListAddTail [OF d(1)]) (use h in auto)
  moreover have "dlist (ListAddTail (HeadNode h) FreeList (ListDelete (HeadNode h) (m_nodes p))) FullList
      (map HeadNode (remove1 h fu))"
    by (rule dlist_frame_add(2) [OF d]) (use h assms(1) n in \<open>auto simp: lists_ok_def set_remove1_eq\<close>)
  moreover have "set (remove1 h fr @ [h]) \<union> set (remove1 h fu) = set fr \<union> set fu"
    using n(1,2) assms(2) by (auto simp: set_remove1_eq)
  ultimately show ?thesis using assms n h
    by (auto simp: lists_ok_def set_remove1_eq)
qed

lemma lists_ok_remove:
  assumes "lists_ok p fr fu" and "h \<in> set fr \<union> set fu"
  shows "lists_ok (RemoveMemoryBlock h p) (remove1 h fr) (remove1 h fu)"
proof -
  note n = lists_ok_nodes [OF assms(1)]
  let ?f = "\<lambda>h. h + unat (m_block_size (m_block_pool p))"
  have "?f ` (set fr \<union> set fu) - {?f h} = ?f ` (set fr \<union> set fu - {h})" by auto
  also have "set fr \<union> set fu - {h} = set (remove1 h fr) \<union> set (remove1 h fu)"
    using n(1,2) by (auto simp: set_remove1_eq)
  finally show ?thesis
    using assms n lists_delete [OF assms]
    by (auto simp: lists_ok_def RemoveMemoryBlock_def BlockPool_BlockSize_def set_remove1_eq
        sorted_wrt_filter removeAll_filter_not_eq Let_def)
qed

lemma lists_ok_add:
  assumes "lists_ok p fr fu" and "h \<notin> set fr \<union> set fu"
  shows "lists_ok (AddMemoryBlock h p) (h # fr) fu"
proof -
  note n = lists_ok_nodes [OF assms(1)]
  from assms(1) have d: "dlist (m_nodes p) FreeList (map HeadNode fr)"
    "dlist (m_nodes p) FullList (map HeadNode fu)" by (auto simp: lists_ok_def)
  have "dlist (ListAddHead (HeadNode h) FreeList (m_nodes p)) FreeList (HeadNode h # map HeadNode fr)"
    by (rule dlist_ListAddHead [OF d(1)]) (use assms(2) in auto)
  moreover have "dlist (ListAddHead (HeadNode h) FreeList (m_nodes p)) FullList (map HeadNode fu)"
    by (rule dlist_frame_add(1) [OF d n(3)]) (use assms(2) in auto)
  ultimately show ?thesis using assms
    by (auto simp: lists_ok_def AddMemoryBlock_def BlockPool_BlockSize_def Let_def
        sorted_insort_insert distinct_insort_insert set_insort_insert)
qed

lemma GetFreeMemoryBlock_eq:
  assumes "lists_ok p fr fu"
  shows "GetFreeMemoryBlock p = (case fr of [] \<Rightarrow> None | h # _ \<Rightarrow> Some h)"
  using assms dlist_ends(1) [of "m_nodes p" FreeList "map HeadNode fr"]
  by (cases fr) (auto simp: GetFreeMemoryBlock_def lists_ok_def ListEmtpy_def ListHead_def)

lemma FindMemoryBlock_eq:
  assumes "lists_ok p fr fu" and "space_ok p Q (set fr \<union> set fu)"
    and h: "h \<in> set fr \<union> set fu" and x: "h \<le> x" "x < h + unat (m_block_size (m_block_pool p))"
  shows "FindMemoryBlock x p = Some h"
proof -
  let ?s = "unat (m_block_size (m_block_pool p))"
  from assms(1) have b: "sorted (m_blocks p)" "set (m_blocks p) = (\<lambda>h. h + ?s) ` (set fr \<union> set fu)"
    by (auto simp: lists_ok_def)
  have "h + ?s \<le> e" if e: "e \<in> set (m_blocks p)" "x < e" for e
  proof -
    from e(1) b(2) obtain g where g: "e = g + ?s" "g \<in> set fr \<union> set fu" by auto
    with assms(2) h have "g < h \<Longrightarrow> g + ?s \<le> h" by (auto simp: space_ok_def pool_inv_def)
    with g e(2) x(1) show ?thesis by (cases "g < h") auto
  qed
  with b h x(2) have "find (\<lambda>end. x < end) (m_blocks p) = Some (h + ?s)"
    by (intro find_sorted_least) auto
  then show ?thesis by (simp add: FindMemoryBlock_def BlockPool_BlockSize_def)
qed

section \<open>The parts of the operations keep the invariant\<close>

lemma space_ok_update [simp]:
  "space_ok (set_head a b p) = space_ok p" "space_ok (p\<lparr>m_cells := c\<rparr>) = space_ok p"
  "space_ok (p\<lparr>m_used_cnt := k\<rparr>) = space_ok p" "space_ok (p\<lparr>m_nodes := h\<rparr>) = space_ok p"
  "space_ok (p\<lparr>m_blocks := bs\<rparr>) = space_ok p"
  by (simp_all add: space_ok_def fun_eq_iff)

lemma lists_ok_update [simp]:
  "lists_ok (set_head a b p) = lists_ok p" "lists_ok (p\<lparr>m_cells := c\<rparr>) = lists_ok p"
  "lists_ok (p\<lparr>m_used_cnt := k\<rparr>) = lists_ok p"
  by (simp_all add: lists_ok_def fun_eq_iff)

lemma carved_update [simp]:
  "carved (p\<lparr>m_used_cnt := k\<rparr>) = carved p" "carved (p\<lparr>m_nodes := h\<rparr>) = carved p"
  "carved (p\<lparr>m_blocks := bs\<rparr>) = carved p"
  by (simp_all add: carved_def fun_eq_iff)

lemma carved_set_head_other [simp]: "a \<noteq> h \<Longrightarrow> carved (set_head h b p) a U \<longleftrightarrow> carved p a U"
  by (simp add: carved_def)

lemma heads_ok_update [simp]:
  "heads_ok (p\<lparr>m_used_cnt := k\<rparr>) = heads_ok p" "heads_ok (p\<lparr>m_nodes := h\<rparr>) = heads_ok p"
  "heads_ok (p\<lparr>m_blocks := bs\<rparr>) = heads_ok p"
  by (simp_all add: heads_ok_def fun_eq_iff)

lemma mp_inv_finite: "mp_inv p Q fr fu L \<Longrightarrow> finite L"
  by (simp add: mp_inv_def heads_ok_def)

text \<open>An element taken from an area with room, and the part of \<open>Alloc\<close> under the lock.\<close>

lemma mp_inv_take:
  assumes inv: "mp_inv p Q fr fu L" and a: "a \<in> insert (m_cache_block_head p) (set fr \<union> set fu)"
    and room: "card (L \<inter> area p a) \<noteq> area_cap p a" and "head_alloc a p = (x, q)"
  shows "x \<noteq> 0 \<and> x \<notin> L \<and> mp_inv (q\<lparr>m_used_cnt := m_used_cnt q + 1\<rparr>) Q fr fu (insert x L) \<and>
    (\<exists>b. q = set_head a b p)"
proof -
  let ?B = "set fr \<union> set fu"
  from inv have hd: "heads_ok p ?B L" and sp: "space_ok p Q ?B" and fin: "finite L"
    by (auto simp: mp_inv_def heads_ok_def)
  from head_alloc_ok [OF hd sp a assms(4)] room obtain b where
    x: "x \<noteq> 0" "x \<notin> L" "x \<in> area p a" "heads_ok q ?B (insert x L)" and q: "q = set_head a b p" by auto
  have "insert x L \<inter> area p h = L \<inter> area p h" if h: "h \<in> set fu" for h
  proof -
    from inv h room have "h \<noteq> a" by (auto simp: mp_inv_def)
    with h a x(3) space_disjoint [OF sp, of h a] have "x \<notin> area p h" by blast
    then show ?thesis by blast
  qed
  with x inv q fin show ?thesis by (auto simp: mp_inv_def)
qed

lemma Alloc_locked_inv:
  assumes "mp_inv p Q fr fu L"
  shows "\<exists>x q. Alloc_locked p = Some (x, q) \<and>
     (if x = 0 then q = p \<or> (\<exists>h gr. fr = h # gr \<and> mp_inv q Q gr (fu @ [h]) L \<and>
        (\<exists>nodes. q = p\<lparr>m_nodes := nodes\<rparr>))
      else x \<notin> L \<and> mp_inv q Q fr fu (insert x L) \<and>
        (\<exists>a b. a \<in> insert (m_cache_block_head p) (set fr \<union> set fu) \<and>
           q = (set_head a b p)\<lparr>m_used_cnt := m_used_cnt p + 1\<rparr>))"
proof -
  let ?c = "m_cache_block_head p" and ?B = "set fr \<union> set fu"
  from assms have hd: "heads_ok p ?B L" and sp: "space_ok p Q ?B" and ls: "lists_ok p fr fu"
    by (auto simp: mp_inv_def)
  have c0: "?c \<noteq> 0" using sp by (simp add: space_ok_def)
  obtain x q where xq: "head_alloc ?c p = (x, q)" by fastforce
  show ?thesis
  proof (cases "card (L \<inter> area p ?c) = area_cap p ?c")
    case False
    from mp_inv_take [OF assms _ False xq] xq c0 show ?thesis
      by (fastforce simp: Alloc_locked_def)
  next
    case True
    with head_alloc_ok [OF hd sp _ xq] have xq: "head_alloc ?c p = (0, p)" using xq by simp
    show ?thesis
    proof (cases fr)
      case Nil
      with xq c0 GetFreeMemoryBlock_eq [OF ls] show ?thesis by (simp add: Alloc_locked_def)
    next
      case (Cons h gr)
      with GetFreeMemoryBlock_eq [OF ls] have g: "GetFreeMemoryBlock p = Some h" by simp
      obtain y r where yr: "head_alloc h p = (y, r)" by fastforce
      show ?thesis
      proof (cases "card (L \<inter> area p h) = area_cap p h")
        case False
        from mp_inv_take [OF assms _ False yr] yr xq c0 g Cons show ?thesis
          by (fastforce simp: Alloc_locked_def)
      next
        case full: True
        with head_alloc_ok [OF hd sp _ yr] Cons have yr: "head_alloc h p = (0, p)" using yr by simp
        let ?n = "ListAddTail (HeadNode h) FullList (ListDelete (HeadNode h) (m_nodes p))"
        have "set gr \<union> set (fu @ [h]) = ?B" using Cons by auto
        with lists_ok_to_full [of p h gr fu] ls assms Cons full
        have "mp_inv (p\<lparr>m_nodes := ?n\<rparr>) Q gr (fu @ [h]) L" unfolding mp_inv_def by auto
        with xq yr c0 g Cons show ?thesis by (auto simp: Alloc_locked_def)
      qed
    qed
  qed
qed

lemma Alloc_locked_frame:
  assumes inv: "mp_inv p Q fr fu L" and "Alloc_locked p = Some (x, q)" and g: "g \<in> Q" and "carved p g U"
  shows "carved q g U"
proof -
  have g': "g \<notin> insert (m_cache_block_head p) (set fr \<union> set fu)"
    using inv g space_cache_notin [of p Q "set fr \<union> set fu"] by (auto simp: mp_inv_def space_ok_def)
  consider "q = p" | nodes where "q = p\<lparr>m_nodes := nodes\<rparr>"
    | a b where "a \<in> insert (m_cache_block_head p) (set fr \<union> set fu)"
        "q = (set_head a b p)\<lparr>m_used_cnt := m_used_cnt p + 1\<rparr>"
    using Alloc_locked_inv [OF inv] assms(2) by (auto split: if_splits)
  then show ?thesis
  proof cases
    case 3
    with g' have "g \<noteq> a" by blast
    with 3 assms(4) show ?thesis by simp
  qed (use assms(4) in simp_all)
qed

text \<open>A new block: until it is published it belongs to the thread that took it.\<close>

definition pool_blocks :: "MemoryPool \<Rightarrow> nat set" where
  "pool_blocks p = (\<lambda>end. end - unat (m_block_size (m_block_pool p))) ` set (m_blocks p)"

definition mp_answer_ok :: "nat \<Rightarrow> MemoryPool \<Rightarrow> nat set \<Rightarrow> bool" where
  "mp_answer_ok e p Q \<longleftrightarrow> e \<noteq> 0 \<and> block_answer_ok e (m_block_pool p) (Q \<union> pool_blocks p) \<and>
     (e + unat (m_block_size (m_block_pool p)) \<le> m_cache_block_head p \<or> m_cache_block_end p \<le> e)"

lemma pool_blocks_eq: "lists_ok p fr fu \<Longrightarrow> pool_blocks p = set fr \<union> set fu"
  by (force simp: pool_blocks_def lists_ok_def)

lemma mp_inv_set_head_other:
  assumes "h \<notin> insert (m_cache_block_head p) (set fr \<union> set fu)"
  shows "mp_inv (set_head h b p) Q fr fu L \<longleftrightarrow> mp_inv p Q fr fu L"
proof -
  have "carved (set_head h b p) a U \<longleftrightarrow> carved p a U"
    if "a \<in> insert (m_cache_block_head p) (set fr \<union> set fu)" for a U
    using that assms by (intro carved_set_head_other) blast
  then show ?thesis by (simp add: mp_inv_def heads_ok_def)
qed

lemma Alloc_block_space:
  assumes "mp_inv p Q fr fu L" and "mp_answer_ok e p Q"
    and bp: "BlockPool_Alloc e (m_block_pool p) = (h, bp)"
  shows "h \<noteq> 0 \<and> h \<notin> insert (m_cache_block_head p) (Q \<union> (set fr \<union> set fu)) \<and>
     mp_inv (p\<lparr>m_block_pool := bp\<rparr>) (insert h Q) fr fu L"
proof -
  let ?B = "set fr \<union> set fu" and ?s = "unat (m_block_size (m_block_pool p))"
  from assms(1) have sp: "space_ok p Q ?B" and ls: "lists_ok p fr fu" by (auto simp: mp_inv_def)
  note f = BlockPool_Alloc_fields [OF bp]
  have pi: "pool_inv (m_block_pool p) (Q \<union> ?B)" using sp by (simp add: space_ok_def)
  with f(4) have h: "h = e \<or> h \<in> cached (m_block_pool p)" by (auto simp: pool_inv_def)
  have h0: "h \<noteq> 0"
    using BlockPool_Alloc_nonzero [OF pi bp] assms(2) by (simp add: mp_answer_ok_def)
  have "block_answer_ok e (m_block_pool p) (Q \<union> ?B)"
    using assms(2) pool_blocks_eq [OF ls] by (simp add: mp_answer_ok_def)
  from BlockPool_Alloc_inv [OF pi this bp h0]
  have hQ: "h \<notin> Q \<union> ?B" and pi': "pool_inv bp (insert h Q \<union> ?B)" by simp_all
  have "h + ?s \<le> m_cache_block_head p \<or> m_cache_block_end p \<le> h"
    using h assms(2) sp by (auto simp: mp_answer_ok_def space_ok_def)
  with sp pi' hQ f have sp': "space_ok (p\<lparr>m_block_pool := bp\<rparr>) (insert h Q) ?B"
    by (auto simp: space_ok_def)
  with assms(1) area_pool [OF f(1)] f(1) have "mp_inv (p\<lparr>m_block_pool := bp\<rparr>) (insert h Q) fr fu L"
    by (simp add: mp_inv_def heads_ok_def lists_ok_def)
  with h0 hQ space_cache_notin [OF sp'] show ?thesis by simp
qed

lemma Alloc_block_inv:
  assumes "mp_inv p Q fr fu L" and "mp_answer_ok e p Q"
  shows "\<exists>h x q. Alloc_block e p = Some (h, x, q) \<and> h \<notin> Q \<and> x \<noteq> 0 \<and>
     mp_inv q (insert h Q) fr fu L \<and> carved q h {x} \<and> (\<forall>g\<in>Q. \<forall>U. carved p g U \<longrightarrow> carved q g U)"
proof -
  obtain h bp where bp: "BlockPool_Alloc e (m_block_pool p) = (h, bp)" by fastforce
  note f = BlockPool_Alloc_fields [OF bp]
  from Alloc_block_space [OF assms bp]
  have h: "h \<noteq> 0" "h \<notin> insert (m_cache_block_head p) (Q \<union> (set fr \<union> set fu))"
    and inv: "mp_inv (p\<lparr>m_block_pool := bp\<rparr>) (insert h Q) fr fu L" by blast+
  let ?b = "MemoryBlockInit (m_block_size bp) (m_element_size p)"
  let ?p = "set_head h ?b (p\<lparr>m_block_pool := bp\<rparr>)"
  from inv have es: "8 \<le> unat (m_element_size p)" "sizeof_head \<le> unat (m_block_size bp)"
    "0 < unat (max_element_num ?b)" by (auto simp: mp_inv_def)
  have z: "area_size (p\<lparr>m_block_pool := bp\<rparr>) h = m_block_size bp"
    using h(2) by (auto simp: area_size_def)
  have ok: "block_ok h ?b (m_cells p) {}"
    unfolding block_ok_def using MemoryBlockInit_block_inv [OF _ es(1,2), of h] h(1) by blast
  obtain x b where x: "MemoryAlloc h ?b (m_cells p) = (x, b)" by fastforce
  from MemoryAlloc_block_ok [OF ok x] es(3)
  have c: "carved (set_head h b ?p) h {x}" "x \<noteq> 0" by (auto simp: carved_def area_cap_def z)
  have "mp_inv (set_head h b ?p) (insert h Q) fr fu L"
    using inv h(2) by (simp add: mp_inv_set_head_other)
  moreover have "carved (set_head h b ?p) g U" if "carved p g U" "g \<in> Q" for g U
  proof -
    from that(2) h(2) have "g \<noteq> h" by blast
    with that(1) area_pool(4) [OF f(1)] show ?thesis by simp
  qed
  moreover have "Alloc_block e p = Some (h, x, set_head h b ?p)"
    using bp h(1) x es(1) by (auto simp: Alloc_block_def head_alloc_def BlockPool_BlockSize_def Let_def)
  ultimately show ?thesis using c h(2) by blast
qed

lemma Alloc_publish_inv:
  assumes inv: "mp_inv p (insert h Q) fr fu L" and h: "h \<notin> Q" and c: "carved p h {x}"
  shows "x \<notin> L \<and> mp_inv (Alloc_publish h p) Q (h # fr) fu (insert x L)"
proof -
  let ?B = "set fr \<union> set fu" and ?c = "m_cache_block_head p"
  from inv have sp: "space_ok p (insert h Q) ?B" and ls: "lists_ok p fr fu" and hd: "heads_ok p ?B L"
    by (auto simp: mp_inv_def)
  from sp have hB: "h \<notin> ?B" "h \<noteq> ?c" using space_cache_notin [OF sp] by (auto simp: space_ok_def)
  have dj: "area p a \<inter> area p h = {}" if "a \<in> insert ?c ?B" for a
    using that hB by (intro space_disjoint [OF sp]) auto
  with hd have Lh: "L \<inter> area p h = {}" unfolding heads_ok_def by blast
  from carved_range(1) [OF c] have xh: "x \<in> area p h" by simp
  with dj have other: "insert x L \<inter> area p a = L \<inter> area p a" if "a \<in> insert ?c ?B" for a
    using that by blast
  have "insert x L \<inter> area p h = {x}" using xh Lh by blast
  with c hd other have "carved p a (insert x L \<inter> area p a)" if "a \<in> insert ?c (insert h ?B)" for a
    using that unfolding heads_ok_def by (cases "a = h") auto
  with hd xh have hd': "heads_ok p (insert h ?B) (insert x L)" by (auto simp: heads_ok_def)
  have "insert h Q \<union> ?B = Q \<union> insert h ?B" by blast
  with sp h hB have sp': "space_ok p Q (insert h ?B)" by (auto simp: space_ok_def)
  from lists_ok_add [OF ls hB(1)] have ls': "lists_ok (AddMemoryBlock h p) (h # fr) fu" .
  from xh Lh have xL: "x \<notin> L" by blast
  obtain bs nodes where q: "AddMemoryBlock h p = p\<lparr>m_blocks := bs, m_nodes := nodes\<rparr>"
    by (auto simp: AddMemoryBlock_def Let_def)
  have "insert x L \<inter> area p a \<noteq> {}" if "a \<in> insert h ?B" for a
    using inv that xh by (auto simp: mp_inv_def)
  moreover have "card (insert x L \<inter> area p a) = area_cap p a" if "a \<in> set fu" for a
    using inv that other [of a] by (simp add: mp_inv_def)
  ultimately have "mp_inv (Alloc_publish h p) Q (h # fr) fu (insert x L)"
    using inv hd' sp' ls' xL mp_inv_finite [OF inv] unfolding Alloc_publish_def q by (simp add: mp_inv_def)
  with xL show ?thesis ..
qed

text \<open>
  Releases. Every element in use lies in one area; in an area that stays, some element stays in
  use, and the count follows.
\<close>

lemma mp_inv_find:
  assumes "mp_inv p Q fr fu L" and "x \<in> L"
  obtains "x \<in> area p (m_cache_block_head p)" and "m_cache_block_head p \<le> x" and "x < m_cache_block_end p"
  | h where "h \<in> set fr \<union> set fu" and "x \<in> area p h" and "FindMemoryBlock x p = Some h"
      and "\<not> (x < m_cache_block_end p \<and> m_cache_block_head p \<le> x)"
proof -
  let ?c = "m_cache_block_head p" and ?B = "set fr \<union> set fu"
  from assms have hd: "heads_ok p ?B L" and sp: "space_ok p Q ?B" and ls: "lists_ok p fr fu"
    by (auto simp: mp_inv_def)
  have ac: "area p ?c = {?c..<m_cache_block_end p}" using area_cache [OF sp] by (simp add: area_def)
  from hd assms(2) obtain a where a: "a \<in> insert ?c ?B" "x \<in> area p a" by (auto simp: heads_ok_def)
  show thesis
  proof (cases "a = ?c")
    case True
    with a(2) ac that(1) show thesis by simp
  next
    case False
    with a have h: "a \<in> ?B" by simp
    with False space_disjoint [OF sp, of a ?c] a(2) have "x \<notin> area p ?c" by blast
    then have "\<not> (x < m_cache_block_end p \<and> ?c \<le> x)" by (auto simp: ac)
    moreover from a(2) False have "a \<le> x" "x < a + unat (m_block_size (m_block_pool p))"
      by (auto simp: area_def area_size_def)
    with FindMemoryBlock_eq [OF ls sp h] have "FindMemoryBlock x p = Some a" by blast
    ultimately show thesis using that(2) h a(2) by blast
  qed
qed

lemma mp_inv_release:
  assumes inv: "mp_inv p Q fr fu L" and a: "a \<in> insert (m_cache_block_head p) (set fr \<union> set fu)"
    and x: "x \<in> L" "x \<in> area p a" and "head_free a x (p\<lparr>m_used_cnt := m_used_cnt p - 1\<rparr>) = (r, q)"
  shows "heads_ok q (set fr \<union> set fu) (L - {x}) \<and> space_ok q Q (set fr \<union> set fu) \<and> lists_ok q fr fu \<and>
     m_used_cnt q = of_nat (card (L - {x})) \<and> m_element_size q = m_element_size p \<and>
     m_block_pool q = m_block_pool p \<and> area q = area p \<and> area_cap q = area_cap p \<and>
     r = (if L \<inter> area p a = {x} then 1 else if card (L \<inter> area p a) = area_cap p a then 0 else -1) \<and>
     (\<forall>g\<in>Q. \<forall>U. carved p g U \<longrightarrow> carved q g U) \<and>
     (\<forall>g\<in>set fr \<union> set fu - {a}. (L - {x}) \<inter> area p g = L \<inter> area p g)"
proof -
  let ?B = "set fr \<union> set fu" and ?p = "p\<lparr>m_used_cnt := m_used_cnt p - 1\<rparr>"
  from inv have hd: "heads_ok ?p ?B L" and sp: "space_ok ?p Q ?B" and fin: "finite L"
    by (auto simp: mp_inv_def heads_ok_def)
  from head_free_ok [OF hd sp _ x(1) _ assms(5)] a x(2) obtain b v where
    hd': "heads_ok q ?B (L - {x})" and q: "q = set_head a b (?p\<lparr>m_cells := (m_cells ?p)(x := v)\<rparr>)" and
    r: "r = (if L \<inter> area p a = {x} then 1 else if card (L \<inter> area p a) = area_cap p a then 0 else -1)"
    by auto
  have u: "m_used_cnt p - 1 = of_nat (card (L - {x}))"
  proof -
    have "0 < card L" using fin x(1) card_gt_0_iff by blast
    with inv fin x(1) show ?thesis by (simp add: mp_inv_def of_nat_diff Suc_leI)
  qed
  have other: "carved q g U" if "carved p g U" "g \<in> Q" for g U
    unfolding q by (rule carved_other [OF _ sp])
      (use that a x(2) inv space_cache_notin [OF sp] in \<open>auto simp: mp_inv_def space_ok_def\<close>)
  have rest: "(L - {x}) \<inter> area p g = L \<inter> area p g" if "g \<in> ?B - {a}" for g
    using space_disjoint [OF sp, of g a] that a x(2) by auto
  from q have f: "m_element_size q = m_element_size p" "m_block_pool q = m_block_pool p"
    "area q = area p" "area_cap q = area_cap p" "m_used_cnt q = m_used_cnt p - 1"
    "space_ok q = space_ok p" "lists_ok q = lists_ok p" by simp_all
  show ?thesis
    using hd' f u r other rest inv by (simp add: mp_inv_def)
qed

text \<open>A block whose last element has gone leaves the lists.\<close>

lemma mp_inv_drop:
  assumes inv: "mp_inv p Q fr fu L" and h: "h \<in> set fr \<union> set fu"
    and q: "heads_ok q (set fr \<union> set fu) (L - {x}) \<and> space_ok q Q (set fr \<union> set fu) \<and> lists_ok q fr fu \<and>
      m_used_cnt q = of_nat (card (L - {x})) \<and> m_element_size q = m_element_size p \<and>
      m_block_pool q = m_block_pool p \<and> area q = area p \<and> area_cap q = area_cap p \<and>
      (\<forall>g\<in>set fr \<union> set fu - {h}. (L - {x}) \<inter> area p g = L \<inter> area p g)"
    and last: "L \<inter> area p h = {x}"
  shows "mp_inv (RemoveMemoryBlock h q) (insert h Q) (remove1 h fr) (remove1 h fu) (L - {x})"
proof -
  let ?B = "set fr \<union> set fu" and ?fr = "remove1 h fr" and ?fu = "remove1 h fu"
  from q have ls: "lists_ok q fr fu" by blast
  note d = lists_ok_nodes(1,2) [OF ls]
  have B: "set ?fr \<union> set ?fu = ?B - {h}" using d by (auto simp: set_remove1_eq)
  have "insert h Q \<union> (?B - {h}) = Q \<union> ?B" using h by blast
  with q h have sp: "space_ok q (insert h Q) (?B - {h})" by (auto simp: space_ok_def)
  have "(L - {x}) \<inter> area p h = {}" using last by blast
  moreover have "heads_ok q ?B (L - {x})" "area q = area p" using q by blast+
  ultimately have hd: "heads_ok q (?B - {h}) (L - {x})" unfolding heads_ok_def by (auto simp: subset_iff)
  have ne: "(L - {x}) \<inter> area p g \<noteq> {}" if "g \<in> ?B - {h}" for g
    using q that inv unfolding mp_inv_def by fastforce
  have fl: "card ((L - {x}) \<inter> area p g) = area_cap p g" if "g \<in> set ?fu" for g
    using q that inv d B unfolding mp_inv_def by (auto simp: set_remove1_eq)
  have "m_element_size (RemoveMemoryBlock h q) = m_element_size q"
    "m_block_pool (RemoveMemoryBlock h q) = m_block_pool q" "m_used_cnt (RemoveMemoryBlock h q) = m_used_cnt q"
    "area (RemoveMemoryBlock h q) = area q" "area_cap (RemoveMemoryBlock h q) = area_cap q"
    "space_ok (RemoveMemoryBlock h q) = space_ok q" "heads_ok (RemoveMemoryBlock h q) = heads_ok q"
    by (simp_all add: RemoveMemoryBlock_def Let_def)
  with sp hd ne fl q inv lists_ok_remove [OF ls h] show ?thesis unfolding mp_inv_def B by simp
qed

text \<open>A full block with an element free again moves to the free list.\<close>

lemma mp_inv_to_free:
  assumes inv: "mp_inv p Q fr fu L" and h: "h \<in> set fr \<union> set fu"
    and q: "heads_ok q (set fr \<union> set fu) (L - {x}) \<and> space_ok q Q (set fr \<union> set fu) \<and> lists_ok q fr fu \<and>
      m_used_cnt q = of_nat (card (L - {x})) \<and> m_element_size q = m_element_size p \<and>
      m_block_pool q = m_block_pool p \<and> area q = area p \<and> area_cap q = area_cap p \<and>
      (\<forall>g\<in>set fr \<union> set fu - {h}. (L - {x}) \<inter> area p g = L \<inter> area p g)"
    and ne: "\<And>g. g \<in> set fr \<union> set fu \<Longrightarrow> (L - {x}) \<inter> area p g \<noteq> {}"
  shows "\<exists>gr gu. mp_inv (q\<lparr>m_nodes := ListAddTail (HeadNode h) FreeList (ListDelete (HeadNode h) (m_nodes q))\<rparr>)
     Q gr gu (L - {x}) \<and> set gr \<union> set gu = set fr \<union> set fu"
proof -
  let ?B = "set fr \<union> set fu" and ?gr = "remove1 h fr @ [h]" and ?gu = "remove1 h fu"
  from q have ls: "lists_ok q fr fu" by blast
  note d = lists_ok_nodes(1,2) [OF ls]
  have B: "set ?gr \<union> set ?gu = ?B" and gu: "set ?gu \<subseteq> ?B - {h}"
    using d h by (auto simp: set_remove1_eq)
  have "card ((L - {x}) \<inter> area p g) = area_cap p g" if "g \<in> set ?gu" for g
    using q inv that gu notin_set_remove1 [of g fu h] unfolding mp_inv_def by (auto simp: subset_iff)
  then have "mp_inv (q\<lparr>m_nodes := ListAddTail (HeadNode h) FreeList (ListDelete (HeadNode h) (m_nodes q))\<rparr>)
      Q ?gr ?gu (L - {x})"
    using q inv ne lists_ok_to_free [OF ls h] unfolding mp_inv_def B by simp
  with B show ?thesis by blast
qed

lemma Free_locked_inv:
  assumes inv: "mp_inv p Q fr fu L" and x: "x \<in> L"
  shows "\<exists>r q. Free_locked x p = (r, q) \<and> (\<forall>g\<in>Q. \<forall>U. carved p g U \<longrightarrow> carved q g U) \<and>
     (case r of
        None \<Rightarrow> \<exists>gr gu. mp_inv q Q gr gu (L - {x}) \<and> set gr \<union> set gu = set fr \<union> set fu
      | Some h \<Rightarrow> h \<in> set fr \<union> set fu \<and> L \<inter> area p h = {x} \<and>
          mp_inv q (insert h Q) (remove1 h fr) (remove1 h fu) (L - {x}))"
  using inv x
proof (cases rule: mp_inv_find)
  case 1
  let ?c = "m_cache_block_head p" and ?p = "p\<lparr>m_used_cnt := m_used_cnt p - 1\<rparr>"
  obtain r q where rq: "head_free ?c x ?p = (r, q)" by fastforce
  have c: "?c \<notin> set fr \<union> set fu"
    using inv space_cache_notin [of p Q "set fr \<union> set fu"] by (simp add: mp_inv_def)
  note s = mp_inv_release [OF inv _ x 1(1) rq]
  have "mp_inv q Q fr fu (L - {x})"
    using s c inv unfolding mp_inv_def by fastforce
  moreover have "Free_locked x p = (None, q)"
    using 1 rq by (auto simp: Free_locked_def head_free_def set_head_def split: prod.splits)
  ultimately show ?thesis using s by auto
next
  case (2 h)
  let ?B = "set fr \<union> set fu" and ?p = "p\<lparr>m_used_cnt := m_used_cnt p - 1\<rparr>"
  obtain r q where rq: "head_free h x ?p = (r, q)" by fastforce
  note s = mp_inv_release [OF inv _ x 2(2) rq]
  show ?thesis
  proof (cases "L \<inter> area p h = {x}")
    case True
    with s 2(1) have r: "r = 1" by simp
    with 2 rq have "Free_locked x p = (Some h, RemoveMemoryBlock h q)" by (auto simp: Free_locked_def)
    moreover have "mp_inv (RemoveMemoryBlock h q) (insert h Q) (remove1 h fr) (remove1 h fu) (L - {x})"
      using mp_inv_drop [OF inv 2(1) _ True] s 2(1) by blast
    moreover have "\<forall>g\<in>Q. \<forall>U. carved p g U \<longrightarrow> carved (RemoveMemoryBlock h q) g U"
      using s 2(1) by (simp add: RemoveMemoryBlock_def Let_def)
    ultimately show ?thesis using 2(1) True by auto
  next
    case some: False
    then have ne: "(L - {x}) \<inter> area p g \<noteq> {}" if "g \<in> ?B" for g
      using s 2(1,2) inv that x unfolding mp_inv_def by (cases "g = h") blast+
    show ?thesis
    proof (cases "card (L \<inter> area p h) = area_cap p h")
      case True
      let ?n = "ListAddTail (HeadNode h) FreeList (ListDelete (HeadNode h) (m_nodes q))"
      have "\<exists>gr gu. mp_inv (q\<lparr>m_nodes := ?n\<rparr>) Q gr gu (L - {x}) \<and> set gr \<union> set gu = ?B"
        using mp_inv_to_free [OF inv 2(1) _ ne] s 2(1) by blast
      moreover from True s 2(1) some have "r = 0" by simp
      with 2 rq have "Free_locked x p = (None, q\<lparr>m_nodes := ?n\<rparr>)" by (auto simp: Free_locked_def)
      moreover have "\<forall>g\<in>Q. \<forall>U. carved p g U \<longrightarrow> carved (q\<lparr>m_nodes := ?n\<rparr>) g U" using s 2(1) by simp
      ultimately show ?thesis by simp
    next
      case False
      with inv have "h \<notin> set fu" by (auto simp: mp_inv_def)
      with s 2(1) have "(L - {x}) \<inter> area p g = L \<inter> area p g" if "g \<in> set fu" for g
        using that by fastforce
      with inv have "card ((L - {x}) \<inter> area p g) = area_cap p g" if "g \<in> set fu" for g
        using that by (simp add: mp_inv_def)
      then have "mp_inv q Q fr fu (L - {x})" using s 2(1) inv ne unfolding mp_inv_def by simp
      moreover from False s 2(1) some have "r = -1" by simp
      with 2 rq have "Free_locked x p = (None, q)" by (auto simp: Free_locked_def)
      ultimately show ?thesis using s 2(1) by auto
    qed
  qed
qed

text \<open>A block given back to the block pool, and writes of clients into elements in use.\<close>

lemma Free_block_inv:
  assumes inv: "mp_inv p (insert h Q) fr fu L" and h: "h \<notin> Q"
  shows "mp_inv (snd (Free_block h p)) Q fr fu L \<and> carved (snd (Free_block h p)) = carved p"
proof -
  let ?B = "set fr \<union> set fu"
  define bp where "bp = snd (BlockPool_Free h (m_block_pool p))"
  have q: "snd (Free_block h p) = p\<lparr>m_block_pool := bp\<rparr>" by (simp add: Free_block_def bp_def split_beta)
  have f: "m_block_size bp = m_block_size (m_block_pool p)" "cached bp = cached (m_block_pool p)"
    by (simp_all add: bp_def BlockPool_Free_def)
  from inv have sp: "space_ok p (insert h Q) ?B" by (simp add: mp_inv_def)
  then have hB: "h \<notin> ?B" and "pool_inv (m_block_pool p) (insert h Q \<union> ?B)" by (auto simp: space_ok_def)
  with BlockPool_Free_inv(1) [of "m_block_pool p" "insert h Q \<union> ?B" h]
  have "pool_inv bp (insert h Q \<union> ?B - {h})" by (simp add: bp_def)
  moreover have "insert h Q \<union> ?B - {h} = Q \<union> ?B" using h hB by blast
  ultimately have "space_ok (p\<lparr>m_block_pool := bp\<rparr>) Q ?B"
    using sp f by (auto simp: space_ok_def)
  with inv f area_pool [OF f(1)] show ?thesis
    unfolding q by (simp add: mp_inv_def heads_ok_def lists_ok_def)
qed

lemma Free_block_held:
  assumes "mp_inv p Q fr fu L" and "h \<in> Q"
  shows "mp_inv (snd (Free_block h p)) (Q - {h}) fr fu L \<and> carved (snd (Free_block h p)) = carved p"
  using Free_block_inv [of p h "Q - {h}" fr fu L] assms by (simp add: insert_absorb)

lemma carved_client_write:
  assumes "carved p a U" and "carved p b V" and "x \<in> V" and "a = b \<Longrightarrow> U = V" and sp: "space_ok p Q B"
    and ab: "a \<in> insert (m_cache_block_head p) (Q \<union> B)" "b \<in> insert (m_cache_block_head p) (Q \<union> B)"
    and w: "client_write x (unat (m_element_size p)) (m_cells p) cells"
  shows "carved (p\<lparr>m_cells := cells\<rparr>) a U"
proof (cases "a = b")
  case True
  with assms(1,3,4) obtain F n where "block_inv a (m_heads p a) (m_cells p) F n U" "x \<in> U"
    by (auto simp: carved_def block_ok_def)
  with block_inv_client_write [of a "m_heads p a" "m_cells p" F n U x cells] w assms(1)
  show ?thesis by (auto simp: carved_def block_ok_def)
next
  case False
  note r = carved_range [OF assms(2,3)]
  from False consider "a < b" | "b < a" by linarith
  then have off: "y + 8 \<le> x \<or> x + unat (m_element_size p) \<le> y"
    if "a + sizeof_head \<le> y" "y + 8 \<le> a + unat (area_size p a)" for y
    using that r space_apart [OF sp ab] space_apart [OF sp ab(2,1)] by cases auto
  have "cells y = m_cells p y" if "a + sizeof_head \<le> y" "y + 8 \<le> a + unat (area_size p a)" for y
    using off [OF that] w by (auto simp: client_write_def)
  then show ?thesis by (intro carved_frame [OF assms(1)]) auto
qed

lemma mp_inv_client_write:
  assumes inv: "mp_inv p Q fr fu L" and x: "x \<in> L"
    and w: "client_write x (unat (m_element_size p)) (m_cells p) cells"
  shows "mp_inv (p\<lparr>m_cells := cells\<rparr>) Q fr fu L \<and>
     (\<forall>g\<in>Q. \<forall>U. carved p g U \<longrightarrow> carved (p\<lparr>m_cells := cells\<rparr>) g U)"
proof -
  let ?B = "set fr \<union> set fu" and ?c = "m_cache_block_head p"
  from inv have hd: "heads_ok p ?B L" and sp: "space_ok p Q ?B" by (auto simp: mp_inv_def)
  from hd x obtain b where b: "b \<in> insert ?c ?B" "x \<in> L \<inter> area p b" by (auto simp: heads_ok_def)
  with hd have cb: "carved p b (L \<inter> area p b)" by (auto simp: heads_ok_def)
  have b': "b \<in> insert ?c (Q \<union> ?B)" using b(1) by blast
  have "carved (p\<lparr>m_cells := cells\<rparr>) a (L \<inter> area p a)" if "a \<in> insert ?c ?B" for a
    by (rule carved_client_write [OF _ cb b(2) _ sp _ b' w]) (use that hd in \<open>auto simp: heads_ok_def\<close>)
  moreover have "carved (p\<lparr>m_cells := cells\<rparr>) g U" if "g \<in> Q" "carved p g U" for g U
  proof (rule carved_client_write [OF that(2) cb b(2) _ sp _ b' w])
    have "b \<notin> Q" using b(1) sp space_cache_notin [OF sp] by (auto simp: space_ok_def)
    then show "g = b \<Longrightarrow> U = L \<inter> area p b" using that(1) by simp
  qed (use that in simp)
  ultimately show ?thesis using inv hd by (simp add: mp_inv_def heads_ok_def)
qed

text \<open>Elements in use do not overlap.\<close>

lemma mp_inv_apart:
  assumes inv: "mp_inv p Q fr fu L" and x: "x \<in> L" and y: "y \<in> L" and "x < y"
  shows "x + unat (m_element_size p) \<le> y"
proof -
  let ?B = "set fr \<union> set fu" and ?c = "m_cache_block_head p"
  from inv have hd: "heads_ok p ?B L" and sp: "space_ok p Q ?B" by (auto simp: mp_inv_def)
  from hd x obtain a where a: "a \<in> insert ?c ?B" "x \<in> L \<inter> area p a" by (auto simp: heads_ok_def)
  from hd y obtain b where b: "b \<in> insert ?c ?B" "y \<in> L \<inter> area p b" by (auto simp: heads_ok_def)
  from hd a(1) b(1) have c: "carved p a (L \<inter> area p a)" "carved p b (L \<inter> area p b)"
    by (auto simp: heads_ok_def)
  note r = carved_range [OF c(1) a(2)] carved_range [OF c(2) b(2)]
  show ?thesis
  proof (cases a b rule: linorder_cases)
    case less
    with space_apart [OF sp, of a b] a b r show ?thesis by auto
  next
    case equal
    with carved_apart [OF c(1) a(2)] b assms(4) show ?thesis by blast
  next
    case greater
    with space_apart [OF sp, of b a] a b r assms(4) show ?thesis by auto
  qed
qed

text \<open>Every element in use lies behind the head of a block of the pool and wholly inside that block.\<close>

lemma mp_inv_inside:
  assumes inv: "mp_inv p Q fr fu L" and x: "x \<in> L"
  shows "(m_cache_block_head p + sizeof_head \<le> x \<and> x + unat (m_element_size p) \<le> m_cache_block_end p) \<or>
     (\<exists>h. h + unat (m_block_size (m_block_pool p)) \<in> set (m_blocks p) \<and> h + sizeof_head \<le> x \<and>
        x + unat (m_element_size p) \<le> h + unat (m_block_size (m_block_pool p)))"
proof -
  let ?B = "set fr \<union> set fu" and ?c = "m_cache_block_head p"
  from inv have hd: "heads_ok p ?B L" and sp: "space_ok p Q ?B" and ls: "lists_ok p fr fu" by (auto simp: mp_inv_def)
  from hd x obtain a where a: "a \<in> insert ?c ?B" "x \<in> L \<inter> area p a" by (auto simp: heads_ok_def)
  with hd have "carved p a (L \<inter> area p a)" by (auto simp: heads_ok_def)
  note r = carved_range [OF this a(2)]
  show ?thesis
  proof (cases "a = ?c")
    case True
    with r area_cache [OF sp] show ?thesis by auto
  next
    case False
    with a(1) ls have "a + unat (m_block_size (m_block_pool p)) \<in> set (m_blocks p)" by (auto simp: lists_ok_def)
    with r False show ?thesis by (auto simp: area_size_def)
  qed
qed

text \<open>With no element in use no block is kept.\<close>

lemma mp_inv_empty: "mp_inv p Q fr fu {} \<Longrightarrow> m_blocks p = []"
  by (cases fr; cases fu) (auto simp: mp_inv_def lists_ok_def)

section \<open>Initialisation\<close>

lemma ALIGN_UP_ptr_eq:
  assumes "unat sz \<le> 2 ^ 32 - 8"
  shows "unat (ALIGN_UP_ptr sz) = (unat sz + 7) div 8 * 8"
proof -
  have m: "(7 :: u64) = mask 3" by (simp add: mask_eq_decr_exp)
  have "unat (ucast sz + 7 :: u64) = unat sz + 7"
    using assms unat_bound [of sz] by (subst unat_add_lem [THEN iffD1]) (simp_all add: unat_ucast_up)
  then have "unat ((ucast sz + 7) AND NOT 7 :: u64) = (unat sz + 7) div 8 * 8"
    using unat_and_not_mask [of "ucast sz + 7 :: u64" 3] by (simp add: m)
  moreover have "(unat sz + 7) div 8 * 8 < 2 ^ 32"
    using assms div_times_less_eq_dividend [of "unat sz + 7" 8] by simp
  ultimately show ?thesis by (simp add: ALIGN_UP_ptr_def unat_ucast_take_bit)
qed

text \<open>
  Small elements always fit: a block size that is a multiple of 4096 leaves, after the head, no
  number of elements that the 16 bit counter would take for zero.
\<close>

lemma block_cap_pos:
  assumes "4096 \<le> unat bs" and "unat bs mod 4096 = 0" and "8 \<le> unat es" and "unat es \<le> 4056"
  shows "0 < unat (max_element_num (MemoryBlockInit bs es))"
proof (rule ccontr)
  let ?b = "unat bs" and ?e = "unat es"
  assume "\<not> ?thesis"
  then have "(?b - 40) div ?e mod 65536 = 0"
    using MemoryBlockInit_max [of bs es] assms(1) by (simp add: sizeof_head_def)
  then obtain k where k: "(?b - 40) div ?e = 65536 * k" by blast
  define r where "r = (?b - 40) mod ?e"
  from assms(3) have "r < ?e" by (simp add: r_def)
  with assms(4) have "r < 4056" by simp
  have "?b - 40 = ?e * (65536 * k) + r" using mult_div_mod_eq [of ?e "?b - 40"] by (simp add: k r_def)
  with assms(1) have "?b = 4096 * (16 * ?e * k) + (40 + r)" by simp
  then have "?b mod 4096 = (40 + r) mod 4096" by (metis mod_mult_self4)
  with assms(2) \<open>r < 4056\<close> show False by simp
qed

text \<open>
  What the environment of \<open>Init\<close> promises: an initialised block pool of which others hold the blocks
  \<open>Q\<close>, and a first block from the C library that overlaps none of its memory.
\<close>

definition init_ok :: "nat \<Rightarrow> u32 \<Rightarrow> u32 \<Rightarrow> BlockPool \<Rightarrow> nat set \<Rightarrow> bool" where
  "init_ok buf element_sz cache_num bp Q \<longleftrightarrow> pool_inv bp Q \<and> buf \<noteq> 0 \<and>
     4096 \<le> unat (m_block_size bp) \<and> unat (m_block_size bp) mod 4096 = 0 \<and>
     0 < unat element_sz \<and> unat element_sz \<le> 4056 \<and>
     unat cache_num * unat (ALIGN_UP_ptr element_sz) + sizeof_head < 2 ^ 32 \<and>
     (\<forall>x \<in> Q \<union> cached bp. x + unat (m_block_size bp) \<le> buf \<or>
        buf + unat cache_num * unat (ALIGN_UP_ptr element_sz) + sizeof_head \<le> x)"

lemma MemoryPool_Init_inv:
  assumes "init_ok buf element_sz cache_num bp Q"
  shows "\<exists>p. MemoryPool_Init buf element_sz cache_num (MemoryPool_new bp nodes heads cells) = Some (True, p) \<and>
     mp_inv p Q [] [] {} \<and> m_element_size p = ALIGN_UP_ptr element_sz \<and> m_block_pool p = bp \<and>
     m_cache_block_head p = buf \<and> m_blocks p = [] \<and>
     m_cache_block_end p = buf + unat cache_num * unat (ALIGN_UP_ptr element_sz) + sizeof_head"
proof -
  let ?e = "ALIGN_UP_ptr element_sz"
  define n where "n = unat cache_num * unat ?e + sizeof_head"
  from assms have es: "0 < unat element_sz" "unat element_sz \<le> 4056" and n: "n < 2 ^ 32" and buf: "buf \<noteq> 0"
    by (auto simp: init_ok_def n_def)
  from es have e: "unat ?e = (unat element_sz + 7) div 8 * 8" by (intro ALIGN_UP_ptr_eq) simp
  with es have e8: "8 \<le> unat ?e" "unat ?e \<le> 4056" by auto
  have "unat cache_num * unat ?e < 2 ^ 64" using n by (simp add: n_def)
  then have m: "unat (ucast cache_num * ucast ?e :: u64) = unat cache_num * unat ?e"
    using unat_mult_lem [of "ucast cache_num :: u64" "ucast ?e"] by (simp add: unat_ucast_up)
  then have t: "unat (ucast cache_num * ucast ?e + of_nat sizeof_head :: u64) = n"
    using n by (subst unat_add_lem [THEN iffD1]) (simp_all add: n_def sizeof_head_def)
  let ?t = "ucast cache_num * ucast ?e + of_nat sizeof_head :: u64"
  define b where "b = MemoryBlockInit (ucast ?t) ?e"
  have ut: "unat (ucast ?t :: u32) = n" using n t by (subst unat_ucast_small) simp_all
  then have tn: "(ucast ?t :: u32) = of_nat n" using n by (simp add: word_unat_eq_iff unat_of_nat_small)
  let ?p = "set_head buf b ((MemoryPool_new bp nodes heads cells)\<lparr>m_cache_num := cache_num, m_element_size := ?e,
      m_cache_block_head := buf, m_cache_block_end := buf + n\<rparr>)"
  have "?e \<noteq> 0" using e8 by auto
  then have "MemoryPool_Init buf element_sz cache_num (MemoryPool_new bp nodes heads cells) = Some (True, ?p)"
    using buf t by (simp add: MemoryPool_Init_def Let_def b_def)
  moreover have "mp_inv ?p Q [] [] {}"
  proof -
    have "block_ok buf b cells {}"
      using MemoryBlockInit_block_inv [of buf ?e "ucast ?t" cells] buf e8 ut
      by (auto simp: block_ok_def b_def n_def)
    moreover have "area_size ?p buf = ucast ?t" using tn by (simp add: area_size_def)
    ultimately have "carved ?p buf {}" by (simp add: carved_def area_cap_def b_def MemoryPool_new_def)
    moreover have "space_ok ?p Q {}"
      using assms n by (auto simp: space_ok_def init_ok_def MemoryPool_new_def n_def sizeof_head_def)
    moreover have "lists_ok ?p [] []"
      by (simp add: lists_ok_def MemoryPool_new_def dlist_def ListInit_def)
    moreover have "0 < unat (max_element_num (MemoryBlockInit (m_block_size bp) ?e))"
      using assms e8 by (intro block_cap_pos) (auto simp: init_ok_def)
    ultimately show ?thesis using assms e8
      by (simp add: mp_inv_def heads_ok_def MemoryPool_new_def init_ok_def sizeof_head_def)
  qed
  ultimately show ?thesis by (auto simp: n_def MemoryPool_new_def add.assoc)
qed

section \<open>Threads\<close>

text \<open>
  A configuration: the pool, the elements in use (\<open>cf_live\<close>), the number of calls of \<open>Alloc\<close> that have
  left the first locked part empty-handed, the blocks (with their first element) that such calls
  have prepared, the blocks that calls of \<open>Free\<close> are about to give back, and the blocks that other
  clients of the shared block pool hold. A step is one locked part of one call, one call of the block
  pool, a write of a client into an element in use, or a call of another client of the block pool.
\<close>

record mp_conf =
  cf_pool :: MemoryPool
  cf_live :: "nat list"
  cf_slow :: nat
  cf_ready :: "(nat \<times> nat) list"
  cf_going :: "nat list"
  cf_others :: "nat list"

definition cf_held :: "mp_conf \<Rightarrow> nat list" where
  "cf_held c = cf_others c @ map fst (cf_ready c) @ cf_going c"

definition others_take :: "nat \<Rightarrow> MemoryPool \<Rightarrow> nat \<times> MemoryPool" where
  "others_take e p = (let (h, bp) = BlockPool_Alloc e (m_block_pool p) in (h, p\<lparr>m_block_pool := bp\<rparr>))"

inductive mp_step :: "mp_conf \<Rightarrow> mp_conf \<Rightarrow> bool" where
  alloc: "Alloc_locked (cf_pool c) = Some (x, p) \<Longrightarrow>
    mp_step c (if x = 0 then c\<lparr>cf_pool := p, cf_slow := cf_slow c + 1\<rparr>
               else c\<lparr>cf_pool := p, cf_live := x # cf_live c\<rparr>)"
| block: "0 < cf_slow c \<Longrightarrow> mp_answer_ok e (cf_pool c) (set (cf_held c)) \<Longrightarrow>
    Alloc_block e (cf_pool c) = Some (h, x, p) \<Longrightarrow>
    mp_step c (c\<lparr>cf_pool := p, cf_slow := cf_slow c - 1, cf_ready := (h, x) # cf_ready c\<rparr>)"
| publish: "(h, x) \<in> set (cf_ready c) \<Longrightarrow>
    mp_step c (c\<lparr>cf_pool := Alloc_publish h (cf_pool c), cf_ready := remove1 (h, x) (cf_ready c),
                 cf_live := x # cf_live c\<rparr>)"
| free: "x \<in> set (cf_live c) \<Longrightarrow> Free_locked x (cf_pool c) = (r, p) \<Longrightarrow>
    mp_step c (c\<lparr>cf_pool := p, cf_live := remove1 x (cf_live c),
                 cf_going := (case r of None \<Rightarrow> cf_going c | Some h \<Rightarrow> h # cf_going c)\<rparr>)"
| give_back: "h \<in> set (cf_going c) \<Longrightarrow>
    mp_step c (c\<lparr>cf_pool := snd (Free_block h (cf_pool c)), cf_going := remove1 h (cf_going c)\<rparr>)"
| poke: "x \<in> set (cf_live c) \<Longrightarrow>
    client_write x (unat (m_element_size (cf_pool c))) (m_cells (cf_pool c)) cells \<Longrightarrow>
    mp_step c (c\<lparr>cf_pool := (cf_pool c)\<lparr>m_cells := cells\<rparr>\<rparr>)"
| take: "mp_answer_ok e (cf_pool c) (set (cf_held c)) \<Longrightarrow> others_take e (cf_pool c) = (h, p) \<Longrightarrow>
    mp_step c (c\<lparr>cf_pool := p, cf_others := h # cf_others c\<rparr>)"
| give: "h \<in> set (cf_others c) \<Longrightarrow>
    mp_step c (c\<lparr>cf_pool := snd (Free_block h (cf_pool c)), cf_others := remove1 h (cf_others c)\<rparr>)"

definition conf_ok :: "mp_conf \<Rightarrow> bool" where
  "conf_ok c \<longleftrightarrow> mp_ok (cf_pool c) (set (cf_held c)) (set (cf_live c)) \<and> distinct (cf_live c) \<and>
     distinct (cf_held c) \<and> (\<forall>(h, x) \<in> set (cf_ready c). carved (cf_pool c) h {x})"

lemma conf_okI:
  assumes "mp_inv (cf_pool c) Q fr fu L" and "set (cf_held c) = Q" and "set (cf_live c) = L"
    and "distinct (cf_live c)" and "distinct (cf_held c)"
    and "\<And>h x. (h, x) \<in> set (cf_ready c) \<Longrightarrow> carved (cf_pool c) h {x}"
  shows "conf_ok c"
  using assms by (auto simp: conf_ok_def mp_ok_def)

lemma map_fst_remove1:
  "(h, x) \<in> set xs \<Longrightarrow> distinct (map fst xs) \<Longrightarrow> map fst (remove1 (h, x) xs) = remove1 h (map fst xs)"
  by (induction xs) force+

lemma held_remove:
  assumes "distinct (cf_held c)"
  shows "(h, x) \<in> set (cf_ready c) \<Longrightarrow>
      cf_others c @ map fst (remove1 (h, x) (cf_ready c)) @ cf_going c = remove1 h (cf_held c)"
    and "h \<in> set (cf_going c) \<Longrightarrow>
      cf_others c @ map fst (cf_ready c) @ remove1 h (cf_going c) = remove1 h (cf_held c)"
    and "h \<in> set (cf_others c) \<Longrightarrow>
      remove1 h (cf_others c) @ map fst (cf_ready c) @ cf_going c = remove1 h (cf_held c)"
  using assms by (force simp: cf_held_def remove1_append map_fst_remove1)+

lemma carved_Alloc_publish [simp]: "carved (Alloc_publish h p) = carved p"
  by (simp add: Alloc_publish_def AddMemoryBlock_def Let_def)

lemma conf_okE:
  assumes "conf_ok c"
  obtains fr fu where "mp_inv (cf_pool c) (set (cf_held c)) fr fu (set (cf_live c))"
    and "distinct (cf_live c)" and "distinct (cf_held c)"
    and "\<And>h x. (h, x) \<in> set (cf_ready c) \<Longrightarrow> carved (cf_pool c) h {x} \<and> h \<in> set (cf_held c)"
proof -
  from assms obtain fr fu where "mp_inv (cf_pool c) (set (cf_held c)) fr fu (set (cf_live c))"
    by (auto simp: conf_ok_def mp_ok_def)
  moreover have "h \<in> set (cf_held c)" if "(h, x) \<in> set (cf_ready c)" for h x
    using that by (force simp: cf_held_def)
  ultimately show ?thesis using assms by (intro that [of fr fu]) (auto simp: conf_ok_def)
qed

lemma conf_ok_publish:
  assumes "conf_ok c" and "(h, x) \<in> set (cf_ready c)"
  shows "conf_ok (c\<lparr>cf_pool := Alloc_publish h (cf_pool c), cf_ready := remove1 (h, x) (cf_ready c),
     cf_live := x # cf_live c\<rparr>)"
proof -
  let ?Q = "set (cf_held c)" and ?L = "set (cf_live c)"
  from assms(1) obtain fr fu where inv: "mp_inv (cf_pool c) ?Q fr fu ?L" and dl: "distinct (cf_live c)"
    and dh: "distinct (cf_held c)"
    and rd: "\<And>h x. (h, x) \<in> set (cf_ready c) \<Longrightarrow> carved (cf_pool c) h {x} \<and> h \<in> ?Q" by (rule conf_okE) blast
  note held = held_remove(1) [OF dh assms(2)]
  have "insert h (?Q - {h}) = ?Q" using rd [OF assms(2)] by blast
  with Alloc_publish_inv [of "cf_pool c" h "?Q - {h}" fr fu ?L x] inv rd [OF assms(2)]
  have "x \<notin> ?L" and "mp_inv (Alloc_publish h (cf_pool c)) (?Q - {h}) (h # fr) fu (insert x ?L)" by auto
  then show ?thesis
    by (intro conf_okI [of _ "?Q - {h}" "h # fr" fu "insert x ?L"])
      (use dl dh rd held in \<open>auto simp: cf_held_def set_remove1_eq dest: notin_set_remove1\<close>)
qed

lemma conf_ok_free:
  assumes "conf_ok c" and "x \<in> set (cf_live c)" and "Free_locked x (cf_pool c) = (r, p)"
  shows "conf_ok (c\<lparr>cf_pool := p, cf_live := remove1 x (cf_live c),
     cf_going := (case r of None \<Rightarrow> cf_going c | Some h \<Rightarrow> h # cf_going c)\<rparr>)"
proof -
  let ?Q = "set (cf_held c)" and ?L = "set (cf_live c)"
  from assms(1) obtain fr fu where inv: "mp_inv (cf_pool c) ?Q fr fu ?L" and dl: "distinct (cf_live c)"
    and dh: "distinct (cf_held c)"
    and rd: "\<And>h x. (h, x) \<in> set (cf_ready c) \<Longrightarrow> carved (cf_pool c) h {x} \<and> h \<in> ?Q" by (rule conf_okE) blast
  from Free_locked_inv [OF inv assms(2)] assms(3)
  have k: "\<And>g U. g \<in> ?Q \<Longrightarrow> carved (cf_pool c) g U \<Longrightarrow> carved p g U"
    and cs: "case r of
        None \<Rightarrow> \<exists>gr gu. mp_inv p ?Q gr gu (?L - {x}) \<and> set gr \<union> set gu = set fr \<union> set fu
      | Some h \<Rightarrow> h \<in> set fr \<union> set fu \<and> ?L \<inter> area (cf_pool c) h = {x} \<and>
          mp_inv p (insert h ?Q) (remove1 h fr) (remove1 h fu) (?L - {x})" by auto
  show ?thesis
  proof (cases r)
    case None
    with cs obtain gr gu where "mp_inv p ?Q gr gu (?L - {x})" by auto
    then show ?thesis unfolding None
      by (intro conf_okI [of _ ?Q gr gu "?L - {x}"]) (use dl dh rd k in \<open>auto simp: cf_held_def set_remove1_eq\<close>)
  next
    case (Some h)
    with cs inv have "h \<notin> ?Q" and "mp_inv p (insert h ?Q) (remove1 h fr) (remove1 h fu) (?L - {x})"
      by (auto simp: mp_inv_def space_ok_def)
    then show ?thesis unfolding Some
      by (intro conf_okI [of _ "insert h ?Q" "remove1 h fr" "remove1 h fu" "?L - {x}"])
        (use dl dh rd k in \<open>auto simp: cf_held_def set_remove1_eq\<close>)
  qed
qed

lemma conf_ok_take:
  assumes "conf_ok c" and "mp_answer_ok e (cf_pool c) (set (cf_held c))" and "others_take e (cf_pool c) = (h, p)"
  shows "conf_ok (c\<lparr>cf_pool := p, cf_others := h # cf_others c\<rparr>)"
proof -
  let ?Q = "set (cf_held c)" and ?L = "set (cf_live c)"
  from assms(1) obtain fr fu where inv: "mp_inv (cf_pool c) ?Q fr fu ?L" and dl: "distinct (cf_live c)"
    and dh: "distinct (cf_held c)"
    and rd: "\<And>h x. (h, x) \<in> set (cf_ready c) \<Longrightarrow> carved (cf_pool c) h {x} \<and> h \<in> ?Q" by (rule conf_okE) blast
  obtain bp where bp: "BlockPool_Alloc e (m_block_pool (cf_pool c)) = (h, bp)"
    and p: "p = (cf_pool c)\<lparr>m_block_pool := bp\<rparr>"
    using assms(3) by (auto simp: others_take_def split: prod.splits)
  from Alloc_block_space [OF inv assms(2) bp] have "h \<notin> ?Q" "mp_inv p (insert h ?Q) fr fu ?L"
    by (auto simp: p)
  moreover have "carved p = carved (cf_pool c)"
    unfolding p by (rule area_pool(4) [OF BlockPool_Alloc_fields(1) [OF bp]])
  ultimately show ?thesis
    by (intro conf_okI [of _ "insert h ?Q" fr fu ?L]) (use dl dh rd in \<open>auto simp: cf_held_def\<close>)
qed

text \<open>Blocks that leave: a block that has become empty, or one of another client.\<close>

lemma conf_ok_give:
  assumes "conf_ok c" and "h \<in> set (cf_held c)" and "cf_pool d = snd (Free_block h (cf_pool c))"
    and "cf_held d = remove1 h (cf_held c)" and "cf_live d = cf_live c" and "cf_ready d = cf_ready c"
    and "\<And>x. (h, x) \<notin> set (cf_ready c)"
  shows "conf_ok d"
proof -
  from assms(1) obtain fr fu where inv: "mp_inv (cf_pool c) (set (cf_held c)) fr fu (set (cf_live c))"
    and dl: "distinct (cf_live c)" and dh: "distinct (cf_held c)"
    and rd: "\<And>h x. (h, x) \<in> set (cf_ready c) \<Longrightarrow> carved (cf_pool c) h {x} \<and> h \<in> set (cf_held c)" by (rule conf_okE) blast
  from Free_block_held [OF inv assms(2)] show ?thesis
    by (intro conf_okI [of _ "set (cf_held c) - {h}" fr fu "set (cf_live c)"])
      (use dl dh rd assms(3-7) in \<open>auto simp: set_remove1_eq\<close>)
qed

lemma conf_ok_step:
  assumes "mp_step c d" and "conf_ok c"
  shows "conf_ok d"
proof -
  let ?Q = "set (cf_held c)" and ?L = "set (cf_live c)"
  from assms(2) obtain fr fu where inv: "mp_inv (cf_pool c) ?Q fr fu ?L" and dl: "distinct (cf_live c)"
    and dh: "distinct (cf_held c)"
    and rd: "\<And>h x. (h, x) \<in> set (cf_ready c) \<Longrightarrow> carved (cf_pool c) h {x} \<and> h \<in> ?Q" by (rule conf_okE) blast
  show ?thesis using assms(1)
  proof cases
    case (alloc x p)
    have k: "carved p h U" if "carved (cf_pool c) h U" "h \<in> ?Q" for h U
      using Alloc_locked_frame [OF inv alloc(2)] that by blast
    from Alloc_locked_inv [OF inv] alloc(2) show ?thesis
      unfolding alloc(1) using inv dl dh rd k
      by (cases "x = 0") (auto intro!: conf_okI simp: cf_held_def)
  next
    case (block e h x p)
    from Alloc_block_inv [OF inv block(3)] block(4) have h: "h \<notin> ?Q" "mp_inv p (insert h ?Q) fr fu ?L"
      "carved p h {x}" and k: "\<And>g U. g \<in> ?Q \<Longrightarrow> carved (cf_pool c) g U \<Longrightarrow> carved p g U" by auto
    show ?thesis
      unfolding block(1) by (rule conf_okI [of _ "insert h ?Q" fr fu ?L])
        (use h dl dh rd k in \<open>auto simp: cf_held_def\<close>)
  next
    case (poke x cells)
    from mp_inv_client_write [OF inv poke(2,3)] show ?thesis
      unfolding poke(1) using dl dh rd by (intro conf_okI [of _ ?Q fr fu ?L]) (auto simp: cf_held_def)
  next
    case (give_back h)
    have h: "h \<in> ?Q" and nr: "\<And>x. (h, x) \<notin> set (cf_ready c)" using give_back(2) dh by (force simp: cf_held_def)+
    show ?thesis unfolding give_back(1)
      by (rule conf_ok_give [OF assms(2) h _ _ _ _ nr]) (use held_remove(2) [OF dh give_back(2)] in \<open>simp_all add: cf_held_def\<close>)
  next
    case (give h)
    have h: "h \<in> ?Q" and nr: "\<And>x. (h, x) \<notin> set (cf_ready c)" using give(2) dh by (force simp: cf_held_def)+
    show ?thesis unfolding give(1)
      by (rule conf_ok_give [OF assms(2) h _ _ _ _ nr]) (use held_remove(3) [OF dh give(2)] in \<open>simp_all add: cf_held_def\<close>)
  qed (use assms(2) in \<open>auto intro: conf_ok_publish conf_ok_free conf_ok_take\<close>)
qed

section \<open>The pool is an allocator\<close>

text \<open>One call after the other, the pool satisfies the contract of an allocator.\<close>

definition pool_take :: "nat \<Rightarrow> MemoryPool \<Rightarrow> nat \<times> MemoryPool" where
  "pool_take e p = (case MemoryPool_Alloc e p of Some r \<Rightarrow> r | None \<Rightarrow> (0, p))"

definition pool_touch :: "nat \<Rightarrow> MemoryPool \<Rightarrow> MemoryPool \<Rightarrow> bool" where
  "pool_touch x p q \<longleftrightarrow> (\<exists>cells. q = p\<lparr>m_cells := cells\<rparr> \<and>
     client_write x (unat (m_element_size p)) (m_cells p) cells)"

lemma Alloc_ok:
  assumes "mp_ok p Q L" and "mp_answer_ok e p Q"
  shows "\<exists>x q. MemoryPool_Alloc e p = Some (x, q) \<and> x \<noteq> 0 \<and> x \<notin> L \<and> mp_ok q Q (insert x L)"
proof -
  from assms(1) obtain fr fu where inv: "mp_inv p Q fr fu L" by (auto simp: mp_ok_def)
  from Alloc_locked_inv [OF inv] obtain x q where xq: "Alloc_locked p = Some (x, q)" and
    cs: "if x = 0 then q = p \<or> (\<exists>h gr. fr = h # gr \<and> mp_inv q Q gr (fu @ [h]) L \<and>
        (\<exists>nodes. q = p\<lparr>m_nodes := nodes\<rparr>))
      else x \<notin> L \<and> mp_inv q Q fr fu (insert x L) \<and>
        (\<exists>a b. a \<in> insert (m_cache_block_head p) (set fr \<union> set fu) \<and>
           q = (set_head a b p)\<lparr>m_used_cnt := m_used_cnt p + 1\<rparr>)" by blast
  show ?thesis
  proof (cases "x = 0")
    case False
    with xq cs show ?thesis by (auto simp: MemoryPool_Alloc_def mp_ok_def)
  next
    case True
    with cs inv obtain gr gu where q: "mp_inv q Q gr gu L" by auto
    have "mp_answer_ok e q Q"
      using assms(2) cs True by (auto simp: mp_answer_ok_def pool_blocks_def)
    from Alloc_block_inv [OF q this] obtain h y r where a: "Alloc_block e q = Some (h, y, r)" "h \<notin> Q"
      "y \<noteq> 0" "mp_inv r (insert h Q) gr gu L" "carved r h {y}" by blast
    with Alloc_publish_inv [OF a(4,2,5)] xq True show ?thesis
      by (auto simp: MemoryPool_Alloc_def mp_ok_def)
  qed
qed

lemma Free_ok:
  assumes "mp_ok p Q L" and "x \<in> L"
  shows "mp_ok (snd (MemoryPool_Free x p)) Q (L - {x})"
proof -
  from assms(1) obtain fr fu where inv: "mp_inv p Q fr fu L" by (auto simp: mp_ok_def)
  from Free_locked_inv [OF inv assms(2)] obtain r q where rq: "Free_locked x p = (r, q)" and
    cs: "case r of
        None \<Rightarrow> \<exists>gr gu. mp_inv q Q gr gu (L - {x}) \<and> set gr \<union> set gu = set fr \<union> set fu
      | Some h \<Rightarrow> h \<in> set fr \<union> set fu \<and> L \<inter> area p h = {x} \<and>
          mp_inv q (insert h Q) (remove1 h fr) (remove1 h fu) (L - {x})" by blast
  show ?thesis
  proof (cases r)
    case None
    with rq cs show ?thesis by (auto simp: MemoryPool_Free_def mp_ok_def)
  next
    case (Some h)
    with cs inv have "h \<notin> Q" by (auto simp: mp_inv_def space_ok_def)
    with Free_block_inv [of q h Q "remove1 h fr" "remove1 h fu" "L - {x}"] cs rq Some show ?thesis
      by (auto simp: MemoryPool_Free_def mp_ok_def)
  qed
qed

interpretation mpl: allocator "\<lambda>p. mp_ok p Q" pool_take "\<lambda>x p. snd (MemoryPool_Free x p)" pool_touch
  "\<lambda>e p _. mp_answer_ok e p Q" "\<lambda>p. unat (m_element_size p)" for Q
proof
  fix p q :: MemoryPool and L e x y
  assume ok: "mp_ok p Q L"
  then obtain fr fu where inv: "mp_inv p Q fr fu L" by (auto simp: mp_ok_def)
  { assume "mp_answer_ok e p Q" "pool_take e p = (x, q)" "x \<noteq> 0"
    with Alloc_ok [OF ok] show "x \<notin> L \<and> mp_ok q Q (insert x L)" by (fastforce simp: pool_take_def) }
  { assume "mp_answer_ok e p Q" "pool_take e p = (0, q)"
    with Alloc_ok [OF ok] show "mp_ok q Q L" by (fastforce simp: pool_take_def) }
  { assume "x \<in> L" with ok show "mp_ok (snd (MemoryPool_Free x p)) Q (L - {x})" by (rule Free_ok) }
  { assume "x \<in> L" "pool_touch x p q" with mp_inv_client_write [OF inv] show "mp_ok q Q L"
      by (auto simp: pool_touch_def mp_ok_def) }
  { assume "x \<in> L" "y \<in> L" "x < y" with inv show "x + unat (m_element_size p) \<le> y"
      by (rule mp_inv_apart) }
qed

section \<open>Properties\<close>

lemma conf_ok_reach: "mp_step\<^sup>*\<^sup>* c d \<Longrightarrow> conf_ok c \<Longrightarrow> conf_ok d"
  by (induction rule: rtranclp_induct) (auto intro: conf_ok_step)

text \<open>
  C2: whatever threads do with an initialised pool, interleaved at the granularity of its locks and
  with other clients of the shared block pool: the pool, its lists and its blocks stay
  consistent (\<open>conf_ok\<close>: the invariant \<open>mp_inv\<close>, and the blocks between two locked parts are held by one
  thread each), the elements in use are distinct, never overlap and lie wholly inside the pool's cache
  or a block that the pool has registered in \<open>m_blocks\<close>, \<open>UsedCount\<close> is their number, no call dereferences a null
  head, and when no element is in use every block has left the pool.
\<close>

theorem MemoryPool_interleavings_safe:
  assumes "init_ok buf element_sz cache_num bp (set others)" and "distinct others"
    and "MemoryPool_Init buf element_sz cache_num (MemoryPool_new bp nodes heads cells) = Some (True, p)"
    and "mp_step\<^sup>*\<^sup>* \<lparr>cf_pool = p, cf_live = [], cf_slow = 0, cf_ready = [], cf_going = [], cf_others = others\<rparr> c"
  shows "conf_ok c \<and> distinct (cf_live c) \<and>
     (\<forall>x\<in>set (cf_live c).
        (m_cache_block_head (cf_pool c) + sizeof_head \<le> x \<and>
         x + unat (m_element_size (cf_pool c)) \<le> m_cache_block_end (cf_pool c)) \<or>
        (\<exists>h. h + unat (m_block_size (m_block_pool (cf_pool c))) \<in> set (m_blocks (cf_pool c)) \<and> h + sizeof_head \<le> x \<and>
           x + unat (m_element_size (cf_pool c)) \<le> h + unat (m_block_size (m_block_pool (cf_pool c))))) \<and>
     (\<forall>x\<in>set (cf_live c). \<forall>y\<in>set (cf_live c). x < y \<longrightarrow> x + unat (m_element_size (cf_pool c)) \<le> y) \<and>
     UsedCount (cf_pool c) = of_nat (length (cf_live c)) \<and>
     Alloc_locked (cf_pool c) \<noteq> None \<and>
     (\<forall>e. mp_answer_ok e (cf_pool c) (set (cf_held c)) \<longrightarrow> Alloc_block e (cf_pool c) \<noteq> None) \<and>
     (cf_live c = [] \<longrightarrow> m_blocks (cf_pool c) = [])"
proof -
  from MemoryPool_Init_inv [OF assms(1), of nodes heads cells] assms(3)
  have "mp_inv p (set others) [] [] {}" by auto
  then have "conf_ok \<lparr>cf_pool = p, cf_live = [], cf_slow = 0, cf_ready = [], cf_going = [], cf_others = others\<rparr>"
    by (intro conf_okI) (use assms(2) in \<open>auto simp: cf_held_def\<close>)
  note ok = conf_ok_reach [OF assms(4) this]
  from ok obtain fr fu where d: "distinct (cf_live c)"
    and inv: "mp_inv (cf_pool c) (set (cf_held c)) fr fu (set (cf_live c))"
    by (auto simp: conf_ok_def mp_ok_def)
  have "\<forall>x\<in>set (cf_live c).
      (m_cache_block_head (cf_pool c) + sizeof_head \<le> x \<and>
       x + unat (m_element_size (cf_pool c)) \<le> m_cache_block_end (cf_pool c)) \<or>
      (\<exists>h. h + unat (m_block_size (m_block_pool (cf_pool c))) \<in> set (m_blocks (cf_pool c)) \<and> h + sizeof_head \<le> x \<and>
         x + unat (m_element_size (cf_pool c)) \<le> h + unat (m_block_size (m_block_pool (cf_pool c))))"
    using mp_inv_inside [OF inv] by (rule ballI)
  moreover have "UsedCount (cf_pool c) = of_nat (length (cf_live c))"
    using inv d by (simp add: UsedCount_def mp_inv_def distinct_card)
  moreover have "\<forall>e. mp_answer_ok e (cf_pool c) (set (cf_held c)) \<longrightarrow> Alloc_block e (cf_pool c) \<noteq> None"
    using Alloc_block_inv [OF inv] by blast
  moreover have "Alloc_locked (cf_pool c) \<noteq> None" using Alloc_locked_inv [OF inv] by blast
  moreover have "\<forall>x\<in>set (cf_live c). \<forall>y\<in>set (cf_live c). x < y \<longrightarrow> x + unat (m_element_size (cf_pool c)) \<le> y"
    using mp_inv_apart [OF inv] by blast
  moreover have "cf_live c = [] \<longrightarrow> m_blocks (cf_pool c) = []" using inv mp_inv_empty by auto
  ultimately show ?thesis using ok d by blast
qed

text \<open>A small pool for the witnesses: one block of 4096 bytes cached, one element of 24 bytes in front.\<close>

abbreviation (input) demo_bp :: BlockPool where
  "demo_bp \<equiv> \<lparr>m_block_size = 4096, m_cache_start = 4096, m_cache_end = 8192, m_free_blocks = [4096]\<rparr>"

abbreviation (input) demo_new :: MemoryPool where
  "demo_new \<equiv> MemoryPool_new demo_bp \<lparr>l_next = \<lambda>n. n, l_prev = \<lambda>n. n\<rparr> (\<lambda>_. MemoryBlockInit 0 0) (\<lambda>_. 0)"

abbreviation (input) demo_pool :: MemoryPool where
  "demo_pool \<equiv> snd (the (MemoryPool_Init 100 20 1 demo_new))"

lemma demo_init_ok: "n = 0 \<or> n = 1 \<Longrightarrow> init_ok 100 20 n demo_bp {}"
proof -
  assume n: "n = 0 \<or> n = 1"
  have c: "cached demo_bp = {4096}" by (auto simp: cached_def intro: exI [of _ 0])
  have "unat (ALIGN_UP_ptr 20) = 24" by (simp add: ALIGN_UP_ptr_eq)
  with c n show ?thesis by (auto simp: init_ok_def pool_inv_def sizeof_head_def)
qed

lemma demo_pool_ok: "MemoryPool_Init 100 20 1 demo_new = Some (True, demo_pool)"
  "mp_ok demo_pool {} {}" "mp_answer_ok 20000 demo_pool {}"
proof -
  obtain p where p: "MemoryPool_Init 100 20 1 demo_new = Some (True, p)" "mp_inv p {} [] [] {}"
    "m_element_size p = ALIGN_UP_ptr 20" "m_block_pool p = demo_bp" "m_cache_block_head p = 100"
    "m_blocks p = []" "m_cache_block_end p = 100 + unat (1 :: u32) * unat (ALIGN_UP_ptr 20) + sizeof_head"
    using MemoryPool_Init_inv [OF demo_init_ok, of 1 "\<lparr>l_next = \<lambda>n. n, l_prev = \<lambda>n. n\<rparr>"
        "\<lambda>_. MemoryBlockInit 0 0" "\<lambda>_. 0"] by blast
  have "unat (ALIGN_UP_ptr 20) = 24" by (simp add: ALIGN_UP_ptr_eq)
  with p have "mp_answer_ok 20000 p {}"
    by (simp add: mp_answer_ok_def block_answer_ok_def beside_def pool_blocks_def sizeof_head_def)
  moreover from p(2) have "mp_ok p {} {}" unfolding mp_ok_def by blast
  ultimately show "MemoryPool_Init 100 20 1 demo_new = Some (True, demo_pool)"
    "mp_ok demo_pool {} {}" "mp_answer_ok 20000 demo_pool {}" using p(1) by simp_all
qed

lemma demo_alloc: "fst (the (Alloc_locked demo_pool)) = 140"
  by code_simp

theorem MemoryPool_interleavings_safe_witness:
  "Alloc_locked demo_pool \<noteq> None \<and> UsedCount (snd (the (Alloc_locked demo_pool))) = 1"
proof -
  let ?c = "\<lparr>cf_pool = demo_pool, cf_live = [], cf_slow = 0, cf_ready = [], cf_going = [], cf_others = []\<rparr>"
  note safe = MemoryPool_interleavings_safe [OF _ _ demo_pool_ok(1), of "[]"]
  from safe [of ?c] demo_init_ok obtain x q where xq: "Alloc_locked demo_pool = Some (x, q)" by auto
  with demo_alloc have "x = 140" by simp
  with xq have "mp_step ?c (?c\<lparr>cf_pool := q, cf_live := [140]\<rparr>)"
    using mp_step.alloc [of ?c x q] by simp
  then have "mp_step\<^sup>*\<^sup>* ?c (?c\<lparr>cf_pool := q, cf_live := [140]\<rparr>)" by simp
  from safe [OF _ _ this] demo_init_ok xq show ?thesis by simp
qed

text \<open>
  C25: \<open>Alloc\<close> on a well-formed pool always returns, provided the C library answers with memory
  should it be asked, and what it returns is an element that was not in use and overlaps none
  that is.
\<close>

theorem MemoryPool_Alloc_spec:
  assumes "mp_ok p Q L" and "mp_answer_ok e p Q"
  shows "\<exists>x q. MemoryPool_Alloc e p = Some (x, q) \<and> x \<noteq> 0 \<and> x \<notin> L \<and> mp_ok q Q (insert x L) \<and>
     (\<forall>y\<in>L. y + unat (m_element_size q) \<le> x \<or> x + unat (m_element_size q) \<le> y)"
proof -
  from Alloc_ok [OF assms] obtain x q where a: "MemoryPool_Alloc e p = Some (x, q)" "x \<noteq> 0" "x \<notin> L"
    and ok: "mp_ok q Q (insert x L)" by blast
  have "y + unat (m_element_size q) \<le> x \<or> x + unat (m_element_size q) \<le> y" if "y \<in> L" for y
    using that a(3) mpl.apart [OF ok, of x y] mpl.apart [OF ok, of y x]
    by (cases x y rule: linorder_cases) auto
  with a ok show ?thesis by blast
qed

theorem MemoryPool_Alloc_spec_witness:
  "mp_answer_ok 20000 demo_pool {} \<and> MemoryPool_Alloc 20000 demo_pool \<noteq> None"
  using MemoryPool_Alloc_spec [OF demo_pool_ok(2,3)] demo_pool_ok(3) by auto

text \<open>
  \<open>Free\<close> of an element in use takes back that element only; a block whose last element goes
  is taken off the lists and returned to the block pool, so that after the last \<open>Free\<close> the pool
  keeps none.
\<close>

theorem MemoryPool_Free_spec:
  assumes "mp_ok p Q L" and "x \<in> L"
  shows "mp_ok (snd (MemoryPool_Free x p)) Q (L - {x}) \<and>
     UsedCount (snd (MemoryPool_Free x p)) = of_nat (card L - 1) \<and>
     (L = {x} \<longrightarrow> m_blocks (snd (MemoryPool_Free x p)) = [] \<and>
        MaxUsedSize (snd (MemoryPool_Free x p)) =
          ucast (m_element_size (snd (MemoryPool_Free x p))) * ucast (m_cache_num (snd (MemoryPool_Free x p))))"
proof -
  from Free_ok [OF assms] obtain fr fu where inv: "mp_inv (snd (MemoryPool_Free x p)) Q fr fu (L - {x})"
    by (auto simp: mp_ok_def)
  from assms(1) have "finite L" using mp_inv_finite by (auto simp: mp_ok_def)
  with inv assms(2) mp_inv_empty [of _ Q fr fu] Free_ok [OF assms] show ?thesis
    by (auto simp: UsedCount_def MaxUsedSize_def mp_inv_def)
qed

theorem MemoryPool_Free_spec_witness:
  "\<exists>x q. MemoryPool_Alloc 20000 demo_pool = Some (x, q) \<and> UsedCount (snd (MemoryPool_Free x q)) = 0"
proof -
  from Alloc_ok [OF demo_pool_ok(2,3)] obtain x q where
    "MemoryPool_Alloc 20000 demo_pool = Some (x, q)" "mp_ok q {} {x}" by auto
  with MemoryPool_Free_spec [of q "{}" "{x}" x] show ?thesis by auto
qed

text \<open>
  \<open>Free\<close> of a pointer the pool never handed out, below the end of one of its blocks, releases
  nothing and yet lowers the count: \<open>UsedCount\<close> is then one less than the number of elements in use.
\<close>

theorem MemoryPool_Free_foreign:
  assumes "mp_ok p Q L" and "e \<in> set (m_blocks p)" and "x < e"
    and "\<not> (x < m_cache_block_end p \<and> m_cache_block_head p \<le> x)"
    and "\<forall>h\<in>pool_blocks p. \<not> (h \<le> x \<and> x < h + unat (m_block_size (m_block_pool p)))"
  shows "MemoryPool_Free x p = (None, p\<lparr>m_used_cnt := of_nat (card L) - 1\<rparr>)"
proof -
  let ?s = "unat (m_block_size (m_block_pool p))"
  from assms(1) obtain fr fu where inv: "mp_inv p Q fr fu L" by (auto simp: mp_ok_def)
  then have ls: "lists_ok p fr fu" and u: "m_used_cnt p = of_nat (card L)" by (auto simp: mp_inv_def)
  from assms(2,3) obtain e' where f: "find (\<lambda>end. x < end) (m_blocks p) = Some e'"
    by (cases "find (\<lambda>end. x < end) (m_blocks p)") (auto simp: find_None_iff)
  then have e': "e' \<in> set (m_blocks p)" "x < e'" by (auto simp: find_Some_iff)
  then obtain h where h: "e' = h + ?s" "h \<in> pool_blocks p"
    using ls by (auto simp: lists_ok_def pool_blocks_eq)
  with assms(5) e' have "x < h" by auto
  then have "head_free h x (p\<lparr>m_used_cnt := m_used_cnt p - 1\<rparr>) = (-1, p\<lparr>m_used_cnt := m_used_cnt p - 1\<rparr>)"
    by (simp add: head_free_def MemoryFree_def set_head_def)
  moreover have "FindMemoryBlock x p = Some h"
    by (simp add: FindMemoryBlock_def f h BlockPool_BlockSize_def)
  ultimately have "Free_locked x p = (None, p\<lparr>m_used_cnt := m_used_cnt p - 1\<rparr>)"
    using assms(4) by (auto simp: Free_locked_def)
  with u show ?thesis by (simp add: MemoryPool_Free_def)
qed

lemma demo_heads: "ALIGN_UP_ptr 20 = 24"
  "MemoryBlockInit 40 24 = \<lparr>block_size = 40, element_size = 24, max_element_num = 0, element_used_cnt = 0,
     next_element_offset = 40, next_element_ptr = 0\<rparr>"
  "MemoryBlockInit 4096 24 = \<lparr>block_size = 4096, element_size = 24, max_element_num = 169,
     element_used_cnt = 0, next_element_offset = 40, next_element_ptr = 0\<rparr>"
  by code_simp+

lemma demo_block:
  assumes "MemoryPool_Init 100 20 0 demo_new = Some (True, p)"
  shows "\<exists>q. MemoryPool_Alloc 20000 p = Some (4136, q) \<and> m_blocks q = [8192] \<and>
     m_cache_block_head q = 100 \<and> m_cache_block_end q = 140 \<and> m_block_size (m_block_pool q) = 4096"
  using assms by (auto simp: MemoryPool_Init_def MemoryPool_new_def demo_heads sizeof_head_def Let_def
      MemoryPool_Alloc_def Alloc_locked_def head_alloc_def MemoryAlloc_def GetFreeMemoryBlock_def
      ListEmtpy_def ListInit_def Alloc_block_def BlockPool_Alloc_def BlockPool_BlockSize_def
      Alloc_publish_def AddMemoryBlock_def insort_insert_key_def)

theorem MemoryPool_Free_foreign_witness:
  "\<exists>q. mp_ok q {} {4136} \<and> UsedCount (snd (MemoryPool_Free 200 q)) = 0"
proof -
  obtain p where p: "MemoryPool_Init 100 20 0 demo_new = Some (True, p)" "mp_inv p {} [] [] {}"
    "m_block_pool p = demo_bp" "m_cache_block_head p = 100" "m_blocks p = []"
    "m_cache_block_end p = 100 + unat (0 :: u32) * unat (ALIGN_UP_ptr 20) + sizeof_head"
    using MemoryPool_Init_inv [OF demo_init_ok, of 0 "\<lparr>l_next = \<lambda>n. n, l_prev = \<lambda>n. n\<rparr>"
        "\<lambda>_. MemoryBlockInit 0 0" "\<lambda>_. 0"] by blast
  then have "mp_answer_ok 20000 p {}"
    by (simp add: mp_answer_ok_def block_answer_ok_def beside_def pool_blocks_def sizeof_head_def)
  moreover from p(2) have "mp_ok p {} {}" unfolding mp_ok_def by blast
  ultimately obtain q where q: "mp_ok q {} {4136}" "m_blocks q = [8192]" "m_cache_block_head q = 100"
    "m_cache_block_end q = 140" "m_block_size (m_block_pool q) = 4096"
    using Alloc_ok [of p "{}" "{}" 20000] demo_block [OF p(1)] by auto
  have "MemoryPool_Free 200 q = (None, q\<lparr>m_used_cnt := of_nat (card {4136 :: nat}) - 1\<rparr>)"
    by (rule MemoryPool_Free_foreign [OF q(1), of 8192]) (use q in \<open>auto simp: pool_blocks_def\<close>)
  with q(1) show ?thesis by (auto simp: UsedCount_def)
qed

end
