(* ===== verification/Buffer.thy ===== *)
theory Buffer
  imports Block_Pool
begin

text \<open>
  \<^verbatim>\<open>include/xfutil/buffer.h\<close> and \<^verbatim>\<open>src/buffer.cpp\<close>: the arena \<^verbatim>\<open>WriteBuffer\<close> and the list of blocks
  \<^verbatim>\<open>BlockBuffer\<close> that packing and unpacking work on. Addresses are natural numbers with \<open>0\<close> as
  the null pointer. The answers of the C library's allocator are arguments of the operations; the
  blocks handed back to it are results. A \<open>Block\<close> of the model carries the contents of its memory
  beside its address.
\<close>

section \<open>WriteBuffer\<close>

record WriteBuffer =
  wb_pool :: "BlockPool option"
  wb_block_size :: u32
  wb_ptr :: nat
  wb_size :: u32
  wb_usage :: u64
  wb_blocks :: "nat list"
  wb_bufs :: "nat list"

definition WriteBuffer_new_pool :: "BlockPool \<Rightarrow> WriteBuffer" where
  "WriteBuffer_new_pool pool = \<lparr>wb_pool = Some pool, wb_block_size = BlockPool_BlockSize pool,
     wb_ptr = 0, wb_size = 0, wb_usage = 0, wb_blocks = [], wb_bufs = []\<rparr>"

definition WriteBuffer_new :: "u32 \<Rightarrow> WriteBuffer" where
  "WriteBuffer_new bs = \<lparr>wb_pool = None, wb_block_size = bs,
     wb_ptr = 0, wb_size = 0, wb_usage = 0, wb_blocks = [], wb_bufs = []\<rparr>"

definition WriteBuffer_LargeWrite :: "nat \<Rightarrow> u32 \<Rightarrow> WriteBuffer \<Rightarrow> nat \<times> WriteBuffer" where
  "WriteBuffer_LargeWrite malloc_res sz w =
     (if sz > wb_block_size w div 2 then
        (malloc_res, w\<lparr>wb_bufs := wb_bufs w @ [malloc_res], wb_usage := wb_usage w + ucast sz\<rparr>)
      else
        let w = (case wb_pool w of
                   Some pool \<Rightarrow>
                     (let (p, pool') = BlockPool_Alloc malloc_res pool
                      in w\<lparr>wb_pool := Some pool', wb_ptr := p, wb_blocks := wb_blocks w @ [p]\<rparr>)
                 | None \<Rightarrow> w\<lparr>wb_ptr := malloc_res, wb_bufs := wb_bufs w @ [malloc_res]\<rparr>);
            w = w\<lparr>wb_usage := wb_usage w + ucast (wb_block_size w)\<rparr>;
            w = w\<lparr>wb_size := wb_block_size w\<rparr>;
            ptr = wb_ptr w
        in (ptr, w\<lparr>wb_ptr := wb_ptr w + unat sz, wb_size := wb_size w - sz\<rparr>))"

text \<open>
  How many bytes \<open>LargeWrite\<close> asks the C library for, when it asks: the size of the request in
  both \<^verbatim>\<open>xmalloc\<close> calls of the function, the block size in the pool's.
\<close>

definition LargeWrite_request :: "u32 \<Rightarrow> WriteBuffer \<Rightarrow> nat" where
  "LargeWrite_request sz w =
     (if sz > wb_block_size w div 2 \<or> wb_pool w = None then unat sz
      else unat (wb_block_size w))"

definition WriteBuffer_Write :: "nat \<Rightarrow> u32 \<Rightarrow> WriteBuffer \<Rightarrow> nat \<times> WriteBuffer" where
  "WriteBuffer_Write malloc_res sz w =
     (if wb_size w \<ge> sz
      then (wb_ptr w, w\<lparr>wb_ptr := wb_ptr w + unat sz, wb_size := wb_size w - sz\<rparr>)
      else WriteBuffer_LargeWrite malloc_res sz w)"

text \<open>
  \<open>Write\<close> with data: \<^verbatim>\<open>memcpy\<close> into the memory \<open>Write\<close> returns, here a function from addresses to bytes; a
  copy to a null pointer is \<^const>\<open>None\<close>.
\<close>

definition copy_to :: "nat \<Rightarrow> bytes \<Rightarrow> (nat \<Rightarrow> u8) \<Rightarrow> nat \<Rightarrow> u8" where
  "copy_to a data m = (\<lambda>x. if a \<le> x \<and> x < a + length data then data ! (x - a) else m x)"

definition WriteBuffer_Write_data :: "nat \<Rightarrow> bytes \<Rightarrow> (nat \<Rightarrow> u8) \<Rightarrow> WriteBuffer \<Rightarrow> (nat \<times> (nat \<Rightarrow> u8) \<times> WriteBuffer) option" where
  "WriteBuffer_Write_data malloc_res data m w =
     (let (buf, w) = WriteBuffer_Write malloc_res (of_nat (length data)) w
      in if buf = 0 \<and> data \<noteq> [] then None else Some (buf, copy_to buf data m, w))"

definition WriteBuffer_Usage :: "WriteBuffer \<Rightarrow> u64" where
  "WriteBuffer_Usage w = wb_usage w"

text \<open>The loop of \<open>Clear\<close> over the pool's blocks; what the pool passes on to \<^verbatim>\<open>xfree\<close> is collected.\<close>

fun pool_free_all :: "nat list \<Rightarrow> BlockPool \<Rightarrow> nat list \<times> BlockPool" where
  "pool_free_all [] pool = ([], pool)"
| "pool_free_all (b # bs) pool =
     (let (freed, pool) = BlockPool_Free b pool;
          (rest, pool) = pool_free_all bs pool
      in ((case freed of None \<Rightarrow> [] | Some x \<Rightarrow> [x]) @ rest, pool))"

definition WriteBuffer_Clear :: "WriteBuffer \<Rightarrow> nat list \<times> WriteBuffer" where
  "WriteBuffer_Clear w =
     (let w = w\<lparr>wb_ptr := 0, wb_size := 0\<rparr>;
          (freed, pool) = (case wb_pool w of
                             Some pool \<Rightarrow> map_prod id Some (pool_free_all (wb_blocks w) pool)
                           | None \<Rightarrow> ([], None));
          w = w\<lparr>wb_pool := pool, wb_blocks := []\<rparr>
      in (freed @ wb_bufs w, w\<lparr>wb_bufs := [], wb_usage := 0\<rparr>))"

text \<open>The destructor; its result is what is freed.\<close>

definition WriteBuffer_destroy :: "WriteBuffer \<Rightarrow> nat list" where
  "WriteBuffer_destroy w = fst (WriteBuffer_Clear w)"

section \<open>BlockBuffer\<close>

record Block =
  blk_addr :: nat
  blk_buf :: bytes
  blk_capacity :: u32
  blk_size :: u32

record BlockBuffer =
  bb_pool :: BlockPool
  bb_blocks :: "Block list"

definition ALIGN_UP_u32 :: "u32 \<Rightarrow> u32 \<Rightarrow> u32" where
  "ALIGN_UP_u32 sz align = (sz + (align - 1)) AND NOT (align - 1)"

text \<open>
  An answer of the C library: the address, and the indeterminate contents of the memory there.
  A null pointer has no memory behind it.
\<close>

type_synonym answer = "nat \<times> (nat \<Rightarrow> u8)"

definition fresh_bytes :: "answer \<Rightarrow> nat \<Rightarrow> u32 \<Rightarrow> bytes" where
  "fresh_bytes e a n = (if a = 0 then [] else map (snd e) [0..<unat n])"

definition BlockBuffer_new :: "BlockPool \<Rightarrow> BlockBuffer" where
  "BlockBuffer_new pool = \<lparr>bb_pool = pool, bb_blocks = []\<rparr>"

definition BlockBuffer_Alloc :: "answer \<Rightarrow> u32 \<Rightarrow> BlockBuffer \<Rightarrow> BlockBuffer" where
  "BlockBuffer_Alloc e sz b =
     (if sz \<le> BlockPool_BlockSize (bb_pool b) then
        let (buf, pool) = BlockPool_Alloc (fst e) (bb_pool b);
            cap = BlockPool_BlockSize pool
        in b\<lparr>bb_pool := pool,
             bb_blocks := bb_blocks b @ [\<lparr>blk_addr = buf, blk_buf = fresh_bytes e buf cap,
               blk_capacity = cap, blk_size = 0\<rparr>]\<rparr>
      else
        let sz = ALIGN_UP_u32 sz 4096; buf = fst e
        in b\<lparr>bb_blocks := bb_blocks b @ [\<lparr>blk_addr = buf, blk_buf = fresh_bytes e buf sz,
               blk_capacity = sz, blk_size = 0\<rparr>]\<rparr>)"

fun BlockBuffer_Free_loop :: "Block list \<Rightarrow> BlockPool \<Rightarrow> nat list \<times> BlockPool" where
  "BlockBuffer_Free_loop [] pool = ([], pool)"
| "BlockBuffer_Free_loop (b # bs) pool =
     (let (freed, pool) = (if blk_capacity b = BlockPool_BlockSize pool
                           then BlockPool_Free (blk_addr b) pool
                           else (Some (blk_addr b), pool));
          (rest, pool) = BlockBuffer_Free_loop bs pool
      in ((case freed of None \<Rightarrow> [] | Some x \<Rightarrow> [x]) @ rest, pool))"

definition BlockBuffer_Free :: "BlockBuffer \<Rightarrow> nat list \<times> BlockBuffer" where
  "BlockBuffer_Free b =
     (let (freed, pool) = BlockBuffer_Free_loop (bb_blocks b) (bb_pool b)
      in (freed, \<lparr>bb_pool = pool, bb_blocks = []\<rparr>))"

definition BlockBuffer_destroy :: "BlockBuffer \<Rightarrow> nat list" where
  "BlockBuffer_destroy b = fst (BlockBuffer_Free b)"

definition GetBlocks :: "BlockBuffer \<Rightarrow> Block list" where
  "GetBlocks b = bb_blocks b"

section \<open>Specification vocabulary\<close>

text \<open>Regions of memory as pairs of address and length; \<open>disj\<close>: no byte is in both.\<close>

definition disj :: "nat \<times> nat \<Rightarrow> nat \<times> nat \<Rightarrow> bool" where
  "disj r s \<longleftrightarrow> snd r = 0 \<or> snd s = 0 \<or> fst r + snd r \<le> fst s \<or> fst s + snd s \<le> fst r"

definition within :: "nat \<times> nat \<Rightarrow> nat \<times> nat \<Rightarrow> bool" where
  "within r s \<longleftrightarrow> fst s \<le> fst r \<and> fst r + snd r \<le> fst s + snd s"

definition cache_region :: "BlockPool \<Rightarrow> nat \<times> nat" where
  "cache_region p = (m_cache_start p, m_cache_end p - m_cache_start p)"

text \<open>
  The memory a write buffer owns: its blocks, and its separately allocated buffers with the sizes
  \<open>zs\<close> they were requested with. \<open>wb_inv w zs G L\<close>: \<open>G\<close> are the regions handed out so far, \<open>L\<close>
  the blocks of the pool in use by anyone.
\<close>

definition chunks :: "WriteBuffer \<Rightarrow> nat list \<Rightarrow> (nat \<times> nat) set" where
  "chunks w zs = (\<lambda>b. (b, unat (wb_block_size w))) ` set (wb_blocks w) \<union> set (zip (wb_bufs w) zs)"

definition wb_inv :: "WriteBuffer \<Rightarrow> nat list \<Rightarrow> (nat \<times> nat) list \<Rightarrow> nat set \<Rightarrow> bool" where
  "wb_inv w zs G L \<longleftrightarrow>
     (\<exists>pool. wb_pool w = Some pool \<and> pool_inv pool L \<and>
        wb_block_size w = m_block_size pool \<and>
        set (wb_blocks w) \<subseteq> L \<and> length zs = length (wb_bufs w) \<and>
        (\<forall>c\<in>set (zip (wb_bufs w) zs). disj c (cache_region pool) \<and>
           (\<forall>x\<in>L. disj c (x, unat (wb_block_size w)))) \<and>
        sorted_wrt disj G \<and>
        (\<forall>r\<in>set G. disj r (wb_ptr w, unat (wb_size w)) \<and>
           (snd r = 0 \<or> (\<exists>c\<in>chunks w zs. within r c))) \<and>
        (wb_size w = 0 \<or> (\<exists>c\<in>chunks w zs. within (wb_ptr w, unat (wb_size w)) c)))"

text \<open>The promise of the C library on a region of \<open>n\<close> bytes at \<open>e\<close>: it overlaps nothing in use.\<close>

definition region_ok :: "nat \<times> nat \<Rightarrow> WriteBuffer \<Rightarrow> nat list \<Rightarrow> nat set \<Rightarrow> bool" where
  "region_ok c w zs L \<longleftrightarrow> fst c \<noteq> 0 \<and>
     (\<forall>pool. wb_pool w = Some pool \<longrightarrow> disj c (cache_region pool)) \<and>
     (\<forall>x\<in>L. disj c (x, unat (wb_block_size w))) \<and> (\<forall>d\<in>set (zip (wb_bufs w) zs). disj c d)"

section \<open>Alignment\<close>

lemma ALIGN_UP_eq: "unat (ALIGN_UP_u32 sz 4096) = unat (sz + 4095) div 4096 * 4096"
proof -
  have m: "(4095 :: u32) = mask 12" by (simp add: mask_eq_decr_exp)
  show ?thesis using unat_and_not_mask [of "sz + 4095" 12] by (simp add: ALIGN_UP_u32_def m)
qed

lemma ALIGN_UP_ok:
  assumes "unat sz \<le> 2 ^ 32 - 4096"
  shows "unat sz \<le> unat (ALIGN_UP_u32 sz 4096)" and "unat (ALIGN_UP_u32 sz 4096) < unat sz + 4096"
    and "unat (ALIGN_UP_u32 sz 4096) mod 4096 = 0"
proof -
  have "unat (sz + 4095) = unat sz + 4095"
    using assms by (subst unat_add_lem [THEN iffD1]) simp_all
  then show "unat sz \<le> unat (ALIGN_UP_u32 sz 4096)" "unat (ALIGN_UP_u32 sz 4096) < unat sz + 4096"
    "unat (ALIGN_UP_u32 sz 4096) mod 4096 = 0"
    unfolding ALIGN_UP_eq by simp_all
qed

lemma ALIGN_UP_wraps:
  assumes "unat sz > 2 ^ 32 - 4096"
  shows "ALIGN_UP_u32 sz 4096 = 0"
proof -
  have "unat (sz + 4095) = unat sz + 4095 - 2 ^ 32"
    using assms unat_bound [of sz] by (simp add: unat_word_ariths mod_if)
  then have "unat (ALIGN_UP_u32 sz 4096) = 0"
    unfolding ALIGN_UP_eq using unat_bound [of sz] by simp
  then show ?thesis by (simp add: unat_eq_0)
qed

section \<open>BlockBuffer and its pool\<close>

text \<open>
  The addresses of a buffer's blocks that came from the pool. \<open>bb_inv b L\<close>: they are in use in the
  pool, beside the blocks \<open>L\<close> of other clients.
\<close>

definition pool_addrs :: "u32 \<Rightarrow> Block list \<Rightarrow> nat list" where
  "pool_addrs bs blocks = map blk_addr (filter (\<lambda>b. blk_capacity b = bs) blocks)"

definition bb_inv :: "BlockBuffer \<Rightarrow> nat set \<Rightarrow> bool" where
  "bb_inv b L \<longleftrightarrow> (let A = pool_addrs (m_block_size (bb_pool b)) (bb_blocks b)
     in pool_inv (bb_pool b) (L \<union> set A) \<and> distinct A \<and> set A \<inter> L = {})"

lemma pool_addrs_snoc [simp]:
  "pool_addrs bs (blocks @ [b]) =
     pool_addrs bs blocks @ (if blk_capacity b = bs then [blk_addr b] else [])"
  by (simp add: pool_addrs_def)

lemma BlockPool_Alloc_size: "BlockPool_Alloc e p = (x, q) \<Longrightarrow> m_block_size q = m_block_size p"
  by (auto simp: BlockPool_Alloc_def split: list.splits)

lemma BlockPool_Free_fields:
  "BlockPool_Free x p = (f, q) \<Longrightarrow> m_block_size q = m_block_size p \<and> cached q = cached p"
  by (auto simp: BlockPool_Free_def split: if_splits)

lemma BlockPool_Alloc_nonnull:
  assumes "pool_inv p L" and "e \<noteq> 0" and "BlockPool_Alloc e p = (x, q)"
  shows "x \<noteq> 0"
  using assms cached_in_range(1) [of 0 p]
  by (auto simp: BlockPool_Alloc_def pool_inv_def split: list.splits)

lemma large_capacity:
  assumes "bs < sz" and "0 < bs"
  shows "ALIGN_UP_u32 sz 4096 \<noteq> bs"
proof (cases "unat sz \<le> 2 ^ 32 - 4096")
  case True
  from ALIGN_UP_ok(1) [OF this] assms(1) show ?thesis by (auto simp: word_less_nat_alt)
next
  case False
  then show ?thesis using assms(2) ALIGN_UP_wraps [of sz] by simp
qed

lemma BlockBuffer_Alloc_inv:
  assumes inv: "bb_inv b L" and "fst e \<noteq> 0"
    and ok: "block_answer_ok (fst e) (bb_pool b)
       (L \<union> set (pool_addrs (m_block_size (bb_pool b)) (bb_blocks b)))"
  shows "bb_inv (BlockBuffer_Alloc e sz b) L"
proof (cases "sz \<le> m_block_size (bb_pool b)")
  case True
  obtain x q where x: "BlockPool_Alloc (fst e) (bb_pool b) = (x, q)" by fastforce
  let ?A = "pool_addrs (m_block_size (bb_pool b)) (bb_blocks b)"
  from inv have p: "pool_inv (bb_pool b) (L \<union> set ?A)" by (simp add: bb_inv_def Let_def)
  have "x \<noteq> 0" by (rule BlockPool_Alloc_nonnull [OF p assms(2) x])
  with BlockPool_Alloc_inv [OF p ok x] have "x \<notin> L \<union> set ?A" "pool_inv q (insert x (L \<union> set ?A))"
    by auto
  then show ?thesis
    using inv True x BlockPool_Alloc_size [OF x]
    by (simp add: bb_inv_def BlockBuffer_Alloc_def BlockPool_BlockSize_def Let_def)
next
  case False
  from inv have "0 < m_block_size (bb_pool b)"
    by (simp add: bb_inv_def Let_def pool_inv_def word_less_nat_alt)
  with False large_capacity [of "m_block_size (bb_pool b)" sz]
  have "ALIGN_UP_u32 sz 4096 \<noteq> m_block_size (bb_pool b)" by simp
  with False inv show ?thesis
    by (simp add: bb_inv_def BlockBuffer_Alloc_def BlockPool_BlockSize_def Let_def)
qed

lemma BlockBuffer_Free_loop_inv:
  assumes "BlockBuffer_Free_loop blocks p = (freed, q)"
    and "pool_inv p (L \<union> set (pool_addrs (m_block_size p) blocks))"
    and "distinct (pool_addrs (m_block_size p) blocks)"
    and "set (pool_addrs (m_block_size p) blocks) \<inter> L = {}"
  shows "pool_inv q L \<and> freed = map blk_addr
     (filter (\<lambda>b. blk_capacity b \<noteq> m_block_size p \<or> blk_addr b \<notin> cached p) blocks)"
  using assms
proof (induction blocks arbitrary: p freed)
  case Nil
  then show ?case by (simp add: pool_addrs_def)
next
  case (Cons b bs)
  let ?A = "pool_addrs (m_block_size p) bs"
  show ?case
  proof (cases "blk_capacity b = m_block_size p")
    case False
    obtain fs where fs: "BlockBuffer_Free_loop bs p = (fs, q)" "freed = blk_addr b # fs"
      using Cons.prems(1) False by (auto simp: BlockPool_BlockSize_def split: prod.splits)
    from Cons.IH [OF fs(1)] Cons.prems False fs(2) show ?thesis by (simp add: pool_addrs_def)
  next
    case True
    then have A: "pool_addrs (m_block_size p) (b # bs) = blk_addr b # ?A"
      by (simp add: pool_addrs_def)
    obtain f p' where f: "BlockPool_Free (blk_addr b) p = (f, p')" by fastforce
    obtain fs where fs: "BlockBuffer_Free_loop bs p' = (fs, q)"
      "freed = (case f of None \<Rightarrow> [] | Some x \<Rightarrow> [x]) @ fs"
      using Cons.prems(1) True f by (auto simp: BlockPool_BlockSize_def split: prod.splits)
    note fld = BlockPool_Free_fields [OF f]
    have "pool_inv p' ((L \<union> set (blk_addr b # ?A)) - {blk_addr b})"
      and fe: "f = (if blk_addr b \<in> cached p then None else Some (blk_addr b))"
      using BlockPool_Free_inv [of p "L \<union> set (blk_addr b # ?A)" "blk_addr b"] f Cons.prems(2) A
      by simp_all
    moreover have "(L \<union> set (blk_addr b # ?A)) - {blk_addr b} = L \<union> set ?A"
      using Cons.prems(3,4) A by auto
    ultimately have "pool_inv q L \<and> fs = map blk_addr
        (filter (\<lambda>b. blk_capacity b \<noteq> m_block_size p \<or> blk_addr b \<notin> cached p) bs)"
      using Cons.IH [OF fs(1)] Cons.prems(3,4) A fld by simp
    with fe fs(2) True show ?thesis by simp
  qed
qed

text \<open>
  A block buffer gives back exactly what it took. Allocation, of any size, keeps its blocks
  accounted for in the pool (although \<open>ALIGN_UP\<close> may wrap in 32 bits), and \<open>Free\<close> hands every
  block of the pool to the pool and every other block to \<^verbatim>\<open>xfree\<close>, leaving the pool as if the
  buffer had never used it: exactly the other clients' blocks are still in use.
\<close>

theorem BlockBuffer_Free_returns:
  assumes "bb_inv b L" and "fst e \<noteq> 0"
    and "block_answer_ok (fst e) (bb_pool b)
       (L \<union> set (pool_addrs (m_block_size (bb_pool b)) (bb_blocks b)))"
  shows "bb_inv (BlockBuffer_Alloc e sz b) L \<and>
    (case BlockBuffer_Free (BlockBuffer_Alloc e sz b) of (freed, b') \<Rightarrow>
       bb_blocks b' = [] \<and> pool_inv (bb_pool b') L \<and>
       freed = map blk_addr (filter (\<lambda>x. blk_capacity x \<noteq> m_block_size (bb_pool b) \<or>
         blk_addr x \<notin> cached (bb_pool b)) (bb_blocks (BlockBuffer_Alloc e sz b))))"
proof -
  let ?b = "BlockBuffer_Alloc e sz b"
  have inv: "bb_inv ?b L" by (rule BlockBuffer_Alloc_inv [OF assms])
  have f: "m_block_size (bb_pool ?b) = m_block_size (bb_pool b)" "cached (bb_pool ?b) = cached (bb_pool b)"
    by (auto simp: BlockBuffer_Alloc_def BlockPool_Alloc_def Let_def split: list.splits)
  obtain freed q where q: "BlockBuffer_Free_loop (bb_blocks ?b) (bb_pool ?b) = (freed, q)" by fastforce
  from BlockBuffer_Free_loop_inv [OF q, of L] inv
  show ?thesis by (simp add: inv q BlockBuffer_Free_def bb_inv_def Let_def f)
qed

theorem BlockBuffer_Free_returns_witness:
  "bb_inv (BlockBuffer_new \<lparr>m_block_size = 4096, m_cache_start = 1000, m_cache_end = 1000,
       m_free_blocks = []\<rparr>) {} \<and>
   fst (BlockBuffer_Free (BlockBuffer_Alloc (9000, \<lambda>_. 0) 1 (BlockBuffer_new
     \<lparr>m_block_size = 4096, m_cache_start = 1000, m_cache_end = 1000, m_free_blocks = []\<rparr>))) = [9000]"
proof -
  let ?p = "\<lparr>m_block_size = 4096, m_cache_start = 1000, m_cache_end = 1000, m_free_blocks = []\<rparr>"
  let ?b = "BlockBuffer_new ?p"
  have c: "cached ?p = {}" by (auto simp: cached_def)
  then have inv: "bb_inv ?b {}" by (simp add: bb_inv_def BlockBuffer_new_def pool_addrs_def pool_inv_def)
  have ok: "block_answer_ok (fst (9000 :: nat, \<lambda>_ :: nat. 0 :: u8)) (bb_pool ?b)
      ({} \<union> set (pool_addrs (m_block_size (bb_pool ?b)) (bb_blocks ?b)))"
    by (simp add: block_answer_ok_def BlockBuffer_new_def pool_addrs_def beside_def)
  from BlockBuffer_Free_returns [OF inv _ ok, of 1] inv c show ?thesis
    by (simp add: BlockBuffer_new_def BlockBuffer_Alloc_def BlockPool_BlockSize_def
        BlockPool_Alloc_def split: prod.splits)
qed

section \<open>WriteBuffer hands out disjoint regions\<close>

lemma disj_sym: "disj r s \<longleftrightarrow> disj s r"
  by (auto simp: disj_def)

lemma disj_within: "disj r s \<Longrightarrow> within t r \<Longrightarrow> disj t s"
  by (auto simp: disj_def within_def)

lemma disj_region: "snd r = 0 \<or> (\<exists>c\<in>C. within r c) \<Longrightarrow> (\<And>c. c \<in> C \<Longrightarrow> disj c s) \<Longrightarrow> disj r s"
  using disj_within [of _ s r] disj_def [of r s] by blast

lemma within_trans: "within r s \<Longrightarrow> within s t \<Longrightarrow> within r t"
  by (auto simp: within_def)

lemma cached_within:
  "x \<in> cached p \<Longrightarrow> within (x, unat (m_block_size p)) (cache_region p)"
  by (auto simp: cached_def within_def cache_region_def)

lemma wb_fresh_block:
  assumes inv: "wb_inv w zs G L" and pool: "wb_pool w = Some pool"
    and ok: "region_ok (e, unat (wb_block_size w)) w zs L"
    and x: "BlockPool_Alloc e pool = (x, q)"
  shows "pool_inv q (insert x L)" and "c \<in> chunks w zs \<Longrightarrow> disj c (x, unat (wb_block_size w))"
    and "cache_region q = cache_region pool" and "m_block_size q = m_block_size pool"
proof -
  from inv pool have p: "pool_inv pool L" and bs: "wb_block_size w = m_block_size pool"
    and blocks: "set (wb_blocks w) \<subseteq> L"
    and bufs: "\<forall>c\<in>set (zip (wb_bufs w) zs). disj c (cache_region pool)"
    by (auto simp: wb_inv_def)
  have pos: "0 < unat (m_block_size pool)" using p by (simp add: pool_inv_def)
  have "e \<noteq> 0" using ok by (simp add: region_ok_def)
  with BlockPool_Alloc_nonnull [OF p _ x] have x0: "x \<noteq> 0" by simp
  have aok: "block_answer_ok e pool L"
    using ok pool pos by (auto simp: region_ok_def block_answer_ok_def disj_def beside_def cache_region_def bs)
  from BlockPool_Alloc_inv [OF p aok x x0] have xL: "x \<notin> L" by simp
  from BlockPool_Alloc_inv [OF p aok x x0] show inv': "pool_inv q (insert x L)" by simp
  show sz: "m_block_size q = m_block_size pool" by (rule BlockPool_Alloc_size [OF x])
  show "cache_region q = cache_region pool"
    using x by (auto simp: BlockPool_Alloc_def cache_region_def split: list.splits)
  assume "c \<in> chunks w zs"
  then consider b where "b \<in> L" "c = (b, unat (wb_block_size w))" | "c \<in> set (zip (wb_bufs w) zs)"
    using blocks by (auto simp: chunks_def)
  then show "disj c (x, unat (wb_block_size w))"
  proof cases
    case 1
    with xL have "b < x \<or> x < b" by (metis nat_neq_iff)
    with 1 inv' show ?thesis by (auto simp: disj_def pool_inv_def bs sz)
  next
    case 2
    show ?thesis
    proof (cases "m_free_blocks pool")
      case Nil
      with x ok 2 show ?thesis by (auto simp: BlockPool_Alloc_def region_ok_def disj_sym)
    next
      case (Cons f fs)
      with x p have "x \<in> cached pool" by (auto simp: BlockPool_Alloc_def pool_inv_def)
      from cached_within [OF this] bufs 2 show ?thesis
        using disj_within [of "cache_region pool" c] by (auto simp: disj_sym bs)
    qed
  qed
qed

lemma WriteBuffer_Write_small:
  assumes "wb_inv w zs G L" and "sz \<le> wb_size w"
  shows "wb_inv (w\<lparr>wb_ptr := wb_ptr w + unat sz, wb_size := wb_size w - sz\<rparr>) zs
     (G @ [(wb_ptr w, unat sz)]) L"
proof -
  let ?w = "w\<lparr>wb_ptr := wb_ptr w + unat sz, wb_size := wb_size w - sz\<rparr>"
  have n: "unat (wb_size w - sz) = unat (wb_size w) - unat sz" and le: "unat sz \<le> unat (wb_size w)"
    using assms(2) by (simp_all add: unat_sub word_le_nat_alt)
  have ch: "chunks ?w zs = chunks w zs" by (simp add: chunks_def)
  have sub: "within (wb_ptr w, unat sz) (wb_ptr w, unat (wb_size w))"
    "within (wb_ptr ?w, unat (wb_size ?w)) (wb_ptr w, unat (wb_size w))"
    using n le by (auto simp: within_def)
  have g: "disj r (wb_ptr w, unat sz) \<and> disj r (wb_ptr ?w, unat (wb_size ?w))" if "r \<in> set G" for r
    using assms(1) that sub disj_within [of "(wb_ptr w, unat (wb_size w))" r]
    by (auto simp: wb_inv_def disj_sym)
  have "wb_size w = 0 \<or> (\<exists>c\<in>chunks w zs. within (wb_ptr w, unat (wb_size w)) c)"
    using assms(1) by (auto simp: wb_inv_def)
  then have "unat sz = 0 \<or> (\<exists>c\<in>chunks w zs. within (wb_ptr w, unat sz) c)"
    "wb_size ?w = 0 \<or> (\<exists>c\<in>chunks w zs. within (wb_ptr ?w, unat (wb_size ?w)) c)"
    using within_trans [OF sub(1)] within_trans [OF sub(2)] assms(2) by fastforce+
  moreover have "disj (wb_ptr w, unat sz) (wb_ptr ?w, unat (wb_size ?w))"
    by (simp add: disj_def)
  ultimately show ?thesis
    using assms(1) g unfolding wb_inv_def ch by (auto simp: sorted_wrt_append)
qed

lemma WriteBuffer_Write_separate:
  assumes "wb_inv w zs G L" and "region_ok (e, unat sz) w zs L"
  shows "wb_inv (w\<lparr>wb_bufs := wb_bufs w @ [e], wb_usage := u\<rparr>) (zs @ [unat sz])
     (G @ [(e, unat sz)]) L"
proof -
  let ?w = "w\<lparr>wb_bufs := wb_bufs w @ [e], wb_usage := u\<rparr>"
  from assms(1) obtain pool where pool: "wb_pool w = Some pool" and len: "length zs = length (wb_bufs w)"
    and blocks: "set (wb_blocks w) \<subseteq> L" by (auto simp: wb_inv_def)
  have ch: "chunks ?w (zs @ [unat sz]) = insert (e, unat sz) (chunks w zs)"
    using len by (auto simp: chunks_def)
  have new: "disj c (e, unat sz)" if "c \<in> chunks w zs" for c
    using that assms(2) blocks by (auto simp: chunks_def region_ok_def disj_sym)
  have g: "disj r (e, unat sz)" if "r \<in> set G" for r
    using that assms(1) new by (intro disj_region [of r "chunks w zs"]) (auto simp: wb_inv_def)
  have "wb_size w = 0 \<or> (\<exists>c\<in>chunks w zs. within (wb_ptr w, unat (wb_size w)) c)"
    using assms(1) by (auto simp: wb_inv_def)
  then have "disj (wb_ptr w, unat (wb_size w)) (e, unat sz)"
    by (intro disj_region [of _ "chunks w zs", OF _ new]) auto
  then have f: "disj (e, unat sz) (wb_ptr w, unat (wb_size w))" by (simp add: disj_sym)
  have "within (e, unat sz) (e, unat sz)" by (simp add: within_def)
  then show ?thesis
    using assms pool len g f unfolding wb_inv_def ch
    by (auto simp: sorted_wrt_append region_ok_def)
qed

lemma WriteBuffer_Write_block:
  assumes inv: "wb_inv w zs G L" and pool: "wb_pool w = Some pool" and sz: "sz \<le> wb_block_size w"
    and ok: "region_ok (e, unat (wb_block_size w)) w zs L"
    and x: "BlockPool_Alloc e pool = (x, q)"
  shows "wb_inv (w\<lparr>wb_pool := Some q, wb_blocks := wb_blocks w @ [x], wb_usage := u,
     wb_ptr := x + unat sz, wb_size := wb_block_size w - sz\<rparr>) zs (G @ [(x, unat sz)]) (insert x L)"
    (is "wb_inv ?w zs _ _")
proof -
  note fresh = wb_fresh_block [OF inv pool ok x]
  let ?c = "(x, unat (wb_block_size w))"
  have ch: "chunks ?w zs = insert ?c (chunks w zs)" by (auto simp: chunks_def)
  have n: "unat (wb_block_size w - sz) = unat (wb_block_size w) - unat sz"
    "unat sz \<le> unat (wb_block_size w)"
    using sz by (simp_all add: unat_sub word_le_nat_alt)
  have g: "disj r ?c" if "r \<in> set G" for r
    using that inv fresh(2) by (intro disj_region [of r "chunks w zs"]) (auto simp: wb_inv_def)
  have sub: "within (x, unat sz) ?c" "within (wb_ptr ?w, unat (wb_size ?w)) ?c"
    using n by (auto simp: within_def)
  have g': "disj r (x, unat sz) \<and> disj r (wb_ptr ?w, unat (wb_size ?w))" if "r \<in> set G" for r
    using g [OF that] disj_within [of ?c r] sub by (auto simp: disj_sym)
  have "disj (x, unat sz) (wb_ptr ?w, unat (wb_size ?w))" by (simp add: disj_def)
  moreover have "\<forall>c\<in>set (zip (wb_bufs w) zs). disj c ?c"
    using fresh(2) by (auto simp: chunks_def)
  ultimately show ?thesis
    using inv pool fresh(1,3,4) g' sub unfolding wb_inv_def ch by (auto simp: sorted_wrt_append)
qed

text \<open>
  What a write adds to the specification state: the sizes of the separate buffers, and the blocks of
  the pool in use.
\<close>

definition sizes_after :: "u32 \<Rightarrow> WriteBuffer \<Rightarrow> nat list \<Rightarrow> nat list" where
  "sizes_after sz w zs = (if \<not> sz \<le> wb_size w \<and> wb_block_size w div 2 < sz then zs @ [unat sz] else zs)"

definition used_after :: "nat \<Rightarrow> u32 \<Rightarrow> WriteBuffer \<Rightarrow> nat set \<Rightarrow> nat set" where
  "used_after p sz w L = (if \<not> sz \<le> wb_size w \<and> \<not> wb_block_size w div 2 < sz then insert p L else L)"

lemma WriteBuffer_Write_inv:
  assumes "wb_inv w zs G L" and "region_ok (e, LargeWrite_request sz w) w zs L"
    and "WriteBuffer_Write e sz w = (p, w')"
  shows "wb_inv w' (sizes_after sz w zs) (G @ [(p, unat sz)]) (used_after p sz w L)"
proof -
  from assms(1) obtain pool where pool: "wb_pool w = Some pool" by (auto simp: wb_inv_def)
  obtain x q where x: "BlockPool_Alloc e pool = (x, q)" by fastforce
  consider "sz \<le> wb_size w" | "\<not> sz \<le> wb_size w" "sz > wb_block_size w div 2"
    | "\<not> sz \<le> wb_size w" "\<not> sz > wb_block_size w div 2" by blast
  then show ?thesis
  proof cases
    case 1
    with assms(3) WriteBuffer_Write_small [OF assms(1) 1] show ?thesis
      by (auto simp: WriteBuffer_Write_def sizes_after_def used_after_def)
  next
    case 2
    with assms(2,3) WriteBuffer_Write_separate [OF assms(1), of e sz] show ?thesis
      by (auto simp: WriteBuffer_Write_def WriteBuffer_LargeWrite_def LargeWrite_request_def
          sizes_after_def used_after_def)
  next
    case 3
    then have "sz \<le> wb_block_size w div 2" by simp
    then have "unat sz \<le> unat (wb_block_size w) div 2"
      by (simp add: word_le_nat_alt unat_div)
    then have "sz \<le> wb_block_size w" by (simp add: word_le_nat_alt)
    with 3 assms(2,3) pool x WriteBuffer_Write_block [OF assms(1) pool _ _ x, of sz] show ?thesis
      by (auto simp: WriteBuffer_Write_def WriteBuffer_LargeWrite_def LargeWrite_request_def Let_def
          sizes_after_def used_after_def)
  qed
qed

text \<open>
  A history of writes with data, over any pool in order: \<open>ds\<close> are the addresses returned and the data
  written there. Each time the C library's answer, should it be asked, overlaps nothing in use.
\<close>

abbreviation data_regions :: "(nat \<times> bytes) list \<Rightarrow> (nat \<times> nat) list" where
  "data_regions ds \<equiv> map (\<lambda>(p, d). (p, length d)) ds"

inductive wb_run :: "WriteBuffer \<Rightarrow> nat list \<Rightarrow> nat set \<Rightarrow> (nat \<Rightarrow> u8) \<Rightarrow> (nat \<times> bytes) list \<Rightarrow> bool" where
  start: "pool_inv pool L \<Longrightarrow> wb_run (WriteBuffer_new_pool pool) [] L m []"
| step: "wb_run w zs L m ds \<Longrightarrow> length data < 2 ^ 32 \<Longrightarrow>
    region_ok (e, LargeWrite_request (of_nat (length data)) w) w zs L \<Longrightarrow>
    WriteBuffer_Write_data e data m w = Some (p, m', w') \<Longrightarrow>
    wb_run w' (sizes_after (of_nat (length data)) w zs) (used_after p (of_nat (length data)) w L) m' (ds @ [(p, data)])"

definition stored :: "(nat \<Rightarrow> u8) \<Rightarrow> nat \<times> bytes \<Rightarrow> bool" where
  "stored m pd \<longleftrightarrow> map (\<lambda>i. m (fst pd + i)) [0..<length (snd pd)] = snd pd"

lemma stored_new: "stored (copy_to p data m) (p, data)"
  by (auto simp: stored_def copy_to_def intro!: nth_equalityI)

lemma stored_disj:
  assumes "stored m (q, d)" and "disj (q, length d) (p, length data)"
  shows "stored (copy_to p data m) (q, d)"
proof -
  have "copy_to p data m (q + i) = m (q + i)" if "i < length d" for i
    using that assms(2) by (auto simp: copy_to_def disj_def)
  then have "map (\<lambda>i. copy_to p data m (q + i)) [0..<length d] = map (\<lambda>i. m (q + i)) [0..<length d]" by simp
  with assms(1) show ?thesis by (simp add: stored_def)
qed

lemma wb_run_inv: "wb_run w zs L m ds \<Longrightarrow> wb_inv w zs (data_regions ds) L \<and> (\<forall>pd\<in>set ds. stored m pd)"
proof (induction rule: wb_run.induct)
  case (start pool L m)
  then show ?case by (simp add: wb_inv_def WriteBuffer_new_pool_def BlockPool_BlockSize_def)
next
  case (step w zs L m ds data e p m' w')
  let ?n = "of_nat (length data) :: u32"
  have n: "unat ?n = length data" using step.hyps(2) by (intro unat_of_nat_small) simp
  from step.hyps(4) have wr: "WriteBuffer_Write e ?n w = (p, w')" and m': "m' = copy_to p data m"
    by (auto simp: WriteBuffer_Write_data_def split: prod.splits if_splits)
  from WriteBuffer_Write_inv [OF _ step.hyps(3) wr] step.IH n
  have inv: "wb_inv w' (sizes_after ?n w zs) (data_regions (ds @ [(p, data)])) (used_after p ?n w L)" by simp
  then have "\<forall>r\<in>set (data_regions ds). disj r (p, length data)"
    by (auto simp: wb_inv_def sorted_wrt_append)
  with step.IH have "\<forall>pd\<in>set ds. stored m' pd" by (auto simp: m' intro!: stored_disj)
  with inv m' stored_new show ?case by auto
qed

text \<open>
  C28: what is written into a write buffer on a block pool stays there. After any history of writes of
  any sizes, every region \<open>Write\<close> has returned still holds the data written to it: the regions lie
  inside memory the buffer owns and never overlap, provided the C library's answers overlap nothing
  in use.
\<close>

theorem WriteBuffer_keeps_data:
  assumes "wb_run w zs L m ds"
  shows "(\<forall>pd\<in>set ds. stored m pd) \<and> sorted_wrt disj (data_regions ds) \<and>
     (\<forall>(p, d)\<in>set ds. d \<noteq> [] \<longrightarrow> (\<exists>c\<in>chunks w zs. within (p, length d) c))"
  using wb_run_inv [OF assms] by (fastforce simp: wb_inv_def)

theorem WriteBuffer_keeps_data_witness:
  "\<exists>w zs L m. wb_run w zs L m [(9000, [7, 8])] \<and> m 9001 = 8"
proof -
  let ?p = "\<lparr>m_block_size = 4096, m_cache_start = 1000, m_cache_end = 1000, m_free_blocks = []\<rparr>"
  let ?w = "WriteBuffer_new_pool ?p"
  have "cached ?p = {}" by (auto simp: cached_def)
  then have run: "wb_run ?w [] {} (\<lambda>_. 0) []" by (intro wb_run.start) (simp add: pool_inv_def)
  have ok: "region_ok (9000, LargeWrite_request (of_nat (length [7, 8 :: u8])) ?w) ?w [] {}"
    by (simp add: region_ok_def WriteBuffer_new_pool_def cache_region_def disj_def)
  have "fst (WriteBuffer_Write 9000 2 ?w) = 9000"
    by (simp add: WriteBuffer_new_pool_def WriteBuffer_Write_def WriteBuffer_LargeWrite_def
        BlockPool_Alloc_def BlockPool_BlockSize_def Let_def)
  then obtain w' where "WriteBuffer_Write 9000 2 ?w = (9000, w')" by (metis prod.collapse)
  then obtain m' where "WriteBuffer_Write_data 9000 [7, 8] (\<lambda>_. 0) ?w = Some (9000, m', w')"
    by (simp add: WriteBuffer_Write_data_def)
  from wb_run.step [OF run _ ok this] obtain zs L where r: "wb_run w' zs L m' [(9000, [7, 8])]" by auto
  from WriteBuffer_keeps_data [OF r] have "stored m' (9000, [7, 8])" by simp
  with r show ?thesis by (auto simp: stored_def upt_rec)
qed

text \<open>
  Without a pool the same sequence of writes leaves the memory that was allocated.
  \<open>LargeWrite\<close> then asks the C library for the size of the current request only, but records a
  whole block as available: after a first small write of \<open>n\<close> bytes (at address \<open>e\<close>, with \<open>n\<close> bytes
  allocated), the next write that fits the recorded rest gets the bytes from \<open>e + n\<close> on, none of
  which belongs to the buffer, and nothing more is allocated.
\<close>

theorem WriteBuffer_without_pool_overruns:
  assumes "0 < n" and "n \<le> bs div 2" and "m \<le> bs - n"
    and "WriteBuffer_Write e n (WriteBuffer_new bs) = (p, w1)"
    and "WriteBuffer_Write e' m w1 = (q, w2)"
  shows "p = e \<and> LargeWrite_request n (WriteBuffer_new bs) = unat n \<and>
     q = e + unat n \<and> wb_bufs w2 = [e] \<and> wb_blocks w2 = []"
proof -
  have "\<not> n \<le> 0" "\<not> bs div 2 < n" using assms(1,2) by auto
  then have "WriteBuffer_Write e n (WriteBuffer_new bs) =
      (e, \<lparr>wb_pool = None, wb_block_size = bs, wb_ptr = e + unat n,
      wb_size = bs - n, wb_usage = ucast bs, wb_blocks = [], wb_bufs = [e]\<rparr>)"
    by (simp add: WriteBuffer_Write_def WriteBuffer_LargeWrite_def WriteBuffer_new_def Let_def)
  with assms(4) have "p = e" "w1 = \<lparr>wb_pool = None, wb_block_size = bs, wb_ptr = e + unat n,
      wb_size = bs - n, wb_usage = ucast bs, wb_blocks = [], wb_bufs = [e]\<rparr>" by auto
  with assms(3,5) show ?thesis
    by (auto simp: WriteBuffer_Write_def LargeWrite_request_def WriteBuffer_new_def)
qed

theorem WriteBuffer_without_pool_overruns_witness:
  "fst (WriteBuffer_Write 0 100 (snd (WriteBuffer_Write 5000 16 (WriteBuffer_new 8192)))) = 5016"
  using WriteBuffer_without_pool_overruns [of 16 8192 100 5000
      "fst (WriteBuffer_Write 5000 16 (WriteBuffer_new 8192))"
      "snd (WriteBuffer_Write 5000 16 (WriteBuffer_new 8192))" 0
      "fst (WriteBuffer_Write 0 100 (snd (WriteBuffer_Write 5000 16 (WriteBuffer_new 8192))))"
      "snd (WriteBuffer_Write 0 100 (snd (WriteBuffer_Write 5000 16 (WriteBuffer_new 8192))))"]
  by simp

text \<open>
  \<open>Clear\<close> empties the buffer; a pool gets every block back and the C library every separate
  buffer.
\<close>

lemma pool_free_all_inv:
  assumes "pool_free_all bs p = (freed, q)" and "pool_inv p (L \<union> set bs)" and "distinct bs"
    and "set bs \<inter> L = {}"
  shows "pool_inv q L \<and> freed = filter (\<lambda>b. b \<notin> cached p) bs"
  using assms
proof (induction bs arbitrary: p freed)
  case (Cons b bs)
  obtain f p' where f: "BlockPool_Free b p = (f, p')" by fastforce
  obtain fs where fs: "pool_free_all bs p' = (fs, q)" "freed = (case f of None \<Rightarrow> [] | Some x \<Rightarrow> [x]) @ fs"
    using Cons.prems(1) f by (auto split: prod.splits)
  have "(L \<union> set (b # bs)) - {b} = L \<union> set bs" using Cons.prems(3,4) by auto
  with BlockPool_Free_inv [of p "L \<union> set (b # bs)" b] f Cons.prems(2)
  have "pool_inv p' (L \<union> set bs)" "f = (if b \<in> cached p then None else Some b)" by simp_all
  with Cons.IH [OF fs(1)] Cons.prems(3,4) fs(2) BlockPool_Free_fields [OF f] show ?case by simp
qed simp

end
