(* ===== verification/Pack.thy ===== *)
theory Pack
  imports Coding Buffer
begin

text \<open>
  \<^verbatim>\<open>include/xfutil/pack.h\<close> and \<^verbatim>\<open>src/pack.cpp\<close>: packing values of the basic types into the blocks of a
  block buffer. The packer writes into the last block of the buffer; \<^verbatim>\<open>m_block\<close> is that block
  and \<^verbatim>\<open>m_ptr\<close> the offset in it. A write outside the memory of the block is \<^const>\<open>None\<close>. \<open>env k\<close>
  is what the C library answers when the block number \<open>k\<close> is allocated from it.
\<close>

section \<open>Definitions\<close>

record Packer =
  m_block_buffer :: BlockBuffer
  pk_ptr :: nat

definition m_block :: "Packer \<Rightarrow> Block" where
  "m_block pk = last (bb_blocks (m_block_buffer pk))"

definition GetBlockBuffer :: "Packer \<Rightarrow> BlockBuffer" where
  "GetBlockBuffer pk = m_block_buffer pk"

definition Packer_new :: "(nat \<Rightarrow> answer) \<Rightarrow> BlockBuffer \<Rightarrow> Packer" where
  "Packer_new env b = \<lparr>m_block_buffer = BlockBuffer_Alloc (env (length (bb_blocks b))) 1 b, pk_ptr = 0\<rparr>"

text \<open>The body of the \<^verbatim>\<open>if(UNLIKELY(...))\<close> that starts every method: a new block of at least \<open>n\<close> bytes.\<close>

definition Packer_next_block :: "(nat \<Rightarrow> answer) \<Rightarrow> u32 \<Rightarrow> Packer \<Rightarrow> Packer" where
  "Packer_next_block env n pk =
     (let b = m_block_buffer pk
      in pk\<lparr>m_block_buffer := BlockBuffer_Alloc (env (length (bb_blocks b))) n b, pk_ptr := 0\<rparr>)"

text \<open>
  The guard. Where the needed size is a \<^verbatim>\<open>size_t\<close> the sum is computed in 64 bits, where it is one
  of the \<^verbatim>\<open>MAX_V*_SIZE\<close> constants in the 32 bits of \<^verbatim>\<open>m_block->size\<close>.
\<close>

definition Packer_reserve64 :: "(nat \<Rightarrow> answer) \<Rightarrow> u64 \<Rightarrow> Packer \<Rightarrow> Packer" where
  "Packer_reserve64 env n pk =
     (if ucast (blk_size (m_block pk)) + n > ucast (blk_capacity (m_block pk))
      then Packer_next_block env (ucast n) pk else pk)"

definition Packer_reserve32 :: "(nat \<Rightarrow> answer) \<Rightarrow> u32 \<Rightarrow> Packer \<Rightarrow> Packer" where
  "Packer_reserve32 env n pk =
     (if blk_size (m_block pk) + n > blk_capacity (m_block pk)
      then Packer_next_block env n pk else pk)"

text \<open>Writing an encoding at \<^verbatim>\<open>m_ptr\<close>, advancing \<^verbatim>\<open>m_ptr\<close> and adding to the size of the block.\<close>

definition Packer_put :: "bytes \<Rightarrow> Packer \<Rightarrow> Packer option" where
  "Packer_put bs pk =
     (let b = m_block_buffer pk; blk = m_block pk in
      case mem_write (blk_buf blk) (pk_ptr pk) bs of
        None \<Rightarrow> None
      | Some buf \<Rightarrow>
          Some (pk\<lparr>m_block_buffer := b\<lparr>bb_blocks := butlast (bb_blocks b) @
                     [blk\<lparr>blk_buf := buf, blk_size := blk_size blk + of_nat (length bs)\<rparr>]\<rparr>,
                   pk_ptr := pk_ptr pk + length bs\<rparr>))"

definition Pack_u8 :: "(nat \<Rightarrow> answer) \<Rightarrow> u8 \<Rightarrow> Packer \<Rightarrow> Packer option" where
  "Pack_u8 env v pk = Packer_put (EncodeFixed_u8 v) (Packer_reserve64 env 1 pk)"

definition Pack_bool :: "(nat \<Rightarrow> answer) \<Rightarrow> bool \<Rightarrow> Packer \<Rightarrow> Packer option" where
  "Pack_bool env v pk = Pack_u8 env (if v then 1 else 0) pk"

definition Pack_i8 :: "(nat \<Rightarrow> answer) \<Rightarrow> u8 \<Rightarrow> Packer \<Rightarrow> Packer option" where
  "Pack_i8 env v pk = Pack_u8 env v pk"

definition Pack_u16 :: "(nat \<Rightarrow> answer) \<Rightarrow> u16 \<Rightarrow> Packer \<Rightarrow> Packer option" where
  "Pack_u16 env v pk =
     Packer_put (EncodeVarint_u16 v) (Packer_reserve32 env (of_nat MAX_V16_SIZE) pk)"

definition Pack_i16 :: "(nat \<Rightarrow> answer) \<Rightarrow> u16 \<Rightarrow> Packer \<Rightarrow> Packer option" where
  "Pack_i16 env v pk = Pack_u16 env (EncodeZigZag_i16 v) pk"

definition PackFixed_u16 :: "(nat \<Rightarrow> answer) \<Rightarrow> u16 \<Rightarrow> Packer \<Rightarrow> Packer option" where
  "PackFixed_u16 env v pk = Packer_put (EncodeFixed_u16 v) (Packer_reserve64 env 2 pk)"

definition Pack_u32 :: "(nat \<Rightarrow> answer) \<Rightarrow> u32 \<Rightarrow> Packer \<Rightarrow> Packer option" where
  "Pack_u32 env v pk =
     Packer_put (EncodeVarint_u32 v) (Packer_reserve32 env (of_nat MAX_V32_SIZE) pk)"

definition Pack_i32 :: "(nat \<Rightarrow> answer) \<Rightarrow> u32 \<Rightarrow> Packer \<Rightarrow> Packer option" where
  "Pack_i32 env v pk = Pack_u32 env (EncodeZigZag_i32 v) pk"

definition PackFixed_u32 :: "(nat \<Rightarrow> answer) \<Rightarrow> u32 \<Rightarrow> Packer \<Rightarrow> Packer option" where
  "PackFixed_u32 env v pk = Packer_put (EncodeFixed_u32 v) (Packer_reserve64 env 4 pk)"

definition Pack_u64 :: "(nat \<Rightarrow> answer) \<Rightarrow> u64 \<Rightarrow> Packer \<Rightarrow> Packer option" where
  "Pack_u64 env v pk =
     Packer_put (EncodeVarint_u64 v) (Packer_reserve32 env (of_nat MAX_V64_SIZE) pk)"

definition Pack_i64 :: "(nat \<Rightarrow> answer) \<Rightarrow> u64 \<Rightarrow> Packer \<Rightarrow> Packer option" where
  "Pack_i64 env v pk = Pack_u64 env (EncodeZigZag_i64 v) pk"

definition PackFixed_u64 :: "(nat \<Rightarrow> answer) \<Rightarrow> u64 \<Rightarrow> Packer \<Rightarrow> Packer option" where
  "PackFixed_u64 env v pk = Packer_put (EncodeFixed_u64 v) (Packer_reserve64 env 8 pk)"

definition Pack_float :: "(nat \<Rightarrow> answer) \<Rightarrow> float_t \<Rightarrow> Packer \<Rightarrow> Packer option" where
  "Pack_float env v pk = PackFixed_u32 env (float_bits v) pk"

definition Pack_double :: "(nat \<Rightarrow> answer) \<Rightarrow> double_t \<Rightarrow> Packer \<Rightarrow> Packer option" where
  "Pack_double env v pk = PackFixed_u64 env (double_bits v) pk"

definition Pack_view :: "(nat \<Rightarrow> answer) \<Rightarrow> StrView \<Rightarrow> Packer \<Rightarrow> Packer option" where
  "Pack_view env v pk =
     (let ns = of_nat MAX_V16_SIZE + sv_size v; pk = Packer_reserve64 env ns pk
      in case EncodeString_view v of
           None \<Rightarrow> None
         | Some bs \<Rightarrow> Packer_put bs pk)"

text \<open>
  A packed value, by the overload that packs it (\<open>XFixed\<close> for \<^verbatim>\<open>PackFixed\<close>). A client packs a sequence
  of them; the callback of \<^verbatim>\<open>Pack(PackStructCallback, void*)\<close> runs such a sequence on the same packer.
\<close>

datatype item =
    IBool bool | I8 u8 | U8 u8 | I16 u16 | U16 u16 | X16 u16 | I32 u32 | U32 u32 | X32 u32
  | I64 u64 | U64 u64 | X64 u64 | IFloat float_t | IDouble double_t | IView StrView

fun Pack_item :: "(nat \<Rightarrow> answer) \<Rightarrow> item \<Rightarrow> Packer \<Rightarrow> Packer option" where
  "Pack_item env (IBool v) = Pack_bool env v"
| "Pack_item env (I8 v) = Pack_i8 env v"
| "Pack_item env (U8 v) = Pack_u8 env v"
| "Pack_item env (I16 v) = Pack_i16 env v"
| "Pack_item env (U16 v) = Pack_u16 env v"
| "Pack_item env (X16 v) = PackFixed_u16 env v"
| "Pack_item env (I32 v) = Pack_i32 env v"
| "Pack_item env (U32 v) = Pack_u32 env v"
| "Pack_item env (X32 v) = PackFixed_u32 env v"
| "Pack_item env (I64 v) = Pack_i64 env v"
| "Pack_item env (U64 v) = Pack_u64 env v"
| "Pack_item env (X64 v) = PackFixed_u64 env v"
| "Pack_item env (IFloat v) = Pack_float env v"
| "Pack_item env (IDouble v) = Pack_double env v"
| "Pack_item env (IView v) = Pack_view env v"

fun Pack_struct :: "(nat \<Rightarrow> answer) \<Rightarrow> item list \<Rightarrow> Packer \<Rightarrow> Packer option" where
  "Pack_struct env [] pk = Some pk"
| "Pack_struct env (it # its) pk = Option.bind (Pack_item env it pk) (Pack_struct env its)"

section \<open>Specification vocabulary\<close>

text \<open>The bytes of a packed value, and the values the packer reserves enough space for.\<close>

fun item_bytes :: "item \<Rightarrow> bytes" where
  "item_bytes (IBool v) = EncodeFixed_u8 (if v then 1 else 0)"
| "item_bytes (I8 v) = EncodeFixed_u8 v"
| "item_bytes (U8 v) = EncodeFixed_u8 v"
| "item_bytes (I16 v) = EncodeVarint_u16 (EncodeZigZag_i16 v)"
| "item_bytes (U16 v) = EncodeVarint_u16 v"
| "item_bytes (X16 v) = EncodeFixed_u16 v"
| "item_bytes (I32 v) = EncodeVarint_u32 (EncodeZigZag_i32 v)"
| "item_bytes (U32 v) = EncodeVarint_u32 v"
| "item_bytes (X32 v) = EncodeFixed_u32 v"
| "item_bytes (I64 v) = EncodeVarint_u64 (EncodeZigZag_i64 v)"
| "item_bytes (U64 v) = EncodeVarint_u64 v"
| "item_bytes (X64 v) = EncodeFixed_u64 v"
| "item_bytes (IFloat v) = EncodeFixed_u32 (float_bits v)"
| "item_bytes (IDouble v) = EncodeFixed_u64 (double_bits v)"
| "item_bytes (IView v) = EncodeVarint_u64 (sv_size v) @ sv_bytes v"

fun item_ok :: "item \<Rightarrow> bool" where
  "item_ok (IView v) \<longleftrightarrow> view_ok v \<and> unat (sv_size v) < 2 ^ 21"
| "item_ok _ \<longleftrightarrow> True"

text \<open>Addresses the C library and the pool give: not null, and in the lower half of the address space.\<close>

definition addr_ok :: "nat \<Rightarrow> bool" where
  "addr_ok a \<longleftrightarrow> 0 < a \<and> a < 2 ^ 63"

definition env_ok :: "(nat \<Rightarrow> answer) \<Rightarrow> bool" where
  "env_ok env \<longleftrightarrow> (\<forall>k. addr_ok (fst (env k)))"

definition blk_ok :: "Block \<Rightarrow> bool" where
  "blk_ok b \<longleftrightarrow> length (blk_buf b) = unat (blk_capacity b) \<and> blk_size b \<le> blk_capacity b \<and>
     unat (blk_capacity b) \<le> 2 ^ 32 - 4096"

definition pool_ok :: "BlockPool \<Rightarrow> bool" where
  "pool_ok p \<longleftrightarrow> 4096 \<le> unat (m_block_size p) \<and> unat (m_block_size p) \<le> 2 ^ 32 - 4096 \<and>
     (\<forall>a\<in>set (m_free_blocks p). addr_ok a)"

text \<open>The used bytes of a block.\<close>

definition blk_bytes :: "Block \<Rightarrow> bytes" where
  "blk_bytes b = take (unat (blk_size b)) (blk_buf b)"

definition packer_ok :: "Packer \<Rightarrow> bool" where
  "packer_ok pk \<longleftrightarrow> pool_ok (bb_pool (m_block_buffer pk)) \<and>
     bb_blocks (m_block_buffer pk) \<noteq> [] \<and> blk_ok (m_block pk) \<and>
     (\<forall>b\<in>set (bb_blocks (m_block_buffer pk)). addr_ok (blk_addr b)) \<and>
     pk_ptr pk = unat (blk_size (m_block pk))"

section \<open>Blocks\<close>

lemma BlockBuffer_Alloc_block:
  assumes "pool_ok (bb_pool b)" and "addr_ok (fst e)" and "unat n \<le> 2 ^ 32 - 8192"
  obtains blk where "bb_blocks (BlockBuffer_Alloc e n b) = bb_blocks b @ [blk]" and "blk_ok blk"
    and "addr_ok (blk_addr blk)"
    and "blk_size blk = 0" and "unat n \<le> unat (blk_capacity blk)"
    and "pool_ok (bb_pool (BlockBuffer_Alloc e n b))"
proof (cases "n \<le> m_block_size (bb_pool b)")
  case True
  obtain x q where x: "BlockPool_Alloc (fst e) (bb_pool b) = (x, q)" by fastforce
  have "addr_ok x" "pool_ok q" "m_block_size q = m_block_size (bb_pool b)"
    using x assms(1,2) by (auto simp: BlockPool_Alloc_def pool_ok_def split: list.splits)
  with True x show ?thesis
    by (intro that) (auto simp: BlockBuffer_Alloc_def BlockPool_BlockSize_def blk_ok_def
        fresh_bytes_def pool_ok_def addr_ok_def word_le_nat_alt Let_def)
next
  case False
  note a = ALIGN_UP_ok [of n]
  have "unat (ALIGN_UP_u32 n 4096) \<le> 2 ^ 32 - 4096" using assms(3) a(2) by simp
  with False assms a(1) show ?thesis
    by (intro that) (auto simp: BlockBuffer_Alloc_def BlockPool_BlockSize_def blk_ok_def fresh_bytes_def addr_ok_def
        Let_def)
qed

text \<open>Both guards, for the sizes at hand, are the same one over the naturals.\<close>

definition packer_reserve :: "(nat \<Rightarrow> answer) \<Rightarrow> u32 \<Rightarrow> Packer \<Rightarrow> Packer" where
  "packer_reserve env n pk =
     (if unat (blk_size (m_block pk)) + unat n > unat (blk_capacity (m_block pk))
      then Packer_next_block env n pk else pk)"

lemma Packer_reserve32_eq:
  assumes "packer_ok pk" and "unat n < 4096"
  shows "Packer_reserve32 env n pk = packer_reserve env n pk"
proof -
  have "unat (blk_size (m_block pk)) + unat n < 2 ^ 32"
    using assms by (simp add: packer_ok_def blk_ok_def word_le_nat_alt)
  then have "unat (blk_size (m_block pk) + n) = unat (blk_size (m_block pk)) + unat n"
    using unat_add_lem [of "blk_size (m_block pk)" n] by simp
  then show ?thesis by (simp add: Packer_reserve32_def packer_reserve_def word_less_nat_alt)
qed

lemma Packer_reserve64_eq:
  assumes "unat n < 2 ^ 32"
  shows "Packer_reserve64 env n pk = packer_reserve env (ucast n) pk"
proof -
  let ?s = "ucast (blk_size (m_block pk)) :: u64"
  have u: "unat ?s = unat (blk_size (m_block pk))"
    "unat (ucast (blk_capacity (m_block pk)) :: u64) = unat (blk_capacity (m_block pk))"
    "unat (ucast n :: u32) = unat n"
    using assms by (simp_all add: unat_ucast_up unat_ucast_small)
  have "unat ?s + unat n < 2 ^ 64"
    using assms unat_bound [of "blk_size (m_block pk)"] by (simp add: u)
  then have "unat (?s + n) = unat ?s + unat n" using unat_add_lem [of ?s n] by simp
  then show ?thesis
    unfolding Packer_reserve64_def packer_reserve_def word_less_nat_alt by (simp only: u)
qed

lemma packer_reserve_ok:
  assumes "packer_ok pk" and "env_ok env" and "unat n \<le> 2 ^ 32 - 8192"
  shows "packer_ok (packer_reserve env n pk) \<and>
     unat (blk_size (m_block (packer_reserve env n pk))) + unat n
       \<le> unat (blk_capacity (m_block (packer_reserve env n pk))) \<and>
     (packer_reserve env n pk = pk \<or>
      (\<exists>blk. blk_bytes blk = [] \<and>
         bb_blocks (m_block_buffer (packer_reserve env n pk)) = bb_blocks (m_block_buffer pk) @ [blk]))"
proof (cases "unat (blk_size (m_block pk)) + unat n > unat (blk_capacity (m_block pk))")
  case False
  with assms(1) show ?thesis by (simp add: packer_reserve_def)
next
  case True
  let ?b = "m_block_buffer pk"
  from assms(1,2) have "pool_ok (bb_pool ?b)" "addr_ok (fst (env (length (bb_blocks ?b))))"
    by (auto simp: packer_ok_def env_ok_def)
  from BlockBuffer_Alloc_block [OF this assms(3)] obtain blk where
    "bb_blocks (BlockBuffer_Alloc (env (length (bb_blocks ?b))) n ?b) = bb_blocks ?b @ [blk]"
    "blk_ok blk" "addr_ok (blk_addr blk)" "blk_size blk = 0" "unat n \<le> unat (blk_capacity blk)"
    "pool_ok (bb_pool (BlockBuffer_Alloc (env (length (bb_blocks ?b))) n ?b))" by blast
  with True assms(1) show ?thesis
    by (auto simp: packer_reserve_def Packer_next_block_def packer_ok_def m_block_def blk_bytes_def Let_def)
qed

lemma Packer_put_ok:
  assumes "packer_ok pk"
    and "unat (blk_size (m_block pk)) + length bs \<le> unat (blk_capacity (m_block pk))"
  obtains pk' blk where "Packer_put bs pk = Some pk'" and "packer_ok pk'"
    and "bb_blocks (m_block_buffer pk') = butlast (bb_blocks (m_block_buffer pk)) @ [blk]"
    and "blk_bytes blk = blk_bytes (m_block pk) @ bs"
proof -
  let ?blk = "m_block pk"
  let ?n = "unat (blk_size ?blk)"
  from assms(1) have len: "length (blk_buf ?blk) = unat (blk_capacity ?blk)"
    and cap: "unat (blk_capacity ?blk) \<le> 2 ^ 32 - 4096" and ptr: "pk_ptr pk = ?n"
    and pool: "pool_ok (bb_pool (m_block_buffer pk))"
    and addrs: "\<forall>b\<in>set (bb_blocks (m_block_buffer pk)). addr_ok (blk_addr b)" "addr_ok (blk_addr ?blk)"
    by (auto simp: packer_ok_def blk_ok_def m_block_def)
  obtain buf where buf: "mem_write (blk_buf ?blk) ?n bs = Some buf"
    using assms(2) len by (auto simp: mem_write_def)
  have "length bs < 2 ^ 32" using assms(2) unat_bound [of "blk_capacity ?blk"] by simp
  then have l: "unat (of_nat (length bs) :: u32) = length bs" by (simp add: unat_of_nat_small)
  have sz: "unat (blk_size ?blk + of_nat (length bs)) = ?n + length bs"
    using assms(2) cap l by (subst unat_add_lem [THEN iffD1]) simp_all
  let ?b = "?blk\<lparr>blk_buf := buf, blk_size := blk_size ?blk + of_nat (length bs)\<rparr>"
  let ?buf = "(m_block_buffer pk)\<lparr>bb_blocks := butlast (bb_blocks (m_block_buffer pk)) @ [?b]\<rparr>"
  show ?thesis
  proof (rule that [of "pk\<lparr>m_block_buffer := ?buf, pk_ptr := ?n + length bs\<rparr>" ?b])
    show "Packer_put bs pk = Some (pk\<lparr>m_block_buffer := ?buf, pk_ptr := ?n + length bs\<rparr>)"
      by (simp add: Packer_put_def buf ptr Let_def)
    show "packer_ok (pk\<lparr>m_block_buffer := ?buf, pk_ptr := ?n + length bs\<rparr>)"
      using pool sz assms(2) mem_write_length [OF buf] len cap addrs
      by (auto simp: packer_ok_def m_block_def blk_ok_def word_le_nat_alt dest: in_set_butlastD)
    show "blk_bytes ?b = blk_bytes ?blk @ bs"
      using mem_write_take [OF buf] sz by (simp add: blk_bytes_def)
  qed simp
qed

section \<open>Packing one value\<close>

lemma EncodeVarint_length21: "unat v < 2 ^ 21 \<Longrightarrow> length (EncodeVarint_u64 v) \<le> 3"
  using EncodeVarint_u64_length [of v 3] by simp

lemma item_bytes_nonempty: "item_bytes it \<noteq> []"
  by (cases it) (auto simp: codec_defs EncodeVarint_u16_def EncodeVarint_u32_def)

text \<open>The space each method reserves: at least as many bytes as it then writes.\<close>

fun item_room :: "item \<Rightarrow> u32" where
  "item_room (IBool _) = 1" | "item_room (I8 _) = 1" | "item_room (U8 _) = 1"
| "item_room (I16 _) = 3" | "item_room (U16 _) = 3" | "item_room (X16 _) = 2"
| "item_room (I32 _) = 5" | "item_room (U32 _) = 5" | "item_room (X32 _) = 4"
| "item_room (I64 _) = 10" | "item_room (U64 _) = 10" | "item_room (X64 _) = 8"
| "item_room (IFloat _) = 4" | "item_room (IDouble _) = 8"
| "item_room (IView v) = ucast (of_nat MAX_V16_SIZE + sv_size v)"

lemma view_room:
  assumes "unat (sv_size v) < 2 ^ 32 - 3"
  shows "unat (of_nat MAX_V16_SIZE + sv_size v) = 3 + unat (sv_size v)"
    and "unat (item_room (IView v)) = 3 + unat (sv_size v)"
proof -
  show a: "unat (of_nat MAX_V16_SIZE + sv_size v) = 3 + unat (sv_size v)"
    using assms unat_add_lem [of "3 :: u64" "sv_size v"] by (simp add: MAX_V16_SIZE_def)
  show "unat (item_room (IView v)) = 3 + unat (sv_size v)"
    using a assms unat_ucast_small [of "of_nat MAX_V16_SIZE + sv_size v", where 'b = 32] by simp
qed

lemma item_room_enough:
  assumes "item_ok it"
  shows "length (item_bytes it) \<le> unat (item_room it)" and "unat (item_room it) \<le> 2 ^ 32 - 8192"
proof -
  show "length (item_bytes it) \<le> unat (item_room it)"
  proof (cases it)
    case (IView v)
    with assms have v: "view_ok v" "unat (sv_size v) < 2 ^ 21" by auto
    with IView EncodeVarint_length21 [OF v(2)] view_room(2) [of v] show ?thesis by simp
  qed (simp_all add: codec_defs EncodeVarint_u16_def EncodeVarint_u32_def EncodeVarint_u16_length
      EncodeVarint_u32_length EncodeVarint_u64_length10)
  show "unat (item_room it) \<le> 2 ^ 32 - 8192"
  proof (cases it)
    case (IView v)
    with assms view_room(2) [of v] show ?thesis by simp
  qed simp_all
qed

lemma Pack_item_eq:
  assumes "packer_ok pk" and "item_ok it"
  shows "Pack_item env it pk = Packer_put (item_bytes it) (packer_reserve env (item_room it) pk)"
proof (cases it)
  case (IView v)
  from assms(2) IView have v: "view_ok v" "unat (sv_size v) < 2 ^ 21" by auto
  have "EncodeString_view v = Some (item_bytes it)"
    using v(1) IView
    by (simp add: EncodeString_view_def EncodeString_def mem_read_def view_ok_def sv_bytes_def)
  then show ?thesis
    using IView v(2) view_room(1) [of v] Packer_reserve64_eq [of "of_nat MAX_V16_SIZE + sv_size v" env pk]
    by (simp add: Pack_view_def Let_def)
qed (simp_all add: assms(1) Packer_reserve64_eq Packer_reserve32_eq
    Pack_bool_def Pack_i8_def Pack_u8_def Pack_i16_def Pack_u16_def PackFixed_u16_def
    Pack_i32_def Pack_u32_def PackFixed_u32_def Pack_i64_def Pack_u64_def PackFixed_u64_def
    Pack_float_def Pack_double_def MAX_V16_SIZE_def MAX_V32_SIZE_def MAX_V64_SIZE_def)

text \<open>
  What the buffer holds: \<open>packed pk Bs\<close> says that the blocks of the buffer contain the encodings of
  the values \<open>Bs\<close>, block by block, and that no block but the first is empty.
\<close>

definition packed :: "Packer \<Rightarrow> item list list \<Rightarrow> bool" where
  "packed pk Bs \<longleftrightarrow> packer_ok pk \<and>
     map blk_bytes (bb_blocks (m_block_buffer pk)) = map (\<lambda>its. concat (map item_bytes its)) Bs \<and>
     [] \<notin> set (tl Bs)"

lemma packed_new:
  assumes "pool_ok pool" and "env_ok env"
  shows "packed (Packer_new env (BlockBuffer_new pool)) [[]]"
proof -
  have "pool_ok (bb_pool (BlockBuffer_new pool))" "addr_ok (fst (env 0))"
    using assms by (simp_all add: BlockBuffer_new_def env_ok_def)
  from BlockBuffer_Alloc_block [OF this, of 1] obtain blk where
    "bb_blocks (BlockBuffer_Alloc (env 0) 1 (BlockBuffer_new pool)) = [blk]" "blk_ok blk" "addr_ok (blk_addr blk)"
    "blk_size blk = 0" "pool_ok (bb_pool (BlockBuffer_Alloc (env 0) 1 (BlockBuffer_new pool)))"
    by (auto simp: BlockBuffer_new_def)
  then show ?thesis
    by (simp add: packed_def Packer_new_def packer_ok_def m_block_def blk_bytes_def BlockBuffer_new_def)
qed

lemma Pack_item_packed:
  assumes "packed pk Bs" and "env_ok env" and "item_ok it"
  obtains pk' Bs' where "Pack_item env it pk = Some pk'" and "packed pk' Bs'"
    and "concat Bs' = concat Bs @ [it]"
proof -
  let ?pk = "packer_reserve env (item_room it) pk" and ?enc = "\<lambda>its. concat (map item_bytes its)"
  let ?blocks = "bb_blocks (m_block_buffer pk)"
  from assms(1) have ok: "packer_ok pk" and bs: "map blk_bytes ?blocks = map ?enc Bs"
    and ne: "[] \<notin> set (tl Bs)" and b0: "?blocks \<noteq> []"
    by (auto simp: packed_def packer_ok_def)
  from bs b0 have Bs0: "Bs \<noteq> []" by auto
  note room = item_room_enough [OF assms(3)]
  from packer_reserve_ok [OF ok assms(2) room(2)] have ok': "packer_ok ?pk"
    and fits: "unat (blk_size (m_block ?pk)) + length (item_bytes it) \<le> unat (blk_capacity (m_block ?pk))"
    and alt: "?pk = pk \<or> (\<exists>blk. blk_bytes blk = [] \<and>
         bb_blocks (m_block_buffer ?pk) = ?blocks @ [blk])"
    using room(1) by auto
  from Packer_put_ok [OF ok' fits] obtain pk' blk where
    put: "Packer_put (item_bytes it) ?pk = Some pk'" "packer_ok pk'"
      "bb_blocks (m_block_buffer pk') = butlast (bb_blocks (m_block_buffer ?pk)) @ [blk]"
      "blk_bytes blk = blk_bytes (m_block ?pk) @ item_bytes it" by blast
  have pack: "Pack_item env it pk = Some pk'"
    using put(1) Pack_item_eq [OF ok assms(3)] by simp
  from alt show ?thesis
  proof
    assume same: "?pk = pk"
    have "map blk_bytes (bb_blocks (m_block_buffer pk')) =
        butlast (map ?enc Bs) @ [last (map ?enc Bs) @ item_bytes it]"
      using put(3,4) b0 same bs by (simp add: m_block_def map_butlast last_map flip: bs)
    also have "\<dots> = map ?enc (butlast Bs @ [last Bs @ [it]])"
      using Bs0 by (simp add: map_butlast last_map)
    finally have "packed pk' (butlast Bs @ [last Bs @ [it]])"
      using put(2) ne Bs0 by (cases Bs rule: rev_cases) (auto simp: packed_def tl_append split: list.splits)
    moreover have "concat (butlast Bs @ [last Bs @ [it]]) = concat Bs @ [it]"
      using Bs0 by (cases Bs rule: rev_cases) auto
    ultimately show ?thesis by (rule that [OF pack])
  next
    assume "\<exists>b. blk_bytes b = [] \<and> bb_blocks (m_block_buffer ?pk) = ?blocks @ [b]"
    then have "map blk_bytes (bb_blocks (m_block_buffer pk')) = map ?enc (Bs @ [[it]])"
      using put(3,4) bs by (auto simp: m_block_def)
    then have "packed pk' (Bs @ [[it]])"
      using put(2) ne Bs0 by (auto simp: packed_def tl_append split: list.splits)
    then show ?thesis by (rule that [OF pack]) simp
  qed
qed

lemma Pack_struct_packed:
  assumes "packed pk Bs" and "env_ok env" and "list_all item_ok its"
  obtains pk' Bs' where "Pack_struct env its pk = Some pk'" and "packed pk' Bs'"
    and "concat Bs' = concat Bs @ its"
proof -
  have "\<exists>pk' Bs'. Pack_struct env its pk = Some pk' \<and> packed pk' Bs' \<and> concat Bs' = concat Bs @ its"
    using assms(1,3)
  proof (induction its arbitrary: pk Bs)
    case (Cons it its)
    then have "item_ok it" by simp
    with Cons.prems(1) assms(2) obtain pk1 Bs1 where 1: "Pack_item env it pk = Some pk1"
        "packed pk1 Bs1" "concat Bs1 = concat Bs @ [it]"
      by (rule Pack_item_packed)
    with Cons.IH [of pk1 Bs1] Cons.prems show ?case by auto
  qed auto
  with that show ?thesis by blast
qed

section \<open>Properties\<close>

text \<open>
  Packing any sequence of values of the basic types (strings below 2 MiB) succeeds and never
  writes outside a block, and the blocks then hold exactly the encodings of the values, in order,
  with no value split over two blocks.
\<close>

theorem Pack_struct_total:
  assumes "pool_ok pool" and "env_ok env" and "list_all item_ok its"
  shows "\<exists>pk Bs. Pack_struct env its (Packer_new env (BlockBuffer_new pool)) = Some pk \<and>
     packer_ok pk \<and> concat Bs = its \<and>
     map blk_bytes (bb_blocks (m_block_buffer pk)) = map (\<lambda>b. concat (map item_bytes b)) Bs"
proof -
  obtain pk Bs where "Pack_struct env its (Packer_new env (BlockBuffer_new pool)) = Some pk"
    "packed pk Bs" "concat Bs = concat [[]] @ its"
    by (rule Pack_struct_packed [OF packed_new [OF assms(1,2)] assms(2,3)])
  then show ?thesis by (auto simp: packed_def)
qed

theorem Pack_struct_total_witness:
  "Pack_struct (\<lambda>_. (10000, \<lambda>_. 0)) [U64 300, IView \<lparr>sv_data = [65, 66], sv_size = 2\<rparr>]
     (Packer_new (\<lambda>_. (10000, \<lambda>_. 0)) (BlockBuffer_new
       \<lparr>m_block_size = 4096, m_cache_start = 1, m_cache_end = 1, m_free_blocks = []\<rparr>)) \<noteq> None"
proof -
  let ?p = "\<lparr>m_block_size = 4096, m_cache_start = 1, m_cache_end = 1, m_free_blocks = []\<rparr>"
  have "pool_ok ?p" "env_ok (\<lambda>_. (10000, \<lambda>_. 0))"
    "list_all item_ok [U64 300, IView \<lparr>sv_data = [65, 66], sv_size = 2\<rparr>]"
    by (simp_all add: pool_ok_def env_ok_def addr_ok_def view_ok_def)
  from Pack_struct_total [OF this] show ?thesis by auto
qed

lemma EncodeVarint_u64_length_ge:
  "2 ^ (7 * n) \<le> unat v \<Longrightarrow> n < length (EncodeVarint_u64 v)"
proof (induction v arbitrary: n rule: EncodeVarint_u64.induct)
  case (1 v)
  show ?case
  proof (cases n)
    case (Suc m)
    have "(2 :: nat) ^ 7 \<le> 2 ^ (7 * n)" unfolding Suc by (intro power_increasing) auto
    with 1(2) have ge: "v \<ge> 0x80" by (simp add: word_le_nat_alt)
    have "2 ^ (7 * m) \<le> unat (drop_bit 7 v)"
      using div_le_mono [OF 1(2), of "2 ^ 7"] by (simp add: Suc unat_drop_bit_div power_add)
    with 1(1) ge Suc show ?thesis by (simp add: EncodeVarint_u64.simps [of v])
  qed simp
qed

text \<open>
  C40: a string of 2 MiB or more whose reservation exactly fills the current block is written
  outside the block: \<open>Pack\<close> reserves \<^verbatim>\<open>MAX_V16_SIZE\<close> bytes for the length, but from \<open>2^21\<close> on the
  length takes four bytes or more.
\<close>

theorem Pack_view_overflows:
  assumes "packer_ok pk" and "view_ok v" and "2 ^ 21 \<le> unat (sv_size v)"
    and "unat (blk_size (m_block pk)) + 3 + unat (sv_size v) = unat (blk_capacity (m_block pk))"
  shows "Pack_view env v pk = None"
proof -
  have small: "unat (sv_size v) < 2 ^ 32 - 3"
    using assms(4) unat_bound [of "blk_capacity (m_block pk)"] by simp
  then have "Packer_reserve64 env (of_nat MAX_V16_SIZE + sv_size v) pk = pk"
    using assms(4) view_room [of v] Packer_reserve64_eq [of "of_nat MAX_V16_SIZE + sv_size v" env pk]
    by (simp add: packer_reserve_def)
  moreover have "EncodeString_view v = Some (item_bytes (IView v))"
    using assms(2) by (simp add: EncodeString_view_def EncodeString_def mem_read_def view_ok_def sv_bytes_def)
  moreover have "3 < length (EncodeVarint_u64 (sv_size v))"
    using EncodeVarint_u64_length_ge [of 3 "sv_size v"] assms(3) by simp
  ultimately show ?thesis
    using assms(1,2,4)
    by (simp add: Pack_view_def Let_def Packer_put_def mem_write_def packer_ok_def blk_ok_def)
qed

lemma Packer_new_block:
  assumes "pool_ok pool" and "m_free_blocks pool = []" and "fst (env 0) \<noteq> 0"
  shows "blk_size (m_block (Packer_new env (BlockBuffer_new pool))) = 0"
    and "blk_capacity (m_block (Packer_new env (BlockBuffer_new pool))) = m_block_size pool"
  using assms
  by (auto simp: m_block_def Packer_new_def BlockBuffer_new_def BlockBuffer_Alloc_def
      BlockPool_BlockSize_def BlockPool_Alloc_def pool_ok_def word_le_nat_alt Let_def)

theorem Pack_view_overflows_witness:
  "Pack_view (\<lambda>_. (10000000, \<lambda>_. 0)) (StrView_Set (replicate 4194301 0) 4194301)
     (Packer_new (\<lambda>_. (10000000, \<lambda>_. 0)) (BlockBuffer_new
       \<lparr>m_block_size = 4194304, m_cache_start = 1, m_cache_end = 1, m_free_blocks = []\<rparr>)) = None"
proof -
  let ?p = "\<lparr>m_block_size = 4194304, m_cache_start = 1, m_cache_end = 1, m_free_blocks = []\<rparr>"
  let ?env = "\<lambda>_ :: nat. (10000000 :: nat, \<lambda>_ :: nat. 0 :: u8)"
  have ok: "pool_ok ?p" "env_ok ?env" by (simp_all add: pool_ok_def env_ok_def addr_ok_def)
  then have "packer_ok (Packer_new ?env (BlockBuffer_new ?p))"
    using packed_new by (simp add: packed_def)
  moreover note Packer_new_block [OF ok(1), of ?env]
  ultimately show ?thesis
    by (intro Pack_view_overflows) (simp_all add: view_ok_def StrView_Set_def)
qed

end
