(* ===== verification/Unpack.thy ===== *)
theory Unpack
  imports Pack
begin

text \<open>
  \<^verbatim>\<open>include/xfutil/unpack.h\<close> and \<^verbatim>\<open>src/unpack.cpp\<close>: reading packed values back from the blocks of a
  block buffer. The unpacker keeps the index of the current block and the pointers \<^verbatim>\<open>m_ptr\<close> and
  \<^verbatim>\<open>m_buf_end\<close>: the model has the address of \<^verbatim>\<open>m_ptr\<close> and the bytes between the two. A method
  gets the old value of its reference argument and returns the success flag, the new value and
  the unpacker.
\<close>

section \<open>Definitions\<close>

record Unpacker =
  up_blocks :: "Block list"
  m_block_buffer_idx :: int
  up_ptr :: nat
  up_rest :: bytes

definition NextBlock :: "Unpacker \<Rightarrow> bool \<times> Unpacker" where
  "NextBlock u =
     (let blocks = up_blocks u; u = u\<lparr>m_block_buffer_idx := m_block_buffer_idx u + 1\<rparr> in
      if m_block_buffer_idx u \<ge> int (length blocks) then (False, u\<lparr>up_rest := []\<rparr>)
      else let block = blocks ! nat (m_block_buffer_idx u)
           in (True, u\<lparr>up_ptr := blk_addr block, up_rest := take (unat (blk_size block)) (blk_buf block)\<rparr>))"

definition Unpacker_new :: "BlockBuffer \<Rightarrow> Unpacker" where
  "Unpacker_new b =
     snd (NextBlock \<lparr>up_blocks = bb_blocks b, m_block_buffer_idx = -1, up_ptr = 0, up_rest = []\<rparr>)"

text \<open>The test that starts every method: at the end of a block, go to the next one.\<close>

definition Unpacker_refill :: "Unpacker \<Rightarrow> bool \<times> Unpacker" where
  "Unpacker_refill u = (if up_rest u = [] then NextBlock u else (True, u))"

text \<open>A decoder advances \<^verbatim>\<open>m_ptr\<close> over what it consumed.\<close>

definition Unpacker_advance :: "bytes \<Rightarrow> Unpacker \<Rightarrow> Unpacker" where
  "Unpacker_advance rest u =
     u\<lparr>up_ptr := up_ptr u + (length (up_rest u) - length rest), up_rest := rest\<rparr>"

definition Unpack_with :: "(bytes \<Rightarrow> bool \<times> 'v \<times> bytes) \<Rightarrow> 'v \<Rightarrow> Unpacker \<Rightarrow> bool \<times> 'v \<times> Unpacker" where
  "Unpack_with decode v u =
     (let (ok, u) = Unpacker_refill u in
      if \<not> ok then (False, v, u)
      else let (ret, v, rest) = decode (up_rest u) in (ret, v, Unpacker_advance rest u))"

definition Unpack_u8 :: "u8 \<Rightarrow> Unpacker \<Rightarrow> bool \<times> u8 \<times> Unpacker" where
  "Unpack_u8 v u = Unpack_with (\<lambda>b. DecodeFixed_u8 b v) v u"

text \<open>The local \<^verbatim>\<open>uint8_t uv\<close> of the next two is not initialised: \<open>junk\<close>.\<close>

definition Unpack_bool :: "u8 \<Rightarrow> Unpacker \<Rightarrow> bool \<times> bool \<times> Unpacker" where
  "Unpack_bool junk u = (let (ret, uv, u) = Unpack_u8 junk u in (ret, uv \<noteq> 0, u))"

definition Unpack_i8 :: "u8 \<Rightarrow> Unpacker \<Rightarrow> bool \<times> u8 \<times> Unpacker" where
  "Unpack_i8 junk u = (let (ret, uv, u) = Unpack_u8 junk u in (ret, uv, u))"

definition Unpack_u16 :: "u16 \<Rightarrow> Unpacker \<Rightarrow> bool \<times> u16 \<times> Unpacker" where
  "Unpack_u16 v u = Unpack_with DecodeVarint_u16 v u"

definition Unpack_i16 :: "u16 \<Rightarrow> Unpacker \<Rightarrow> bool \<times> u16 \<times> Unpacker" where
  "Unpack_i16 v u =
     (let (ret, uv, u) = Unpack_u16 v u
      in if \<not> ret then (False, v, u) else (True, DecodeZigZag_u16 uv, u))"

definition UnpackFixed_u16 :: "u16 \<Rightarrow> Unpacker \<Rightarrow> bool \<times> u16 \<times> Unpacker" where
  "UnpackFixed_u16 v u = Unpack_with (\<lambda>b. DecodeFixed_u16 b v) v u"

definition Unpack_u32 :: "u32 \<Rightarrow> Unpacker \<Rightarrow> bool \<times> u32 \<times> Unpacker" where
  "Unpack_u32 v u = Unpack_with DecodeVarint_u32 v u"

definition Unpack_i32 :: "u32 \<Rightarrow> Unpacker \<Rightarrow> bool \<times> u32 \<times> Unpacker" where
  "Unpack_i32 v u =
     (let (ret, uv, u) = Unpack_u32 v u
      in if \<not> ret then (False, v, u) else (True, DecodeZigZag_u32 uv, u))"

definition UnpackFixed_u32 :: "u32 \<Rightarrow> Unpacker \<Rightarrow> bool \<times> u32 \<times> Unpacker" where
  "UnpackFixed_u32 v u = Unpack_with (\<lambda>b. DecodeFixed_u32 b v) v u"

definition Unpack_u64 :: "u64 \<Rightarrow> Unpacker \<Rightarrow> bool \<times> u64 \<times> Unpacker" where
  "Unpack_u64 v u = Unpack_with DecodeVarint_u64 v u"

definition Unpack_i64 :: "u64 \<Rightarrow> Unpacker \<Rightarrow> bool \<times> u64 \<times> Unpacker" where
  "Unpack_i64 v u =
     (let (ret, uv, u) = Unpack_u64 v u
      in if \<not> ret then (False, v, u) else (True, DecodeZigZag_u64 uv, u))"

definition UnpackFixed_u64 :: "u64 \<Rightarrow> Unpacker \<Rightarrow> bool \<times> u64 \<times> Unpacker" where
  "UnpackFixed_u64 v u = Unpack_with (\<lambda>b. DecodeFixed_u64 b v) v u"

definition Unpack_float :: "u32 \<Rightarrow> Unpacker \<Rightarrow> bool \<times> float_t \<times> Unpacker" where
  "Unpack_float junk u = (let (ret, i, u) = UnpackFixed_u32 junk u in (ret, Float i, u))"

definition Unpack_double :: "u64 \<Rightarrow> Unpacker \<Rightarrow> bool \<times> double_t \<times> Unpacker" where
  "Unpack_double junk u = (let (ret, i, u) = UnpackFixed_u64 junk u in (ret, Double i, u))"

text \<open>\<^const>\<open>None\<close>: \<open>DecodeString\<close> accepted a length beyond the end of the block.\<close>

definition Unpack_view :: "StrView \<Rightarrow> Unpacker \<Rightarrow> (bool \<times> StrView \<times> Unpacker) option" where
  "Unpack_view v u =
     (let (ok, u) = Unpacker_refill u in
      if \<not> ok then Some (False, v, u)
      else case DecodeString (of_nat (up_ptr u)) (up_rest u) v of
             None \<Rightarrow> None
           | Some (ret, v, rest) \<Rightarrow> Some (ret, v, Unpacker_advance rest u))"

text \<open>
  Reading one value: the argument says which overload is called, and carries the old value of the
  reference. \<open>Unpack_struct\<close> reads a sequence and stops at the first failure, as callbacks do.
\<close>

fun Unpack_item :: "item \<Rightarrow> Unpacker \<Rightarrow> (bool \<times> item \<times> Unpacker) option" where
  "Unpack_item (IBool v) u = (let (r, v, u) = Unpack_bool (if v then 1 else 0) u in Some (r, IBool v, u))"
| "Unpack_item (I8 v) u = (let (r, v, u) = Unpack_i8 v u in Some (r, I8 v, u))"
| "Unpack_item (U8 v) u = (let (r, v, u) = Unpack_u8 v u in Some (r, U8 v, u))"
| "Unpack_item (I16 v) u = (let (r, v, u) = Unpack_i16 v u in Some (r, I16 v, u))"
| "Unpack_item (U16 v) u = (let (r, v, u) = Unpack_u16 v u in Some (r, U16 v, u))"
| "Unpack_item (X16 v) u = (let (r, v, u) = UnpackFixed_u16 v u in Some (r, X16 v, u))"
| "Unpack_item (I32 v) u = (let (r, v, u) = Unpack_i32 v u in Some (r, I32 v, u))"
| "Unpack_item (U32 v) u = (let (r, v, u) = Unpack_u32 v u in Some (r, U32 v, u))"
| "Unpack_item (X32 v) u = (let (r, v, u) = UnpackFixed_u32 v u in Some (r, X32 v, u))"
| "Unpack_item (I64 v) u = (let (r, v, u) = Unpack_i64 v u in Some (r, I64 v, u))"
| "Unpack_item (U64 v) u = (let (r, v, u) = Unpack_u64 v u in Some (r, U64 v, u))"
| "Unpack_item (X64 v) u = (let (r, v, u) = UnpackFixed_u64 v u in Some (r, X64 v, u))"
| "Unpack_item (IFloat v) u = (let (r, v, u) = Unpack_float (float_bits v) u in Some (r, IFloat v, u))"
| "Unpack_item (IDouble v) u = (let (r, v, u) = Unpack_double (double_bits v) u in Some (r, IDouble v, u))"
| "Unpack_item (IView v) u = map_option (\<lambda>(r, v, u). (r, IView v, u)) (Unpack_view v u)"

fun Unpack_struct :: "item list \<Rightarrow> Unpacker \<Rightarrow> (bool \<times> item list \<times> Unpacker) option" where
  "Unpack_struct [] u = Some (True, [], u)"
| "Unpack_struct (t # ts) u =
     (case Unpack_item t u of
        None \<Rightarrow> None
      | Some (ret, it, u) \<Rightarrow>
          if \<not> ret then Some (False, [], u)
          else map_option (\<lambda>(ret, its, u). (ret, it # its, u)) (Unpack_struct ts u))"

section \<open>Specification vocabulary\<close>

text \<open>\<open>same_kind\<close>: the same overload. \<open>item_eq\<close>: the same value, for views the same bytes.\<close>

fun item_kind :: "item \<Rightarrow> nat" where
  "item_kind (IBool _) = 0"
| "item_kind (I8 _) = 1"
| "item_kind (U8 _) = 2"
| "item_kind (I16 _) = 3"
| "item_kind (U16 _) = 4"
| "item_kind (X16 _) = 5"
| "item_kind (I32 _) = 6"
| "item_kind (U32 _) = 7"
| "item_kind (X32 _) = 8"
| "item_kind (I64 _) = 9"
| "item_kind (U64 _) = 10"
| "item_kind (X64 _) = 11"
| "item_kind (IFloat _) = 12"
| "item_kind (IDouble _) = 13"
| "item_kind (IView _) = 14"

definition same_kind :: "item \<Rightarrow> item \<Rightarrow> bool" where
  "same_kind a b \<longleftrightarrow> item_kind a = item_kind b"

definition item_eq :: "item \<Rightarrow> item \<Rightarrow> bool" where
  "item_eq a b \<longleftrightarrow> a = b \<or>
     (\<exists>v w. a = IView v \<and> b = IView w \<and> view_ok v \<and> sv_bytes v = sv_bytes w)"

text \<open>
  \<open>unread u Bs\<close>: the unpacker will meet the values \<open>Bs\<close>, the first list in the current block, the
  others in the blocks that follow.
\<close>

definition unread :: "Unpacker \<Rightarrow> item list list \<Rightarrow> bool" where
  "unread u Bs \<longleftrightarrow> 0 \<le> m_block_buffer_idx u \<and> Bs \<noteq> [] \<and> [] \<notin> set (tl Bs) \<and>
     up_rest u = concat (map item_bytes (hd Bs)) \<and> up_ptr u + length (up_rest u) < 2 ^ 64 \<and>
     map blk_bytes (drop (nat (m_block_buffer_idx u) + 1) (up_blocks u)) =
       map (\<lambda>its. concat (map item_bytes its)) (tl Bs) \<and>
     (\<forall>b\<in>set (up_blocks u). blk_addr b < 2 ^ 63)"

section \<open>Reading one value\<close>

lemmas unpack_defs = Unpack_bool_def Unpack_i8_def Unpack_u8_def Unpack_i16_def Unpack_u16_def
  UnpackFixed_u16_def Unpack_i32_def Unpack_u32_def UnpackFixed_u32_def Unpack_i64_def
  Unpack_u64_def UnpackFixed_u64_def Unpack_float_def Unpack_double_def Unpack_with_def

lemma same_kind_iff:
  "same_kind t (IBool w0) \<longleftrightarrow> (\<exists>v. t = IBool v)"
  "same_kind t (I8 w1) \<longleftrightarrow> (\<exists>v. t = I8 v)"
  "same_kind t (U8 w2) \<longleftrightarrow> (\<exists>v. t = U8 v)"
  "same_kind t (I16 w3) \<longleftrightarrow> (\<exists>v. t = I16 v)"
  "same_kind t (U16 w4) \<longleftrightarrow> (\<exists>v. t = U16 v)"
  "same_kind t (X16 w5) \<longleftrightarrow> (\<exists>v. t = X16 v)"
  "same_kind t (I32 w6) \<longleftrightarrow> (\<exists>v. t = I32 v)"
  "same_kind t (U32 w7) \<longleftrightarrow> (\<exists>v. t = U32 v)"
  "same_kind t (X32 w8) \<longleftrightarrow> (\<exists>v. t = X32 v)"
  "same_kind t (I64 w9) \<longleftrightarrow> (\<exists>v. t = I64 v)"
  "same_kind t (U64 w10) \<longleftrightarrow> (\<exists>v. t = U64 v)"
  "same_kind t (X64 w11) \<longleftrightarrow> (\<exists>v. t = X64 v)"
  "same_kind t (IFloat w12) \<longleftrightarrow> (\<exists>v. t = IFloat v)"
  "same_kind t (IDouble w13) \<longleftrightarrow> (\<exists>v. t = IDouble v)"
  "same_kind t (IView w14) \<longleftrightarrow> (\<exists>v. t = IView v)"
  unfolding same_kind_def by (cases t; simp)+

lemma float_eta: "Float (float_bits x) = x" "Double (double_bits y) = y"
  by (cases x; simp) (cases y; simp)

lemma Unpack_item_rt:
  assumes r: "Unpacker_refill u = (True, u')" and rest: "up_rest u' = item_bytes it @ rest"
    and "same_kind t it" and ok: "item_ok it" and "up_ptr u' + length (up_rest u') < 2 ^ 64"
  obtains it' where "Unpack_item t u = Some (True, it', Unpacker_advance rest u')" and "item_eq it' it"
proof -
  note rt = codec_rt zigzag_i16_rt zigzag_i32_rt zigzag_i64_rt
  have "\<exists>it'. Unpack_item t u = Some (True, it', Unpacker_advance rest u') \<and> item_eq it' it"
  proof (cases it)
    case (IView w)
    with assms(3) obtain v where t: "t = IView v" by (cases t) (auto simp: same_kind_def)
    from IView ok have w: "view_ok w" by simp
    let ?bs = "EncodeVarint_u64 (sv_size w) @ sv_bytes w"
    have "EncodeString (sv_data w) (sv_size w) = Some ?bs"
      using w by (simp add: EncodeString_def mem_read_def view_ok_def sv_bytes_def)
    moreover have "unat (of_nat (up_ptr u') :: u64) + length (?bs @ rest) < 2 ^ 64"
      using assms(5) rest IView by (subst unat_of_nat_small) simp_all
    ultimately have "DecodeString (of_nat (up_ptr u')) (?bs @ rest) v =
        Some (True, StrView_Set (take (unat (sv_size w)) (sv_data w) @ rest) (sv_size w), rest)"
      by (rule DecodeString_rt)
    moreover have "item_eq (IView (StrView_Set (take (unat (sv_size w)) (sv_data w) @ rest) (sv_size w))) it"
      using w IView by (simp add: item_eq_def view_ok_def sv_bytes_def StrView_Set_def)
    ultimately show ?thesis using t IView rest by (auto simp: Unpack_view_def r)
  next
    case (IBool w)
    with assms(3) obtain v where "t = IBool v" by (cases t) (auto simp: same_kind_def)
    with IBool r rest show ?thesis by (cases w) (auto simp: unpack_defs rt item_eq_def)
  qed ((use assms(3) r rest in \<open>auto simp: same_kind_iff unpack_defs rt item_eq_def float_eta\<close>)+)
  with that show ?thesis by blast
qed

lemma NextBlock_unread:
  assumes "unread u ([] # B # Bs)"
  obtains u' where "NextBlock u = (True, u')" and "unread u' (B # Bs)" and "up_rest u' \<noteq> []"
proof -
  let ?i = "nat (m_block_buffer_idx u)"
  from assms have i: "0 \<le> m_block_buffer_idx u" and B: "B \<noteq> []" "[] \<notin> set Bs"
    and blks: "map blk_bytes (drop (?i + 1) (up_blocks u)) =
       map (\<lambda>its. concat (map item_bytes its)) (B # Bs)"
    and addr: "\<forall>b\<in>set (up_blocks u). blk_addr b < 2 ^ 63"
    by (auto simp: unread_def)
  then have lt: "?i + 1 < length (up_blocks u)" by (metis drop_all leI list.distinct(1) list.map(1) list.simps(9))
  then have d: "drop (?i + 1) (up_blocks u) = up_blocks u ! (?i + 1) # drop (?i + 2) (up_blocks u)"
    by (simp add: Cons_nth_drop_Suc)
  let ?b = "up_blocks u ! (?i + 1)"
  have b: "blk_bytes ?b = concat (map item_bytes B)"
    and rest: "map blk_bytes (drop (?i + 2) (up_blocks u)) = map (\<lambda>its. concat (map item_bytes its)) Bs"
    using blks unfolding d by simp_all
  have len: "blk_addr ?b + length (blk_bytes ?b) < 2 ^ 64"
    using addr lt unat_bound [of "blk_size ?b"] nth_mem [OF lt] by (fastforce simp: blk_bytes_def)
  have n: "nat (m_block_buffer_idx u + 1) = ?i + 1" using i by simp
  let ?u = "u\<lparr>m_block_buffer_idx := m_block_buffer_idx u + 1, up_ptr := blk_addr ?b,
      up_rest := blk_bytes ?b\<rparr>"
  have "NextBlock u = (True, ?u)"
    using lt i n by (simp add: NextBlock_def Let_def blk_bytes_def)
  moreover have "unread ?u (B # Bs)"
    using i B(2) b rest len addr n by (simp add: unread_def)
  moreover have "blk_bytes ?b \<noteq> []"
    using b B(1) item_bytes_nonempty by (cases B) auto
  ultimately show ?thesis using that [of ?u] by simp
qed

lemma Unpack_item_unread:
  assumes "unread u Bs" and "concat Bs = it # its" and "same_kind t it" and "item_ok it"
  obtains it' u' Bs' where "Unpack_item t u = Some (True, it', u')" and "item_eq it' it"
    and "unread u' Bs'" and "concat Bs' = its"
proof -
  obtain u1 B1 Bs1 where u1: "Unpacker_refill u = (True, u1)" "unread u1 ((it # B1) # Bs1)"
    "B1 @ concat Bs1 = its"
  proof (cases "hd Bs")
    case Nil
    with assms(1) obtain Cs where Bs: "Bs = [] # Cs" by (cases Bs) (auto simp: unread_def)
    with assms(2) obtain B Ds where Cs: "Cs = B # Ds" by (cases Cs) auto
    from assms(1) Bs Cs have e: "up_rest u = []" "B \<noteq> []" by (auto simp: unread_def)
    with assms(2) Bs Cs obtain B1 where "B = it # B1" by (cases B) auto
    with NextBlock_unread [of u B Ds] assms(1,2) Bs Cs e that show ?thesis
      by (auto simp: Unpacker_refill_def)
  next
    case (Cons x B1)
    with assms(1,2) obtain Ds where "Bs = (it # B1) # Ds" by (cases Bs) (auto simp: unread_def)
    moreover from this assms(1) have "up_rest u \<noteq> []"
      using item_bytes_nonempty by (auto simp: unread_def)
    ultimately show ?thesis using assms(1,2) that by (auto simp: Unpacker_refill_def)
  qed
  let ?rest = "concat (map item_bytes B1)"
  have rest: "up_rest u1 = item_bytes it @ ?rest" using u1(2) by (simp add: unread_def)
  have bound: "up_ptr u1 + length (up_rest u1) < 2 ^ 64" using u1(2) unfolding unread_def by blast
  then have bound2: "up_ptr u1 + (length (item_bytes it) + length ?rest) < 2 ^ 64" by (simp add: rest)
  from Unpack_item_rt [OF u1(1) rest assms(3,4) bound] obtain it' where
    "Unpack_item t u = Some (True, it', Unpacker_advance ?rest u1)" "item_eq it' it" by blast
  moreover have "unread (Unpacker_advance ?rest u1) (B1 # Bs1)"
    using u1(2) bound2 by (simp add: unread_def Unpacker_advance_def rest)
  ultimately show ?thesis using that u1(3) by fastforce
qed

lemma Unpack_struct_unread:
  assumes "unread u Bs" and "concat Bs = its @ later" and "list_all2 same_kind ts its"
    and "list_all item_ok its"
  obtains its' u' Bs' where "Unpack_struct ts u = Some (True, its', u')" and "list_all2 item_eq its' its"
    and "unread u' Bs'" and "concat Bs' = later"
proof -
  have "\<exists>its' u' Bs'. Unpack_struct ts u = Some (True, its', u') \<and> list_all2 item_eq its' its \<and>
      unread u' Bs' \<and> concat Bs' = later"
    using assms(3,1,2,4)
  proof (induction arbitrary: u Bs rule: list_all2_induct)
    case (Cons t ts it its)
    then have "concat Bs = it # (its @ later)" "item_ok it" by simp_all
    with Cons.prems(1) Cons.hyps(1) obtain it' u1 Bs1 where 1:
      "Unpack_item t u = Some (True, it', u1)" "item_eq it' it" "unread u1 Bs1" "concat Bs1 = its @ later"
      by (metis Unpack_item_unread)
    with Cons.IH [OF 1(3,4)] Cons.prems(3) show ?case by auto
  qed auto
  with that show ?thesis by blast
qed

text \<open>At the end of the data every method fails.\<close>

lemma Unpacker_refill_end:
  assumes "unread u Bs" and "concat Bs = []"
  shows "\<exists>u'. Unpacker_refill u = (False, u')"
proof -
  from assms have "Bs = [[]]" by (cases Bs; cases "tl Bs") (auto simp: unread_def)
  with assms(1) show ?thesis by (auto simp: unread_def Unpacker_refill_def NextBlock_def Let_def)
qed

lemma Unpack_item_end:
  assumes "unread u Bs" and "concat Bs = []"
  shows "\<exists>v u'. Unpack_item t u = Some (False, v, u')"
proof -
  obtain u' where "Unpacker_refill u = (False, u')" using Unpacker_refill_end [OF assms] by blast
  then show ?thesis by (cases t) (simp_all add: unpack_defs Unpack_view_def)
qed

lemma Unpacker_new_unread:
  assumes "packed pk Bs"
  shows "unread (Unpacker_new (m_block_buffer pk)) Bs"
proof -
  let ?bs = "bb_blocks (m_block_buffer pk)"
  from assms have ne: "?bs \<noteq> []" and addr: "\<forall>b\<in>set ?bs. blk_addr b < 2 ^ 63"
    and bytes: "map blk_bytes ?bs = map (\<lambda>its. concat (map item_bytes its)) Bs" "[] \<notin> set (tl Bs)"
    by (auto simp: packed_def packer_ok_def addr_ok_def)
  from ne obtain b bs where b: "?bs = b # bs" by (cases ?bs) auto
  with bytes obtain B Cs where Bs: "Bs = B # Cs" by (cases Bs) auto
  have "blk_addr b + length (blk_bytes b) < 2 ^ 64"
    using addr b unat_bound [of "blk_size b"] by (fastforce simp: blk_bytes_def)
  then show ?thesis
    using b Bs bytes addr
    by (simp add: unread_def Unpacker_new_def NextBlock_def Let_def flip: blk_bytes_def)
qed

end
