(* ===== verification/Lru_Cache.thy ===== *)
theory Lru_Cache
  imports Xf_Prelude
begin

text \<open>
  \<^verbatim>\<open>include/xfutil/lru_cache.h\<close>: a cache with a cold list, where values enter, and a hot list, where
  values move on their first hit. An iterator of \<^verbatim>\<open>std::list\<close> is a number that stays with its
  node; a list is a sequence of nodes with their iterators, and \<open>next_iter\<close> numbers the next node.
  Sizes are 64-bit words and wrap. Using an iterator whose node was erased is \<^const>\<open>None\<close>. Every
  method holds the mutex from start to end, so a method is one step.
\<close>

section \<open>Definitions\<close>

record ('k, 'v) LruNode =
  nd_key :: 'k
  nd_value :: 'v
  nd_value_size :: u64

record ('k, 'v) LruCache =
  m_max_hot_size :: u64
  m_max_cold_size :: u64
  m_hit_count :: u64
  m_miss_count :: u64
  m_hot_size :: u64
  m_hot_list :: "(nat \<times> ('k, 'v) LruNode) list"
  m_hot_map :: "'k \<Rightarrow> nat option"
  m_cold_size :: u64
  m_cold_list :: "(nat \<times> ('k, 'v) LruNode) list"
  m_cold_map :: "'k \<Rightarrow> nat option"
  next_iter :: nat

text \<open>\<open>hot\<close> is the value of the floating point expression \<^verbatim>\<open>max_size*0.6\<close>.\<close>

definition LruCache_new :: "u64 \<Rightarrow> u64 \<Rightarrow> ('k, 'v) LruCache" where
  "LruCache_new hot max_size = \<lparr>m_max_hot_size = hot, m_max_cold_size = max_size - hot,
     m_hit_count = 0, m_miss_count = 0,
     m_hot_size = 0, m_hot_list = [], m_hot_map = (\<lambda>_. None),
     m_cold_size = 0, m_cold_list = [], m_cold_map = (\<lambda>_. None), next_iter = 0\<rparr>"

definition list_erase :: "nat \<Rightarrow> (nat \<times> 'n) list \<Rightarrow> (nat \<times> 'n) list" where
  "list_erase i xs = filter (\<lambda>x. fst x \<noteq> i) xs"

function ReserveColdList :: "u64 \<Rightarrow> ('k, 'v) LruCache \<Rightarrow> ('k, 'v) LruCache" where
  "ReserveColdList vs c =
     (if m_cold_list c \<noteq> [] \<and> m_cold_size c + vs > m_max_cold_size c then
        let node = snd (last (m_cold_list c))
        in ReserveColdList vs (c\<lparr>m_cold_size := m_cold_size c - nd_value_size node,
             m_cold_map := (m_cold_map c)(nd_key node := None),
             m_cold_list := butlast (m_cold_list c)\<rparr>)
      else c)"
  by pat_completeness auto
termination by (relation "measure (\<lambda>(vs, c). length (m_cold_list c))") auto

declare ReserveColdList.simps [simp del]

definition evict_hot :: "('k, 'v) LruCache \<Rightarrow> ('k, 'v) LruCache option" where
  "evict_hot c =
     (let node = snd (last (m_hot_list c));
          c = c\<lparr>m_hot_size := m_hot_size c - nd_value_size node,
                m_hot_map := (m_hot_map c)(nd_key node := None),
                m_hot_list := butlast (m_hot_list c)\<rparr>;
          begin_it = next_iter c;
          c = c\<lparr>m_cold_size := m_cold_size c + nd_value_size node,
                m_cold_list := (begin_it, node) # m_cold_list c, next_iter := begin_it + 1\<rparr>
      in case m_cold_map c (nd_key node) of
           None \<Rightarrow> Some (c\<lparr>m_cold_map := (m_cold_map c)(nd_key node \<mapsto> begin_it)\<rparr>)
         | Some j \<Rightarrow>
             (case map_of (m_cold_list c) j of
                None \<Rightarrow> None
              | Some old \<Rightarrow>
                  Some (c\<lparr>m_cold_size := m_cold_size c - nd_value_size old,
                          m_cold_list := list_erase j (m_cold_list c),
                          m_cold_map := (m_cold_map c)(nd_key node \<mapsto> begin_it)\<rparr>)))"

lemma evict_hot_shrinks: "evict_hot c = Some c' \<Longrightarrow> m_hot_list c' = butlast (m_hot_list c)"
  by (auto simp: evict_hot_def Let_def split: option.splits)

function ReserveHotList :: "u64 \<Rightarrow> ('k, 'v) LruCache \<Rightarrow> ('k, 'v) LruCache option" where
  "ReserveHotList vs c =
     (if m_hot_list c \<noteq> [] \<and> m_hot_size c + vs > m_max_hot_size c then
        (case evict_hot c of
           None \<Rightarrow> None
         | Some c' \<Rightarrow> ReserveHotList vs c')
      else Some c)"
  by pat_completeness auto
termination
  by (relation "measure (\<lambda>(vs, c). length (m_hot_list c))") (auto dest: evict_hot_shrinks)

declare ReserveHotList.simps [simp del]

definition LruCache_Add :: "'k \<Rightarrow> 'v \<Rightarrow> u64 \<Rightarrow> ('k, 'v) LruCache \<Rightarrow> ('k, 'v) LruCache" where
  "LruCache_Add k v vs c =
     (let c = ReserveColdList vs c in
      if m_cold_map c k = None then
        c\<lparr>m_cold_list := (next_iter c, \<lparr>nd_key = k, nd_value = v, nd_value_size = vs\<rparr>) # m_cold_list c,
          m_cold_map := (m_cold_map c)(k \<mapsto> next_iter c),
          m_cold_size := m_cold_size c + vs, next_iter := next_iter c + 1\<rparr>
      else c)"

text \<open>The value is \<^const>\<open>None\<close> where the method returns \<^verbatim>\<open>false\<close> and leaves its reference argument.\<close>

definition LruCache_Get :: "'k \<Rightarrow> ('k, 'v) LruCache \<Rightarrow> ('v option \<times> ('k, 'v) LruCache) option" where
  "LruCache_Get k c =
     (case m_hot_map c k of
        Some i \<Rightarrow>
          (case map_of (m_hot_list c) i of
             None \<Rightarrow> None
           | Some node \<Rightarrow>
               Some (Some (nd_value node),
                 c\<lparr>m_hit_count := m_hit_count c + 1,
                   m_hot_list := (next_iter c, node) # list_erase i (m_hot_list c),
                   m_hot_map := (m_hot_map c)(k \<mapsto> next_iter c), next_iter := next_iter c + 1\<rparr>))
      | None \<Rightarrow>
          (case m_cold_map c k of
             Some i \<Rightarrow>
               (case map_of (m_cold_list c) i of
                  None \<Rightarrow> None
                | Some node \<Rightarrow>
                    (case ReserveHotList (nd_value_size node)
                       (c\<lparr>m_hit_count := m_hit_count c + 1,
                          m_cold_size := m_cold_size c - nd_value_size node,
                          m_cold_list := list_erase i (m_cold_list c),
                          m_cold_map := (m_cold_map c)(k := None)\<rparr>) of
                       None \<Rightarrow> None
                     | Some c \<Rightarrow>
                         Some (Some (nd_value node),
                           c\<lparr>m_hot_list := (next_iter c, node) # m_hot_list c,
                             m_hot_map := (m_hot_map c)(nd_key node \<mapsto> next_iter c),
                             next_iter := next_iter c + 1\<rparr>)))
           | None \<Rightarrow> Some (None, c\<lparr>m_miss_count := m_miss_count c + 1\<rparr>)))"

definition LruCache_Delete :: "'k \<Rightarrow> ('k, 'v) LruCache \<Rightarrow> (bool \<times> ('k, 'v) LruCache) option" where
  "LruCache_Delete k c =
     (case m_hot_map c k of
        Some i \<Rightarrow>
          (case map_of (m_hot_list c) i of
             None \<Rightarrow> None
           | Some node \<Rightarrow>
               Some (True, c\<lparr>m_hot_size := m_hot_size c - nd_value_size node,
                 m_hot_list := list_erase i (m_hot_list c), m_hot_map := (m_hot_map c)(k := None)\<rparr>))
      | None \<Rightarrow>
          (case m_cold_map c k of
             Some i \<Rightarrow>
               (case map_of (m_cold_list c) i of
                  None \<Rightarrow> None
                | Some node \<Rightarrow>
                    Some (True, c\<lparr>m_cold_size := m_cold_size c - nd_value_size node,
                      m_cold_list := list_erase i (m_cold_list c),
                      m_cold_map := (m_cold_map c)(k := None)\<rparr>))
           | None \<Rightarrow> Some (False, c)))"

definition LruCache_Size :: "('k, 'v) LruCache \<Rightarrow> u64" where
  "LruCache_Size c = m_hot_size c + m_cold_size c"

section \<open>Specification vocabulary\<close>

text \<open>
  \<open>index_ok xs m n\<close>: the map \<open>m\<close> from keys to iterators indexes the list \<open>xs\<close> exactly, keys and
  iterators occur once, and all iterators are below \<open>n\<close>. \<open>node_of xs k\<close> is the node of key \<open>k\<close>.
\<close>

definition index_ok :: "(nat \<times> ('k, 'v) LruNode) list \<Rightarrow> ('k \<Rightarrow> nat option) \<Rightarrow> nat \<Rightarrow> bool" where
  "index_ok xs m n \<longleftrightarrow> distinct (map fst xs) \<and> (\<forall>x\<in>set xs. fst x < n) \<and>
     distinct (map (nd_key \<circ> snd) xs) \<and>
     (\<forall>k i. m k = Some i \<longleftrightarrow> (\<exists>nd. (i, nd) \<in> set xs \<and> nd_key nd = k))"

definition node_of :: "(nat \<times> ('k, 'v) LruNode) list \<Rightarrow> 'k \<Rightarrow> ('k, 'v) LruNode option" where
  "node_of xs = map_of (map (\<lambda>x. (nd_key (snd x), snd x)) xs)"

definition sizes :: "(nat \<times> ('k, 'v) LruNode) list \<Rightarrow> u64" where
  "sizes xs = sum_list (map (nd_value_size \<circ> snd) xs)"

definition lru_inv :: "('k, 'v) LruCache \<Rightarrow> bool" where
  "lru_inv c \<longleftrightarrow> index_ok (m_hot_list c) (m_hot_map c) (next_iter c) \<and>
     index_ok (m_cold_list c) (m_cold_map c) (next_iter c) \<and> m_cold_size c = sizes (m_cold_list c)"

text \<open>What a client can observe: the node of a key, the hot list first.\<close>

definition lru_lookup :: "('k, 'v) LruCache \<Rightarrow> 'k \<Rightarrow> ('k, 'v) LruNode option" where
  "lru_lookup c k = (case node_of (m_hot_list c) k of Some nd \<Rightarrow> Some nd | None \<Rightarrow> node_of (m_cold_list c) k)"

section \<open>Indexed lists\<close>

lemma node_of_Cons [simp]: "node_of ((i, nd) # xs) = (node_of xs)(nd_key nd \<mapsto> nd)"
  by (simp add: node_of_def)

lemma node_of_Nil [simp]: "node_of [] = (\<lambda>_. None)"
  by (simp add: node_of_def fun_eq_iff)

lemma sizes_Cons [simp]: "sizes ((i, nd) # xs) = nd_value_size nd + sizes xs"
  and sizes_Nil [simp]: "sizes [] = 0"
  by (simp_all add: sizes_def)

lemma index_mono: "index_ok xs m n \<Longrightarrow> n \<le> n' \<Longrightarrow> index_ok xs m n'"
  by (auto simp: index_ok_def)

lemma node_of_None: "node_of xs k = None \<longleftrightarrow> (\<forall>x\<in>set xs. nd_key (snd x) \<noteq> k)"
  by (induction xs) (auto simp: node_of_def)

lemma index_none:
  assumes "index_ok xs m n"
  shows "m k = None \<longleftrightarrow> node_of xs k = None"
proof -
  have "m k = None \<longleftrightarrow> (\<forall>x\<in>set xs. nd_key (snd x) \<noteq> k)"
    using assms unfolding index_ok_def by (metis not_None_eq prod.collapse snd_conv)
  then show ?thesis by (simp add: node_of_None)
qed

lemma index_some:
  assumes "index_ok xs m n" and "m k = Some i"
  obtains nd where "map_of xs i = Some nd" and "nd_key nd = k" and "node_of xs k = Some nd" and "i < n"
proof -
  from assms obtain nd where nd: "(i, nd) \<in> set xs" "nd_key nd = k" by (auto simp: index_ok_def)
  then have "map_of xs i = Some nd" using assms(1) by (auto simp: index_ok_def)
  moreover have "(k, nd) \<in> set (map (\<lambda>x. (nd_key (snd x), snd x)) xs)" using nd by force
  then have "node_of xs k = Some nd"
    using assms(1) by (auto simp: node_of_def index_ok_def comp_def intro!: map_of_is_SomeI)
  moreover have "i < n" using assms(1) nd by (auto simp: index_ok_def)
  ultimately show ?thesis using nd that by blast
qed

lemma index_push:
  assumes "index_ok xs m n" and "m (nd_key nd) = None"
  shows "index_ok ((n, nd) # xs) (m(nd_key nd \<mapsto> n)) (n + 1)"
  using assms unfolding index_ok_def by (auto split: if_splits) (metis option.distinct(1))+

lemma filter_absent [simp]: "i \<notin> fst ` set xs \<Longrightarrow> filter (\<lambda>x. fst x \<noteq> i) xs = xs"
  by (induction xs) auto

lemma erase_effects:
  assumes "distinct (map fst xs)" and "distinct (map (nd_key \<circ> snd) xs)" and "(i, nd) \<in> set xs"
  shows "node_of (list_erase i xs) = (node_of xs)(nd_key nd := None)"
    and "sizes xs = nd_value_size nd + sizes (list_erase i xs)"
proof -
  from assms(3) obtain ys zs where xs: "xs = ys @ (i, nd) # zs" by (auto simp: in_set_conv_decomp)
  have "i \<notin> fst ` set ys" "i \<notin> fst ` set zs" using assms(1) by (auto simp: xs)
  then have e: "list_erase i xs = ys @ zs"
    by (simp add: xs list_erase_def)
  have "\<forall>x\<in>set (ys @ zs). nd_key (snd x) \<noteq> nd_key nd" using assms(2) by (force simp: xs)
  then have "node_of (ys @ zs) (nd_key nd) = None" by (simp only: node_of_None)
  then show "node_of (list_erase i xs) = (node_of xs)(nd_key nd := None)"
    unfolding e unfolding xs node_of_def by (auto simp: fun_eq_iff map_add_def split: option.splits)
  show "sizes xs = nd_value_size nd + sizes (list_erase i xs)"
    unfolding e by (simp add: xs sizes_def)
qed

lemma index_erase:
  assumes "index_ok xs m n" and "m k = Some i" and "map_of xs i = Some nd"
  shows "index_ok (list_erase i xs) (m(k := None)) n"
    and "node_of (list_erase i xs) = (node_of xs)(k := None)"
    and "sizes xs = nd_value_size nd + sizes (list_erase i xs)"
proof -
  have mem: "(i, nd) \<in> set xs" by (rule map_of_SomeD [OF assms(3)])
  have key: "nd_key nd = k"
    using index_some [OF assms(1,2)] assms(3) by auto
  from erase_effects [OF _ _ mem] assms(1) key
  show "node_of (list_erase i xs) = (node_of xs)(k := None)"
    and "sizes xs = nd_value_size nd + sizes (list_erase i xs)" by (auto simp: index_ok_def)
  have uniq: "(j, x) \<in> set xs \<Longrightarrow> nd_key x = k \<Longrightarrow> j = i" for j x
    using assms(1,2) unfolding index_ok_def by (metis option.inject)
  have one: "(i, x) \<in> set xs \<Longrightarrow> nd_key x = k" for x
    using assms(1,3) key by (auto simp: index_ok_def dest: map_of_is_SomeI [rotated])
  have "(m(k := None)) k' = Some j \<longleftrightarrow> (\<exists>x. (j, x) \<in> set (list_erase i xs) \<and> nd_key x = k')" for k' j
  proof (cases "k' = k")
    case True
    then show ?thesis using uniq by (auto simp: list_erase_def)
  next
    case False
    then show ?thesis using assms(1) one by (auto simp: index_ok_def list_erase_def)
  qed
  then show "index_ok (list_erase i xs) (m(k := None)) n"
    using assms(1) unfolding index_ok_def by (simp add: list_erase_def distinct_map_filter)
qed

lemma index_last:
  assumes "index_ok xs m n" and "xs \<noteq> []"
  shows "m (nd_key (snd (last xs))) = Some (fst (last xs))"
    and "map_of xs (fst (last xs)) = Some (snd (last xs))"
    and "butlast xs = list_erase (fst (last xs)) xs"
proof -
  have "last xs \<in> set xs" using assms(2) by simp
  then have mem: "(fst (last xs), snd (last xs)) \<in> set xs" by simp
  then show "m (nd_key (snd (last xs))) = Some (fst (last xs))" using assms(1) unfolding index_ok_def by blast
  show "map_of xs (fst (last xs)) = Some (snd (last xs))"
    using assms(1) mem by (auto simp: index_ok_def intro!: map_of_is_SomeI)
  show "butlast xs = list_erase (fst (last xs)) xs"
    using assms by (cases xs rule: rev_cases) (auto simp: index_ok_def list_erase_def)
qed

section \<open>The operations\<close>

lemma lru_inv_new: "lru_inv (LruCache_new hot mx)"
  by (simp add: lru_inv_def LruCache_new_def index_ok_def)

text \<open>Moving the last hot node to the front of the cold list loses nothing a client can see.\<close>

lemma evict_hot_ok:
  assumes inv: "lru_inv c" and ne: "m_hot_list c \<noteq> []"
  obtains c' where "evict_hot c = Some c'" and "lru_inv c'" and "lru_lookup c' = lru_lookup c"
    and "m_hot_map c' \<subseteq>\<^sub>m m_hot_map c"
proof -
  define nd where "nd = snd (last (m_hot_list c))"
  define b where "b = next_iter c"
  let ?k = "nd_key nd" and ?hot = "butlast (m_hot_list c)" and ?cold = "m_cold_list c"
  from inv have hot: "index_ok (m_hot_list c) (m_hot_map c) b" and cold: "index_ok ?cold (m_cold_map c) b"
    and cs: "m_cold_size c = sizes ?cold" by (auto simp: lru_inv_def b_def)
  note last = index_last [OF hot ne, folded nd_def]
  note er = index_erase [OF hot last(1,2), folded last(3)]
  have hot': "index_ok ?hot ((m_hot_map c)(?k := None)) (b + 1)"
    using index_mono [OF er(1)] by simp
  have hk: "node_of (m_hot_list c) ?k = Some nd"
    using index_some [OF hot last(1)] last(2) by auto
  show ?thesis
  proof (cases "m_cold_map c ?k")
    case None
    note push = index_push [OF cold None]
    show ?thesis
      by (rule that) (use hot' push cs None in
        \<open>auto simp: evict_hot_def Let_def lru_inv_def lru_lookup_def er(2) hk map_le_def fun_eq_iff
          simp flip: nd_def b_def split: option.splits if_splits\<close>)
  next
    case (Some j)
    from index_some [OF cold Some] obtain old where old: "map_of ?cold j = Some old" and "j < b" by blast
    then have ee: "list_erase j ((b, nd) # ?cold) = (b, nd) # list_erase j ?cold"
      by (simp add: list_erase_def)
    note er2 = index_erase [OF cold Some old]
    have push: "index_ok ((b, nd) # list_erase j ?cold) ((m_cold_map c)(?k \<mapsto> b)) (b + 1)"
      using index_push [OF er2(1), of nd] by simp
    show ?thesis
      by (rule that) (use hot' push cs Some old \<open>j < b\<close> er2 in
        \<open>auto simp: evict_hot_def Let_def lru_inv_def lru_lookup_def er(2) hk ee map_le_def fun_eq_iff
          simp flip: nd_def b_def split: option.splits if_splits\<close>)
  qed
qed

lemma ReserveHotList_ok:
  assumes "lru_inv c"
  obtains c' where "ReserveHotList vs c = Some c'" and "lru_inv c'" and "lru_lookup c' = lru_lookup c"
    and "m_hot_map c' \<subseteq>\<^sub>m m_hot_map c"
proof -
  have "\<exists>c'. ReserveHotList vs c = Some c' \<and> lru_inv c' \<and> lru_lookup c' = lru_lookup c \<and>
      m_hot_map c' \<subseteq>\<^sub>m m_hot_map c"
    using assms
  proof (induction vs c rule: ReserveHotList.induct)
    case (1 vs c)
    show ?case
    proof (cases "m_hot_list c \<noteq> [] \<and> m_hot_size c + vs > m_max_hot_size c")
      case True
      then obtain c1 where c1: "evict_hot c = Some c1" "lru_inv c1" "lru_lookup c1 = lru_lookup c"
        "m_hot_map c1 \<subseteq>\<^sub>m m_hot_map c" using evict_hot_ok [OF 1(2)] by blast
      from 1(1) [OF True c1(1,2)] c1 True show ?thesis
        by (auto simp: ReserveHotList.simps [of vs c] intro: map_le_trans)
    next
      case False
      with 1(2) show ?thesis by (auto simp: ReserveHotList.simps [of vs c])
    qed
  qed
  with that show ?thesis by blast
qed

lemma ReserveColdList_step:
  assumes "lru_inv c" and "m_cold_list c \<noteq> []" and "nd = snd (last (m_cold_list c))"
  defines "c' \<equiv> c\<lparr>m_cold_size := m_cold_size c - nd_value_size nd,
    m_cold_map := (m_cold_map c)(nd_key nd := None), m_cold_list := butlast (m_cold_list c)\<rparr>"
  shows "lru_inv c'" and "node_of (m_cold_list c') = (node_of (m_cold_list c))(nd_key nd := None)"
proof -
  from assms(1) have cold: "index_ok (m_cold_list c) (m_cold_map c) (next_iter c)"
    and cs: "m_cold_size c = sizes (m_cold_list c)" by (auto simp: lru_inv_def)
  note last = index_last [OF cold assms(2), folded assms(3)]
  from index_erase [OF cold last(1,2)] last(3)
  have er: "index_ok (butlast (m_cold_list c)) ((m_cold_map c)(nd_key nd := None)) (next_iter c)"
    "node_of (butlast (m_cold_list c)) = (node_of (m_cold_list c))(nd_key nd := None)"
    "sizes (m_cold_list c) = nd_value_size nd + sizes (butlast (m_cold_list c))" by auto
  show "lru_inv c'" using assms(1) er cs by (simp add: lru_inv_def c'_def)
  show "node_of (m_cold_list c') = (node_of (m_cold_list c))(nd_key nd := None)" using er(2) by (simp add: c'_def)
qed

lemma ReserveColdList_ok:
  assumes "lru_inv c"
  shows "lru_inv (ReserveColdList vs c) \<and> m_hot_list (ReserveColdList vs c) = m_hot_list c \<and>
     m_hot_map (ReserveColdList vs c) = m_hot_map c \<and>
     node_of (m_cold_list (ReserveColdList vs c)) \<subseteq>\<^sub>m node_of (m_cold_list c) \<and>
     (m_cold_list (ReserveColdList vs c) = [] \<or>
      \<not> m_cold_size (ReserveColdList vs c) + vs > m_max_cold_size c) \<and>
     m_max_cold_size (ReserveColdList vs c) = m_max_cold_size c"
  using assms
proof (induction vs c rule: ReserveColdList.induct)
  case (1 vs c)
  show ?case
  proof (cases "m_cold_list c \<noteq> [] \<and> m_cold_size c + vs > m_max_cold_size c")
    case True
    define nd where "nd = snd (last (m_cold_list c))"
    let ?c = "c\<lparr>m_cold_size := m_cold_size c - nd_value_size nd,
        m_cold_map := (m_cold_map c)(nd_key nd := None), m_cold_list := butlast (m_cold_list c)\<rparr>"
    note st = ReserveColdList_step [OF 1(2) conjunct1 [OF True] nd_def]
    have "lru_inv ?c" by (rule st(1))
    from 1(1) [OF True nd_def this] have
      IH: "lru_inv (ReserveColdList vs ?c) \<and> m_hot_list (ReserveColdList vs ?c) = m_hot_list ?c \<and>
       m_hot_map (ReserveColdList vs ?c) = m_hot_map ?c \<and>
       node_of (m_cold_list (ReserveColdList vs ?c)) \<subseteq>\<^sub>m node_of (m_cold_list ?c) \<and>
       (m_cold_list (ReserveColdList vs ?c) = [] \<or>
        \<not> m_cold_size (ReserveColdList vs ?c) + vs > m_max_cold_size ?c) \<and>
       m_max_cold_size (ReserveColdList vs ?c) = m_max_cold_size ?c" .
    have unf: "ReserveColdList vs c = ReserveColdList vs ?c"
      using True by (subst ReserveColdList.simps) (simp add: Let_def nd_def)
    have "node_of (m_cold_list ?c) \<subseteq>\<^sub>m node_of (m_cold_list c)" using st(2) by (simp add: map_le_def)
    with IH show ?thesis unfolding unf by (auto intro: map_le_trans)
  next
    case False
    then have "ReserveColdList vs c = c" by (subst ReserveColdList.simps) auto
    with 1(2) False show ?thesis by auto
  qed
qed

text \<open>A hit in the cold list: the node moves to the front of the hot list.\<close>

lemma LruCache_Get_cold:
  assumes "lru_inv c" and "m_hot_map c k = None" and "m_cold_map c k = Some i"
  obtains c' where "LruCache_Get k c = Some (map_option nd_value (lru_lookup c k), c')" and "lru_inv c'"
    and "lru_lookup c' = lru_lookup c"
    and "m_hot_list c' \<noteq> [] \<and> nd_key (snd (hd (m_hot_list c'))) = k"
proof -
  from assms(1) have hot: "index_ok (m_hot_list c) (m_hot_map c) (next_iter c)"
    and cold: "index_ok (m_cold_list c) (m_cold_map c) (next_iter c)"
    and cs: "m_cold_size c = sizes (m_cold_list c)" by (auto simp: lru_inv_def)
  have hk: "node_of (m_hot_list c) k = None" using index_none [OF hot] assms(2) by simp
  from index_some [OF cold assms(3)] obtain nd where nd: "map_of (m_cold_list c) i = Some nd"
    "nd_key nd = k" "node_of (m_cold_list c) k = Some nd" by blast
  note er = index_erase [OF cold assms(3) nd(1)]
  let ?c = "c\<lparr>m_hit_count := m_hit_count c + 1,
    m_cold_size := m_cold_size c - nd_value_size nd,
    m_cold_list := list_erase i (m_cold_list c), m_cold_map := (m_cold_map c)(k := None)\<rparr>"
  have "lru_inv ?c" using hot er cs by (simp add: lru_inv_def)
  then obtain c2 where c2: "ReserveHotList (nd_value_size nd) ?c = Some c2" "lru_inv c2"
    "lru_lookup c2 = lru_lookup ?c" "m_hot_map c2 \<subseteq>\<^sub>m m_hot_map c"
    by (rule ReserveHotList_ok) auto
  have lk: "lru_lookup c2 = (lru_lookup c)(k := None)"
    using c2(3) er(2) hk by (auto simp: lru_lookup_def fun_eq_iff split: option.splits)
  from c2(4) assms(2) have "m_hot_map c2 k = None"
    unfolding map_le_def by (metis domIff)
  then have push: "index_ok ((next_iter c2, nd) # m_hot_list c2)
      ((m_hot_map c2)(k \<mapsto> next_iter c2)) (next_iter c2 + 1)"
    using index_push [of "m_hot_list c2" "m_hot_map c2" "next_iter c2" nd] c2(2) nd(2)
    by (simp add: lru_inv_def)
  let ?c' = "c2\<lparr>m_hot_list := (next_iter c2, nd) # m_hot_list c2,
    m_hot_map := (m_hot_map c2)(k \<mapsto> next_iter c2), next_iter := next_iter c2 + 1\<rparr>"
  have "lru_lookup ?c' = (lru_lookup c2)(k \<mapsto> nd)"
    using nd(2) by (auto simp: lru_lookup_def fun_eq_iff split: option.splits)
  moreover have ck: "lru_lookup c k = Some nd" using hk nd(3) by (simp add: lru_lookup_def)
  ultimately have "lru_lookup ?c' = lru_lookup c" using lk by (auto simp: fun_eq_iff)
  moreover have "lru_inv ?c'"
    using push c2(2) index_mono [of "m_cold_list c2" "m_cold_map c2" "next_iter c2" "next_iter c2 + 1"]
    by (simp add: lru_inv_def)
  moreover have "LruCache_Get k c = Some (map_option nd_value (lru_lookup c k), ?c')"
    using assms(2,3) nd c2(1) ck by (simp add: LruCache_Get_def)
  ultimately show ?thesis using nd(2) by (intro that [of ?c']) simp_all
qed

lemma LruCache_Get_ok:
  assumes "lru_inv c"
  obtains c' where "LruCache_Get k c = Some (map_option nd_value (lru_lookup c k), c')" and "lru_inv c'"
    and "lru_lookup c' = lru_lookup c"
    and "lru_lookup c k \<noteq> None \<Longrightarrow> m_hot_list c' \<noteq> [] \<and> nd_key (snd (hd (m_hot_list c'))) = k"
proof -
  let ?n = "next_iter c"
  from assms have hot: "index_ok (m_hot_list c) (m_hot_map c) ?n"
    and cold: "index_ok (m_cold_list c) (m_cold_map c) ?n"
    and cs: "m_cold_size c = sizes (m_cold_list c)" by (auto simp: lru_inv_def)
  show ?thesis
  proof (cases "m_hot_map c k")
    case (Some i)
    from index_some [OF hot Some] obtain nd where nd: "map_of (m_hot_list c) i = Some nd"
      "nd_key nd = k" "node_of (m_hot_list c) k = Some nd" by blast
    note er = index_erase [OF hot Some nd(1)]
    have push: "index_ok ((?n, nd) # list_erase i (m_hot_list c)) ((m_hot_map c)(k \<mapsto> ?n)) (?n + 1)"
      using index_push [OF er(1), of nd] nd(2) by simp
    show ?thesis
      by (rule that) (use push index_mono [OF cold, of "?n + 1"] Some nd cs er(2) in
        \<open>auto simp: LruCache_Get_def lru_inv_def lru_lookup_def fun_eq_iff split: option.splits if_splits\<close>)
  next
    case None
    then have hk: "node_of (m_hot_list c) k = None" using index_none [OF hot] by simp
    show ?thesis
    proof (cases "m_cold_map c k")
      case None
      then have "node_of (m_cold_list c) k = None" using index_none [OF cold] by simp
      with None \<open>m_hot_map c k = None\<close> hk assms show ?thesis
        by (intro that [of "c\<lparr>m_miss_count := m_miss_count c + 1\<rparr>"])
          (auto simp: LruCache_Get_def lru_inv_def lru_lookup_def fun_eq_iff split: option.splits)
    next
      case (Some i)
      from LruCache_Get_cold [OF assms \<open>m_hot_map c k = None\<close> Some] show ?thesis using that by blast
    qed
  qed
qed

lemma LruCache_Delete_ok:
  assumes "lru_inv c"
  obtains c' where "LruCache_Delete k c = Some (lru_lookup c k \<noteq> None, c')" and "lru_inv c'"
    and "lru_lookup c' = (lru_lookup c)(k := if node_of (m_hot_list c) k = None then None
           else node_of (m_cold_list c) k)"
proof -
  from assms have hot: "index_ok (m_hot_list c) (m_hot_map c) (next_iter c)"
    and cold: "index_ok (m_cold_list c) (m_cold_map c) (next_iter c)"
    and cs: "m_cold_size c = sizes (m_cold_list c)" by (auto simp: lru_inv_def)
  show ?thesis
  proof (cases "m_hot_map c k")
    case (Some i)
    from index_some [OF hot Some] obtain nd where nd: "map_of (m_hot_list c) i = Some nd"
      "node_of (m_hot_list c) k = Some nd" by blast
    note er = index_erase [OF hot Some nd(1)]
    show ?thesis
      by (rule that) (use er cold Some nd cs in
        \<open>auto simp: LruCache_Delete_def lru_inv_def lru_lookup_def fun_eq_iff split: option.splits if_splits\<close>)
  next
    case None
    then have hk: "node_of (m_hot_list c) k = None" using index_none [OF hot] by simp
    show ?thesis
    proof (cases "m_cold_map c k")
      case None
      then have "node_of (m_cold_list c) k = None" using index_none [OF cold] by simp
      with None \<open>m_hot_map c k = None\<close> hk assms show ?thesis
        by (intro that) (auto simp: LruCache_Delete_def lru_lookup_def fun_eq_iff)
    next
      case (Some i)
      from index_some [OF cold Some] obtain nd where nd: "map_of (m_cold_list c) i = Some nd"
        "node_of (m_cold_list c) k = Some nd" by blast
      note er = index_erase [OF cold Some nd(1)]
      show ?thesis
        by (rule that) (use er hot Some None nd hk cs in
          \<open>auto simp: LruCache_Delete_def lru_inv_def lru_lookup_def fun_eq_iff split: option.splits if_splits\<close>)
    qed
  qed
qed

lemma LruCache_Add_ok:
  assumes "lru_inv c"
  shows "lru_inv (LruCache_Add k v vs c)"
    and "m_hot_list (LruCache_Add k v vs c) = m_hot_list c"
    and "node_of (m_cold_list (LruCache_Add k v vs c)) k \<noteq> None"
    and "node_of (m_cold_list c) k = None \<Longrightarrow>
      node_of (m_cold_list (LruCache_Add k v vs c)) k = Some \<lparr>nd_key = k, nd_value = v, nd_value_size = vs\<rparr>"
    and "k' \<noteq> k \<Longrightarrow> node_of (m_cold_list (LruCache_Add k v vs c)) k' \<in> {None, node_of (m_cold_list c) k'}"
    and "node_of (m_cold_list c) k = None \<Longrightarrow>
      m_cold_size (LruCache_Add k v vs c) \<le> m_max_cold_size (LruCache_Add k v vs c) \<or>
      length (m_cold_list (LruCache_Add k v vs c)) = 1"
proof -
  define d where "d = ReserveColdList vs c"
  note r = ReserveColdList_ok [OF assms, of vs, folded d_def]
  have add: "LruCache_Add k v vs c = (if m_cold_map d k = None then
        d\<lparr>m_cold_list := (next_iter d, \<lparr>nd_key = k, nd_value = v, nd_value_size = vs\<rparr>) # m_cold_list d,
          m_cold_map := (m_cold_map d)(k \<mapsto> next_iter d),
          m_cold_size := m_cold_size d + vs, next_iter := next_iter d + 1\<rparr> else d)"
    by (simp add: LruCache_Add_def d_def Let_def)
  from r have cold: "index_ok (m_cold_list d) (m_cold_map d) (next_iter d)"
    and hot: "index_ok (m_hot_list d) (m_hot_map d) (next_iter d)"
    and cs: "m_cold_size d = sizes (m_cold_list d)" by (auto simp: lru_inv_def)
  note nk = index_none [OF cold, of k]
  show "lru_inv (LruCache_Add k v vs c)"
    using hot cold index_push [OF cold, of "\<lparr>nd_key = k, nd_value = v, nd_value_size = vs\<rparr>"]
      index_mono [OF hot, of "next_iter d + 1"] cs by (simp add: add lru_inv_def add.commute)
  show "m_hot_list (LruCache_Add k v vs c) = m_hot_list c" using r by (simp add: add)
  show "node_of (m_cold_list (LruCache_Add k v vs c)) k \<noteq> None" using nk by (simp add: add)
  have sub: "node_of (m_cold_list d) x = None \<or> node_of (m_cold_list d) x = node_of (m_cold_list c) x" for x
    using r unfolding map_le_def by (metis domIff)
  then show "k' \<noteq> k \<Longrightarrow> node_of (m_cold_list (LruCache_Add k v vs c)) k' \<in> {None, node_of (m_cold_list c) k'}"
    by (auto simp: add)
  assume "node_of (m_cold_list c) k = None"
  with sub [of k] nk have n: "m_cold_map d k = None" by auto
  show "node_of (m_cold_list (LruCache_Add k v vs c)) k = Some \<lparr>nd_key = k, nd_value = v, nd_value_size = vs\<rparr>"
    using n by (simp add: add)
  show "m_cold_size (LruCache_Add k v vs c) \<le> m_max_cold_size (LruCache_Add k v vs c) \<or>
      length (m_cold_list (LruCache_Add k v vs c)) = 1"
    using n r by (auto simp: add)
qed

section \<open>Properties\<close>

text \<open>A client's history of calls; the results of the calls are dropped.\<close>

datatype ('k, 'v) lru_op = OpAdd 'k 'v u64 | OpGet 'k | OpDelete 'k

fun lru_run :: "('k, 'v) lru_op list \<Rightarrow> ('k, 'v) LruCache \<Rightarrow> ('k, 'v) LruCache option" where
  "lru_run [] c = Some c"
| "lru_run (OpAdd k v vs # ops) c = lru_run ops (LruCache_Add k v vs c)"
| "lru_run (OpGet k # ops) c = Option.bind (LruCache_Get k c) (\<lambda>(_, c). lru_run ops c)"
| "lru_run (OpDelete k # ops) c = Option.bind (LruCache_Delete k c) (\<lambda>(_, c). lru_run ops c)"

lemma lru_run_inv:
  "lru_inv c \<Longrightarrow> \<exists>c'. lru_run ops c = Some c' \<and> lru_inv c'"
proof (induction ops c rule: lru_run.induct)
  case (2 k v vs ops c)
  then show ?case by (simp add: LruCache_Add_ok(1))
next
  case (3 k ops c)
  from LruCache_Get_ok [OF 3(2), of k] obtain r c' where "LruCache_Get k c = Some (r, c')" "lru_inv c'"
    by metis
  with 3(1) [of "(r, c')" r c'] show ?case by simp
next
  case (4 k ops c)
  from LruCache_Delete_ok [OF 4(2), of k] obtain r c' where "LruCache_Delete k c = Some (r, c')" "lru_inv c'"
    by metis
  with 4(1) [of "(r, c')" r c'] show ?case by simp
qed simp

text \<open>
  C4: in every history of calls on a new cache, no method ever uses an iterator of an erased
  node; both hash maps index their lists exactly, every key is at most once in each list, and
  \<open>m_cold_size\<close> is the sum of the sizes in the cold list.
\<close>

theorem lru_histories_safe:
  "\<exists>c. lru_run ops (LruCache_new hot mx) = Some c \<and> lru_inv c"
  by (rule lru_run_inv [OF lru_inv_new])

text \<open>
  \<open>Get\<close> finds a key exactly when it is cached and returns its value; it then is the most
  recently used one of the hot list. Promotions and the evictions they cause move nodes between the
  lists but lose none: what any key maps to is the same before and after.
\<close>

theorem lru_Get_spec:
  assumes "lru_inv c"
  shows "\<exists>c'. LruCache_Get k c = Some (map_option nd_value (lru_lookup c k), c') \<and> lru_inv c' \<and>
     lru_lookup c' = lru_lookup c \<and>
     (lru_lookup c k \<noteq> None \<longrightarrow> m_hot_list c' \<noteq> [] \<and> nd_key (snd (hd (m_hot_list c'))) = k)"
  using LruCache_Get_ok [OF assms, of k] by metis

theorem lru_Get_spec_witness:
  "\<exists>c'. LruCache_Get (7 :: nat) (LruCache_Add 7 ''x'' 3 (LruCache_new 60 100)) = Some (Some ''x'', c')"
proof -
  have inv: "lru_inv (LruCache_new 60 100)" by (rule lru_inv_new)
  from lru_Get_spec [OF LruCache_Add_ok(1) [OF inv], of "7 :: nat" 7 "''x''" 3]
  show ?thesis
    by (auto simp: lru_lookup_def LruCache_new_def LruCache_Add_def ReserveColdList.simps Let_def)
qed

text \<open>
  \<open>Add\<close> of a key that is not cached makes it cached with this value; it changes nothing in the
  hot list, and another key keeps its node or is evicted from the cold list. After an insertion the
  cold list is within its limit or holds the new value alone.
\<close>

theorem lru_Add_spec:
  assumes "lru_inv c" and "lru_lookup c k = None"
  shows "lru_inv (LruCache_Add k v vs c) \<and>
     lru_lookup (LruCache_Add k v vs c) k = Some \<lparr>nd_key = k, nd_value = v, nd_value_size = vs\<rparr> \<and>
     (\<forall>k'. k' \<noteq> k \<longrightarrow> lru_lookup (LruCache_Add k v vs c) k' \<in> {None, lru_lookup c k'} \<and>
       (node_of (m_hot_list c) k' \<noteq> None \<longrightarrow> lru_lookup (LruCache_Add k v vs c) k' = lru_lookup c k')) \<and>
     (m_cold_size (LruCache_Add k v vs c) \<le> m_max_cold_size (LruCache_Add k v vs c) \<or>
      length (m_cold_list (LruCache_Add k v vs c)) = 1)"
proof -
  note add = LruCache_Add_ok [OF assms(1), where k = k and v = v and vs = vs]
  from assms(2) have n: "node_of (m_hot_list c) k = None" "node_of (m_cold_list c) k = None"
    by (auto simp: lru_lookup_def split: option.splits)
  have "lru_lookup (LruCache_Add k v vs c) k' \<in> {None, lru_lookup c k'}" if "k' \<noteq> k" for k'
    using add(2) add(5) [OF that] by (auto simp: lru_lookup_def split: option.splits)
  moreover have "lru_lookup (LruCache_Add k v vs c) k' = lru_lookup c k'"
    if "node_of (m_hot_list c) k' \<noteq> None" for k'
    using add(2) that by (auto simp: lru_lookup_def)
  ultimately show ?thesis
    using add(1,2) add(4) [OF n(2)] add(6) [OF n(2)] n(1) by (simp add: lru_lookup_def)
qed

theorem lru_Add_spec_witness:
  "lru_inv (LruCache_Add (7 :: nat) ''x'' 3 (LruCache_new 60 100)) \<and>
   lru_lookup (LruCache_Add (7 :: nat) ''x'' 3 (LruCache_new 60 100)) 7 =
     Some \<lparr>nd_key = 7, nd_value = ''x'', nd_value_size = 3\<rparr>"
  using lru_Add_spec [OF lru_inv_new [of 60 100], of "7 :: nat" "''x''" 3]
  by (simp add: lru_lookup_def LruCache_new_def)

text \<open>
  \<open>Delete\<close> reports whether the key was cached and leaves every other key alone. It removes one
  copy only: a key that is in both lists is still cached afterwards, with the value of the cold one.
\<close>

theorem lru_Delete_spec:
  assumes "lru_inv c"
  shows "\<exists>c'. LruCache_Delete k c = Some (lru_lookup c k \<noteq> None, c') \<and> lru_inv c' \<and>
     lru_lookup c' = (lru_lookup c)(k := if node_of (m_hot_list c) k = None then None
           else node_of (m_cold_list c) k)"
  using LruCache_Delete_ok [OF assms, of k] by metis

theorem lru_Delete_spec_witness:
  "\<exists>c'. LruCache_Delete (7 :: nat) (LruCache_Add 7 ''x'' 3 (LruCache_new 60 100)) = Some (True, c') \<and>
     lru_lookup c' 7 = None"
proof -
  have inv: "lru_inv (LruCache_new 60 100)" by (rule lru_inv_new)
  let ?c = "LruCache_Add (7 :: nat) ''x'' 3 (LruCache_new 60 100)"
  have "lru_lookup ?c 7 \<noteq> None" "node_of (m_hot_list ?c) 7 = None"
    by (auto simp: lru_lookup_def LruCache_new_def LruCache_Add_def ReserveColdList.simps Let_def)
  with lru_Delete_spec [OF LruCache_Add_ok(1) [OF inv], of 7 7 "''x''" 3]
  show ?thesis by (metis fun_upd_same)
qed

text \<open>
  \<open>Add\<close> looks for the key in the cold list only. Adding a new value for a key that is hot
  leaves the old value visible, and after a following \<open>Delete\<close> of the key, which reports success,
  the key is still cached, now with the new value.
\<close>

theorem lru_Add_hot_key_stale:
  assumes "lru_inv c" and "node_of (m_hot_list c) k \<noteq> None" and "node_of (m_cold_list c) k = None"
  shows "lru_lookup (LruCache_Add k v vs c) k = lru_lookup c k \<and>
     (\<exists>c'. LruCache_Delete k (LruCache_Add k v vs c) = Some (True, c') \<and>
        lru_lookup c' k = Some \<lparr>nd_key = k, nd_value = v, nd_value_size = vs\<rparr>)"
proof -
  note add = LruCache_Add_ok [OF assms(1), where k = k and v = v and vs = vs]
  have "lru_lookup (LruCache_Add k v vs c) k = lru_lookup c k"
    using add(2) assms(2) by (auto simp: lru_lookup_def)
  moreover have "lru_lookup c k \<noteq> None" using assms(2) by (auto simp: lru_lookup_def)
  moreover obtain c' where "LruCache_Delete k (LruCache_Add k v vs c) =
      Some (lru_lookup (LruCache_Add k v vs c) k \<noteq> None, c')"
    "lru_lookup c' k = node_of (m_cold_list (LruCache_Add k v vs c)) k"
    using LruCache_Delete_ok [OF add(1), of k] add(2) assms(2) by (metis fun_upd_same)
  ultimately show ?thesis using add(4) [OF assms(3)] by auto
qed

theorem lru_Add_hot_key_stale_witness:
  "\<exists>c c'. lru_run [OpAdd (7 :: nat) ''old'' 3, OpGet 7] (LruCache_new 60 100) = Some c \<and>
     LruCache_Delete 7 (LruCache_Add 7 ''new'' 3 c) = Some (True, c') \<and>
     lru_lookup c' 7 = Some \<lparr>nd_key = 7, nd_value = ''new'', nd_value_size = 3\<rparr>"
proof -
  obtain c where c: "lru_run [OpAdd (7 :: nat) ''old'' 3, OpGet 7] (LruCache_new 60 100) = Some c"
    "node_of (m_hot_list c) 7 \<noteq> None" "node_of (m_cold_list c) 7 = None"
    by (simp add: LruCache_new_def LruCache_Add_def LruCache_Get_def ReserveColdList.simps
        ReserveHotList.simps list_erase_def Let_def)
  have "lru_inv c"
    using lru_run_inv [OF lru_inv_new, of "[OpAdd (7 :: nat) ''old'' 3, OpGet 7]" 60 100] c(1) by auto
  from lru_Add_hot_key_stale [OF this c(2,3), of "''new''" 3] c(1) show ?thesis by blast
qed

text \<open>
  \<open>Get\<close> promotes a node without adding its size to \<open>m_hot_size\<close>, but \<open>Delete\<close> subtracts
  it. After adding, getting and deleting one value of size \<open>vs\<close> the cache is empty, and
  \<open>m_hot_size\<close>, like \<open>Size()\<close>, is \<open>2^64 - vs\<close>.
\<close>

theorem lru_hot_size_underflows:
  "\<exists>c. lru_run [OpAdd k v vs, OpGet k, OpDelete k] (LruCache_new hot mx) = Some c \<and>
     m_hot_list c = [] \<and> m_cold_list c = [] \<and> m_hot_size c = - vs \<and> LruCache_Size c = - vs"
  by (simp add: LruCache_new_def LruCache_Add_def LruCache_Get_def LruCache_Delete_def
      ReserveColdList.simps ReserveHotList.simps list_erase_def LruCache_Size_def Let_def)

end
