(* ===== verification/Lru_Refinement.thy ===== *)
theory Lru_Refinement
  imports Lru_Cache
begin

text \<open>
  What the cache of \<^verbatim>\<open>include/xfutil/lru_cache.h\<close> is, without its maps and iterators: two sequences of
  entries. The theory defines that cache, shows that the code computes its results on every
  history of calls, and from there that the hot sequence is in the order of the last hits, so that the
  entry that leaves it is the least recently used one.
\<close>

section \<open>A cache of two sequences\<close>

record ('k, 'v) two_lists =
  hot :: "('k, 'v) LruNode list"
  cold :: "('k, 'v) LruNode list"
  hot_count :: u64
  hits :: u64
  misses :: u64
  hot_limit :: u64
  cold_limit :: u64

definition weight :: "('k, 'v) LruNode list \<Rightarrow> u64" where
  "weight xs = sum_list (map nd_value_size xs)"

definition entry :: "'k \<Rightarrow> ('k, 'v) LruNode list \<Rightarrow> ('k, 'v) LruNode option" where
  "entry k xs = find (\<lambda>nd. nd_key nd = k) xs"

definition without :: "'k \<Rightarrow> ('k, 'v) LruNode list \<Rightarrow> ('k, 'v) LruNode list" where
  "without k xs = filter (\<lambda>nd. nd_key nd \<noteq> k) xs"

text \<open>Entries leave a full cold sequence at its end; a full hot sequence gives its last entries to the cold one.\<close>

function trim :: "u64 \<Rightarrow> u64 \<Rightarrow> ('k, 'v) LruNode list \<Rightarrow> ('k, 'v) LruNode list" where
  "trim limit vs xs = (if xs \<noteq> [] \<and> weight xs + vs > limit then trim limit vs (butlast xs) else xs)"
  by pat_completeness auto
termination by (relation "measure (\<lambda>(limit, vs, xs). length xs)") auto

function demote :: "u64 \<Rightarrow> ('k, 'v) two_lists \<Rightarrow> ('k, 'v) two_lists" where
  "demote vs s =
     (if hot s \<noteq> [] \<and> hot_count s + vs > hot_limit s then
        let nd = last (hot s)
        in demote vs (s\<lparr>hot_count := hot_count s - nd_value_size nd, hot := butlast (hot s),
             cold := nd # without (nd_key nd) (cold s)\<rparr>)
      else s)"
  by pat_completeness auto
termination by (relation "measure (\<lambda>(vs, s). length (hot s))") auto

declare trim.simps [simp del] demote.simps [simp del]

definition spec_add :: "'k \<Rightarrow> 'v \<Rightarrow> u64 \<Rightarrow> ('k, 'v) two_lists \<Rightarrow> ('k, 'v) two_lists" where
  "spec_add k v vs s =
     (let xs = trim (cold_limit s) vs (cold s)
      in s\<lparr>cold := if entry k xs = None then \<lparr>nd_key = k, nd_value = v, nd_value_size = vs\<rparr> # xs else xs\<rparr>)"

definition spec_get :: "'k \<Rightarrow> ('k, 'v) two_lists \<Rightarrow> 'v option \<times> ('k, 'v) two_lists" where
  "spec_get k s =
     (case entry k (hot s) of
        Some nd \<Rightarrow> (Some (nd_value nd), s\<lparr>hits := hits s + 1, hot := nd # without k (hot s)\<rparr>)
      | None \<Rightarrow>
          (case entry k (cold s) of
             Some nd \<Rightarrow>
               (let s = demote (nd_value_size nd) (s\<lparr>hits := hits s + 1, cold := without k (cold s)\<rparr>)
                in (Some (nd_value nd), s\<lparr>hot := nd # hot s\<rparr>))
           | None \<Rightarrow> (None, s\<lparr>misses := misses s + 1\<rparr>)))"

definition spec_delete :: "'k \<Rightarrow> ('k, 'v) two_lists \<Rightarrow> bool \<times> ('k, 'v) two_lists" where
  "spec_delete k s =
     (case entry k (hot s) of
        Some nd \<Rightarrow> (True, s\<lparr>hot_count := hot_count s - nd_value_size nd, hot := without k (hot s)\<rparr>)
      | None \<Rightarrow> (entry k (cold s) \<noteq> None, s\<lparr>cold := without k (cold s)\<rparr>))"

text \<open>What a cache of the code stands for.\<close>

definition lru_abs :: "('k, 'v) LruCache \<Rightarrow> ('k, 'v) two_lists" where
  "lru_abs c = \<lparr>hot = map snd (m_hot_list c), cold = map snd (m_cold_list c), hot_count = m_hot_size c,
     hits = m_hit_count c, misses = m_miss_count c, hot_limit = m_max_hot_size c, cold_limit = m_max_cold_size c\<rparr>"

section \<open>Indexed lists as sequences\<close>

lemma entry_simps [simp]:
  "entry k [] = None" "entry k (nd # xs) = (if nd_key nd = k then Some nd else entry k xs)"
  by (simp_all add: entry_def)

lemma without_simps [simp]:
  "without k [] = []" "without k (nd # xs) = (if nd_key nd = k then without k xs else nd # without k xs)"
  by (simp_all add: without_def)

lemma entry_None: "entry k xs = None \<longleftrightarrow> k \<notin> nd_key ` set xs"
  by (induction xs) auto

lemma entry_Some: "entry k xs = Some nd \<Longrightarrow> nd \<in> set xs \<and> nd_key nd = k"
  by (induction xs) (auto split: if_splits)

lemma without_absent: "entry k xs = None \<Longrightarrow> without k xs = xs"
  by (induction xs) (auto split: if_splits)

lemma node_of_entry: "node_of xs k = entry k (map snd xs)"
  by (induction xs) (auto simp: node_of_def)

lemma sizes_weight: "sizes xs = weight (map snd xs)"
  by (simp add: sizes_def weight_def comp_def)

text \<open>Looking up and erasing through an exact index is looking up and removing by key.\<close>

lemma index_entry_None:
  assumes "index_ok xs m n" and "m k = None"
  shows "entry k (map snd xs) = None"
  using index_none [OF assms(1), of k] assms(2) by (simp add: node_of_entry)

lemma index_entry_Some:
  assumes ix: "index_ok xs m n" and k: "m k = Some i"
  obtains nd where "map_of xs i = Some nd" and "entry k (map snd xs) = Some nd" and "nd_key nd = k" and "i < n"
    and "map snd (list_erase i xs) = without k (map snd xs)"
proof -
  from index_some [OF assms] obtain nd where nd: "map_of xs i = Some nd" "nd_key nd = k" "node_of xs k = Some nd" "i < n" .
  have "fst x \<noteq> i \<longleftrightarrow> nd_key (snd x) \<noteq> k" if "x \<in> set xs" for x
  proof -
    have mem: "(fst x, snd x) \<in> set xs" using that by simp
    then have "m (nd_key (snd x)) = Some (fst x)" using ix unfolding index_ok_def by blast
    moreover from mem have "snd x = nd" if "fst x = i" using that nd(1) ix by (auto simp: index_ok_def dest: map_of_is_SomeI [rotated])
    ultimately show ?thesis using k nd(2) by auto
  qed
  then have "list_erase i xs = filter (\<lambda>x. nd_key (snd x) \<noteq> k) xs" unfolding list_erase_def by (rule filter_cong [OF refl])
  then have "map snd (list_erase i xs) = without k (map snd xs)" by (simp add: without_def filter_map comp_def)
  with nd that show ?thesis by (simp add: node_of_entry)
qed

lemma index_last_entry:
  assumes "index_ok xs m n" and "xs \<noteq> []"
  shows "without (nd_key (snd (last xs))) (map snd xs) = butlast (map snd xs)"
proof -
  note l = index_last [OF assms]
  from index_entry_Some [OF assms(1) l(1)] l(3) show ?thesis by (metis map_butlast)
qed

section \<open>The operations\<close>

lemma ReserveColdList_abs:
  assumes "lru_inv c"
  shows "lru_abs (ReserveColdList vs c) = (lru_abs c)\<lparr>cold := trim (m_max_cold_size c) vs (map snd (m_cold_list c))\<rparr>"
  using assms
proof (induction vs c rule: ReserveColdList.induct)
  case (1 vs c)
  have w: "m_cold_size c = weight (map snd (m_cold_list c))"
    using 1(2) by (simp add: lru_inv_def sizes_weight)
  show ?case
  proof (cases "m_cold_list c \<noteq> [] \<and> m_cold_size c + vs > m_max_cold_size c")
    case True
    define nd where "nd = snd (last (m_cold_list c))"
    let ?c = "c\<lparr>m_cold_size := m_cold_size c - nd_value_size nd,
        m_cold_map := (m_cold_map c)(nd_key nd := None), m_cold_list := butlast (m_cold_list c)\<rparr>"
    have unf: "ReserveColdList vs c = ReserveColdList vs ?c"
      using True by (subst ReserveColdList.simps) (simp add: Let_def nd_def)
    have "lru_inv ?c" using ReserveColdList_step [OF 1(2)] True by (simp add: nd_def)
    from 1(1) [OF True nd_def this] show ?thesis
      unfolding unf using True w by (simp add: lru_abs_def trim.simps [of _ _ "map snd (m_cold_list c)"] map_butlast)
  next
    case False
    then have "ReserveColdList vs c = c" by (subst ReserveColdList.simps) auto
    with False w show ?thesis by (auto simp: lru_abs_def trim.simps [of _ _ "map snd (m_cold_list c)"])
  qed
qed

lemma evict_hot_abs:
  assumes "lru_inv c" and "m_hot_list c \<noteq> []" and "evict_hot c = Some c'"
  shows "lru_abs c' = (let nd = last (hot (lru_abs c))
     in (lru_abs c)\<lparr>hot_count := hot_count (lru_abs c) - nd_value_size nd, hot := butlast (hot (lru_abs c)),
          cold := nd # without (nd_key nd) (cold (lru_abs c))\<rparr>)"
proof -
  define nd where "nd = snd (last (m_hot_list c))"
  have l: "last (map snd (m_hot_list c)) = nd" using assms(2) by (simp add: last_map nd_def)
  from assms(1) have cold: "index_ok (m_cold_list c) (m_cold_map c) (next_iter c)" by (simp add: lru_inv_def)
  show ?thesis
  proof (cases "m_cold_map c (nd_key nd)")
    case None
    from index_entry_None [OF cold None] assms(3) None l show ?thesis
      by (auto simp: evict_hot_def lru_abs_def Let_def map_butlast without_absent simp flip: nd_def)
  next
    case (Some j)
    from index_entry_Some [OF cold Some] obtain old where o: "map_of (m_cold_list c) j = Some old" "j < next_iter c"
      "map snd (list_erase j (m_cold_list c)) = without (nd_key nd) (map snd (m_cold_list c))" by metis
    from o(1-2) assms(3) Some l o(3) show ?thesis
      by (auto simp: evict_hot_def lru_abs_def Let_def map_butlast list_erase_def simp flip: nd_def)
  qed
qed

lemma ReserveHotList_abs:
  assumes "lru_inv c" and "ReserveHotList vs c = Some c'"
  shows "lru_abs c' = demote vs (lru_abs c)"
  using assms
proof (induction vs c rule: ReserveHotList.induct)
  case (1 vs c)
  show ?case
  proof (cases "m_hot_list c \<noteq> [] \<and> m_hot_size c + vs > m_max_hot_size c")
    case True
    from evict_hot_ok [OF 1(2)] True obtain c1 where c1: "evict_hot c = Some c1" "lru_inv c1" by blast
    with 1(3) True have "ReserveHotList vs c1 = Some c'" by (simp add: ReserveHotList.simps [of vs c])
    from 1(1) [OF True c1 this] have "lru_abs c' = demote vs (lru_abs c1)" .
    also have "\<dots> = demote vs (lru_abs c)"
      unfolding evict_hot_abs [OF 1(2) conjunct1 [OF True] c1(1)]
      using True by (subst demote.simps [of vs "lru_abs c"]) (simp add: lru_abs_def Let_def)
    finally show ?thesis .
  next
    case False
    then have "c' = c" using 1(3) by (auto simp: ReserveHotList.simps [of vs c])
    moreover have "demote vs (lru_abs c) = lru_abs c" using False by (subst demote.simps) (auto simp: lru_abs_def)
    ultimately show ?thesis by simp
  qed
qed

text \<open>Every method does on the indexed lists what its specification does on the sequences.\<close>

lemma LruCache_Add_abs:
  assumes "lru_inv c"
  shows "lru_abs (LruCache_Add k v vs c) = spec_add k v vs (lru_abs c)"
proof -
  define d where "d = ReserveColdList vs c"
  have d: "lru_abs d = (lru_abs c)\<lparr>cold := trim (cold_limit (lru_abs c)) vs (cold (lru_abs c))\<rparr>"
    using ReserveColdList_abs [OF assms] by (simp add: d_def lru_abs_def)
  have "index_ok (m_cold_list d) (m_cold_map d) (next_iter d)"
    using ReserveColdList_ok [OF assms, of vs] by (simp add: d_def lru_inv_def)
  from index_none [OF this, of k] have e: "m_cold_map d k = None \<longleftrightarrow> entry k (cold (lru_abs d)) = None"
    by (simp add: node_of_entry lru_abs_def)
  have "lru_abs (LruCache_Add k v vs c) = (lru_abs d)\<lparr>cold := if entry k (cold (lru_abs d)) = None
      then \<lparr>nd_key = k, nd_value = v, nd_value_size = vs\<rparr> # cold (lru_abs d) else cold (lru_abs d)\<rparr>"
    unfolding e [symmetric] by (simp add: LruCache_Add_def Let_def d_def [symmetric]) (simp add: lru_abs_def)
  then show ?thesis unfolding d by (simp add: spec_add_def Let_def)
qed

lemma LruCache_Get_abs:
  assumes inv: "lru_inv c" and get: "LruCache_Get k c = Some (r, c')"
  shows "(r, lru_abs c') = spec_get k (lru_abs c)"
proof -
  from inv have hot: "index_ok (m_hot_list c) (m_hot_map c) (next_iter c)"
    and cold: "index_ok (m_cold_list c) (m_cold_map c) (next_iter c)"
    and cs: "m_cold_size c = sizes (m_cold_list c)" by (auto simp: lru_inv_def)
  show ?thesis
  proof (cases "m_hot_map c k")
    case (Some i)
    from index_entry_Some [OF hot Some] obtain nd where nd: "map_of (m_hot_list c) i = Some nd"
      "entry k (map snd (m_hot_list c)) = Some nd"
      "map snd (list_erase i (m_hot_list c)) = without k (map snd (m_hot_list c))" by metis
    with get Some show ?thesis
      by (auto simp: LruCache_Get_def spec_get_def lru_abs_def)
  next
    case None
    note h = None index_entry_None [OF hot None]
    show ?thesis
    proof (cases "m_cold_map c k")
      case None
      with h index_entry_None [OF cold None] get show ?thesis
        by (auto simp: LruCache_Get_def spec_get_def lru_abs_def)
    next
      case (Some i)
      from index_entry_Some [OF cold Some] obtain nd where nd: "map_of (m_cold_list c) i = Some nd"
        "entry k (map snd (m_cold_list c)) = Some nd"
        "map snd (list_erase i (m_cold_list c)) = without k (map snd (m_cold_list c))" by metis
      note er = index_erase [OF cold Some nd(1)]
      let ?c = "c\<lparr>m_hit_count := m_hit_count c + 1, m_cold_size := m_cold_size c - nd_value_size nd,
        m_cold_list := list_erase i (m_cold_list c), m_cold_map := (m_cold_map c)(k := None)\<rparr>"
      have "lru_inv ?c" using hot er cs by (simp add: lru_inv_def)
      moreover from this obtain d where d: "ReserveHotList (nd_value_size nd) ?c = Some d" by (rule ReserveHotList_ok) auto
      ultimately have "lru_abs d = demote (nd_value_size nd) (lru_abs ?c)" by (rule ReserveHotList_abs)
      moreover have "lru_abs ?c = (lru_abs c)\<lparr>hits := hits (lru_abs c) + 1, cold := without k (cold (lru_abs c))\<rparr>"
        by (simp add: lru_abs_def nd(3))
      ultimately have da: "demote (nd_value_size nd) ((lru_abs c)\<lparr>hits := hits (lru_abs c) + 1,
          cold := without k (cold (lru_abs c))\<rparr>) = lru_abs d" by simp
      have e: "entry k (hot (lru_abs c)) = None" "entry k (cold (lru_abs c)) = Some nd"
        using h(2) nd(2) by (simp_all add: lru_abs_def)
      have "spec_get k (lru_abs c) = (Some (nd_value nd), (lru_abs d)\<lparr>hot := nd # hot (lru_abs d)\<rparr>)"
        by (simp add: spec_get_def e da Let_def)
      with get h Some nd d show ?thesis by (auto simp: LruCache_Get_def) (simp add: lru_abs_def)
    qed
  qed
qed

lemma LruCache_Delete_abs:
  assumes inv: "lru_inv c" and del: "LruCache_Delete k c = Some (r, c')"
  shows "(r, lru_abs c') = spec_delete k (lru_abs c)"
proof -
  from inv have hot: "index_ok (m_hot_list c) (m_hot_map c) (next_iter c)"
    and cold: "index_ok (m_cold_list c) (m_cold_map c) (next_iter c)" by (auto simp: lru_inv_def)
  show ?thesis
  proof (cases "m_hot_map c k")
    case (Some i)
    from index_entry_Some [OF hot Some] obtain nd where nd: "map_of (m_hot_list c) i = Some nd"
      "entry k (map snd (m_hot_list c)) = Some nd"
      "map snd (list_erase i (m_hot_list c)) = without k (map snd (m_hot_list c))" by metis
    with del Some show ?thesis
      by (auto simp: LruCache_Delete_def spec_delete_def lru_abs_def)
  next
    case None
    note h = None index_entry_None [OF hot None]
    show ?thesis
    proof (cases "m_cold_map c k")
      case None
      with h index_entry_None [OF cold None] del show ?thesis
        by (auto simp: LruCache_Delete_def spec_delete_def lru_abs_def without_absent)
    next
      case (Some i)
      from index_entry_Some [OF cold Some] obtain nd where nd: "map_of (m_cold_list c) i = Some nd"
        "entry k (map snd (m_cold_list c)) = Some nd"
        "map snd (list_erase i (m_cold_list c)) = without k (map snd (m_cold_list c))" by metis
      with del Some h show ?thesis
        by (auto simp: LruCache_Delete_def spec_delete_def lru_abs_def)
    qed
  qed
qed

section \<open>Histories\<close>

text \<open>A history of calls with its results.\<close>

datatype 'v lru_result = Added | Found "'v option" | Deleted bool

fun lru_call :: "('k, 'v) lru_op \<Rightarrow> ('k, 'v) LruCache \<Rightarrow> ('v lru_result \<times> ('k, 'v) LruCache) option" where
  "lru_call (OpAdd k v vs) c = Some (Added, LruCache_Add k v vs c)"
| "lru_call (OpGet k) c = map_option (\<lambda>(r, c). (Found r, c)) (LruCache_Get k c)"
| "lru_call (OpDelete k) c = map_option (\<lambda>(r, c). (Deleted r, c)) (LruCache_Delete k c)"

fun spec_call :: "('k, 'v) lru_op \<Rightarrow> ('k, 'v) two_lists \<Rightarrow> 'v lru_result \<times> ('k, 'v) two_lists" where
  "spec_call (OpAdd k v vs) s = (Added, spec_add k v vs s)"
| "spec_call (OpGet k) s = (case spec_get k s of (r, s) \<Rightarrow> (Found r, s))"
| "spec_call (OpDelete k) s = (case spec_delete k s of (r, s) \<Rightarrow> (Deleted r, s))"

fun lru_history :: "('k, 'v) lru_op list \<Rightarrow> ('k, 'v) LruCache \<Rightarrow> ('v lru_result list \<times> ('k, 'v) LruCache) option" where
  "lru_history [] c = Some ([], c)"
| "lru_history (op # ops) c =
     Option.bind (lru_call op c) (\<lambda>(r, c). map_option (\<lambda>(rs, c). (r # rs, c)) (lru_history ops c))"

fun spec_history :: "('k, 'v) lru_op list \<Rightarrow> ('k, 'v) two_lists \<Rightarrow> 'v lru_result list \<times> ('k, 'v) two_lists" where
  "spec_history [] s = ([], s)"
| "spec_history (op # ops) s = (case spec_call op s of (r, s) \<Rightarrow> case spec_history ops s of (rs, s) \<Rightarrow> (r # rs, s))"

lemma lru_call_abs:
  assumes "lru_inv c"
  shows "\<exists>r c'. lru_call op c = Some (r, c') \<and> lru_inv c' \<and> spec_call op (lru_abs c) = (r, lru_abs c')"
proof (cases op)
  case (OpAdd k v vs)
  with LruCache_Add_ok(1) [OF assms] LruCache_Add_abs [OF assms] show ?thesis by simp
next
  case (OpGet k)
  from LruCache_Get_ok [OF assms, of k] obtain r c' where g: "LruCache_Get k c = Some (r, c')" "lru_inv c'" by metis
  with OpGet LruCache_Get_abs [OF assms g(1)] show ?thesis by (simp flip: LruCache_Get_abs [OF assms g(1)])
next
  case (OpDelete k)
  from LruCache_Delete_ok [OF assms, of k] obtain r c' where d: "LruCache_Delete k c = Some (r, c')" "lru_inv c'" by metis
  with OpDelete show ?thesis by (simp flip: LruCache_Delete_abs [OF assms d(1)])
qed

lemma lru_history_abs:
  "lru_inv c \<Longrightarrow> \<exists>rs c'. lru_history ops c = Some (rs, c') \<and> lru_inv c' \<and> spec_history ops (lru_abs c) = (rs, lru_abs c')"
proof (induction ops arbitrary: c)
  case (Cons op ops)
  from lru_call_abs [OF Cons.prems, of op] obtain r d where d: "lru_call op c = Some (r, d)" "lru_inv d"
    "spec_call op (lru_abs c) = (r, lru_abs d)" by blast
  from Cons.IH [OF d(2)] d show ?case by auto
qed simp

definition spec_new :: "u64 \<Rightarrow> u64 \<Rightarrow> ('k, 'v) two_lists" where
  "spec_new limit max_size = \<lparr>hot = [], cold = [], hot_count = 0, hits = 0, misses = 0,
     hot_limit = limit, cold_limit = max_size - limit\<rparr>"

lemma spec_new_abs: "lru_abs (LruCache_new limit max_size) = spec_new limit max_size"
  by (simp add: lru_abs_def LruCache_new_def spec_new_def)

section \<open>The order of the hot entries\<close>

text \<open>The number of the last call of a history that is a \<open>Get\<close> of a key, from 1; 0 without one.\<close>

fun is_get :: "'k \<Rightarrow> ('k, 'v) lru_op \<Rightarrow> bool" where
  "is_get k (OpGet k') \<longleftrightarrow> k' = k"
| "is_get k _ \<longleftrightarrow> False"

definition last_get :: "('k, 'v) lru_op list \<Rightarrow> 'k \<Rightarrow> nat" where
  "last_get ops k = length (dropWhile (\<lambda>op. \<not> is_get k op) (rev ops))"

lemma last_get_snoc [simp]: "last_get (ops @ [op]) k = (if is_get k op then Suc (length ops) else last_get ops k)"
  by (simp add: last_get_def)

lemma last_get_le: "last_get ops k \<le> length ops"
  unfolding last_get_def using length_dropWhile_le [of _ "rev ops"] by simp

definition by_recency :: "('k, 'v) lru_op list \<Rightarrow> ('k, 'v) LruNode list \<Rightarrow> bool" where
  "by_recency ops xs \<longleftrightarrow> sorted_wrt (\<lambda>a b. last_get ops (nd_key b) < last_get ops (nd_key a)) xs"

lemma by_recency_snoc:
  assumes "by_recency ops xs" and "\<And>nd. nd \<in> set xs \<Longrightarrow> \<not> is_get (nd_key nd) op"
  shows "by_recency (ops @ [op]) xs"
  using assms(1) unfolding by_recency_def by (rule sorted_wrt_mono_rel [rotated]) (use assms(2) in simp)

lemma by_recency_front:
  assumes "by_recency ops xs" and "k \<notin> nd_key ` set xs" and "nd_key nd = k"
  shows "by_recency (ops @ [OpGet k]) (nd # xs)"
proof -
  have "by_recency (ops @ [OpGet k]) xs" by (rule by_recency_snoc [OF assms(1)]) (use assms(2) in auto)
  moreover have "\<not> is_get (nd_key x) (OpGet k)" if "x \<in> set xs" for x using assms(2) that by auto
  ultimately show ?thesis using assms(3) last_get_le [of ops] by (simp add: by_recency_def less_Suc_eq_le)
qed

lemma by_recency_without: "by_recency ops xs \<Longrightarrow> by_recency ops (without k xs)"
  by (simp add: by_recency_def without_def sorted_wrt_filter)

lemma without_keys [simp]: "k \<notin> nd_key ` set (without k xs)"
  by (auto simp: without_def)

lemma demote_prefix: "\<exists>ys. hot s = hot (demote vs s) @ ys"
proof (induction vs s rule: demote.induct)
  case (1 vs s)
  show ?case
  proof (cases "hot s \<noteq> [] \<and> hot_count s + vs > hot_limit s")
    case True
    define nd where "nd = last (hot s)"
    let ?s = "s\<lparr>hot_count := hot_count s - nd_value_size nd, hot := butlast (hot s), cold := nd # without (nd_key nd) (cold s)\<rparr>"
    from 1 [OF True nd_def] obtain ys where ys: "hot ?s = hot (demote vs ?s) @ ys" by blast
    have d: "demote vs s = demote vs ?s" using True by (subst demote.simps) (simp add: Let_def nd_def)
    have "hot s = hot ?s @ [nd]" using True by (simp add: nd_def)
    also have "\<dots> = hot (demote vs s) @ ys @ [nd]" by (simp only: ys d append_assoc)
    finally show ?thesis by (rule exI)
  next
    case False
    then show ?thesis by (subst demote.simps) auto
  qed
qed

text \<open>
  What leaves the hot sequence in a call, the deleted entry apart, is its end: these entries go to
  the cold sequence, and their keys were last got before those of all the entries that stay.
\<close>

lemma demote_leaves:
  assumes "distinct (map nd_key (hot s))"
  shows "\<exists>ys. hot s = hot (demote vs s) @ ys \<and> set ys \<subseteq> set (cold (demote vs s)) \<and>
     {nd \<in> set (cold s). nd_key nd \<notin> nd_key ` set (hot s)} \<subseteq> set (cold (demote vs s))"
  using assms
proof (induction vs s rule: demote.induct)
  case (1 vs s)
  show ?case
  proof (cases "hot s \<noteq> [] \<and> hot_count s + vs > hot_limit s")
    case True
    define nd where "nd = last (hot s)"
    let ?s = "s\<lparr>hot_count := hot_count s - nd_value_size nd, hot := butlast (hot s), cold := nd # without (nd_key nd) (cold s)\<rparr>"
    have h: "hot s = hot ?s @ [nd]" using True by (simp add: nd_def)
    then have dk: "distinct (map nd_key (hot ?s @ [nd]))" using 1(2) by simp
    have d: "demote vs s = demote vs ?s" using True by (subst demote.simps) (simp add: Let_def nd_def)
    from 1(1) [OF True nd_def] dk obtain ys where ys: "hot ?s = hot (demote vs ?s) @ ys" "set ys \<subseteq> set (cold (demote vs ?s))"
      "{nd \<in> set (cold ?s). nd_key nd \<notin> nd_key ` set (hot ?s)} \<subseteq> set (cold (demote vs ?s))" by auto
    from ys(1) h have "hot s = hot (demote vs s) @ ys @ [nd]" unfolding d by (metis append_assoc)
    moreover have "set (ys @ [nd]) \<subseteq> set (cold (demote vs s))"
      using ys(2,3) dk unfolding d by auto
    moreover have "{x \<in> set (cold s). nd_key x \<notin> nd_key ` set (hot s)} \<subseteq>
        {x \<in> set (cold ?s). nd_key x \<notin> nd_key ` set (hot ?s)}"
      using arg_cong [OF h, of set] by (auto simp: without_def simp del: butlast.simps)
    ultimately show ?thesis using ys(3) unfolding d by blast
  next
    case False
    then have "demote vs s = s" by (subst demote.simps) auto
    then show ?thesis by auto
  qed
qed

lemma by_recency_distinct: "by_recency ops xs \<Longrightarrow> distinct (map nd_key xs)"
  unfolding by_recency_def by (induction xs) force+

lemma spec_call_leaves:
  assumes "by_recency ops (hot s)" and "spec_call op s = (r, t)" and "a \<in> set (hot s)"
    and "nd_key a \<notin> nd_key ` set (hot t)" and "op \<noteq> OpDelete (nd_key a)"
  shows "a \<in> set (cold t) \<and> (\<forall>b\<in>set (hot s). nd_key b \<in> nd_key ` set (hot t) \<longrightarrow>
     last_get ops (nd_key a) < last_get ops (nd_key b))"
proof -
  have inj: "x = y" if "x \<in> set (hot s)" "y \<in> set (hot s)" "nd_key x = nd_key y" for x y
    using by_recency_distinct [OF assms(1)] that by (auto simp: distinct_map inj_on_def)
  from assms(2-5) obtain k where op: "op = OpGet k" and e: "entry k (hot s) = None"
  proof (cases op)
    case (OpGet k)
    have "entry k (hot s) = None"
    proof (rule ccontr)
      assume "entry k (hot s) \<noteq> None"
      then obtain nd where "entry k (hot s) = Some nd" by auto
      with assms(2-4) OpGet entry_Some [OF this] show False
        by (cases "nd_key a = k") (auto simp: spec_get_def without_def)
    qed
    with OpGet show ?thesis by (rule that)
  qed (use assms(2-5) in \<open>auto simp: spec_add_def spec_delete_def without_def Let_def split: option.splits dest!: entry_Some\<close>)
  with assms(2-4) obtain nd where nd: "entry k (cold s) = Some nd"
    by (cases "entry k (cold s)") (auto simp: spec_get_def)
  define u where "u = s\<lparr>hits := hits s + 1, cold := without k (cold s)\<rparr>"
  have u: "hot u = hot s" by (simp add: u_def)
  have t: "hot t = nd # hot (demote (nd_value_size nd) u)" "cold t = cold (demote (nd_value_size nd) u)"
    using assms(2) op e nd by (auto simp: spec_get_def Let_def u_def)
  from demote_leaves [of u "nd_value_size nd"] by_recency_distinct [OF assms(1)] obtain ys where
    ys: "hot s = hot (demote (nd_value_size nd) u) @ ys" "set ys \<subseteq> set (cold t)" unfolding t u by auto
  have a: "a \<in> set ys" using assms(3,4) t(1) arg_cong [OF ys(1), of set] by auto
  have "b \<in> set (hot (demote (nd_value_size nd) u))" if "b \<in> set (hot s)" "nd_key b \<in> nd_key ` set (hot t)" for b
  proof -
    from that(2) consider "nd_key b = nd_key nd" | x where "x \<in> set (hot (demote (nd_value_size nd) u))" "nd_key b = nd_key x"
      unfolding t by auto
    then show ?thesis
    proof cases
      case 1
      with entry_Some [OF nd] e that(1) show ?thesis by (auto simp: entry_None)
    next
      case 2
      moreover from 2(1) have "x \<in> set (hot s)" by (subst ys(1)) simp
      ultimately show ?thesis using inj [OF that(1)] by metis
    qed
  qed
  moreover have "last_get ops (nd_key a) < last_get ops (nd_key b)" if "b \<in> set (hot (demote (nd_value_size nd) u))" for b
    using assms(1) a that unfolding ys(1) by (simp add: by_recency_def sorted_wrt_append)
  ultimately show ?thesis using a ys(2) by blast
qed

lemma spec_call_recency:
  assumes "by_recency ops (hot s)"
  shows "by_recency (ops @ [op]) (hot (snd (spec_call op s)))"
proof (cases op)
  case (OpAdd k v vs)
  with by_recency_snoc [OF assms, of op] show ?thesis by (simp add: spec_add_def Let_def)
next
  case (OpDelete k)
  have "by_recency (ops @ [op]) (hot s)" by (rule by_recency_snoc [OF assms]) (simp add: OpDelete)
  with by_recency_without OpDelete show ?thesis by (auto simp: spec_delete_def split: option.splits)
next
  case (OpGet k)
  show ?thesis
  proof (cases "entry k (hot s)")
    case (Some nd)
    have "by_recency (ops @ [OpGet k]) (nd # without k (hot s))"
      by (rule by_recency_front [OF by_recency_without [OF assms] without_keys]) (use entry_Some [OF Some] in simp)
    with OpGet Some show ?thesis by (simp add: spec_get_def)
  next
    case None
    note h = None
    then have k: "k \<notin> nd_key ` set (hot s)" by (simp add: entry_None)
    show ?thesis
    proof (cases "entry k (cold s)")
      case None
      have "by_recency (ops @ [op]) (hot s)" by (rule by_recency_snoc [OF assms]) (use OpGet k in auto)
      with OpGet h None show ?thesis by (simp add: spec_get_def)
    next
      case (Some nd)
      let ?s = "s\<lparr>hits := hits s + 1, cold := without k (cold s)\<rparr>"
      from demote_prefix [of ?s "nd_value_size nd"] obtain ys where d: "hot s = hot (demote (nd_value_size nd) ?s) @ ys" by auto
      have "by_recency ops (hot (demote (nd_value_size nd) ?s))" "k \<notin> nd_key ` set (hot (demote (nd_value_size nd) ?s))"
        using assms k unfolding d by (auto simp: by_recency_def sorted_wrt_append)
      from by_recency_front [OF this] entry_Some [OF Some] OpGet h Some show ?thesis by (simp add: spec_get_def Let_def)
    qed
  qed
qed

lemma spec_history_snoc:
  "snd (spec_history (ops @ [op]) s) = snd (spec_call op (snd (spec_history ops s)))"
  by (induction ops arbitrary: s) (simp_all add: case_prod_beta)

lemma spec_history_recency: "by_recency ops (hot (snd (spec_history ops (spec_new limit max_size))))"
proof (induction ops rule: rev_induct)
  case Nil
  show ?case by (simp add: spec_new_def by_recency_def)
next
  case (snoc op ops)
  from spec_call_recency [OF this] show ?case by (simp add: spec_history_snoc)
qed

text \<open>A client that adds and gets the keys below \<open>n\<close> one after the other.\<close>

fun fill :: "nat \<Rightarrow> 'v \<Rightarrow> u64 \<Rightarrow> (nat, 'v) lru_op list" where
  "fill 0 v vs = []"
| "fill (Suc n) v vs = fill n v vs @ [OpAdd n v vs, OpGet n]"

lemma two_lists_eq:
  "s\<lparr>hits := 0\<rparr> = t \<longleftrightarrow> hot s = hot t \<and> cold s = cold t \<and> hot_count s = hot_count t \<and> hits t = 0 \<and>
     misses s = misses t \<and> hot_limit s = hot_limit t \<and> cold_limit s = cold_limit t" for s t :: "('k, 'v) two_lists"
  by (cases s; cases t) auto

lemma spec_history_fill:
  assumes "vs \<le> limit"
  shows "let s = snd (spec_history (fill n v vs) (spec_new limit max_size))
     in s\<lparr>hits := 0\<rparr> = (spec_new limit max_size)\<lparr>hot := map (\<lambda>i. \<lparr>nd_key = i, nd_value = v, nd_value_size = vs\<rparr>) (rev [0..<n])\<rparr>"
proof (induction n)
  case 0
  show ?case by (simp add: spec_new_def)
next
  case (Suc n)
  define s where "s = snd (spec_history (fill n v vs) (spec_new limit max_size))"
  let ?nd = "\<lambda>i. \<lparr>nd_key = i, nd_value = v, nd_value_size = vs\<rparr>"
  from Suc.IH [unfolded Let_def, folded s_def] have s: "hot s = map ?nd (rev [0..<n])" "cold s = []" "hot_count s = 0" "misses s = 0" "hot_limit s = limit"
    "cold_limit s = max_size - limit"
    by (simp_all add: spec_new_def two_lists_eq)
  have e: "entry n (map ?nd (rev [0..<n])) = None" by (auto simp: entry_None)
  have a: "spec_add n v vs s = s\<lparr>cold := [?nd n]\<rparr>" by (simp add: spec_add_def s trim.simps Let_def)
  have "demote vs (s\<lparr>hits := hits s + 1, cold := []\<rparr>) = s\<lparr>hits := hits s + 1, cold := []\<rparr>"
    using assms by (subst demote.simps) (auto simp: s)
  then have g: "spec_get n (s\<lparr>cold := [?nd n]\<rparr>) = (Some v, s\<lparr>hits := hits s + 1, cold := [], hot := ?nd n # hot s\<rparr>)"
    using e by (simp add: spec_get_def s Let_def)
  have "snd (spec_history (fill (Suc n) v vs) (spec_new limit max_size)) = snd (spec_get n (spec_add n v vs s))"
    using spec_history_snoc [of "fill n v vs @ [OpAdd n v vs]" "OpGet n"] spec_history_snoc [of "fill n v vs" "OpAdd n v vs"]
    by (simp add: s_def case_prod_beta)
  then show ?case unfolding a g by (simp add: s spec_new_def)
qed

section \<open>Properties\<close>

text \<open>
  C3: the cache of the code, with its maps of iterators into two linked lists, is the cache of two
  sequences: every history of calls on a new cache succeeds, gives the results that the sequences give, call
  by call, and leaves the entries, counters and sizes that the sequences have.
\<close>

theorem lru_refines_sequences:
  "\<exists>c. lru_history ops (LruCache_new limit max_size) = Some (fst (spec_history ops (spec_new limit max_size)), c) \<and>
     lru_abs c = snd (spec_history ops (spec_new limit max_size))"
  using lru_history_abs [OF lru_inv_new [of limit max_size], of ops] unfolding spec_new_abs by force

text \<open>
  C11: the cache is an LRU cache: after every history the hot list is in the order of the last \<open>Get\<close> of its keys,
  the latest first, and whatever is called next, an entry that leaves the hot list without being deleted goes to the cold
  list, and its key was last got before the key of every entry that stays: the least recently used entries leave.
\<close>

theorem lru_hot_by_recency:
  "\<exists>rs c. lru_history ops (LruCache_new limit max_size) = Some (rs, c) \<and>
     sorted_wrt (\<lambda>a b. last_get ops (nd_key b) < last_get ops (nd_key a)) (map snd (m_hot_list c)) \<and>
     (\<exists>r d. lru_call op c = Some (r, d) \<and>
        (\<forall>a\<in>set (map snd (m_hot_list c)).
           nd_key a \<notin> nd_key ` set (map snd (m_hot_list d)) \<longrightarrow> op \<noteq> OpDelete (nd_key a) \<longrightarrow>
           a \<in> set (map snd (m_cold_list d)) \<and>
           (\<forall>b\<in>set (map snd (m_hot_list c)). nd_key b \<in> nd_key ` set (map snd (m_hot_list d)) \<longrightarrow>
              last_get ops (nd_key a) < last_get ops (nd_key b))))"
proof -
  from lru_history_abs [OF lru_inv_new [of limit max_size], of ops] obtain rs c where
    c: "lru_history ops (LruCache_new limit max_size) = Some (rs, c)" "lru_inv c"
    "spec_history ops (spec_new limit max_size) = (rs, lru_abs c)" by (auto simp: spec_new_abs)
  from this(3) have rec: "by_recency ops (hot (lru_abs c))" using spec_history_recency [of ops limit max_size] by simp
  from lru_call_abs [OF c(2), of op] obtain r d where
    d: "lru_call op c = Some (r, d)" "spec_call op (lru_abs c) = (r, lru_abs d)" by blast
  have "\<forall>a\<in>set (map snd (m_hot_list c)).
      nd_key a \<notin> nd_key ` set (map snd (m_hot_list d)) \<longrightarrow> op \<noteq> OpDelete (nd_key a) \<longrightarrow>
      a \<in> set (map snd (m_cold_list d)) \<and>
      (\<forall>b\<in>set (map snd (m_hot_list c)). nd_key b \<in> nd_key ` set (map snd (m_hot_list d)) \<longrightarrow>
         last_get ops (nd_key a) < last_get ops (nd_key b))"
    using spec_call_leaves [OF rec d(2)] by (simp add: lru_abs_def)
  with c(1) d(1) rec show ?thesis by (auto simp: by_recency_def lru_abs_def)
qed

text \<open>Two entries of 70 bytes are hot; an entry of 200 bytes that becomes hot pushes out \<open>b\<close>, and not \<open>c\<close>.\<close>

abbreviation (input) demo_ops :: "(string, nat) lru_op list" where
  "demo_ops \<equiv> [OpAdd ''a'' 1 70, OpGet ''a'', OpAdd ''b'' 2 70, OpGet ''b'', OpAdd ''c'' 3 70, OpGet ''c'', OpAdd ''d'' 4 200]"

theorem lru_hot_by_recency_witness:
  "\<exists>(c :: (string, nat) LruCache) r d. lru_call (OpGet ''d'') c = Some (r, d) \<and>
     map (nd_key \<circ> snd) (m_hot_list c) = [''c'', ''b''] \<and> map (nd_key \<circ> snd) (m_hot_list d) = [''d'', ''c''] \<and>
     last_get demo_ops ''b'' < last_get demo_ops ''c''"
proof -
  from lru_hot_by_recency [of demo_ops 60 1000 "OpGet ''d''"] obtain rs c r d where
    c: "lru_history demo_ops (LruCache_new 60 1000) = Some (rs, c)" "lru_call (OpGet ''d'') c = Some (r, d)"
    and l: "\<forall>a\<in>set (map snd (m_hot_list c)).
      nd_key a \<notin> nd_key ` set (map snd (m_hot_list d)) \<longrightarrow> OpGet ''d'' \<noteq> OpDelete (nd_key a) \<longrightarrow>
      a \<in> set (map snd (m_cold_list d)) \<and>
      (\<forall>b\<in>set (map snd (m_hot_list c)). nd_key b \<in> nd_key ` set (map snd (m_hot_list d)) \<longrightarrow>
         last_get demo_ops (nd_key a) < last_get demo_ops (nd_key b))" by blast
  have "Option.bind (lru_history demo_ops (LruCache_new 60 1000)) (\<lambda>(rs, c). map_option (\<lambda>(r, d).
       (map (nd_key \<circ> snd) (m_hot_list c), map (nd_key \<circ> snd) (m_hot_list d))) (lru_call (OpGet ''d'') c)) =
     Some ([''c'', ''b''], [''d'', ''c''])" by code_simp
  with c have h: "map (nd_key \<circ> snd) (m_hot_list c) = [''c'', ''b'']" "map (nd_key \<circ> snd) (m_hot_list d) = [''d'', ''c'']"
    by auto
  then obtain a b where ab: "map snd (m_hot_list c) = [b, a]" "nd_key a = ''b''" "nd_key b = ''c''"
    by (auto simp: map_eq_Cons_conv)
  have "nd_key ` set (map snd (m_hot_list d)) = {''d'', ''c''}"
    using arg_cong [OF h(2), of set] by (simp add: image_image)
  with l ab have "last_get demo_ops ''b'' < last_get demo_ops ''c''" by simp
  with c(2) h show ?thesis by (intro exI conjI)
qed

text \<open>
  C33: the limit of the hot list has no effect: a node that becomes hot is not counted. After \<open>n\<close> values of size
  \<open>vs\<close> have been added and got once each, the hot list holds all of them, whatever \<open>n\<close> is, while \<open>Size\<close>
  reports an empty cache.
\<close>

theorem lru_hot_limit_ignored:
  assumes "vs \<le> limit"
  shows "\<exists>rs c. lru_history (fill n v vs) (LruCache_new limit max_size) = Some (rs, c) \<and>
     length (m_hot_list c) = n \<and> sizes (m_hot_list c) = of_nat n * vs \<and> LruCache_Size c = 0"
proof -
  from lru_history_abs [OF lru_inv_new [of limit max_size], of "fill n v vs"] obtain rs c where
    c: "lru_history (fill n v vs) (LruCache_new limit max_size) = Some (rs, c)" "lru_inv c"
    "spec_history (fill n v vs) (spec_new limit max_size) = (rs, lru_abs c)" by (auto simp: spec_new_abs)
  from spec_history_fill [OF assms, of n v max_size] c(3)
  have "lru_abs c\<lparr>hits := 0\<rparr> = (spec_new limit max_size)\<lparr>hot := map (\<lambda>i. \<lparr>nd_key = i, nd_value = v, nd_value_size = vs\<rparr>) (rev [0..<n])\<rparr>"
    by (simp add: Let_def)
  then have h: "map snd (m_hot_list c) = map (\<lambda>i. \<lparr>nd_key = i, nd_value = v, nd_value_size = vs\<rparr>) (rev [0..<n])"
    "m_cold_list c = []" "m_hot_size c = 0" by (simp_all add: lru_abs_def spec_new_def)
  have "m_cold_size c = 0" using c(2) h(2) by (simp add: lru_inv_def)
  moreover have "length (m_hot_list c) = n" using arg_cong [OF h(1), of length] by simp
  moreover have "sizes (m_hot_list c) = of_nat n * vs"
    unfolding sizes_weight h(1) by (simp add: weight_def comp_def sum_list_triv)
  ultimately show ?thesis using c(1) h(3) by (simp add: LruCache_Size_def)
qed

theorem lru_hot_limit_ignored_witness:
  "\<exists>rs c. lru_history (fill 100 ''x'' 50) (LruCache_new 60 100) = Some (rs, c) \<and> length (m_hot_list c) = 100"
  using lru_hot_limit_ignored [of 50 60 100 "''x''" 100] by auto

end
