(* ===== verification/Queue.thy ===== *)
theory Queue
  imports Transition
begin

text \<open>
  \<^verbatim>\<open>include/xfutil/queue.h\<close>: the bounded blocking queue. The body of every method runs under the
  mutex, except where it waits on a condition variable. A method is therefore modelled by its test
  and action under the lock, and threads by a step relation: a thread that calls a method is
  \<open>Ready\<close> to take the lock and test, or \<open>Waiting\<close> on the method's condition variable; it is woken
  by a notification or spuriously, and then tests again. A waiting thread with a time-out may also
  give up; and when it has been notified, \<^verbatim>\<open>wait_for\<close> may still report that the time is over, so that it
  leaves without testing: such a thread is \<open>Woken\<close> until it knows.
\<close>

section \<open>The methods under the lock\<close>

record 'a BlockingQueue =
  m_queue :: "'a list"
  m_capacity :: u64

definition BlockingQueue_new :: "u64 \<Rightarrow> 'a BlockingQueue" where
  "BlockingQueue_new cap = \<lparr>m_queue = [], m_capacity = cap\<rparr>"

definition SetCapacity :: "u64 \<Rightarrow> 'a BlockingQueue \<Rightarrow> 'a BlockingQueue" where
  "SetCapacity cap b = b\<lparr>m_capacity := cap\<rparr>"

definition BlockingQueue_Size :: "'a BlockingQueue \<Rightarrow> nat" where
  "BlockingQueue_Size b = length (m_queue b)"

definition queue_full :: "'a BlockingQueue \<Rightarrow> bool" where
  "queue_full b \<longleftrightarrow> length (m_queue b) \<ge> unat (m_capacity b)"

text \<open>\<^const>\<open>None\<close>: the loop test holds and the thread has to wait.\<close>

definition Push_body :: "'a \<Rightarrow> 'a BlockingQueue \<Rightarrow> 'a BlockingQueue option" where
  "Push_body v b = (if queue_full b then None else Some (b\<lparr>m_queue := m_queue b @ [v]\<rparr>))"

definition PushFront_body :: "'a \<Rightarrow> 'a BlockingQueue \<Rightarrow> 'a BlockingQueue option" where
  "PushFront_body v b = (if queue_full b then None else Some (b\<lparr>m_queue := v # m_queue b\<rparr>))"

definition Pop_body :: "'a BlockingQueue \<Rightarrow> ('a \<times> 'a BlockingQueue) option" where
  "Pop_body b = (case m_queue b of [] \<Rightarrow> None | v # vs \<Rightarrow> Some (v, b\<lparr>m_queue := vs\<rparr>))"

definition TryPush :: "'a \<Rightarrow> 'a BlockingQueue \<Rightarrow> bool \<times> 'a BlockingQueue" where
  "TryPush v b = (if queue_full b then (False, b) else (True, b\<lparr>m_queue := m_queue b @ [v]\<rparr>))"

definition TryPop :: "'a BlockingQueue \<Rightarrow> 'a option \<times> 'a BlockingQueue" where
  "TryPop b = (case m_queue b of [] \<Rightarrow> (None, b) | v # vs \<Rightarrow> (Some v, b\<lparr>m_queue := vs\<rparr>))"

section \<open>Threads\<close>

datatype 'a call = CPush 'a | CPushFront 'a | CPushTimed 'a | CPop | CPopTimed

datatype 'a thread = Idle | Ready "'a call" | Waiting "'a call" | Woken "'a call"

fun is_pop :: "'a call \<Rightarrow> bool" where
  "is_pop CPop = True" | "is_pop CPopTimed = True" | "is_pop _ = False"

fun is_timed :: "'a call \<Rightarrow> bool" where
  "is_timed (CPushTimed _) = True" | "is_timed CPopTimed = True" | "is_timed _ = False"

fun waits :: "bool \<Rightarrow> 'a thread \<Rightarrow> bool" where
  "waits p (Waiting c) \<longleftrightarrow> is_pop c = p" | "waits p _ = False"

fun ready :: "bool \<Rightarrow> 'a thread \<Rightarrow> bool" where
  "ready p (Ready c) \<longleftrightarrow> is_pop c = p" | "ready p (Woken c) \<longleftrightarrow> is_pop c = p" | "ready p _ = False"

fun wake :: "'a thread \<Rightarrow> 'a thread" where
  "wake (Waiting c) = (if is_timed c then Woken c else Ready c)" | "wake t = t"

text \<open>
  \<^verbatim>\<open>notify_one\<close> on the condition variable of the poppers (\<open>p\<close>) or of the pushers: one of the
  threads that wait there is woken, if there is one.
\<close>

definition notify_one :: "bool \<Rightarrow> 'a thread list \<Rightarrow> 'a thread list \<Rightarrow> bool" where
  "notify_one p ths ths' \<longleftrightarrow>
     (\<exists>j<length ths. waits p (ths ! j) \<and> ths' = ths[j := wake (ths ! j)]) \<or>
     (\<not> (\<exists>t\<in>set ths. waits p t) \<and> ths' = ths)"

text \<open>The state, with the values pushed and popped so far in the order of the critical sections.\<close>

record 'a system =
  bq :: "'a BlockingQueue"
  threads :: "'a thread list"
  pushed :: "'a list"
  popped :: "'a list"

definition put_body :: "'a call \<Rightarrow> 'a BlockingQueue \<Rightarrow> 'a BlockingQueue option" where
  "put_body c b = (case c of CPush v \<Rightarrow> Push_body v b | CPushFront v \<Rightarrow> PushFront_body v b
     | CPushTimed v \<Rightarrow> Push_body v b | _ \<Rightarrow> None)"

fun put_value :: "'a call \<Rightarrow> 'a list" where
  "put_value (CPush v) = [v]" | "put_value (CPushFront v) = [v]" | "put_value (CPushTimed v) = [v]"
| "put_value _ = []"

text \<open>
  \<open>bq_act i\<close>: thread \<open>i\<close>, inside a call, tests and acts, waits, or runs into its time-out, while it waits
  or although it has been notified. A spurious wake-up after the time is over is a time-out.
  \<open>bq_step\<close>: the threads, their calls, and the wake-ups nobody asked for.
\<close>

inductive bq_act :: "nat \<Rightarrow> 'a system \<Rightarrow> 'a system \<Rightarrow> bool" for i where
  put: "i < length (threads s) \<Longrightarrow> threads s ! i = Ready c \<Longrightarrow> \<not> is_pop c \<Longrightarrow>
    put_body c (bq s) = Some b \<Longrightarrow> notify_one True ((threads s)[i := Idle]) ths \<Longrightarrow>
    bq_act i s (s\<lparr>bq := b, threads := ths, pushed := pushed s @ put_value c\<rparr>)"
| put_wait: "i < length (threads s) \<Longrightarrow> threads s ! i = Ready c \<Longrightarrow> \<not> is_pop c \<Longrightarrow>
    put_body c (bq s) = None \<Longrightarrow> bq_act i s (s\<lparr>threads := (threads s)[i := Waiting c]\<rparr>)"
| get: "i < length (threads s) \<Longrightarrow> threads s ! i = Ready c \<Longrightarrow> is_pop c \<Longrightarrow>
    Pop_body (bq s) = Some (v, b) \<Longrightarrow> notify_one False ((threads s)[i := Idle]) ths \<Longrightarrow>
    bq_act i s (s\<lparr>bq := b, threads := ths, popped := popped s @ [v]\<rparr>)"
| get_wait: "i < length (threads s) \<Longrightarrow> threads s ! i = Ready c \<Longrightarrow> is_pop c \<Longrightarrow>
    Pop_body (bq s) = None \<Longrightarrow> bq_act i s (s\<lparr>threads := (threads s)[i := Waiting c]\<rparr>)"
| timeout: "i < length (threads s) \<Longrightarrow> threads s ! i = Waiting c \<Longrightarrow> is_timed c \<Longrightarrow>
    bq_act i s (s\<lparr>threads := (threads s)[i := Idle]\<rparr>)"
| in_time: "i < length (threads s) \<Longrightarrow> threads s ! i = Woken c \<Longrightarrow> is_timed c \<Longrightarrow>
    bq_act i s (s\<lparr>threads := (threads s)[i := Ready c]\<rparr>)"
| too_late: "i < length (threads s) \<Longrightarrow> threads s ! i = Woken c \<Longrightarrow> is_timed c \<Longrightarrow>
    bq_act i s (s\<lparr>threads := (threads s)[i := Idle]\<rparr>)"

inductive bq_step :: "'a system \<Rightarrow> 'a system \<Rightarrow> bool" where
  act: "bq_act i s t \<Longrightarrow> bq_step s t"
| call: "i < length (threads s) \<Longrightarrow> threads s ! i = Idle \<Longrightarrow>
    bq_step s (s\<lparr>threads := (threads s)[i := Ready c]\<rparr>)"
| spurious: "i < length (threads s) \<Longrightarrow> threads s ! i = Waiting c \<Longrightarrow>
    bq_step s (s\<lparr>threads := (threads s)[i := Ready c]\<rparr>)"
| try_put: "i < length (threads s) \<Longrightarrow> threads s ! i = Idle \<Longrightarrow> TryPush v (bq s) = (True, b) \<Longrightarrow>
    notify_one True (threads s) ths \<Longrightarrow>
    bq_step s (s\<lparr>bq := b, threads := ths, pushed := pushed s @ [v]\<rparr>)"
| try_get: "i < length (threads s) \<Longrightarrow> threads s ! i = Idle \<Longrightarrow> TryPop (bq s) = (Some v, b) \<Longrightarrow>
    notify_one False (threads s) ths \<Longrightarrow>
    bq_step s (s\<lparr>bq := b, threads := ths, popped := popped s @ [v]\<rparr>)"

text \<open>A step in which a thread that has been notified gives up, and the other steps.\<close>

definition gives_up :: "'a system \<Rightarrow> 'a system \<Rightarrow> bool" where
  "gives_up s t \<longleftrightarrow> (\<exists>i<length (threads s). \<exists>c. threads s ! i = Woken c \<and> threads t ! i = Idle)"

definition prompt_step :: "'a system \<Rightarrow> 'a system \<Rightarrow> bool" where
  "prompt_step s t \<longleftrightarrow> bq_step s t \<and> \<not> gives_up s t"

definition system_new :: "u64 \<Rightarrow> nat \<Rightarrow> 'a system" where
  "system_new cap n = \<lparr>bq = BlockingQueue_new cap, threads = replicate n Idle, pushed = [], popped = []\<rparr>"

section \<open>Counting threads\<close>

definition count_if :: "('t \<Rightarrow> bool) \<Rightarrow> 't list \<Rightarrow> nat" where
  "count_if P ts = length (filter P ts)"

lemma count_update:
  assumes "i < length ts"
  shows "count_if P (ts[i := t]) + (if P (ts ! i) then 1 else 0) = count_if P ts + (if P t then 1 else 0)"
proof -
  have 1: "ts = take i ts @ ts ! i # drop (Suc i) ts" using assms by (simp add: id_take_nth_drop)
  have 2: "ts[i := t] = take i ts @ t # drop (Suc i) ts" using assms by (simp add: upd_conv_take_nth_drop)
  have "count_if P ts = count_if P (take i ts) + (if P (ts ! i) then 1 else 0) + count_if P (drop (Suc i) ts)"
    by (subst 1) (simp add: count_if_def)
  moreover have "count_if P (ts[i := t]) = count_if P (take i ts) + (if P t then 1 else 0) + count_if P (drop (Suc i) ts)"
    unfolding 2 by (simp add: count_if_def)
  ultimately show ?thesis by simp
qed

lemma count_pos: "0 < count_if P ts \<longleftrightarrow> (\<exists>t\<in>set ts. P t)"
  by (auto simp: count_if_def filter_empty_conv)

lemma ready_wake: "waits p t \<Longrightarrow> ready p (wake t)" "waits p t \<Longrightarrow> \<not> ready q t"
  "waits p t \<Longrightarrow> \<not> waits q (wake t)" "waits p t \<Longrightarrow> ready q (wake t) \<longleftrightarrow> q = p"
  "waits p t \<Longrightarrow> waits q t \<longleftrightarrow> q = p"
  by (cases t; auto)+

lemma notify_counts:
  assumes "notify_one p ts ts'"
  shows "count_if (waits (\<not> p)) ts' = count_if (waits (\<not> p)) ts"
    and "count_if (ready (\<not> p)) ts' = count_if (ready (\<not> p)) ts"
    and "if count_if (waits p) ts = 0 then ts' = ts
         else count_if (waits p) ts' + 1 = count_if (waits p) ts \<and>
              count_if (ready p) ts' = count_if (ready p) ts + 1"
proof -
  consider j where "j < length ts" "waits p (ts ! j)" "ts' = ts[j := wake (ts ! j)]"
    | "\<not> (\<exists>t\<in>set ts. waits p t)" "ts' = ts" using assms by (auto simp: notify_one_def)
  then have "count_if (waits (\<not> p)) ts' = count_if (waits (\<not> p)) ts \<and>
     count_if (ready (\<not> p)) ts' = count_if (ready (\<not> p)) ts \<and>
     (if count_if (waits p) ts = 0 then ts' = ts
         else count_if (waits p) ts' + 1 = count_if (waits p) ts \<and>
              count_if (ready p) ts' = count_if (ready p) ts + 1)"
  proof cases
    case 1
    have "0 < count_if (waits p) ts" using 1 by (auto simp: count_pos)
    with 1 count_update [OF 1(1), of "waits p" "wake (ts ! j)"]
      count_update [OF 1(1), of "ready p" "wake (ts ! j)"]
      count_update [OF 1(1), of "waits (\<not> p)" "wake (ts ! j)"]
      count_update [OF 1(1), of "ready (\<not> p)" "wake (ts ! j)"]
    show ?thesis by (simp add: ready_wake)
  next
    case 2
    then have "count_if (waits p) ts = 0" using count_pos [of "waits p" ts] by auto
    with 2 show ?thesis by simp
  qed
  then show "count_if (waits (\<not> p)) ts' = count_if (waits (\<not> p)) ts"
    and "count_if (ready (\<not> p)) ts' = count_if (ready (\<not> p)) ts"
    and "if count_if (waits p) ts = 0 then ts' = ts
         else count_if (waits p) ts' + 1 = count_if (waits p) ts \<and>
              count_if (ready p) ts' = count_if (ready p) ts + 1" by blast+
qed

section \<open>The invariant\<close>

text \<open>
  \<open>balanced n cap ths\<close> for a queue of length \<open>n\<close>: if poppers wait, then for every element in the
  queue a popper is already on its way, and if pushers wait, then for every free place a pusher is
  on its way.
\<close>

definition balanced :: "nat \<Rightarrow> nat \<Rightarrow> 'a thread list \<Rightarrow> bool" where
  "balanced n cap ths \<longleftrightarrow> (0 < count_if (waits True) ths \<longrightarrow> n \<le> count_if (ready True) ths) \<and>
     (0 < count_if (waits False) ths \<longrightarrow> cap \<le> n + count_if (ready False) ths)"

definition bq_safe :: "'a system \<Rightarrow> bool" where
  "bq_safe s \<longleftrightarrow> length (m_queue (bq s)) \<le> unat (m_capacity (bq s)) \<and>
     mset (pushed s) = mset (popped s) + mset (m_queue (bq s))"

definition bq_inv :: "'a system \<Rightarrow> bool" where
  "bq_inv s \<longleftrightarrow> bq_safe s \<and> balanced (length (m_queue (bq s))) (unat (m_capacity (bq s))) (threads s)"

lemma balanced_grow:
  assumes "balanced n cap ts" and "i < length ts"
    and "ts ! i = Ready c \<and> \<not> is_pop c" and "notify_one True (ts[i := Idle]) ts'"
  shows "balanced (Suc n) cap ts'"
  using assms(1,3) notify_counts [OF assms(4)]
    count_update [OF assms(2), of "waits True" Idle] count_update [OF assms(2), of "ready True" Idle]
    count_update [OF assms(2), of "waits False" Idle] count_update [OF assms(2), of "ready False" Idle]
  by (auto simp: balanced_def split: if_splits)

lemma balanced_shrink:
  assumes "balanced (Suc n) cap ts" and "i < length ts"
    and "ts ! i = Ready c \<and> is_pop c" and "notify_one False (ts[i := Idle]) ts'"
  shows "balanced n cap ts'"
  using assms(1,3) notify_counts [OF assms(4)]
    count_update [OF assms(2), of "waits True" Idle] count_update [OF assms(2), of "ready True" Idle]
    count_update [OF assms(2), of "waits False" Idle] count_update [OF assms(2), of "ready False" Idle]
  by (auto simp: balanced_def split: if_splits)

lemma balanced_try:
  assumes "balanced n cap ts"
  shows "notify_one True ts ts' \<Longrightarrow> balanced (Suc n) cap ts'"
    and "notify_one False ts ts' \<Longrightarrow> 0 < n \<Longrightarrow> balanced (n - 1) cap ts'"
  using assms notify_counts [of _ ts ts'] by (fastforce simp: balanced_def split: if_splits)+

lemma balanced_move:
  assumes "balanced n cap ts" and "i < length ts"
  shows "ts ! i = Idle \<Longrightarrow> balanced n cap (ts[i := Ready c])"
    and "ts ! i = Waiting c \<Longrightarrow> balanced n cap (ts[i := Ready c])"
    and "ts ! i = Waiting c \<Longrightarrow> balanced n cap (ts[i := Idle])"
    and "ts ! i = Ready c \<Longrightarrow> is_pop c \<Longrightarrow> n = 0 \<Longrightarrow> balanced n cap (ts[i := Waiting c])"
    and "ts ! i = Ready c \<Longrightarrow> \<not> is_pop c \<Longrightarrow> cap \<le> n \<Longrightarrow> balanced n cap (ts[i := Waiting c])"
    and "ts ! i = Woken c \<Longrightarrow> balanced n cap (ts[i := Ready c])"
proof -
  have u: "count_if P (ts[i := t]) + (if P (ts ! i) then 1 else 0) = count_if P ts + (if P t then 1 else 0)"
    for P t by (rule count_update [OF assms(2)])
  note at = u [of "waits True"] u [of "ready True"] u [of "waits False"] u [of "ready False"]
  show "ts ! i = Idle \<Longrightarrow> balanced n cap (ts[i := Ready c])"
    using assms(1) at [of "Ready c"] by (auto simp: balanced_def split: if_splits)
  show "ts ! i = Waiting c \<Longrightarrow> balanced n cap (ts[i := Ready c])"
    using assms(1) at [of "Ready c"] by (auto simp: balanced_def split: if_splits)
  show "ts ! i = Waiting c \<Longrightarrow> balanced n cap (ts[i := Idle])"
    using assms(1) at [of Idle] by (auto simp: balanced_def split: if_splits)
  show "ts ! i = Ready c \<Longrightarrow> is_pop c \<Longrightarrow> n = 0 \<Longrightarrow> balanced n cap (ts[i := Waiting c])"
    using assms(1) at [of "Waiting c"] by (auto simp: balanced_def split: if_splits)
  show "ts ! i = Ready c \<Longrightarrow> \<not> is_pop c \<Longrightarrow> cap \<le> n \<Longrightarrow> balanced n cap (ts[i := Waiting c])"
    using assms(1) at [of "Waiting c"] by (auto simp: balanced_def split: if_splits)
  show "ts ! i = Woken c \<Longrightarrow> balanced n cap (ts[i := Ready c])"
    using assms(1) at [of "Ready c"] by (auto simp: balanced_def split: if_splits)
qed

lemmas body_defs = put_body_def Push_body_def PushFront_body_def Pop_body_def TryPush_def TryPop_def
  queue_full_def

lemma put_body_Some:
  assumes "put_body c b = Some b'"
  shows "m_queue b' = m_queue b @ put_value c \<or> m_queue b' = put_value c @ m_queue b"
    and "length (put_value c) = 1" and "m_capacity b' = m_capacity b" and "\<not> queue_full b"
  using assms by (auto simp: body_defs split: call.splits if_splits)

lemma put_body_None: "\<not> is_pop c \<Longrightarrow> put_body c b = None \<longleftrightarrow> queue_full b"
  by (cases c) (auto simp: body_defs)

lemma Pop_body_Some: "Pop_body b = Some (v, b') \<longleftrightarrow> m_queue b = v # m_queue b' \<and> m_capacity b' = m_capacity b"
  by (cases b; cases b') (auto simp: Pop_body_def split: list.splits)

lemma Pop_body_None: "Pop_body b = None \<longleftrightarrow> m_queue b = []"
  by (auto simp: Pop_body_def split: list.splits)

lemma bq_act_safe:
  assumes "bq_act i s t" and "bq_safe s"
  shows "bq_safe t"
  using assms(1)
proof cases
  case (put c b ths)
  with put_body_Some [OF put(5)] assms(2) show ?thesis by (auto simp: bq_safe_def queue_full_def)
next
  case (get c v b ths)
  then have "m_queue (bq s) = v # m_queue b" "m_capacity b = m_capacity (bq s)" by (simp_all add: Pop_body_Some)
  with get(1) assms(2) show ?thesis by (simp add: bq_safe_def)
qed (use assms(2) in \<open>simp_all add: bq_safe_def\<close>)

lemma bq_step_safe:
  assumes "bq_step s t" and "bq_safe s"
  shows "bq_safe t"
  using assms(1)
proof cases
  case (act i)
  then show ?thesis using assms(2) by (rule bq_act_safe)
next
  case (try_put i v b ths)
  with assms(2) show ?thesis by (auto simp: bq_safe_def body_defs split: if_splits)
next
  case (try_get i v b ths)
  with assms(2) show ?thesis by (auto simp: bq_safe_def body_defs split: list.splits)
qed (use assms(2) in \<open>simp_all add: bq_safe_def\<close>)

lemma bq_safe_new: "bq_safe (system_new cap n)"
  by (simp add: bq_safe_def system_new_def BlockingQueue_new_def)

lemma bq_reachable_safe: "bq_step\<^sup>*\<^sup>* (system_new cap n) s \<Longrightarrow> bq_safe s"
  by (induction rule: rtranclp_induct) (auto intro: bq_safe_new bq_step_safe)

text \<open>The balance is kept as long as no notified thread gives up.\<close>

lemma bq_act_inv:
  assumes "bq_act i s t" and "bq_inv s" and "\<not> gives_up s t"
  shows "bq_inv t"
proof -
  have safe: "bq_safe t" using bq_act_safe [OF assms(1)] assms(2) by (simp add: bq_inv_def)
  have bal: "balanced (length (m_queue (bq s))) (unat (m_capacity (bq s))) (threads s)" using assms(2) by (simp add: bq_inv_def)
  from assms(1) have "balanced (length (m_queue (bq t))) (unat (m_capacity (bq t))) (threads t)"
  proof cases
    case (put c b ths)
    have "balanced (Suc (length (m_queue (bq s)))) (unat (m_capacity (bq s))) ths"
      using balanced_grow [OF bal put(2)] put by auto
    with put_body_Some [OF put(5)] put(1) show ?thesis by auto
  next
    case (get c v b ths)
    then have q: "m_queue (bq s) = v # m_queue b" "m_capacity b = m_capacity (bq s)" by (simp_all add: Pop_body_Some)
    then have "balanced (length (m_queue b)) (unat (m_capacity (bq s))) ths"
      using balanced_shrink [OF _ get(2)] get bal by auto
    with q get(1) show ?thesis by simp
  next
    case (put_wait c)
    then have "unat (m_capacity (bq s)) \<le> length (m_queue (bq s))" by (simp add: put_body_None queue_full_def)
    with put_wait bal balanced_move(5) [OF _ put_wait(2)] show ?thesis by auto
  next
    case (get_wait c)
    then have "m_queue (bq s) = []" by (simp add: Pop_body_None)
    with get_wait bal balanced_move(4) [OF _ get_wait(2)] show ?thesis by auto
  next
    case (timeout c)
    with bal balanced_move(3) [OF _ timeout(2)] show ?thesis by auto
  next
    case (in_time c)
    with bal balanced_move(6) [OF _ in_time(2)] show ?thesis by auto
  next
    case (too_late c)
    then have "gives_up s t" by (auto simp: gives_up_def)
    with assms(3) show ?thesis by simp
  qed
  with safe show ?thesis by (simp add: bq_inv_def)
qed

lemma bq_step_inv:
  assumes "prompt_step s t" and "bq_inv s"
  shows "bq_inv t"
proof -
  have st: "bq_step s t" and up: "\<not> gives_up s t" using assms(1) by (simp_all add: prompt_step_def)
  have safe: "bq_safe t" using bq_step_safe [OF st] assms(2) by (simp add: bq_inv_def)
  have bal: "balanced (length (m_queue (bq s))) (unat (m_capacity (bq s))) (threads s)" using assms(2) by (simp add: bq_inv_def)
  from st show ?thesis
  proof cases
    case (act i)
    from bq_act_inv [OF this assms(2) up] show ?thesis .
  next
    case (call i c)
    with safe bal balanced_move(1) [OF _ call(2)] show ?thesis by (simp add: bq_inv_def)
  next
    case (spurious i c)
    with safe bal balanced_move(2) [OF _ spurious(2)] show ?thesis by (simp add: bq_inv_def)
  next
    case (try_put i v b ths)
    with safe bal balanced_try(1) show ?thesis by (fastforce simp: bq_inv_def body_defs split: if_splits)
  next
    case (try_get i v b ths)
    then obtain vs where q: "m_queue (bq s) = v # vs" "m_queue b = vs" "m_capacity b = m_capacity (bq s)"
      by (auto simp: body_defs split: list.splits)
    with try_get safe bal balanced_try(2) [of "Suc (length vs)" "unat (m_capacity (bq s))" "threads s" ths]
    show ?thesis by (auto simp: bq_inv_def)
  qed
qed

lemma bq_inv_new: "bq_inv (system_new cap n)"
proof -
  have "count_if P (replicate n Idle) = (if P Idle then n else 0)" for P :: "'a thread \<Rightarrow> bool"
    by (simp add: count_if_def)
  then show ?thesis using bq_safe_new [of cap n] by (simp add: bq_inv_def system_new_def BlockingQueue_new_def balanced_def)
qed

lemma bq_prompt_inv: "prompt_step\<^sup>*\<^sup>* (system_new cap n) s \<Longrightarrow> bq_inv s"
  by (induction rule: rtranclp_induct) (auto intro: bq_inv_new bq_step_inv)

definition no_front :: "'a system \<Rightarrow> bool" where
  "no_front s \<longleftrightarrow> (\<forall>v. Ready (CPushFront v) \<notin> set (threads s) \<and> Waiting (CPushFront v) \<notin> set (threads s))"

definition fifo :: "'a system \<Rightarrow> bool" where
  "fifo s \<longleftrightarrow> pushed s = popped s @ m_queue (bq s)"

lemma bq_act_fifo:
  assumes "bq_act i s t" and "no_front s" and "fifo s"
  shows "fifo t"
  using assms(1)
proof cases
  case (put c b ths)
  then have "c \<noteq> CPushFront v" for v using assms(2) nth_mem [OF put(2)] by (auto simp: no_front_def)
  then have "m_queue b = m_queue (bq s) @ put_value c"
    using put(5) by (auto simp: body_defs split: call.splits if_splits)
  with put(1) assms(3) show ?thesis by (simp add: fifo_def)
qed (use assms(3) in \<open>auto simp: fifo_def body_defs split: if_splits list.splits\<close>)

lemma bq_step_fifo:
  assumes "bq_step s t" and "no_front s" and "fifo s"
  shows "fifo t"
  using assms(1)
proof cases
  case (act i)
  then show ?thesis using bq_act_fifo assms(2,3) by blast
qed (use assms(3) in \<open>auto simp: fifo_def body_defs split: if_splits list.splits\<close>)

section \<open>The contract: an atomic bounded buffer\<close>

text \<open>
  What the queue promises, without threads, locks and condition variables: contents, the values put
  and the values taken so far; every operation is one step, possible when there is room or a value.
\<close>

type_synonym 'a buffer = "'a list \<times> 'a list \<times> 'a list"

inductive buffer_step :: "nat \<Rightarrow> 'a buffer \<Rightarrow> 'a buffer \<Rightarrow> bool" for cap where
  put: "length q < cap \<Longrightarrow> buffer_step cap (q, ps, gs) (q @ [v], ps @ [v], gs)"
| put_front: "length q < cap \<Longrightarrow> buffer_step cap (q, ps, gs) (v # q, ps @ [v], gs)"
| get: "buffer_step cap (v # q, ps, gs) (q, ps, gs @ [v])"

definition buffer_of :: "'a system \<Rightarrow> 'a buffer" where
  "buffer_of s = (m_queue (bq s), pushed s, popped s)"

definition bq_match :: "u64 \<Rightarrow> 'a system \<Rightarrow> 'a buffer \<Rightarrow> bool" where
  "bq_match cap s b \<longleftrightarrow> m_capacity (bq s) = cap \<and> b = buffer_of s"

lemma put_body_buffer:
  assumes "put_body c (bq s) = Some b"
  shows "buffer_step (unat (m_capacity (bq s))) (buffer_of s) (m_queue b, pushed s @ put_value c, popped s)"
  using assms by (cases c) (auto simp: body_defs buffer_of_def not_le intro: buffer_step.intros split: if_splits)

lemma Pop_body_buffer:
  assumes "Pop_body (bq s) = Some (v, b)"
  shows "buffer_step cap (buffer_of s) (m_queue b, pushed s, popped s @ [v])"
  using assms by (auto simp: Pop_body_Some buffer_of_def intro: buffer_step.intros)

lemma bq_act_buffer:
  assumes "bq_act i s t"
  shows "m_capacity (bq t) = m_capacity (bq s) \<and>
     (buffer_step (unat (m_capacity (bq s))) (buffer_of s) (buffer_of t) \<or> buffer_of t = buffer_of s)"
  using assms
proof cases
  case (put c b ths)
  with put_body_Some(3) [OF put(5)] put_body_buffer [OF put(5)] show ?thesis by (simp add: buffer_of_def)
next
  case (get c v b ths)
  with Pop_body_buffer [OF get(5)] show ?thesis by (simp add: buffer_of_def Pop_body_Some)
qed (simp_all add: buffer_of_def)

lemma bq_step_buffer:
  assumes "bq_step s t"
  shows "m_capacity (bq t) = m_capacity (bq s) \<and>
     (buffer_step (unat (m_capacity (bq s))) (buffer_of s) (buffer_of t) \<or> buffer_of t = buffer_of s)"
  using assms
proof cases
  case (act i)
  then show ?thesis by (rule bq_act_buffer)
next
  case (try_put i v b ths)
  then show ?thesis by (auto simp: body_defs buffer_of_def not_le intro!: buffer_step.put split: if_splits)
next
  case (try_get i v b ths)
  then show ?thesis by (auto simp: body_defs buffer_of_def intro: buffer_step.get split: list.splits)
qed (simp_all add: buffer_of_def)

interpretation buffer_sim: simulation bq_step "buffer_step (unat cap)" "bq_match cap" for cap :: u64
proof
  fix s t :: "'a system" and b
  assume st: "bq_step s t" and m: "bq_match cap s b"
  from bq_step_buffer [OF st] m consider "buffer_step (unat cap) b (buffer_of t)" "bq_match cap t (buffer_of t)"
    | "bq_match cap t b" by (auto simp: bq_match_def)
  then show "\<exists>b'. (buffer_step (unat cap))\<^sup>*\<^sup>* b b' \<and> bq_match cap t b'"
    by cases blast+
qed

lemma bq_reachable_capacity:
  assumes "bq_step\<^sup>*\<^sup>* (system_new cap n) s"
  shows "m_capacity (bq s) = cap"
proof -
  have "bq_match cap (system_new cap n) (buffer_of (system_new cap n))"
    by (simp add: bq_match_def system_new_def BlockingQueue_new_def)
  from buffer_sim.follow_run [OF assms this] show ?thesis by (auto simp: bq_match_def)
qed

section \<open>For the clients of a queue\<close>

text \<open>What one act of a thread leaves alone, and what it does to a thread that pushes or pops.\<close>

lemma wake_cases: "wake t = t \<or> (\<exists>c. t = Waiting c \<and> wake t = wake (Waiting c))"
  by (cases t) auto

lemma notify_one_frame:
  assumes "notify_one p ths ths'"
  shows "length ths' = length ths" and "ths' ! j = ths ! j \<or> (\<exists>c. ths ! j = Waiting c \<and> ths' ! j = wake (Waiting c))"
proof -
  from assms consider k where "k < length ths" "ths' = ths[k := wake (ths ! k)]" | "ths' = ths"
    by (auto simp: notify_one_def)
  then have "length ths' = length ths \<and> (ths' ! j = ths ! j \<or> (\<exists>c. ths ! j = Waiting c \<and> ths' ! j = wake (Waiting c)))"
  proof cases
    case 1
    then show ?thesis using wake_cases [of "ths ! k"] by (cases "j = k") auto
  qed simp
  then show "length ths' = length ths" and "ths' ! j = ths ! j \<or> (\<exists>c. ths ! j = Waiting c \<and> ths' ! j = wake (Waiting c))"
    by blast+
qed

lemma notify_one_idle:
  assumes "notify_one p (ths[i := Idle]) ths'" and "i < length ths"
  shows "ths' ! i = Idle" and "length ths' = length ths"
    and "j \<noteq> i \<Longrightarrow> ths' ! j = ths ! j \<or> (\<exists>c. ths ! j = Waiting c \<and> ths' ! j = wake (Waiting c))"
  using notify_one_frame(1) [OF assms(1)] notify_one_frame(2) [OF assms(1), of i] assms(2)
    notify_one_frame(2) [OF assms(1), of j] by auto

lemma bq_act_frame:
  assumes "bq_act i s t"
  shows "i < length (threads s)" and "length (threads t) = length (threads s)"
    and "m_capacity (bq t) = m_capacity (bq s)"
    and "j \<noteq> i \<Longrightarrow> threads t ! j = threads s ! j \<or> (\<exists>c. threads s ! j = Waiting c \<and> threads t ! j = wake (Waiting c))"
proof -
  show "m_capacity (bq t) = m_capacity (bq s)" using bq_act_buffer [OF assms] by simp
  from assms show "i < length (threads s)" by cases
  from assms show "length (threads t) = length (threads s)" by cases (auto dest: notify_one_idle(2))
  assume "j \<noteq> i"
  from assms show "threads t ! j = threads s ! j \<or> (\<exists>c. threads s ! j = Waiting c \<and> threads t ! j = wake (Waiting c))"
  proof cases
    case (put c b ths)
    with notify_one_idle(3) [OF put(6,2), of j] \<open>j \<noteq> i\<close> show ?thesis by simp
  next
    case (get c v b ths)
    with notify_one_idle(3) [OF get(6,2), of j] \<open>j \<noteq> i\<close> show ?thesis by simp
  qed (use \<open>j \<noteq> i\<close> in simp_all)
qed

lemma bq_act_push:
  assumes "bq_act i s t" and "threads s ! i = Ready (CPush v) \<or> threads s ! i = Waiting (CPush v)"
  shows "threads s ! i = Ready (CPush v) \<and>
     ((threads t ! i = Idle \<and> buffer_of t = (m_queue (bq s) @ [v], pushed s @ [v], popped s)) \<or>
      (threads t ! i = Waiting (CPush v) \<and> buffer_of t = buffer_of s))"
  using assms(1)
proof cases
  case (put c b ths)
  then show ?thesis using assms(2) notify_one_idle(1) [OF put(6,2)]
    by (auto simp: buffer_of_def body_defs split: if_splits)
qed (use assms(2) in \<open>auto simp: buffer_of_def\<close>)

lemma bq_act_pop:
  assumes "bq_act i s t" and "threads s ! i = Ready CPop \<or> threads s ! i = Waiting CPop"
  shows "threads s ! i = Ready CPop \<and>
     ((threads t ! i = Idle \<and> (\<exists>v. m_queue (bq s) = v # m_queue (bq t) \<and> popped t = popped s @ [v] \<and>
         pushed t = pushed s)) \<or>
      (threads t ! i = Waiting CPop \<and> buffer_of t = buffer_of s))"
  using assms(1)
proof cases
  case (get c v b ths)
  then show ?thesis using assms(2) notify_one_idle(1) [OF get(6,2)] by (auto simp: Pop_body_Some)
qed (use assms(2) in \<open>auto simp: buffer_of_def\<close>)

text \<open>A thread that is awake can act; when none is, those who wait have a reason.\<close>

lemma notify_one_exists: "\<exists>ths'. notify_one p ths ths'"
proof (cases "\<exists>t\<in>set ths. waits p t")
  case True
  then show ?thesis by (auto simp: notify_one_def in_set_conv_nth)
next
  case False
  then show ?thesis by (intro exI [of _ ths]) (simp add: notify_one_def)
qed

lemma bq_act_enabled:
  assumes "i < length (threads s)" and "threads s ! i = Ready c"
  shows "\<exists>t. bq_act i s t"
proof (cases "is_pop c")
  case True
  obtain ths where n: "notify_one False ((threads s)[i := Idle]) ths" using notify_one_exists by blast
  show ?thesis
  proof (cases "Pop_body (bq s)")
    case None
    then show ?thesis using bq_act.get_wait [OF assms True] by blast
  next
    case (Some r)
    then show ?thesis using bq_act.get [OF assms True _ n] by (cases r) blast
  qed
next
  case False
  obtain ths where n: "notify_one True ((threads s)[i := Idle]) ths" using notify_one_exists by blast
  show ?thesis
  proof (cases "put_body c (bq s)")
    case None
    then show ?thesis using bq_act.put_wait [OF assms False] by blast
  next
    case (Some b)
    then show ?thesis using bq_act.put [OF assms False _ n] by blast
  qed
qed

lemma bq_asleep:
  assumes "bq_inv s" and "\<forall>i c. i < length (threads s) \<longrightarrow> threads s ! i \<noteq> Ready c \<and> threads s ! i \<noteq> Woken c"
    and "i < length (threads s)" and "threads s ! i = Waiting c"
  shows "if is_pop c then m_queue (bq s) = [] else unat (m_capacity (bq s)) \<le> length (m_queue (bq s))"
proof -
  have no: "count_if (ready p) (threads s) = 0" for p
  proof -
    have "\<not> ready p t" if "t \<in> set (threads s)" for t
    proof -
      from that obtain j where "j < length (threads s)" "threads s ! j = t" by (auto simp: in_set_conv_nth)
      with assms(2) show ?thesis by (cases t) auto
    qed
    then show ?thesis using count_pos [of "ready p" "threads s"] by auto
  qed
  have "waits (is_pop c) (threads s ! i)" using assms(4) by simp
  then have "0 < count_if (waits (is_pop c)) (threads s)" using assms(3) nth_mem count_pos by blast
  with no assms(1) show ?thesis by (auto simp: bq_inv_def balanced_def)
qed

text \<open>
  A weight for the progress of the threads: a call lowers it by one, every act that does not return from
  a call lowers it, and an act that returns raises it by at most two (a thread without a time-out).
\<close>

fun thread_weight :: "'a thread \<Rightarrow> nat" where
  "thread_weight Idle = 3" | "thread_weight (Ready _) = 2" | "thread_weight (Woken _) = 2" | "thread_weight (Waiting _) = 1"

definition threads_weight :: "'a system \<Rightarrow> nat" where
  "threads_weight s = sum_list (map thread_weight (threads s))"

lemma notify_one_weight:
  assumes "notify_one p ths ths'"
  shows "sum_list (map thread_weight ths') \<le> Suc (sum_list (map thread_weight ths))"
proof -
  from assms consider k where "k < length ths" "ths' = ths[k := wake (ths ! k)]" | "ths' = ths"
    by (auto simp: notify_one_def)
  then show ?thesis
  proof cases
    case 1
    have "thread_weight (wake (ths ! k)) \<le> Suc (thread_weight (ths ! k))" by (cases "ths ! k") auto
    with sum_list_update_nat [OF 1(1), of thread_weight "wake (ths ! k)"] 1(2) show ?thesis by simp
  qed simp
qed

lemma bq_act_weight:
  assumes "bq_act i s t" and "\<And>c. threads s ! i \<noteq> Woken c"
  shows "threads_weight t \<le> threads_weight s + 2" and "threads t ! i \<noteq> Idle \<Longrightarrow> threads_weight t < threads_weight s"
proof -
  have i: "i < length (threads s)" by (rule bq_act_frame(1) [OF assms(1)])
  note u = sum_list_update_nat [OF i, of thread_weight]
  have "threads_weight t \<le> threads_weight s + 2 \<and> (threads t ! i \<noteq> Idle \<longrightarrow> threads_weight t < threads_weight s)"
    using assms(1)
  proof cases
    case (put c b ths)
    with u [of Idle] notify_one_weight [OF put(6)] notify_one_idle(1) [OF put(6,2)]
    show ?thesis by (simp add: threads_weight_def)
  next
    case (get c v b ths)
    with u [of Idle] notify_one_weight [OF get(6)] notify_one_idle(1) [OF get(6,2)]
    show ?thesis by (simp add: threads_weight_def)
  next
    case (put_wait c)
    with u [of "Waiting c"] show ?thesis by (simp add: threads_weight_def)
  next
    case (get_wait c)
    with u [of "Waiting c"] show ?thesis by (simp add: threads_weight_def)
  next
    case (timeout c)
    with u [of Idle] show ?thesis by (simp add: threads_weight_def)
  qed (use assms(2) in simp_all)
  then show "threads_weight t \<le> threads_weight s + 2"
    and "threads t ! i \<noteq> Idle \<Longrightarrow> threads_weight t < threads_weight s" by blast+
qed

lemma threads_weight_set:
  assumes "i < length (threads s)"
  shows "threads_weight (s\<lparr>threads := (threads s)[i := th]\<rparr>) + thread_weight (threads s ! i) =
     threads_weight s + thread_weight th"
  using sum_list_update_nat [OF assms, of thread_weight th] by (simp add: threads_weight_def)

text \<open>
  The state of a queue whose threads run programs: \<open>w i\<close> is the call that thread \<open>i\<close> has come to, if it has
  come to one (the programs considered use \<open>Push\<close> and \<open>Pop\<close>); only such threads are inside a call.
\<close>

definition plain_calls :: "(nat \<Rightarrow> 'a call option) \<Rightarrow> bool" where
  "plain_calls w \<longleftrightarrow> (\<forall>i. w i = None \<or> w i = Some CPop \<or> (\<exists>v. w i = Some (CPush v)))"

definition served :: "(nat \<Rightarrow> 'a call option) \<Rightarrow> 'a thread list \<Rightarrow> bool" where
  "served w ths \<longleftrightarrow> (\<forall>i<length ths. ths ! i \<noteq> Idle \<longrightarrow> (\<exists>c. w i = Some c \<and> (ths ! i = Ready c \<or> ths ! i = Waiting c)))"

definition queue_at :: "(nat \<Rightarrow> 'a call option) \<Rightarrow> u64 \<Rightarrow> 'a system \<Rightarrow> bool" where
  "queue_at w cap q \<longleftrightarrow> bq_inv q \<and> fifo q \<and> m_capacity (bq q) = cap \<and> served w (threads q)"

lemma plain_callsD: "plain_calls w \<Longrightarrow> w i = Some c \<Longrightarrow> c = CPop \<or> (\<exists>v. c = CPush v)"
  unfolding plain_calls_def by (metis option.distinct(1) option.inject)

lemma bq_act_busy: "bq_act i s t \<Longrightarrow> threads s ! i \<noteq> Idle"
  by (cases rule: bq_act.cases) auto

lemma plain_calls_no_front:
  assumes "plain_calls w" and "served w (threads q)"
  shows "no_front q"
proof -
  have "threads q ! i \<noteq> Ready (CPushFront v) \<and> threads q ! i \<noteq> Waiting (CPushFront v)"
    if i: "i < length (threads q)" for i v
  proof (cases "threads q ! i = Idle")
    case False
    with assms(2) i obtain c where "w i = Some c" "threads q ! i = Ready c \<or> threads q ! i = Waiting c"
      by (auto simp: served_def)
    with plain_callsD [OF assms(1), of i c] show ?thesis by auto
  qed simp
  then show ?thesis by (auto simp: no_front_def in_set_conv_nth)
qed

lemma queue_at_new: "queue_at w cap (system_new cap n)"
  using bq_inv_new [of cap n] by (simp add: queue_at_def fifo_def served_def system_new_def BlockingQueue_new_def)

text \<open>Nobody in such a queue has a time-out.\<close>

lemma served_not_woken: "served w ths \<Longrightarrow> i < length ths \<Longrightarrow> ths ! i \<noteq> Woken c"
  by (auto simp: served_def)

lemma served_no_gives_up: "served w (threads q) \<Longrightarrow> \<not> gives_up q r"
  using served_not_woken by (fastforce simp: gives_up_def)

lemma queue_at_inv:
  assumes "queue_at w cap q" and "bq_step q r"
  shows "bq_inv r"
proof (rule bq_step_inv)
  have "served w (threads q)" using assms(1) by (simp add: queue_at_def)
  from served_no_gives_up [OF this] assms(2) show "prompt_step q r" by (simp add: prompt_step_def)
qed (use assms(1) in \<open>simp add: queue_at_def\<close>)

lemma queue_at_act_weight:
  assumes "queue_at w cap q" and "bq_act i q r"
  shows "threads_weight r \<le> threads_weight q + 2" and "threads r ! i \<noteq> Idle \<Longrightarrow> threads_weight r < threads_weight q"
  using bq_act_weight [OF assms(2)] served_not_woken [of w "threads q" i] assms bq_act_frame(1) [OF assms(2)]
  by (simp_all add: queue_at_def)

lemma queue_at_call:
  assumes "queue_at w cap q" and "w i = Some c" and "i < length (threads q)" and "threads q ! i = Idle"
  shows "queue_at w cap (q\<lparr>threads := (threads q)[i := Ready c]\<rparr>)"
proof -
  have "bq_inv (q\<lparr>threads := (threads q)[i := Ready c]\<rparr>)"
    by (rule queue_at_inv [OF assms(1) bq_step.call [OF assms(3,4)]])
  with assms show ?thesis by (auto simp: queue_at_def fifo_def served_def nth_list_update)
qed

lemma queue_at_spurious:
  assumes "queue_at w cap q" and "i < length (threads q)" and "threads q ! i = Waiting c"
  shows "queue_at w cap (q\<lparr>threads := (threads q)[i := Ready c]\<rparr>)"
proof -
  have "bq_inv (q\<lparr>threads := (threads q)[i := Ready c]\<rparr>)"
    by (rule queue_at_inv [OF assms(1) bq_step.spurious [OF assms(2,3)]])
  moreover have "w i = Some c" using assms by (auto simp: queue_at_def served_def)
  ultimately show ?thesis using assms by (auto simp: queue_at_def fifo_def served_def nth_list_update)
qed

lemma queue_at_act:
  assumes "queue_at w cap q" and "plain_calls w" and a: "bq_act i q r"
    and "\<And>j. j \<noteq> i \<Longrightarrow> w' j = w j" and "threads r ! i \<noteq> Idle \<Longrightarrow> w' i = w i"
  shows "queue_at w' cap r"
proof -
  note f = bq_act_frame [OF a]
  have sv: "served w (threads q)" using assms(1) by (simp add: queue_at_def)
  have "\<exists>c. w' j = Some c \<and> (threads r ! j = Ready c \<or> threads r ! j = Waiting c)"
    if j: "j < length (threads r)" "threads r ! j \<noteq> Idle" for j
  proof (cases "j = i")
    case False
    show ?thesis
    proof (cases "threads r ! j = threads q ! j")
      case True
      with assms(4) [OF False] sv j f(2) show ?thesis by (simp add: served_def)
    next
      case other: False
      with f(4) [OF False] obtain c where c: "threads q ! j = Waiting c" "threads r ! j = wake (Waiting c)" by blast
      then have "w j = Some c" using sv j f(2) by (auto simp: served_def)
      with plain_callsD [OF assms(2)] c assms(4) [OF False] show ?thesis by fastforce
    qed
  next
    case True
    obtain c where c: "w i = Some c" "threads q ! i = Ready c \<or> threads q ! i = Waiting c"
      using sv f(1) bq_act_busy [OF a] by (auto simp: served_def)
    then have "c = CPop \<or> (\<exists>v. c = CPush v)" using plain_callsD [OF assms(2)] by blast
    then have "threads r ! i = Waiting c"
      using bq_act_pop [OF a] bq_act_push [OF a] c(2) j(2) True by auto
    with True assms(5) c j(2) show ?thesis by auto
  qed
  then have "served w' (threads r)" by (auto simp: served_def)
  moreover have "bq_inv r" "fifo r"
    using queue_at_inv [OF assms(1) bq_step.act [OF a]] bq_act_fifo [OF a] plain_calls_no_front [OF assms(2) sv] assms(1)
    by (auto simp: queue_at_def)
  ultimately show ?thesis using assms(1) f(3) by (simp add: queue_at_def)
qed

lemma queue_at_other:
  assumes "queue_at w cap q" and "\<And>j. j < length (threads q) \<Longrightarrow> threads q ! j \<noteq> Idle \<Longrightarrow> w' j = w j"
  shows "queue_at w' cap q"
  using assms by (auto simp: queue_at_def served_def)

text \<open>An act is the push or the pop that its thread has come to, or its decision to wait.\<close>

lemma queue_at_act_cases [consumes 3, case_names push pop wait]:
  assumes "queue_at w cap q" and a: "bq_act i q r" and "plain_calls w"
  obtains v where "w i = Some (CPush v)" "threads r ! i = Idle" "m_queue (bq r) = m_queue (bq q) @ [v]"
      "pushed r = pushed q @ [v]" "popped r = popped q"
  | v where "w i = Some CPop" "threads r ! i = Idle" "m_queue (bq q) = v # m_queue (bq r)"
      "pushed r = pushed q" "popped r = popped q @ [v]"
  | "threads r ! i \<noteq> Idle" "m_queue (bq r) = m_queue (bq q)" "pushed r = pushed q" "popped r = popped q"
proof -
  obtain c where c: "w i = Some c" "threads q ! i = Ready c \<or> threads q ! i = Waiting c"
    using assms(1) bq_act_frame(1) [OF a] bq_act_busy [OF a] by (auto simp: queue_at_def served_def)
  with plain_callsD [OF assms(3)] consider "c = CPop" | v where "c = CPush v" by blast
  then show ?thesis
  proof cases
    case 1
    with c bq_act_pop [OF a] that(2,3) show ?thesis by (auto simp: buffer_of_def)
  next
    case (2 v)
    with c bq_act_push [OF a, of v] that(1,3) show ?thesis by (auto simp: buffer_of_def)
  qed
qed

text \<open>
  When no thread can act and none can start its call, a thread that has come to a push waits for room,
  one that has come to a pop waits for a value.
\<close>

lemma queue_at_stuck:
  assumes "queue_at w cap q" and "\<And>i r. \<not> bq_act i q r"
    and "\<And>i. i < length (threads q) \<Longrightarrow> w i \<noteq> None \<Longrightarrow> threads q ! i \<noteq> Idle"
    and "i < length (threads q)" and "w i = Some c"
  shows "if is_pop c then m_queue (bq q) = [] else unat cap \<le> length (m_queue (bq q))"
proof -
  have no: "\<forall>i c. i < length (threads q) \<longrightarrow> threads q ! i \<noteq> Ready c \<and> threads q ! i \<noteq> Woken c"
    using bq_act_enabled assms(1,2) served_not_woken by (metis queue_at_def)
  have "threads q ! i = Waiting c"
    using assms(1,4,5) no assms(3) [OF assms(4)] by (auto simp: queue_at_def served_def)
  with bq_asleep [OF _ no assms(4)] assms(1) show ?thesis by (auto simp: queue_at_def)
qed

section \<open>Properties\<close>

text \<open>
  However any number of threads interleave their calls, with time-outs and spurious wake-ups, the
  queue never holds more than its capacity, and every value pushed is either still in the queue
  or was popped, exactly as often as it was pushed.
\<close>

theorem queue_conserves:
  assumes "bq_step\<^sup>*\<^sup>* (system_new cap n) s"
  shows "length (m_queue (bq s)) \<le> unat (m_capacity (bq s)) \<and>
     mset (pushed s) = mset (popped s) + mset (m_queue (bq s))"
  using bq_reachable_safe [OF assms] by (simp add: bq_safe_def)

lemma push_run:
  "bq_step\<^sup>*\<^sup>* (system_new 3 1) \<lparr>bq = \<lparr>m_queue = [x], m_capacity = 3\<rparr>, threads = [Idle],
     pushed = [x], popped = []\<rparr>"
proof -
  have "bq_step (system_new 3 1) ((system_new 3 1)\<lparr>bq := \<lparr>m_queue = [x], m_capacity = 3\<rparr>,
      threads := [Idle], pushed := pushed (system_new 3 1) @ [x]\<rparr>)"
    by (rule bq_step.try_put [of 0])
      (auto simp: system_new_def BlockingQueue_new_def TryPush_def queue_full_def notify_one_def)
  then show ?thesis by (auto simp: system_new_def)
qed


lemma prompt_stepI: "bq_step s t \<Longrightarrow> \<forall>i<length (threads s). \<forall>c. threads s ! i \<noteq> Woken c \<Longrightarrow> prompt_step s t"
  by (auto simp: prompt_step_def gives_up_def)

abbreviation queue_state :: "nat list \<Rightarrow> u64 \<Rightarrow> nat thread list \<Rightarrow> nat list \<Rightarrow> nat list \<Rightarrow> nat system" where
  "queue_state q cap ths ps gs \<equiv> \<lparr>bq = \<lparr>m_queue = q, m_capacity = cap\<rparr>, threads = ths, pushed = ps, popped = gs\<rparr>"

lemma woken_run:
  "\<exists>s :: nat system. prompt_step\<^sup>*\<^sup>* (system_new 3 3) s \<and> threads s = [Woken CPopTimed, Waiting CPop, Idle] \<and> m_queue (bq s) = [7]"
proof -
  have new: "system_new 3 3 = queue_state [] 3 [Idle, Idle, Idle] [] []"
    by (simp add: system_new_def BlockingQueue_new_def eval_nat_numeral)
  have "prompt_step (queue_state [] 3 [Idle, Idle, Idle] [] []) (queue_state [] 3 [Ready CPopTimed, Idle, Idle] [] [])"
    using bq_step.call [of 0 "queue_state [] 3 [Idle, Idle, Idle] [] []" CPopTimed] by (intro prompt_stepI) (auto simp: less_Suc_eq)
  moreover have "prompt_step (queue_state [] 3 [Ready CPopTimed, Idle, Idle] [] []) (queue_state [] 3 [Waiting CPopTimed, Idle, Idle] [] [])"
    using bq_act.get_wait [of 0 "queue_state [] 3 [Ready CPopTimed, Idle, Idle] [] []" CPopTimed]
    by (intro prompt_stepI bq_step.act [of 0]) (auto simp: body_defs less_Suc_eq)
  moreover have "prompt_step (queue_state [] 3 [Waiting CPopTimed, Idle, Idle] [] []) (queue_state [] 3 [Waiting CPopTimed, Ready CPop, Idle] [] [])"
    using bq_step.call [of 1 "queue_state [] 3 [Waiting CPopTimed, Idle, Idle] [] []" CPop] by (intro prompt_stepI) (auto simp: less_Suc_eq)
  moreover have "prompt_step (queue_state [] 3 [Waiting CPopTimed, Ready CPop, Idle] [] []) (queue_state [] 3 [Waiting CPopTimed, Waiting CPop, Idle] [] [])"
    using bq_act.get_wait [of 1 "queue_state [] 3 [Waiting CPopTimed, Ready CPop, Idle] [] []" CPop]
    by (intro prompt_stepI bq_step.act [of 1]) (auto simp: body_defs less_Suc_eq)
  moreover have "notify_one True [Waiting CPopTimed, Waiting CPop, Idle] [Woken CPopTimed, Waiting CPop, Idle :: nat thread]"
    unfolding notify_one_def by (intro disjI1 exI [of _ 0]) simp
  then have "prompt_step (queue_state [] 3 [Waiting CPopTimed, Waiting CPop, Idle] [] []) (queue_state [7] 3 [Woken CPopTimed, Waiting CPop, Idle] [7] [])"
    using bq_step.try_put [of 2 "queue_state [] 3 [Waiting CPopTimed, Waiting CPop, Idle] [] []" 7 "\<lparr>m_queue = [7], m_capacity = 3\<rparr>"]
    by (intro prompt_stepI) (auto simp: body_defs less_Suc_eq)
  ultimately have "prompt_step\<^sup>*\<^sup>* (system_new 3 3) (queue_state [7] 3 [Woken CPopTimed, Waiting CPop, Idle] [7] [])"
    unfolding new by (meson converse_rtranclp_into_rtranclp rtranclp.rtrancl_refl)
  then show ?thesis by (intro exI [of _ "queue_state [7] 3 [Woken CPopTimed, Waiting CPop, Idle] [7] []"]) simp
qed


theorem queue_conserves_witness:
  "bq_step\<^sup>*\<^sup>* (system_new 3 1) \<lparr>bq = \<lparr>m_queue = [7 :: nat], m_capacity = 3\<rparr>, threads = [Idle],
     pushed = [7], popped = []\<rparr> \<and> length [7 :: nat] \<le> unat (3 :: u64)"
  using push_run [of 7] queue_conserves [OF push_run [of "7 :: nat"]] by simp

text \<open>
  C12: no wake-up is lost, except to a thread that was notified and leaves with a time-out all the same. In every
  run without that: whenever a thread waits to pop although the queue has an element, another
  popping thread is already awake and will take the lock; whenever a thread waits to push although
  the queue has room, another pushing thread is awake. So if nobody is awake, waiting poppers mean
  an empty queue and waiting pushers a full one.
\<close>

theorem queue_no_lost_wakeup:
  assumes "prompt_step\<^sup>*\<^sup>* (system_new cap n) s"
  shows "((\<exists>t\<in>set (threads s). waits True t) \<and> m_queue (bq s) \<noteq> [] \<longrightarrow>
            (\<exists>t\<in>set (threads s). ready True t)) \<and>
         ((\<exists>t\<in>set (threads s). waits False t) \<and> \<not> queue_full (bq s) \<longrightarrow>
            (\<exists>t\<in>set (threads s). ready False t))"
proof -
  have "balanced (length (m_queue (bq s))) (unat (m_capacity (bq s))) (threads s)"
    using bq_prompt_inv [OF assms] by (simp add: bq_inv_def)
  then show ?thesis
    unfolding balanced_def count_pos [symmetric] queue_full_def length_greater_0_conv [symmetric]
    by linarith
qed

theorem queue_no_lost_wakeup_witness:
  "\<exists>s :: nat system. prompt_step\<^sup>*\<^sup>* (system_new 3 3) s \<and> threads s = [Woken CPopTimed, Waiting CPop, Idle] \<and>
     m_queue (bq s) = [7] \<and> (\<exists>t\<in>set (threads s). ready True t)"
proof -
  obtain s :: "nat system" where s: "prompt_step\<^sup>*\<^sup>* (system_new 3 3) s" "threads s = [Woken CPopTimed, Waiting CPop, Idle]"
    "m_queue (bq s) = [7]" using woken_run by blast
  from queue_no_lost_wakeup [OF s(1)] s(2,3) have "\<exists>t\<in>set (threads s). ready True t" by simp
  with s show ?thesis by blast
qed


text \<open>
  C5: the blocking queue is an atomic bounded buffer. Whatever the threads do, every run of theirs, with
  its waiting, notifications, time-outs (also of threads that have been notified) and spurious wake-ups, is a run of the buffer in which each
  push and each pop is a single step that happens only when there is room or a value.
\<close>

theorem queue_refines_buffer:
  assumes "bq_step\<^sup>*\<^sup>* (system_new cap n) s"
  shows "(buffer_step (unat cap))\<^sup>*\<^sup>* ([], [], []) (m_queue (bq s), pushed s, popped s)"
proof -
  have "bq_match cap (system_new cap n) ([], [], [])"
    by (simp add: bq_match_def buffer_of_def system_new_def BlockingQueue_new_def)
  from buffer_sim.follow_run [OF assms this] show ?thesis by (auto simp: bq_match_def buffer_of_def)
qed

theorem queue_refines_buffer_witness:
  "(buffer_step 3)\<^sup>*\<^sup>* ([], [], []) ([7 :: nat], [7], [])"
  using queue_refines_buffer [OF push_run [of "7 :: nat"]] by simp

text \<open>
  First in, first out. As long as no thread uses \<open>PushFront\<close>, the values popped so far, followed
  by the contents of the queue, are the values pushed so far, in the order of pushing.
\<close>

theorem queue_fifo:
  assumes "(\<lambda>s t. bq_step s t \<and> no_front t)\<^sup>*\<^sup>* (system_new cap n) s"
  shows "pushed s = popped s @ m_queue (bq s)"
proof -
  from assms have "no_front s \<and> fifo s"
  proof (induction rule: rtranclp_induct)
    case base
    then show ?case by (simp add: no_front_def fifo_def system_new_def BlockingQueue_new_def)
  qed (auto intro: bq_step_fifo)
  then show ?thesis by (simp add: fifo_def)
qed

theorem queue_fifo_witness:
  "pushed \<lparr>bq = \<lparr>m_queue = [7 :: nat], m_capacity = 3\<rparr>, threads = [Idle], pushed = [7], popped = []\<rparr> = [7]"
proof -
  let ?t = "\<lparr>bq = \<lparr>m_queue = [7 :: nat], m_capacity = 3\<rparr>, threads = [Idle], pushed = [7], popped = []\<rparr>"
  have "bq_step (system_new 3 1) ((system_new 3 1)\<lparr>bq := \<lparr>m_queue = [7 :: nat], m_capacity = 3\<rparr>,
      threads := [Idle], pushed := pushed (system_new 3 1) @ [7]\<rparr>)"
    by (rule bq_step.try_put [of 0])
      (auto simp: system_new_def BlockingQueue_new_def TryPush_def queue_full_def notify_one_def)
  then have "(\<lambda>s t. bq_step s t \<and> no_front t)\<^sup>*\<^sup>* (system_new 3 1) ?t"
    by (auto simp: system_new_def no_front_def)
  from queue_fifo [OF this] show ?thesis by simp
qed

text \<open>
  \<open>SetCapacity\<close> does not notify. There is a reachable state in which a thread waits to push;
  after the capacity is raised the queue has room, yet the thread still waits and no thread is
  awake to push.
\<close>

theorem SetCapacity_does_not_wake:
  "\<exists>s :: nat system. bq_step\<^sup>*\<^sup>* (system_new 0 1) s \<and> threads s = [Waiting (CPush 7)] \<and>
     \<not> queue_full (SetCapacity 5 (bq s))"
proof -
  let ?s0 = "system_new 0 1 :: nat system"
  let ?s1 = "?s0\<lparr>threads := (threads ?s0)[0 := Ready (CPush 7)]\<rparr>"
  let ?s2 = "?s1\<lparr>threads := (threads ?s1)[0 := Waiting (CPush 7)]\<rparr>"
  have "bq_step ?s0 ?s1" by (rule bq_step.call) (simp_all add: system_new_def)
  moreover have "bq_step ?s1 ?s2"
    by (intro bq_step.act [of 0] bq_act.put_wait) (simp_all add: system_new_def body_defs BlockingQueue_new_def)
  ultimately have "bq_step\<^sup>*\<^sup>* ?s0 ?s2" by (meson rtranclp.rtrancl_into_rtrancl rtranclp.rtrancl_refl)
  moreover have "threads ?s2 = [Waiting (CPush 7)]" "\<not> queue_full (SetCapacity 5 (bq ?s2))"
    by (simp_all add: system_new_def queue_full_def SetCapacity_def BlockingQueue_new_def)
  ultimately show ?thesis by blast
qed

end
