(* ===== verification/Ini_File.thy ===== *)
theory Ini_File
  imports Strutil
begin

text \<open>
  \<^verbatim>\<open>include/xfutil/ini_file.h\<close> and \<^verbatim>\<open>src/ini_file.cpp\<close>: reading configuration files. A \<^verbatim>\<open>std::string\<close> is
  its bytes, a \<^verbatim>\<open>std::map\<close> a map; the pointer to the current section is the name of the section
  (elements of a \<^verbatim>\<open>std::map\<close> do not move). The file is its contents, \<^const>\<open>None\<close> when it cannot
  be opened.
\<close>

section \<open>Definitions\<close>

type_synonym IniSection = "bytes \<Rightarrow> bytes option"

record IniFileReader =
  m_sections :: "bytes \<Rightarrow> IniSection option"
  m_curr_section :: "bytes option"

definition IniFileReader_new :: IniFileReader where
  "IniFileReader_new = \<lparr>m_sections = (\<lambda>_. None), m_curr_section = None\<rparr>"

definition IniSection_Set :: "bytes \<Rightarrow> bytes \<Rightarrow> IniSection \<Rightarrow> IniSection" where
  "IniSection_Set key val m = m(key \<mapsto> val)"

definition IniSection_Get :: "bytes \<Rightarrow> IniSection \<Rightarrow> bytes option" where
  "IniSection_Get key m = m key"

definition GetSection :: "bytes \<Rightarrow> IniFileReader \<Rightarrow> IniSection option" where
  "GetSection name r = m_sections r name"

text \<open>The section without a name, and the maps as a whole.\<close>

definition GetSection_unnamed :: "IniFileReader \<Rightarrow> IniSection option" where
  "GetSection_unnamed r = GetSection [] r"

definition GetSections :: "IniFileReader \<Rightarrow> bytes \<Rightarrow> IniSection option" where
  "GetSections r = m_sections r"

definition GetValues :: "IniSection \<Rightarrow> bytes \<Rightarrow> bytes option" where
  "GetValues m = m"

text \<open>\<^verbatim>\<open>std::string::find\<close> and \<^verbatim>\<open>find_first_of\<close>: the first position, at or after \<open>i\<close>, of a byte that satisfies \<open>P\<close>.\<close>

fun find_pos :: "(u8 \<Rightarrow> bool) \<Rightarrow> bytes \<Rightarrow> nat option" where
  "find_pos P [] = None"
| "find_pos P (c # s) = (if P c then Some 0 else map_option Suc (find_pos P s))"

definition find_from :: "(u8 \<Rightarrow> bool) \<Rightarrow> nat \<Rightarrow> bytes \<Rightarrow> nat option" where
  "find_from P i s = map_option (\<lambda>p. p + i) (find_pos P (drop i s))"

definition substr :: "nat \<Rightarrow> nat \<Rightarrow> bytes \<Rightarrow> bytes" where
  "substr pos n s = take n (drop pos s)"

definition TrimValue :: "bytes \<Rightarrow> bytes" where
  "TrimValue value =
     (let new_value = TrimLeft value in
      if new_value = [] then []
      else if new_value ! 0 = 0x22 then
        (case find_from (\<lambda>c. c = 0x22) 1 new_value of
           Some pos \<Rightarrow> substr 1 (pos - 1) new_value
         | None \<Rightarrow> TrimRight new_value)
      else if new_value ! 0 = 0x27 then
        (case find_from (\<lambda>c. c = 0x27) 1 new_value of
           Some pos \<Rightarrow> substr 1 (pos - 1) new_value
         | None \<Rightarrow> TrimRight new_value)
      else
        (case find_from (\<lambda>c. c = 0x3B \<or> c = 0x23) 0 new_value of
           Some pos \<Rightarrow> TrimRight (substr 0 pos new_value)
         | None \<Rightarrow> TrimRight new_value))"

text \<open>\<^verbatim>\<open>m_sections[name]\<close>: the section, made empty when it is not there.\<close>

definition section_at :: "bytes \<Rightarrow> IniFileReader \<Rightarrow> IniFileReader" where
  "section_at name r =
     (case m_sections r name of
        None \<Rightarrow> r\<lparr>m_sections := (m_sections r)(name \<mapsto> (\<lambda>_. None)), m_curr_section := Some name\<rparr>
      | Some _ \<Rightarrow> r\<lparr>m_curr_section := Some name\<rparr>)"

definition curr_Set :: "bytes \<Rightarrow> bytes \<Rightarrow> IniFileReader \<Rightarrow> IniFileReader" where
  "curr_Set key val r =
     (case m_curr_section r of
        None \<Rightarrow> r
      | Some name \<Rightarrow>
          (case m_sections r name of
             None \<Rightarrow> r
           | Some m \<Rightarrow> r\<lparr>m_sections := (m_sections r)(name \<mapsto> IniSection_Set key val m)\<rparr>))"

definition ParseLine :: "bytes \<Rightarrow> IniFileReader \<Rightarrow> IniFileReader" where
  "ParseLine line r =
     (let new_line = TrimLeft line in
      if new_line = [] then r
      else if new_line ! 0 = 0x23 \<or> new_line ! 0 = 0x3B then r
      else if new_line ! 0 = 0x5B then
        (case find_from (\<lambda>c. c = 0x5D) 0 new_line of
           Some pos \<Rightarrow> section_at (substr 1 (pos - 1) new_line) r
         | None \<Rightarrow> r)
      else
        (case find_from (\<lambda>c. c = 0x3D) 0 new_line of
           None \<Rightarrow> r
         | Some pos \<Rightarrow>
             let key = TrimRight (substr 0 pos new_line);
                 val = drop (pos + 1) new_line;
                 val = (if val \<noteq> [] then TrimValue val else val);
                 r = (if m_curr_section r = None then section_at [] r else r)
             in curr_Set key val r))"

text \<open>The lines \<^verbatim>\<open>std::getline\<close> returns until the end of the file is met: one more than there are newlines.\<close>

fun split_lines :: "bytes \<Rightarrow> bytes list" where
  "split_lines [] = [[]]"
| "split_lines (c # s) =
     (if c = 0x0A then [] # split_lines s
      else case split_lines s of l # ls \<Rightarrow> (c # l) # ls | [] \<Rightarrow> [[c]])"

definition IniFileReader_Parse :: "bytes option \<Rightarrow> IniFileReader \<Rightarrow> int \<times> IniFileReader" where
  "IniFileReader_Parse file r =
     (case file of
        None \<Rightarrow> (1, r)
      | Some content \<Rightarrow> (0, fold ParseLine (split_lines content) r))"

section \<open>Specification vocabulary\<close>

text \<open>
  A configuration as data, what it means, and its text: sections with quoted values. Names and
  keys must be such that the text can express them.
\<close>

type_synonym ini_doc = "(bytes \<times> (bytes \<times> bytes) list) list"

definition apply_entries :: "(bytes \<times> bytes) list \<Rightarrow> IniSection \<Rightarrow> IniSection" where
  "apply_entries = fold (\<lambda>(k, v) m. m(k \<mapsto> v))"

definition apply_doc :: "ini_doc \<Rightarrow> (bytes \<Rightarrow> IniSection option) \<Rightarrow> bytes \<Rightarrow> IniSection option" where
  "apply_doc = fold (\<lambda>(name, kvs) ms.
     ms(name \<mapsto> apply_entries kvs (case ms name of None \<Rightarrow> (\<lambda>_. None) | Some m \<Rightarrow> m)))"

fun entry_ok :: "bytes \<times> bytes \<Rightarrow> bool" where
  "entry_ok (k, v) \<longleftrightarrow> 0x3D \<notin> set k \<and> 0x0A \<notin> set k \<and>
     (k = [] \<or> above_space (hd k) \<and> above_space (last k) \<and> hd k \<notin> {0x23, 0x3B, 0x5B}) \<and>
     0x22 \<notin> set v \<and> 0x0A \<notin> set v"

fun section_ok :: "bytes \<times> (bytes \<times> bytes) list \<Rightarrow> bool" where
  "section_ok (name, kvs) \<longleftrightarrow> 0x5D \<notin> set name \<and> 0x0A \<notin> set name \<and> list_all entry_ok kvs"

fun render_entry :: "bytes \<times> bytes \<Rightarrow> bytes" where
  "render_entry (k, v) = k @ [0x3D, 0x22] @ v @ [0x22, 0x0A]"

fun render_section :: "bytes \<times> (bytes \<times> bytes) list \<Rightarrow> bytes" where
  "render_section (name, kvs) = [0x5B] @ name @ [0x5D, 0x0A] @ concat (map render_entry kvs)"

definition render :: "ini_doc \<Rightarrow> bytes" where
  "render d = concat (map render_section d)"

section \<open>Lemmas\<close>

lemma find_pos_append: "\<forall>c\<in>set a. \<not> P c \<Longrightarrow> P x \<Longrightarrow> find_pos P (a @ x # b) = Some (length a)"
  by (induction a) auto

lemma find_pos_None: "find_pos P s = None \<longleftrightarrow> (\<forall>c\<in>set s. \<not> P c)"
  by (induction s) auto

lemma find_pos_takeWhile: "find_pos P s = Some p \<Longrightarrow> take p s = takeWhile (\<lambda>c. \<not> P c) s"
  by (induction s arbitrary: p) (auto split: if_splits)

lemma split_lines_ne [simp]: "split_lines s \<noteq> []"
  by (induction s) (auto split: list.splits)

lemma split_lines_append: "0x0A \<notin> set l \<Longrightarrow> split_lines (l @ 0x0A # s) = l # split_lines s"
  by (induction l) auto

lemma TrimLeft_id: "s = [] \<or> above_space (hd s) \<Longrightarrow> TrimLeft s = s"
  by (cases s) (auto simp: Trim_eq)

lemma TrimRight_id: "s = [] \<or> above_space (last s) \<Longrightarrow> TrimRight s = s"
  by (cases s rule: rev_cases) (auto simp: Trim_eq)

lemma above_space_syntax [simp]:
  "above_space 0x5B" "above_space 0x3D" "above_space 0x22" "above_space 0x27"
  by (simp_all add: above_space_def)

lemma TrimValue_quoted:
  assumes "0x22 \<notin> set v"
  shows "TrimValue (0x22 # v @ [0x22]) = v"
proof -
  have "find_pos (\<lambda>c. c = 0x22) (v @ [0x22]) = Some (length v)"
    using assms by (intro find_pos_append) auto
  then show ?thesis by (simp add: TrimValue_def TrimLeft_id find_from_def substr_def)
qed

lemma ParseLine_section:
  assumes "0x5D \<notin> set name"
  shows "ParseLine (0x5B # name @ [0x5D]) r = section_at name r"
proof -
  have "find_pos (\<lambda>c. c = 0x5D) ((0x5B # name) @ [0x5D]) = Some (length (0x5B # name))"
    using assms by (intro find_pos_append) auto
  then show ?thesis by (simp add: ParseLine_def TrimLeft_id find_from_def substr_def)
qed

lemma ParseLine_entry:
  assumes "entry_ok (k, v)" and "m_curr_section r = Some n"
  shows "ParseLine (k @ 0x3D # 0x22 # v @ [0x22]) r = curr_Set k v r"
proof -
  let ?l = "k @ 0x3D # 0x22 # v @ [0x22]"
  have t: "TrimLeft ?l = ?l" using assms(1) by (cases k) (auto simp: TrimLeft_id)
  have h: "?l ! 0 \<notin> {0x23, 0x3B, 0x5B}" using assms(1) by (cases k) auto
  have f: "find_from (\<lambda>c. c = 0x3D) 0 ?l = Some (length k)"
    using assms(1) find_pos_append [of k "\<lambda>c. c = 0x3D" "0x3D"] by (auto simp: find_from_def)
  have "TrimRight k = k" using assms(1) by (intro TrimRight_id) auto
  moreover have "TrimValue (0x22 # v @ [0x22]) = v" using assms(1) by (intro TrimValue_quoted) auto
  ultimately show ?thesis
    using t h f assms(2) by (simp add: ParseLine_def Let_def substr_def)
qed

lemma parse_entries:
  assumes "list_all entry_ok kvs" and "m_curr_section r = Some n" and "m_sections r n = Some m"
  shows "fold ParseLine (map (\<lambda>(k, v). k @ 0x3D # 0x22 # v @ [0x22]) kvs) r =
     r\<lparr>m_sections := (m_sections r)(n \<mapsto> apply_entries kvs m)\<rparr>"
  using assms
proof (induction kvs arbitrary: r m)
  case Nil
  then show ?case by (simp add: apply_entries_def fun_upd_idem)
next
  case (Cons kv kvs)
  obtain k v where kv: "kv = (k, v)" by fastforce
  let ?r = "r\<lparr>m_sections := (m_sections r)(n \<mapsto> m(k \<mapsto> v))\<rparr>"
  have "ParseLine (k @ 0x3D # 0x22 # v @ [0x22]) r = ?r"
    using Cons.prems kv ParseLine_entry [of k v r n] by (simp add: curr_Set_def IniSection_Set_def)
  then have "fold ParseLine (map (\<lambda>(k, v). k @ 0x3D # 0x22 # v @ [0x22]) (kv # kvs)) r =
      fold ParseLine (map (\<lambda>(k, v). k @ 0x3D # 0x22 # v @ [0x22]) kvs) ?r"
    by (simp add: kv)
  also have "\<dots> = ?r\<lparr>m_sections := (m_sections ?r)(n \<mapsto> apply_entries kvs (m(k \<mapsto> v)))\<rparr>"
    by (rule Cons.IH) (use Cons.prems in auto)
  also have "\<dots> = r\<lparr>m_sections := (m_sections r)(n \<mapsto> apply_entries (kv # kvs) m)\<rparr>"
    unfolding apply_entries_def by (rule IniFileReader.equality) (auto simp: kv)
  finally show ?case .
qed

definition section_lines :: "bytes \<times> (bytes \<times> bytes) list \<Rightarrow> bytes list" where
  "section_lines s = (0x5B # fst s @ [0x5D]) # map (\<lambda>(k, v). k @ 0x3D # 0x22 # v @ [0x22]) (snd s)"

lemma split_render_entries:
  "list_all entry_ok kvs \<Longrightarrow> split_lines (concat (map render_entry kvs) @ rest) =
     map (\<lambda>(k, v). k @ 0x3D # 0x22 # v @ [0x22]) kvs @ split_lines rest"
proof (induction kvs)
  case (Cons kv kvs)
  obtain k v where kv: "kv = (k, v)" by fastforce
  let ?more = "concat (map render_entry kvs) @ rest"
  have "split_lines ((k @ 0x3D # 0x22 # v @ [0x22]) @ 0x0A # ?more) =
      (k @ 0x3D # 0x22 # v @ [0x22]) # split_lines ?more"
    using Cons.prems kv by (intro split_lines_append) auto
  with Cons kv show ?case by simp
qed simp

lemma split_render_section:
  assumes "section_ok s"
  shows "split_lines (render_section s @ rest) = section_lines s @ split_lines rest"
proof -
  obtain name kvs where s: "s = (name, kvs)" by fastforce
  let ?more = "concat (map render_entry kvs) @ rest"
  have "split_lines ((0x5B # name @ [0x5D]) @ 0x0A # ?more) = (0x5B # name @ [0x5D]) # split_lines ?more"
    using assms s by (intro split_lines_append) auto
  with split_render_entries [of kvs rest] assms s show ?thesis by (simp add: section_lines_def)
qed

lemma parse_section:
  assumes "section_ok (name, kvs)"
  shows "fold ParseLine (section_lines (name, kvs)) r =
     \<lparr>m_sections = apply_doc [(name, kvs)] (m_sections r), m_curr_section = Some name\<rparr>"
proof -
  let ?m = "case m_sections r name of None \<Rightarrow> (\<lambda>_. None) | Some m \<Rightarrow> m"
  let ?r = "section_at name r"
  have sec: "m_sections ?r name = Some ?m" "m_curr_section ?r = Some name"
    "(m_sections ?r)(name := x) = (m_sections r)(name := x)" for x
    by (auto simp: section_at_def split: option.splits)
  have "fold ParseLine (section_lines (name, kvs)) r =
      fold ParseLine (map (\<lambda>(k, v). k @ 0x3D # 0x22 # v @ [0x22]) kvs) ?r"
    using assms by (simp add: section_lines_def ParseLine_section)
  also have "\<dots> = ?r\<lparr>m_sections := (m_sections ?r)(name \<mapsto> apply_entries kvs ?m)\<rparr>"
    using assms sec by (intro parse_entries) auto
  finally show ?thesis using sec by (simp add: apply_doc_def)
qed

text \<open>
  C13: reading back the text of a configuration gives exactly that configuration: every section
  with every key and value, later entries overriding earlier ones and sections of the same name
  merged, whatever was read before. Values may contain any byte but the quote and the newline,
  comment signs and blanks included.
\<close>

theorem ini_roundtrip:
  assumes "list_all section_ok doc"
  shows "\<exists>r'. IniFileReader_Parse (Some (render doc)) r = (0, r') \<and>
     m_sections r' = apply_doc doc (m_sections r)"
proof -
  have "m_sections (fold ParseLine (split_lines (render doc)) r) = apply_doc doc (m_sections r)"
    using assms
  proof (induction doc arbitrary: r)
    case Nil
    then show ?case by (simp add: render_def apply_doc_def ParseLine_def TrimLeft_id)
  next
    case (Cons s doc)
    obtain name kvs where s: "s = (name, kvs)" by fastforce
    let ?r = "fold ParseLine (section_lines s) r"
    have "split_lines (render (s # doc)) = section_lines s @ split_lines (render doc)"
      using Cons.prems split_render_section [of s "render doc"] by (simp add: render_def)
    then have "m_sections (fold ParseLine (split_lines (render (s # doc))) r) =
        apply_doc doc (m_sections ?r)"
      using Cons.IH [of ?r] Cons.prems by simp
    moreover have "m_sections ?r = apply_doc [s] (m_sections r)"
      using parse_section [of name kvs r] Cons.prems s by simp
    ultimately show ?case by (simp add: apply_doc_def)
  qed
  then show ?thesis by (simp add: IniFileReader_Parse_def)
qed

theorem ini_roundtrip_witness:
  "\<exists>r. IniFileReader_Parse (Some (render [([97], [([107], [59, 32]), ([107], [118])])])) IniFileReader_new
       = (0, r) \<and> GetSection [97] r = Some [[107] \<mapsto> [118]]"
  using ini_roundtrip [of "[([97], [([107], [59, 32]), ([107], [118])])]" IniFileReader_new]
  by (auto simp: above_space_def apply_doc_def apply_entries_def IniFileReader_new_def GetSection_def
      fun_eq_iff)

text \<open>
  An unquoted value ends at the first comment sign and is stripped of blanks on both sides;
  a quoted value is what stands between the quotes; an unclosed quote is kept as it is.
\<close>

theorem TrimValue_spec:
  "(TrimLeft v = [] \<longrightarrow> TrimValue v = []) \<and>
   (TrimLeft v \<noteq> [] \<and> hd (TrimLeft v) \<notin> {0x22, 0x27} \<longrightarrow>
      TrimValue v = TrimRight (takeWhile (\<lambda>c. c \<noteq> 0x3B \<and> c \<noteq> 0x23) (TrimLeft v))) \<and>
   (q \<in> {0x22, 0x27} \<and> TrimLeft v = q # w \<longrightarrow>
      TrimValue v = (if q \<in> set w then takeWhile (\<lambda>c. c \<noteq> q) w else TrimRight (q # w)))"
proof -
  let ?t = "TrimLeft v" and ?com = "\<lambda>c :: u8. c = 0x3B \<or> c = 0x23"
  have "TrimValue v = TrimRight (takeWhile (\<lambda>c. c \<noteq> 0x3B \<and> c \<noteq> 0x23) ?t)"
    if ne: "?t \<noteq> []" "hd ?t \<notin> {0x22, 0x27}"
  proof (cases "find_pos ?com ?t")
    case None
    then have tw: "takeWhile (\<lambda>c. c \<noteq> 0x3B \<and> c \<noteq> 0x23) ?t = ?t"
      by (auto simp: find_pos_None takeWhile_eq_all_conv)
    from None ne show ?thesis
      unfolding tw by (simp add: TrimValue_def find_from_def hd_conv_nth Let_def)
  next
    case (Some p)
    from find_pos_takeWhile [OF this] Some ne show ?thesis
      by (simp add: TrimValue_def find_from_def hd_conv_nth substr_def Let_def)
  qed
  moreover have "TrimValue v = (if q \<in> set w then takeWhile (\<lambda>c. c \<noteq> q) w else TrimRight (q # w))"
    if q: "q \<in> {0x22, 0x27}" "?t = q # w"
  proof (cases "find_pos (\<lambda>c. c = q) w")
    case None
    then have "q \<notin> set w" by (auto simp: find_pos_None)
    with None q show ?thesis by (auto simp: TrimValue_def find_from_def Let_def)
  next
    case (Some p)
    then have "q \<in> set w" using find_pos_None [of "\<lambda>c. c = q" w] by auto
    with find_pos_takeWhile [OF Some] Some q show ?thesis
      by (auto simp: TrimValue_def find_from_def substr_def)
  qed
  moreover have "?t = [] \<longrightarrow> TrimValue v = []" by (simp add: TrimValue_def)
  ultimately show ?thesis by blast
qed

theorem TrimValue_spec_witness:
  "TrimValue [32, 120, 32, 59, 121] = [120]"
  using TrimValue_spec [of "[32, 120, 32, 59, 121]"] by (simp add: Trim_eq above_space_def)

end
