(* ===== verification/C_Library.thy ===== *)
theory C_Library
  imports Xf_Prelude
begin

text \<open>
  The functions of the C library on strings and numbers that several components use, as far as
  the code uses them: \<^verbatim>\<open>strtol\<close>, \<^verbatim>\<open>snprintf\<close> and \<^verbatim>\<open>strrchr\<close>. A C string is the list of its bytes without the
  terminating NUL; a text result is written into a buffer, and a write outside the buffer is
  \<^const>\<open>None\<close>.
\<close>

section \<open>Definitions\<close>

definition char_at :: "bytes \<Rightarrow> nat \<Rightarrow> u8" where
  "char_at buf i = (if i < length buf then buf ! i else 0)"

definition is_digit :: "u8 \<Rightarrow> bool" where
  "is_digit c \<longleftrightarrow> 48 \<le> unat c \<and> unat c \<le> 57"

definition is_space :: "u8 \<Rightarrow> bool" where
  "is_space c \<longleftrightarrow> c = 32 \<or> (9 \<le> unat c \<and> unat c \<le> 13)"

definition digits_value :: "bytes \<Rightarrow> int" where
  "digits_value s = foldl (\<lambda>v c. v * 10 + (int (unat c) - 48)) 0 (takeWhile is_digit s)"

text \<open>\<^verbatim>\<open>strtol(s, nullptr, 10)\<close>: blanks, a sign, digits; the result saturates at the limits of \<^verbatim>\<open>long\<close>.\<close>

definition strtol :: "bytes \<Rightarrow> int" where
  "strtol s =
     (let s = dropWhile is_space s;
          (neg, s) = (case s of c # r \<Rightarrow> if c = 45 then (True, r) else if c = 43 then (False, r) else (False, s)
                      | [] \<Rightarrow> (False, s));
          v = digits_value s
      in if neg then max (- (2 ^ 63)) (- v) else min (2 ^ 63 - 1) v)"

fun decimal :: "nat \<Rightarrow> bytes" where
  "decimal n = (if n < 10 then [of_nat (48 + n)] else decimal (n div 10) @ [of_nat (48 + n mod 10)])"

declare decimal.simps [simp del]

text \<open>The conversion \<^verbatim>\<open>%0wu\<close>.\<close>

definition fmt_u :: "nat \<Rightarrow> u32 \<Rightarrow> bytes" where
  "fmt_u w v = (let s = decimal (unat v) in replicate (w - length s) 48 @ s)"

text \<open>
  \<^verbatim>\<open>snprintf\<close> of the text \<open>out\<close> at offset \<open>off\<close> with size \<open>n\<close>: at most \<open>n - 1\<close> bytes and a NUL; the
  result is the length of the whole text.
\<close>

definition snprintf :: "bytes \<Rightarrow> nat \<Rightarrow> nat \<Rightarrow> bytes \<Rightarrow> (int \<times> bytes) option" where
  "snprintf buf off n out =
     (if n = 0 then Some (int (length out), buf)
      else map_option (\<lambda>b. (int (length out), b)) (mem_write buf off (take (n - 1) out @ [0])))"

text \<open>\<^verbatim>\<open>strrchr\<close>: the index of the last occurrence of a byte.\<close>

definition strrchr :: "bytes \<Rightarrow> u8 \<Rightarrow> nat option" where
  "strrchr s c = (if c \<in> set s then Some (length s - 1 - length (takeWhile (\<lambda>x. x \<noteq> c) (rev s))) else None)"

section \<open>Numbers as text\<close>

definition dig :: "nat \<Rightarrow> u8" where
  "dig n = of_nat (48 + n)"

lemma dig_facts [simp]:
  assumes "n < 10"
  shows "unat (dig n) = 48 + n" and "is_digit (dig n)" and "\<not> is_space (dig n)"
    and "dig n \<noteq> 45" and "dig n \<noteq> 43" and "uint (dig n) = 48 + int n" and "dig n \<noteq> 0" and "0 \<noteq> dig n"
proof -
  show u: "unat (dig n) = 48 + n" using assms unfolding dig_def by (subst unat_of_nat_small) simp_all
  then show "is_digit (dig n)" using assms by (simp add: is_digit_def)
  show "\<not> is_space (dig n)" using u assms by (auto simp: is_space_def dest: arg_cong [where f = unat])
  show "uint (dig n) = 48 + int n" using u unfolding uint_nat by simp
  show "dig n \<noteq> 45" "dig n \<noteq> 43" "dig n \<noteq> 0" "0 \<noteq> dig n" using u by (auto dest: arg_cong [where f = unat])
qed

lemma decimal_small: "n < 10 \<Longrightarrow> decimal n = [dig n]"
  and decimal_step: "10 \<le> n \<Longrightarrow> decimal n = decimal (n div 10) @ [dig (n mod 10)]"
  by (simp_all add: decimal.simps [of n] dig_def)

lemma decimal_no_nul: "0 \<notin> set (decimal n)"
proof (induction n rule: decimal.induct)
  case (1 n)
  then show ?case by (cases "n < 10") (simp_all add: decimal_small decimal_step)
qed

lemma decimal_digits: "c \<in> set (decimal n) \<Longrightarrow> is_digit c"
proof (induction n rule: decimal.induct)
  case (1 n)
  then show ?case by (cases "n < 10") (auto simp: decimal_small decimal_step)
qed

definition digits_nat :: "bytes \<Rightarrow> nat" where
  "digits_nat s = foldl (\<lambda>v c. v * 10 + (unat c - 48)) 0 s"

lemma digits_nat_decimal: "digits_nat (decimal n) = n"
proof (induction n rule: decimal.induct)
  case (1 n)
  then show ?case by (cases "n < 10") (simp_all add: decimal_small decimal_step digits_nat_def)
qed

lemma decimal_inj [simp]: "decimal m = decimal n \<longleftrightarrow> m = n"
  by (metis digits_nat_decimal)

lemma decimal_length: "n < 10 ^ k \<Longrightarrow> 0 < k \<Longrightarrow> length (decimal n) \<le> k"
proof (induction n arbitrary: k rule: decimal.induct)
  case (1 n)
  show ?case
  proof (cases "n < 10")
    case True
    with 1(3) show ?thesis by (simp add: decimal_small)
  next
    case False
    with 1(2) obtain j where k: "k = Suc j" "0 < j" by (cases k; cases "k - 1") auto
    with 1(2) have "n div 10 < 10 ^ j" by (simp add: less_mult_imp_div_less mult.commute)
    with 1(1) [OF False _ k(2)] False k(1) show ?thesis by (simp add: decimal_step)
  qed
qed

section \<open>Formatted output\<close>

lemma snprintf_cstr:
  assumes "0 \<notin> set out" and "0 < n" and "n \<le> length buf"
  obtains b where "snprintf buf 0 n out = Some (int (length out), b)" and "cstr b = take (n - 1) out"
proof -
  let ?t = "take (n - 1) out @ [0]"
  have "length ?t \<le> length buf" using assms(2,3) by simp
  then have w: "mem_write buf 0 ?t = Some (?t @ drop (length ?t) buf)" by (simp add: mem_write_def)
  have "cstr (take (n - 1) out @ 0 # drop (length ?t) buf) = take (n - 1) out"
    using assms(1) by (intro cstr_id) (auto dest: in_set_takeD)
  with w assms(2) that show ?thesis by (simp add: snprintf_def)
qed

lemma mem_write_prefix:
  assumes "mem_write b off src = Some b'" and "k \<le> off"
  shows "take k b' = take k b"
  using assms by (auto simp: mem_write_Some_iff min_def)

lemma cstr_prefix:
  assumes "take (Suc k) b = p @ [0]" and "0 \<notin> set p"
  shows "cstr b = p"
proof -
  have "b = (p @ [0]) @ drop (Suc k) b" unfolding assms(1) [symmetric] by simp
  then have "b = p @ 0 # drop (Suc k) b" by simp
  then show ?thesis using cstr_id [OF assms(2)] by metis
qed

lemma snprintf_at:
  assumes "0 < n" and "off + n \<le> length buf"
  obtains b where "snprintf buf off n out = Some (int (length out), b)"
    and "mem_write buf off (take (n - 1) out @ [0]) = Some b"
proof -
  have "off + length (take (n - 1) out @ [0]) \<le> length buf" using assms by simp
  then obtain b where "mem_write buf off (take (n - 1) out @ [0]) = Some b" by (auto simp: mem_write_def)
  with assms(1) that show ?thesis by (simp add: snprintf_def)
qed

lemma strrchr_append:
  assumes "c \<notin> set v"
  shows "strrchr (u @ c # v) c = Some (length u)"
proof -
  have "takeWhile (\<lambda>x. x \<noteq> c) (rev v @ c # rev u) = rev v"
    using assms by (subst takeWhile_append2) auto
  then show ?thesis by (simp add: strrchr_def)
qed

end
