(* ===== verification/Time.thy ===== *)
theory Time
  imports C_Library
begin

text \<open>
  \<^verbatim>\<open>include/xfutil/time.h\<close> and \<^verbatim>\<open>src/time.cpp\<close>: times and dates as packed integers and as text. The
  readings of the system clocks are arguments. A text argument is the bytes of a C string (every
  byte behind them reads as NUL); a text result is written into a buffer, and a write outside the
  buffer is \<^const>\<open>None\<close>.
\<close>

section \<open>Definitions\<close>

definition GetCurrentTime :: "u64 \<Rightarrow> u64" where
  "GetCurrentTime tv_sec = tv_sec"

definition GetCurrentMilliTime :: "u64 \<Rightarrow> u64 \<Rightarrow> u64" where
  "GetCurrentMilliTime tv_sec tv_usec = tv_sec * 1000 + tv_usec div 1000"

definition GetTickTime :: "u64 \<Rightarrow> u64" where
  "GetTickTime tv_sec = tv_sec"

definition GetTickMilliTime :: "u64 \<Rightarrow> u64 \<Rightarrow> u64" where
  "GetTickMilliTime tv_sec tv_nsec = tv_sec * 1000 + tv_nsec div 1000000"

definition ParseTime :: "bytes \<Rightarrow> int \<Rightarrow> u32" where
  "ParseTime buf buf_len =
     (if buf_len \<noteq> 8 \<or> char_at buf 2 \<noteq> 58 \<or> char_at buf 5 \<noteq> 58 then -1
      else let h = of_int (strtol buf) :: u32;
               m = of_int (strtol (drop 3 buf));
               s = of_int (strtol (drop 6 buf))
           in push_bit 12 h OR push_bit 6 m OR s)"

definition ParseDate :: "bytes \<Rightarrow> int \<Rightarrow> u32" where
  "ParseDate buf buf_len =
     (if buf_len \<noteq> 10 \<or> char_at buf 4 \<noteq> 45 \<or> char_at buf 7 \<noteq> 45 then -1
      else let y = of_int (strtol buf) :: u32;
               m = of_int (strtol (drop 5 buf));
               d = of_int (strtol (drop 8 buf))
           in push_bit 9 y OR push_bit 5 m OR d)"

definition ParseDateTime :: "bytes \<Rightarrow> int \<Rightarrow> u64" where
  "ParseDateTime buf buf_len =
     (if buf_len \<noteq> 19 \<or> char_at buf 10 \<noteq> 32 then -1
      else let d = ParseDate buf 10 in
           if d = -1 then -1
           else let t = ParseTime (drop 11 buf) 8 in
                if t = -1 then -1
                else push_bit 32 (ucast d) OR ucast t)"

definition time_text :: "u32 \<Rightarrow> u32 \<Rightarrow> u32 \<Rightarrow> bytes" where
  "time_text h m s = fmt_u 2 h @ [58] @ fmt_u 2 m @ [58] @ fmt_u 2 s"

definition date_text :: "u32 \<Rightarrow> u32 \<Rightarrow> u32 \<Rightarrow> bytes" where
  "date_text y m d = fmt_u 4 y @ [45] @ fmt_u 2 m @ [45] @ fmt_u 2 d"

definition FormatTime_at :: "bytes \<Rightarrow> nat \<Rightarrow> int \<Rightarrow> u32 \<Rightarrow> (int \<times> bytes) option" where
  "FormatTime_at buf off buf_len t =
     (if buf_len < 8 then Some (-1, buf)
      else let h = drop_bit 12 t;
               m = drop_bit 6 t AND 63;
               s = t AND 63
           in snprintf buf off (nat buf_len) (time_text h m s))"

definition FormatDate_at :: "bytes \<Rightarrow> nat \<Rightarrow> int \<Rightarrow> u32 \<Rightarrow> (int \<times> bytes) option" where
  "FormatDate_at buf off buf_len date =
     (if buf_len < 10 then Some (-1, buf)
      else let y = drop_bit 9 date;
               m = drop_bit 5 date AND 16;
               d = date AND 31
           in snprintf buf off (nat buf_len) (date_text y m d))"

definition FormatTime :: "bytes \<Rightarrow> int \<Rightarrow> u32 \<Rightarrow> (int \<times> bytes) option" where
  "FormatTime buf buf_len t = FormatTime_at buf 0 buf_len t"

definition FormatDate :: "bytes \<Rightarrow> int \<Rightarrow> u32 \<Rightarrow> (int \<times> bytes) option" where
  "FormatDate buf buf_len d = FormatDate_at buf 0 buf_len d"

definition FormatDateTime :: "bytes \<Rightarrow> int \<Rightarrow> u64 \<Rightarrow> (int \<times> bytes) option" where
  "FormatDateTime buf buf_len dt =
     (if buf_len < 19 then Some (-1, buf)
      else let date = ucast (drop_bit 32 dt) :: u32;
               t = ucast dt :: u32
           in Option.bind (FormatDate_at buf 0 10 date) (\<lambda>(len1, buf).
              Option.bind (mem_write buf 10 [32]) (\<lambda>buf.
              map_option (\<lambda>(len2, buf). (len1 + len2, buf)) (FormatTime_at buf 11 8 t))))"

section \<open>Numbers as text\<close>

lemma fmt_2:
  assumes "unat v < 100"
  shows "fmt_u 2 v = [dig (unat v div 10), dig (unat v mod 10)]"
proof (cases "unat v < 10")
  case True
  then show ?thesis by (simp add: fmt_u_def decimal.simps dig_def)
next
  case False
  with assms have "unat v div 10 < 10" by simp
  with False show ?thesis
    by (simp add: fmt_u_def decimal.simps [of "unat v"] decimal.simps [of "unat v div 10"] dig_def)
qed

lemma strtol_2:
  assumes "a < 10" and "b < 10" and "\<not> is_digit (char_at r 0)"
  shows "strtol (dig a # dig b # r) = int (10 * a + b)"
  using assms by (cases r) (simp_all add: strtol_def digits_value_def char_at_def min_def)

lemma zeros: "replicate 3 (48 :: u8) = [dig 0, dig 0, dig 0]" "replicate 2 (48 :: u8) = [dig 0, dig 0]"
  "replicate 1 (48 :: u8) = [dig 0]"
  by (simp_all add: dig_def numeral_eq_Suc)

lemma div_div_10: "(n :: nat) div 10 div 10 = n div 100" "n div 100 div 10 = n div 1000"
  by (simp_all add: div_mult2_eq [symmetric])

lemma fmt_4:
  assumes "unat v < 10000"
  shows "fmt_u 4 v = [dig (unat v div 1000), dig (unat v div 100 mod 10), dig (unat v div 10 mod 10),
     dig (unat v mod 10)]"
proof -
  define n where "n = unat v"
  have n: "n < 10000" using assms by (simp add: n_def)
  consider "n < 10" | "10 \<le> n" "n < 100" | "100 \<le> n" "n < 1000" | "1000 \<le> n" by linarith
  then have "replicate (4 - length (decimal n)) 48 @ decimal n =
      [dig (n div 1000), dig (n div 100 mod 10), dig (n div 10 mod 10), dig (n mod 10)]"
  proof cases
    case 1
    then show ?thesis using zeros(1) by (simp add: decimal_small)
  next
    case 2
    then have "decimal n = [dig (n div 10), dig (n mod 10)]"
      by (simp add: decimal_step [of n] decimal_small)
    with 2 show ?thesis using zeros(2) by simp
  next
    case 3
    then have "decimal n = [dig (n div 100), dig (n div 10 mod 10), dig (n mod 10)]"
      by (simp add: decimal_step [of n] decimal_step [of "n div 10"] decimal_small div_div_10)
    with 3 show ?thesis using zeros(3) by simp
  next
    case 4
    then have "decimal n = [dig (n div 1000), dig (n div 100 mod 10), dig (n div 10 mod 10), dig (n mod 10)]"
      using n by (simp add: decimal_step [of n] decimal_step [of "n div 10"] decimal_step [of "n div 100"]
          decimal_small div_div_10)
    then show ?thesis by simp
  qed
  then show ?thesis by (simp add: fmt_u_def n_def)
qed

lemma strtol_4:
  assumes "a < 10" and "b < 10" and "c < 10" and "d < 10" and "\<not> is_digit (char_at r 0)"
  shows "strtol (dig a # dig b # dig c # dig d # r) = int (1000 * a + 100 * b + 10 * c + d)"
  using assms by (cases r) (simp_all add: strtol_def digits_value_def char_at_def min_def)

lemma strtol_fmt_2:
  assumes "unat v < 100" and "\<not> is_digit (char_at r 0)"
  shows "of_int (strtol (fmt_u 2 v @ r)) = v"
proof -
  have "strtol (fmt_u 2 v @ r) = int (unat v)"
    using assms strtol_2 [of "unat v div 10" "unat v mod 10" r] by (simp add: fmt_2)
  then show ?thesis by simp
qed

lemma strtol_fmt_4:
  assumes "unat v < 10000" and "\<not> is_digit (char_at r 0)"
  shows "of_int (strtol (fmt_u 4 v @ r)) = v"
proof -
  let ?n = "unat v"
  have "1000 * (?n div 1000) + 100 * (?n div 100 mod 10) + 10 * (?n div 10 mod 10) + ?n mod 10 = ?n"
    using mult_div_mod_eq [of 10 ?n] mult_div_mod_eq [of 10 "?n div 10"]
      mult_div_mod_eq [of 10 "?n div 100"] unfolding div_div_10 by linarith
  then have "strtol (fmt_u 4 v @ r) = int ?n"
    using assms strtol_4 [of "?n div 1000" "?n div 100 mod 10" "?n div 10 mod 10" "?n mod 10" r]
    by (simp add: fmt_4)
  then show ?thesis by simp
qed

section \<open>Packed fields\<close>

lemma bit_imp_less: "bit (w :: 'a::len word) n \<Longrightarrow> unat w < 2 ^ k \<Longrightarrow> n < k"
  by (rule word_lt_pow2_bit)

lemma packed_fields:
  fixes hi mid lo :: u32
  assumes "unat hi < 2 ^ (32 - (a + b))" and "unat mid < 2 ^ a" and "unat lo < 2 ^ b" and "a + b < 32"
  defines "w \<equiv> push_bit (a + b) hi OR push_bit b mid OR lo"
  shows "drop_bit (a + b) w = hi" and "take_bit a (drop_bit b w) = mid" and "take_bit b w = lo"
proof -
  note lt = word_lt_pow2_bit [OF _ assms(1)] word_lt_pow2_bit [OF _ assms(2)] word_lt_pow2_bit [OF _ assms(3)]
  show "drop_bit (a + b) w = hi"
    by (rule bit_word_eqI) (use assms(4) in \<open>auto simp: w_def bit_simps dest: lt\<close>)
  show "take_bit a (drop_bit b w) = mid"
    by (rule bit_word_eqI) (use assms(4) in \<open>auto simp: w_def bit_simps dest: lt\<close>)
  show "take_bit b w = lo"
    by (rule bit_word_eqI) (use assms(4) in \<open>auto simp: w_def bit_simps dest: lt\<close>)
qed

lemma and_63: "(w :: u32) AND 63 = take_bit 6 w" and and_31: "(w :: u32) AND 31 = take_bit 5 w"
  by (simp_all add: take_bit_eq_mask mask_eq_decr_exp)

lemma and_exp: "(w :: 'a::len word) AND 2 ^ k = (if bit w k then 2 ^ k else 0)"
  by (rule bit_word_eqI) (auto simp: bit_and_iff bit_exp_iff)

lemma and_16: "(w :: u32) AND 16 = (if bit w 4 then 16 else 0)"
  using and_exp [of w 4] by simp

lemma odd_unat: "odd (unat (w :: 'a::len word)) \<longleftrightarrow> bit w 0"
proof -
  have "bit (unat w) 0 \<longleftrightarrow> bit w 0" by (simp only: bit_unsigned_iff) simp
  then show ?thesis by (simp add: bit_0)
qed

lemma fmt_no_nul:
  assumes "unat v < 100"
  shows "0 \<notin> set (fmt_u 2 v)" and "length (fmt_u 2 v) = 2"
  using assms by (simp_all add: fmt_2)

section \<open>Properties\<close>

text \<open>
  C38: times survive the trip through text: parsing the text of \<open>h:m:s\<close> gives the packed value, and
  formatting that value into a buffer of at least nine bytes gives the text back. With the eight
  bytes that \<open>FormatTime\<close> also accepts, the last digit is cut off.
\<close>

theorem time_roundtrip:
  assumes "unat h < 100" and "unat m < 60" and "unat s < 60" and "8 \<le> n" and "n \<le> length buf"
  shows "\<exists>b. ParseTime (time_text h m s) 8 = push_bit 12 h OR push_bit 6 m OR s \<and>
     FormatTime buf (int n) (ParseTime (time_text h m s) 8) = Some (8, b) \<and>
     cstr b = (if n = 8 then butlast (time_text h m s) else time_text h m s)"
proof -
  let ?t = "time_text h m s" and ?w = "push_bit 12 h OR push_bit 6 m OR s"
  have len: "length ?t = 8" using assms(1-3) by (simp add: time_text_def fmt_no_nul(2))
  have nul: "0 \<notin> set ?t" using assms(1-3) by (auto simp: time_text_def fmt_no_nul(1))
  have f: "fmt_u 2 h = [dig (unat h div 10), dig (unat h mod 10)]"
    "fmt_u 2 m = [dig (unat m div 10), dig (unat m mod 10)]" using assms by (simp_all add: fmt_2)
  have dr: "drop 3 ?t = fmt_u 2 m @ [58] @ fmt_u 2 s" "drop 6 ?t = fmt_u 2 s @ []"
    "char_at ?t 2 = 58" "char_at ?t 5 = 58"
    by (simp_all add: time_text_def f char_at_def)
  have nd: "\<not> is_digit (char_at (58 # r) 0)" "\<not> is_digit (char_at [] 0)" for r
    by (simp_all add: char_at_def is_digit_def)
  have p: "ParseTime ?t 8 = ?w"
    using strtol_fmt_2 [of h "[58] @ fmt_u 2 m @ [58] @ fmt_u 2 s"] strtol_fmt_2 [of m "[58] @ fmt_u 2 s"]
      strtol_fmt_2 [of s "[]"] assms(1-3) nd
    by (simp add: ParseTime_def dr) (simp add: time_text_def)
  have fields: "drop_bit 12 ?w = h" "drop_bit 6 ?w AND 63 = m" "?w AND 63 = s"
    using packed_fields [of h 6 6 m s] assms(1-3) by (simp_all add: and_63)
  obtain b where b: "snprintf buf 0 n ?t = Some (int (length ?t), b)" "cstr b = take (n - 1) ?t"
    using snprintf_cstr [OF nul, of n buf] assms(4,5) by auto
  have "FormatTime buf (int n) ?w = Some (8, b)"
    using b(1) assms(4) len unfolding FormatTime_def FormatTime_at_def fields by simp
  moreover have "take (n - 1) ?t = (if n = 8 then butlast ?t else ?t)"
    using len assms(4) by (auto simp: butlast_conv_take)
  ultimately show ?thesis using p b(2) by auto
qed

theorem time_roundtrip_witness:
  "\<exists>b. FormatTime (replicate 9 0) 9 (ParseTime (time_text 12 34 56) 8) = Some (8, b) \<and>
     cstr b = time_text 12 34 56"
  using time_roundtrip [of 12 34 56 9 "replicate 9 0"] by auto

text \<open>
  \<open>FormatDate\<close> does not print the month. It masks the shifted date with 16 where the field has
  the bits below 16: what it prints for the date \<open>y-m-d\<close>, in every buffer that is large enough, is
  \<open>16\<close> in odd years and \<open>00\<close> in even years, whatever \<open>m\<close> is.
\<close>

theorem FormatDate_prints_no_month:
  assumes "unat y < 10000" and "unat m < 16" and "unat d < 32" and "11 \<le> n" and "n \<le> length buf"
  shows "\<exists>b. ParseDate (date_text y m d) 10 = push_bit 9 y OR push_bit 5 m OR d \<and>
     FormatDate buf (int n) (ParseDate (date_text y m d) 10) = Some (10, b) \<and>
     cstr b = date_text y (if odd (unat y) then 16 else 0) d"
proof -
  let ?t = "date_text y m d" and ?w = "push_bit 9 y OR push_bit 5 m OR d"
  let ?m = "if odd (unat y) then 16 else 0 :: u32"
  have f: "fmt_u 4 y = [dig (unat y div 1000), dig (unat y div 100 mod 10), dig (unat y div 10 mod 10), dig (unat y mod 10)]"
    "fmt_u 2 m = [dig (unat m div 10), dig (unat m mod 10)]" using assms by (simp_all add: fmt_2 fmt_4)
  have y4: "length (fmt_u 4 y) = 4" "0 \<notin> set (fmt_u 4 y)"
    using assms(1) by (simp_all add: f(1))
  have dr: "drop 5 ?t = fmt_u 2 m @ [45] @ fmt_u 2 d" "drop 8 ?t = fmt_u 2 d @ []"
    "char_at ?t 4 = 45" "char_at ?t 7 = 45"
    by (simp_all add: date_text_def f char_at_def)
  have nd: "\<not> is_digit (char_at (45 # r) 0)" "\<not> is_digit (char_at [] 0)" for r
    by (simp_all add: char_at_def is_digit_def)
  have p: "ParseDate ?t 10 = ?w"
    using strtol_fmt_4 [of y "[45] @ fmt_u 2 m @ [45] @ fmt_u 2 d"] strtol_fmt_2 [of m "[45] @ fmt_u 2 d"]
      strtol_fmt_2 [of d "[]"] assms(1-3) nd
    by (simp add: ParseDate_def dr) (simp add: date_text_def)
  have fields: "drop_bit 9 ?w = y" "?w AND 31 = d"
    using packed_fields [of y 4 5 m d] assms(1-3) by (simp_all add: and_31)
  have mon: "drop_bit 5 ?w AND 16 = ?m"
  proof -
    have "drop_bit 5 ?w AND 16 = (if bit (drop_bit 5 ?w) 4 then 16 else 0)" by (rule and_16)
    moreover have "bit (drop_bit 5 ?w) 4 \<longleftrightarrow> odd (unat y)"
      using word_lt_pow2_bit [of m 4 4] word_lt_pow2_bit [of d 9 5] assms(2,3)
      by (auto simp: bit_simps odd_unat simp del: bit_0)
    ultimately show ?thesis by simp
  qed
  have nul: "0 \<notin> set (date_text y ?m d)" and len: "length (date_text y ?m d) = 10"
    using y4 fmt_no_nul [of ?m] fmt_no_nul [of d] assms(3) by (auto simp: date_text_def)
  obtain b where b: "snprintf buf 0 n (date_text y ?m d) = Some (10, b)" "cstr b = take (n - 1) (date_text y ?m d)"
    using snprintf_cstr [OF nul, of n buf] assms(4,5) len by auto
  have "FormatDate buf (int n) ?w = Some (10, b)"
    using b(1) assms(4) unfolding FormatDate_def FormatDate_at_def fields mon by simp
  with p b(2) len assms(4) show ?thesis by auto
qed

theorem FormatDate_prints_no_month_witness:
  "\<exists>b. FormatDate (replicate 11 0) 11 (ParseDate (date_text 2023 7 9) 10) = Some (10, b) \<and>
     cstr b = date_text 2023 16 9"
  using FormatDate_prints_no_month [of 2023 7 9 11 "replicate 11 0"] by auto

text \<open>
  \<open>FormatDateTime\<close> hands \<open>FormatDate\<close> ten bytes and \<open>FormatTime\<close> eight, one too few each for the
  terminating NUL. However large the caller's buffer is, the C string it leaves there is the date
  without its last digit, and the time cannot be seen.
\<close>

theorem FormatDateTime_cuts_text:
  fixes dt :: u64
  defines "y \<equiv> drop_bit 9 (ucast (drop_bit 32 dt) :: u32)"
  assumes "unat y < 10000" and "19 \<le> n" and "n \<le> length buf"
  shows "\<exists>r b. FormatDateTime buf (int n) dt = Some (r, b) \<and> length (cstr b) = 9"
proof -
  let ?d = "ucast (drop_bit 32 dt) :: u32" and ?t = "ucast dt :: u32"
  let ?m = "drop_bit 5 ?d AND 16" and ?dd = "?d AND 31"
  let ?text = "date_text y ?m ?dd"
  have "unat ?dd = unat ?d mod 32" unfolding and_31 by (simp add: take_bit_eq_mod unat_mod)
  then have "unat ?dd < 32" by simp
  then have small: "unat ?m < 100" "unat ?dd < 100" by (simp_all add: and_16)
  have len: "length ?text = 10" and nul: "0 \<notin> set ?text"
    using assms(2) small fmt_no_nul by (auto simp: date_text_def fmt_4)
  obtain b1 where b1: "snprintf buf 0 10 ?text = Some (int (length ?text), b1)"
    "mem_write buf 0 (take (10 - 1) ?text @ [0]) = Some b1"
    using snprintf_at [of 10 0 buf ?text] assms(3,4) by auto
  have l1: "length b1 = length buf" by (rule mem_write_length [OF b1(2)])
  obtain b2 where b2: "mem_write b1 10 [32] = Some b2" using l1 assms(3,4) by (auto simp: mem_write_def)
  have l2: "length b2 = length buf" using mem_write_length [OF b2] l1 by simp
  let ?out = "time_text (drop_bit 12 ?t) (drop_bit 6 ?t AND 63) (?t AND 63)"
  have fits: "11 + 8 \<le> length b2" using l2 assms(3,4) by simp
  obtain b3 where b3: "snprintf b2 11 8 ?out = Some (int (length ?out), b3)"
    "mem_write b2 11 (take (8 - 1) ?out @ [0]) = Some b3"
    using snprintf_at [OF _ fits, of ?out] by auto
  have "take (Suc 9) b3 = take 10 b1"
    using mem_write_prefix [OF b3(2), of 10] mem_write_prefix [OF b2, of 10] by simp
  also have "\<dots> = take 9 ?text @ [0]" using mem_write_take [OF b1(2)] len by simp
  finally have "cstr b3 = take 9 ?text"
    by (rule cstr_prefix) (use nul in \<open>auto dest: in_set_takeD\<close>)
  then have "length (cstr b3) = 9" using len by simp
  moreover have "FormatDateTime buf (int n) dt = Some (int (length ?text) + int (length ?out), b3)"
    using assms(3) b1(1) b2 b3(1)
    by (simp add: FormatDateTime_def FormatDate_at_def FormatTime_at_def y_def Let_def)
  ultimately show ?thesis by blast
qed

theorem FormatDateTime_cuts_text_witness:
  "\<exists>r b. FormatDateTime (replicate 32 0) 32 0 = Some (r, b) \<and> length (cstr b) = 9"
  using FormatDateTime_cuts_text [of 0 32 "replicate 32 0"] by simp

end
