(* ===== verification/Path.thy ===== *)
theory Path
  imports C_Library
begin

text \<open>
  \<^verbatim>\<open>include/xfutil/path.h\<close> and \<^verbatim>\<open>src/path.cpp\<close>: names of files and walks over directories. Paths are C
  strings. The file system is a parameter of the walks: \<open>opendir\<close> gives the names that \<^verbatim>\<open>readdir\<close> will
  produce, in order (\<^const>\<open>None\<close> when the directory cannot be opened), \<open>is_dir\<close> the answer of
  \<^verbatim>\<open>stat\<close> and \<^verbatim>\<open>S_ISDIR\<close>, and \<open>fnm\<close> the answer of \<^verbatim>\<open>fnmatch\<close> for the pattern. A walk yields the calls of the
  callback, in order. The one-line wrappers of \<^verbatim>\<open>link\<close>, \<^verbatim>\<open>symlink\<close>, \<^verbatim>\<open>getcwd\<close> and \<^verbatim>\<open>chdir\<close> compare the
  answer of the system call.
\<close>

section \<open>Definitions\<close>

definition MAX_PATH_LEN :: nat where
  "MAX_PATH_LEN = 256"

definition GetFileName :: "bytes \<Rightarrow> bytes" where
  "GetFileName path = (case strrchr path 47 of None \<Rightarrow> path | Some i \<Rightarrow> drop (i + 1) path)"

text \<open>An empty first path makes \<open>CombineEx\<close> read the byte before the string.\<close>

definition CombineEx :: "bytes \<Rightarrow> nat \<Rightarrow> bytes \<Rightarrow> bytes \<Rightarrow> bytes option" where
  "CombineEx path path_size path1 path2 =
     (if path1 = [] then None
      else if path1 ! (length path1 - 1) = 47
      then map_option snd (snprintf path 0 path_size (path1 @ path2))
      else map_option snd (snprintf path 0 path_size (path1 @ [47] @ path2)))"

definition Combine :: "bytes \<Rightarrow> nat \<Rightarrow> bytes \<Rightarrow> bytes \<Rightarrow> bytes option" where
  "Combine path path_size path1 path2 =
     map_option snd (snprintf path 0 path_size (path1 @ [47] @ path2))"

definition HardLink :: "int \<Rightarrow> bool" where
  "HardLink link_res \<longleftrightarrow> link_res = 0"

definition SymLink :: "int \<Rightarrow> bool" where
  "SymLink symlink_res \<longleftrightarrow> symlink_res = 0"

definition GetWorkPath :: "nat \<Rightarrow> bool" where
  "GetWorkPath getcwd_res \<longleftrightarrow> getcwd_res \<noteq> 0"

definition SetWorkPath :: "int \<Rightarrow> bool" where
  "SetWorkPath chdir_res \<longleftrightarrow> chdir_res = 0"

definition dot_name :: "bytes \<Rightarrow> bool" where
  "dot_name name \<longleftrightarrow> name = [46] \<or> name = [46, 46]"

type_synonym calls = "(bytes \<times> bytes) list"

fun List_loop :: "(bytes \<Rightarrow> bool) \<Rightarrow> bytes \<Rightarrow> bytes list \<Rightarrow> calls" where
  "List_loop fnm path [] = []"
| "List_loop fnm path (name # names) =
     (if dot_name name then List_loop fnm path names
      else if fnm name then (path, name) # List_loop fnm path names
      else List_loop fnm path names)"

definition Path_List :: "(bytes \<Rightarrow> bytes list option) \<Rightarrow> (bytes \<Rightarrow> bool) \<Rightarrow> bytes \<Rightarrow> bool \<times> calls" where
  "Path_List opendir fnm path =
     (case opendir path of
        None \<Rightarrow> (False, [])
      | Some names \<Rightarrow> (True, List_loop fnm path names))"

text \<open>The local buffer \<^verbatim>\<open>full_path\<close> as a C string.\<close>

definition full_path_of :: "bytes \<Rightarrow> bytes \<Rightarrow> bytes option" where
  "full_path_of path name =
     map_option cstr (CombineEx (replicate MAX_PATH_LEN 0) MAX_PATH_LEN path name)"

text \<open>
  One directory of \<open>Find\<close>: \<open>rec_find\<close> is the recursive call. With links that form a cycle the recursion
  need not end, so \<open>Path_Find\<close> counts down the depth and is \<^const>\<open>None\<close> when that runs out.
\<close>

fun Find_loop :: "(bytes \<Rightarrow> bool) \<Rightarrow> (bytes \<Rightarrow> bool) \<Rightarrow> (bytes \<Rightarrow> (bool \<times> calls) option) \<Rightarrow>
    bytes \<Rightarrow> bytes list \<Rightarrow> calls option" where
  "Find_loop is_dir fnm rec_find path [] = Some []"
| "Find_loop is_dir fnm rec_find path (name # names) =
     (if dot_name name then Find_loop is_dir fnm rec_find path names
      else Option.bind (full_path_of path name) (\<lambda>full_path.
           Option.bind (if is_dir full_path then map_option snd (rec_find full_path) else Some []) (\<lambda>inner.
           map_option (\<lambda>rest. inner @ (if fnm name then [(full_path, name)] else []) @ rest)
             (Find_loop is_dir fnm rec_find path names))))"

primrec Path_Find :: "nat \<Rightarrow> (bytes \<Rightarrow> bytes list option) \<Rightarrow> (bytes \<Rightarrow> bool) \<Rightarrow> (bytes \<Rightarrow> bool) \<Rightarrow>
    bytes \<Rightarrow> (bool \<times> calls) option" where
  "Path_Find 0 opendir is_dir fnm path = None"
| "Path_Find (Suc depth) opendir is_dir fnm path =
     (case opendir path of
        None \<Rightarrow> Some (False, [])
      | Some names \<Rightarrow> map_option (Pair True)
          (Find_loop is_dir fnm (Path_Find depth opendir is_dir fnm) path names))"

section \<open>Specification vocabulary\<close>

text \<open>
  A directory tree, the entries of a directory in the order \<^verbatim>\<open>readdir\<close> gives them; \<open>join\<close> puts one name
  behind a path; \<open>shows_tree opendir is_dir path t\<close>: the file system has the tree \<open>t\<close> at \<open>path\<close>, and all its
  paths fit into a buffer of \<^verbatim>\<open>MAX_PATH_LEN\<close> bytes. \<open>found\<close> is what a walk should report: every matching
  entry, the entries below it first.
\<close>

datatype ftree = FFile | FDir "(bytes \<times> ftree) list"

definition join :: "bytes \<Rightarrow> bytes \<Rightarrow> bytes" where
  "join path name = (if last path = 47 then path @ name else path @ [47] @ name)"

fun depth :: "ftree \<Rightarrow> nat" where
  "depth FFile = 0"
| "depth (FDir es) = Suc (foldr max (map (\<lambda>(_, t). depth t) es) 0)"

fun shows_tree :: "(bytes \<Rightarrow> bytes list option) \<Rightarrow> (bytes \<Rightarrow> bool) \<Rightarrow> bytes \<Rightarrow> ftree \<Rightarrow> bool" where
  "shows_tree opendir is_dir path FFile \<longleftrightarrow> \<not> is_dir path"
| "shows_tree opendir is_dir path (FDir es) \<longleftrightarrow> is_dir path \<and> path \<noteq> [] \<and>
     (\<exists>names. opendir path = Some names \<and> filter (\<lambda>n. \<not> dot_name n) names = map fst es) \<and>
     (\<forall>(name, t) \<in> set es. 0 \<notin> set (join path name) \<and> length (join path name) < MAX_PATH_LEN \<and>
        shows_tree opendir is_dir (join path name) t)"

fun found :: "(bytes \<Rightarrow> bool) \<Rightarrow> bytes \<Rightarrow> ftree \<Rightarrow> calls" where
  "found fnm path FFile = []"
| "found fnm path (FDir es) = concat (map (\<lambda>(name, t).
     found fnm (join path name) t @ (if fnm name then [(join path name, name)] else [])) es)"

section \<open>Lemmas\<close>

lemma CombineEx_join:
  assumes "path1 \<noteq> []" and "0 \<notin> set (join path1 path2)" and "0 < n" and "n \<le> length buf"
  shows "map_option cstr (CombineEx buf n path1 path2) = Some (take (n - 1) (join path1 path2))"
proof -
  have "CombineEx buf n path1 path2 = map_option snd (snprintf buf 0 n (join path1 path2))"
    using assms(1) by (simp add: CombineEx_def join_def last_conv_nth)
  moreover obtain b where "snprintf buf 0 n (join path1 path2) = Some (int (length (join path1 path2)), b)"
    "cstr b = take (n - 1) (join path1 path2)"
    using snprintf_cstr [OF assms(2-4)] by blast
  ultimately show ?thesis by simp
qed

lemma full_path_join:
  assumes "path \<noteq> []" and "0 \<notin> set (join path name)" and "length (join path name) < MAX_PATH_LEN"
  shows "full_path_of path name = Some (join path name)"
  unfolding full_path_of_def
  by (subst CombineEx_join) (use assms in \<open>auto simp: MAX_PATH_LEN_def\<close>)

lemma Find_loop_skip:
  "Find_loop is_dir fnm rec_find path names =
   Find_loop is_dir fnm rec_find path (filter (\<lambda>n. \<not> dot_name n) names)"
  by (induction names) auto

lemma depth_entry: "(name, t) \<in> set es \<Longrightarrow> depth t \<le> foldr max (map (\<lambda>(_, t). depth t) es) 0"
  by (induction es) (auto simp: le_max_iff_disj)

lemma Find_loop_tree:
  assumes "path \<noteq> []"
    and "\<And>name t. (name, t) \<in> set es \<Longrightarrow> \<not> dot_name name \<and> full_path_of path name = Some (join path name) \<and>
       (case t of FFile \<Rightarrow> \<not> is_dir (join path name)
        | FDir _ \<Rightarrow> is_dir (join path name) \<and> rec_find (join path name) = Some (True, found fnm (join path name) t))"
  shows "Find_loop is_dir fnm rec_find path (map fst es) = Some (found fnm path (FDir es))"
  using assms(2)
proof (induction es)
  case (Cons e es)
  obtain name t where e: "e = (name, t)" by fastforce
  with Cons(2) [of name t] have "\<not> dot_name name" "full_path_of path name = Some (join path name)"
    and "case t of FFile \<Rightarrow> \<not> is_dir (join path name)
        | FDir _ \<Rightarrow> is_dir (join path name) \<and> rec_find (join path name) = Some (True, found fnm (join path name) t)"
    by simp_all
  moreover have "Find_loop is_dir fnm rec_find path (map fst es) = Some (found fnm path (FDir es))"
    by (rule Cons.IH) (use Cons(2) in auto)
  ultimately show ?case by (cases t) (simp_all add: e)
qed simp

lemma Path_Find_tree:
  assumes "shows_tree opendir is_dir path (FDir es)" and "depth (FDir es) \<le> n"
  shows "Path_Find n opendir is_dir fnm path = Some (True, found fnm path (FDir es))"
  using assms
proof (induction n arbitrary: path es)
  case (Suc n)
  from Suc.prems(1) obtain names where names: "opendir path = Some names"
    "filter (\<lambda>n. \<not> dot_name n) names = map fst es" and path: "path \<noteq> []" by auto
  have "Find_loop is_dir fnm (Path_Find n opendir is_dir fnm) path (map fst es) = Some (found fnm path (FDir es))"
  proof (rule Find_loop_tree [OF path])
    fix name t assume nt: "(name, t) \<in> set es"
    then have "name \<in> set (map fst es)" by force
    then have "\<not> dot_name name" unfolding names(2) [symmetric] by simp
    moreover from Suc.prems(1) nt have t: "shows_tree opendir is_dir (join path name) t"
      and "full_path_of path name = Some (join path name)"
      by (auto intro!: full_path_join)
    moreover have "depth t \<le> n" using depth_entry [OF nt] Suc.prems(2) by simp
    ultimately show "\<not> dot_name name \<and> full_path_of path name = Some (join path name) \<and>
       (case t of FFile \<Rightarrow> \<not> is_dir (join path name)
        | FDir _ \<Rightarrow> is_dir (join path name) \<and>
            Path_Find n opendir is_dir fnm (join path name) = Some (True, found fnm (join path name) t))"
      using Suc.IH by (cases t) auto
  qed
  then show ?case using names Find_loop_skip [of is_dir fnm _ path names] by simp
qed simp

lemma GetFileName_join:
  assumes "path1 \<noteq> []" and "47 \<notin> set path2"
  shows "GetFileName (join path1 path2) = path2"
proof -
  have "join path1 path2 = (if last path1 = 47 then butlast path1 else path1) @ 47 # path2"
    using append_butlast_last_id [OF assms(1)] by (auto simp: join_def)
  then show ?thesis using strrchr_append [OF assms(2)] by (simp add: GetFileName_def)
qed

lemma List_loop_filter: "List_loop fnm path names = map (Pair path) (filter (\<lambda>n. \<not> dot_name n \<and> fnm n) names)"
  by (induction names) auto

section \<open>Properties\<close>

text \<open>
  Joining a directory and a name and taking the file name of the result gives the name back,
  provided the name has no slash and the buffer has room; \<open>CombineEx\<close> never writes outside the
  buffer and cuts a longer path to the buffer's size. \<open>Combine\<close> agrees with \<open>CombineEx\<close> for a
  directory that does not end in a slash.
\<close>

theorem Path_Combine_spec:
  assumes "path1 \<noteq> []" and "0 \<notin> set path1" and "0 \<notin> set path2" and "0 < n" and "n \<le> length buf"
  shows "map_option cstr (CombineEx buf n path1 path2) = Some (take (n - 1) (join path1 path2)) \<and>
     (last path1 \<noteq> 47 \<longrightarrow> Combine buf n path1 path2 = CombineEx buf n path1 path2) \<and>
     (47 \<notin> set path2 \<and> length (join path1 path2) < n \<longrightarrow>
        map_option (GetFileName \<circ> cstr) (CombineEx buf n path1 path2) = Some path2)"
proof -
  have j: "0 \<notin> set (join path1 path2)" using assms(2,3) by (auto simp: join_def)
  note c = CombineEx_join [OF assms(1) j assms(4,5)]
  have "GetFileName (join path1 path2) = path2" if "47 \<notin> set path2"
    by (rule GetFileName_join [OF assms(1) that])
  moreover have "Combine buf n path1 path2 = CombineEx buf n path1 path2" if "last path1 \<noteq> 47"
    using that assms(1) by (simp add: Combine_def CombineEx_def last_conv_nth)
  ultimately show ?thesis using c by (auto simp: option.map_comp [symmetric])
qed

theorem Path_Combine_spec_witness:
  "map_option cstr (CombineEx (replicate 4 0) 4 [97] [98]) = Some [97, 47, 98] \<and>
   map_option cstr (CombineEx (replicate 3 0) 3 [97] [98]) = Some [97, 47]"
  using Path_Combine_spec [of "[97]" "[98]" 4 "replicate 4 0"] Path_Combine_spec [of "[97]" "[98]" 3 "replicate 3 0"]
  by (simp add: join_def)

text \<open>
  C23: on every directory tree whose paths fit into \<^verbatim>\<open>MAX_PATH_LEN\<close> bytes, \<open>Find\<close> ends and reports
  every matching entry of every directory exactly once, those below an entry before the entry;
  \<open>List\<close> reports the matching entries of the directory itself.
\<close>

theorem Path_Find_spec:
  assumes "shows_tree opendir is_dir path (FDir es)" and "depth (FDir es) \<le> n"
  shows "Path_Find n opendir is_dir fnm path = Some (True, found fnm path (FDir es)) \<and>
     Path_List opendir fnm path = (True, map (Pair path) (filter fnm (map fst es)))"
proof -
  from assms(1) obtain names where "opendir path = Some names"
    "filter (\<lambda>n. \<not> dot_name n) names = map fst es" by auto
  then have "Path_List opendir fnm path = (True, map (Pair path) (filter fnm (map fst es)))"
    by (simp add: Path_List_def List_loop_filter flip: filter_filter)
  with Path_Find_tree [OF assms] show ?thesis by simp
qed

theorem Path_Find_spec_witness:
  "Path_Find 1 (\<lambda>p. if p = [97] then Some [[46], [98], [99]] else None) (\<lambda>p. p = [97]) (\<lambda>n. n = [99]) [97] =
   Some (True, [([97, 47, 99], [99])])"
  using Path_Find_spec [of "\<lambda>p. if p = [97] then Some [[46], [98], [99]] else None" "\<lambda>p. p = [97]" "[97]"
      "[([98], FFile), ([99], FFile)]" 1 "\<lambda>n. n = [99]"]
  by (simp add: join_def dot_name_def MAX_PATH_LEN_def)

end
