(* ===== verification/Directory.thy ===== *)
theory Directory
  imports Path "HOL-Library.Sublist"
begin

text \<open>
  \<^verbatim>\<open>include/xfutil/directory.h\<close> and \<^verbatim>\<open>src/directory.cpp\<close>: creating and removing directories. For creation
  the file system is a state \<open>fs\<close> with two parameters, \<open>exist\<close> (\<^verbatim>\<open>stat\<close> says it is a directory) and
  \<open>mkdir\<close>; for removal the answers of \<^verbatim>\<open>opendir\<close> and \<^verbatim>\<open>stat\<close> are parameters and the removing system calls
  are the result, in order. The file mode mask is set around creation and restored, and does not
  appear.
\<close>

section \<open>Definitions\<close>

definition Directory_Rename :: "int \<Rightarrow> bool" where
  "Directory_Rename rename_res \<longleftrightarrow> rename_res = 0"

text \<open>\<open>mode\<close> is the answer of \<^verbatim>\<open>stat\<close> (\<^const>\<open>None\<close> when it fails): whether the file is a directory.\<close>

definition Directory_Exist :: "bool option \<Rightarrow> bool" where
  "Directory_Exist mode \<longleftrightarrow> mode \<noteq> None \<and> mode = Some True"

definition Directory_Create ::
    "('s \<Rightarrow> bytes \<Rightarrow> bool) \<Rightarrow> (bytes \<Rightarrow> 's \<Rightarrow> int \<times> 's) \<Rightarrow> bytes \<Rightarrow> 's \<Rightarrow> bool \<times> 's" where
  "Directory_Create exist mkdir path fs =
     (let (ret, fs) = (if \<not> exist fs path then mkdir path fs else (0, fs)) in (ret = 0, fs))"

text \<open>\<^verbatim>\<open>strchr(path + from, '/')\<close> for a position in the string or at its end, as an index.\<close>

definition slash_from :: "bytes \<Rightarrow> nat \<Rightarrow> nat option" where
  "slash_from path i =
     (if 47 \<in> set (drop i path) then Some (i + length (takeWhile (\<lambda>c. c \<noteq> 47) (drop i path))) else None)"

lemma slash_from_bounds: "slash_from path i = Some j \<Longrightarrow> i \<le> j \<and> j < length path \<and> path ! j = 47"
proof -
  assume "slash_from path i = Some j"
  then have m: "47 \<in> set (drop i path)" and j: "j = i + length (takeWhile (\<lambda>c. c \<noteq> 47) (drop i path))"
    by (auto simp: slash_from_def split: if_splits)
  from m obtain us vs where d: "drop i path = us @ 47 # vs" and "47 \<notin> set us" by (meson split_list_first)
  then have "takeWhile (\<lambda>c. c \<noteq> 47) (drop i path) = us"
    unfolding d by (subst takeWhile_append2) auto
  with j have j: "j = i + length us" by simp
  have "i < length path" using m by (cases "i < length path") auto
  moreover have "length us < length path - i" using arg_cong [OF d, of length] by simp
  moreover have "drop i path ! length us = 47" using d by simp
  ultimately show ?thesis using j by simp
qed

text \<open>
  The loop of \<open>Create_r\<close> from a slash on. The string itself is cut at the slash while the prefix
  is looked at; the second component of the result is the string the caller finds afterwards.
\<close>

function Create_r_loop :: "('s \<Rightarrow> bytes \<Rightarrow> bool) \<Rightarrow> (bytes \<Rightarrow> 's \<Rightarrow> int \<times> 's) \<Rightarrow> bytes \<Rightarrow> nat option \<Rightarrow> 's \<Rightarrow>
    bool \<times> bytes \<times> 's" where
  "Create_r_loop exist mkdir path None fs =
     (if \<not> exist fs path then
        let (ret, fs) = mkdir path fs
        in if ret \<noteq> 0 then (False, path, fs) else (True, path, fs)
      else (True, path, fs))"
| "Create_r_loop exist mkdir path (Some slash) fs =
     (if slash < length path then
        let cut = path[slash := 0];
            (ret, fs) = (if \<not> exist fs (cstr cut) then mkdir (cstr cut) fs else (0, fs))
        in if ret \<noteq> 0 then (False, cut, fs)
           else Create_r_loop exist mkdir (cut[slash := 47]) (slash_from (cut[slash := 47]) (slash + 1)) fs
      else (False, path, fs))"
  by pat_completeness auto
termination
proof (relation "measure (\<lambda>(_, _, path, slash, _). case slash of None \<Rightarrow> 0 | Some j \<Rightarrow> Suc (length path - j))",
    goal_cases)
  case (2 exist mkdir path slash fs cut x xa y)
  then show ?case using slash_from_bounds [of "cut[slash := 47]" "slash + 1"]
    by (cases "slash_from (cut[slash := 47]) (slash + 1)") auto
qed simp

text \<open>On an empty path \<^verbatim>\<open>path + 1\<close> points behind the terminator: \<^const>\<open>None\<close>, undefined behaviour.\<close>

definition Create_r :: "('s \<Rightarrow> bytes \<Rightarrow> bool) \<Rightarrow> (bytes \<Rightarrow> 's \<Rightarrow> int \<times> 's) \<Rightarrow> bytes \<Rightarrow> 's \<Rightarrow>
    (bool \<times> bytes \<times> 's) option" where
  "Create_r exist mkdir path fs =
     (if path = [] then None else Some (Create_r_loop exist mkdir path (slash_from path 1) fs))"

datatype syscall = Unlink bytes | Rmdir bytes

text \<open>
  One directory of \<open>Remove\<close>: \<open>stat\<close> is the answer of \<^verbatim>\<open>stat\<close>, \<open>rec_remove\<close> the recursive call, whose
  result the code ignores.
\<close>

fun Remove_loop :: "(bytes \<Rightarrow> bool option) \<Rightarrow> (bytes \<Rightarrow> (bool \<times> syscall list) option) \<Rightarrow>
    bytes \<Rightarrow> bytes list \<Rightarrow> (bool \<times> syscall list) option" where
  "Remove_loop stat rec_remove path [] = Some (True, [Rmdir path])"
| "Remove_loop stat rec_remove path (name # names) =
     (if dot_name name then Remove_loop stat rec_remove path names
      else Option.bind (full_path_of path name) (\<lambda>full_path.
        case stat full_path of
          None \<Rightarrow> Some (False, [])
        | Some True \<Rightarrow>
            Option.bind (rec_remove full_path) (\<lambda>(_, inner).
            map_option (\<lambda>(r, rest). (r, inner @ Rmdir full_path # rest)) (Remove_loop stat rec_remove path names))
        | Some False \<Rightarrow>
            map_option (\<lambda>(r, rest). (r, Unlink full_path # rest)) (Remove_loop stat rec_remove path names)))"

primrec Directory_Remove :: "nat \<Rightarrow> (bytes \<Rightarrow> bytes list option) \<Rightarrow> (bytes \<Rightarrow> bool option) \<Rightarrow>
    bytes \<Rightarrow> (bool \<times> syscall list) option" where
  "Directory_Remove 0 opendir stat path = None"
| "Directory_Remove (Suc n) opendir stat path =
     (case opendir path of
        None \<Rightarrow> Some (False, [])
      | Some names \<Rightarrow> Remove_loop stat (Directory_Remove n opendir stat) path names)"

section \<open>Specification vocabulary\<close>

text \<open>
  What the removing calls do to the set of paths that exist: \<^verbatim>\<open>rmdir\<close> of a directory that is not empty
  fails and changes nothing. \<open>below p q\<close>: \<open>q\<close> lies in the directory \<open>p\<close> or deeper.
\<close>

definition below :: "bytes \<Rightarrow> bytes \<Rightarrow> bool" where
  "below p q \<longleftrightarrow> (\<exists>r. r \<noteq> [] \<and> q = join p [] @ r)"

fun exec :: "syscall \<Rightarrow> bytes set \<Rightarrow> bytes set" where
  "exec (Unlink p) S = S - {p}"
| "exec (Rmdir p) S = (if \<exists>q\<in>S. below p q then S else S - {p})"

fun tree_paths :: "bytes \<Rightarrow> ftree \<Rightarrow> bytes set" where
  "tree_paths path FFile = {path}"
| "tree_paths path (FDir es) = insert path (\<Union>(name, t)\<in>set es. tree_paths (join path name) t)"

text \<open>Names in a directory are distinct, not empty and have no slash; every file can be looked at.\<close>

fun names_ok :: "(bytes \<Rightarrow> bool option) \<Rightarrow> bytes \<Rightarrow> ftree \<Rightarrow> bool" where
  "names_ok stat path FFile \<longleftrightarrow> stat path = Some False"
| "names_ok stat path (FDir es) \<longleftrightarrow> stat path = Some True \<and> path \<noteq> [] \<and> distinct (map fst es) \<and>
     (\<forall>(name, t)\<in>set es. name \<noteq> [] \<and> 47 \<notin> set name \<and> names_ok stat (join path name) t)"

section \<open>Paths\<close>

lemma join_eq: "path \<noteq> [] \<Longrightarrow> join path name = join path [] @ name"
  by (simp add: join_def)

lemma join_ne [simp]: "path \<noteq> [] \<Longrightarrow> join path name \<noteq> []"
  by (simp add: join_def)

lemma join_name: "name \<noteq> [] \<Longrightarrow> 47 \<notin> set name \<Longrightarrow> join (join path name) [] = join path name @ [47]"
  unfolding join_def by (cases "last name = 47") (use last_in_set [of name] in auto)

lemma split_slash:
  assumes "47 \<notin> set u" and "47 \<notin> set v"
  shows "u @ 47 # r = v @ 47 # s \<longleftrightarrow> u = v \<and> r = s"
proof
  assume e: "u @ 47 # r = v @ 47 # s"
  have "takeWhile (\<lambda>c. c \<noteq> 47) (u @ 47 # r) = u" "takeWhile (\<lambda>c. c \<noteq> 47) (v @ 47 # s) = v"
    using assms by (subst takeWhile_append2; auto)+
  with e show "u = v \<and> r = s" by simp
qed simp

lemma below_entry:
  assumes "path \<noteq> []" and "name \<noteq> []" and "47 \<notin> set name"
  shows "below path (join path name)" and "below (join path name) q \<Longrightarrow> below path q"
proof -
  show "below path (join path name)" 
    unfolding below_def using join_eq [OF assms(1), of name] assms(2) by blast
  assume "below (join path name) q"
  then obtain r where "q = join path name @ [47] @ r" using assms by (auto simp: below_def join_name)
  then have "q = join path [] @ name @ 47 # r" using join_eq [OF assms(1), of name] by simp
  then show "below path q" by (auto simp: below_def)
qed

lemma tree_paths_shape:
  "names_ok stat path t \<Longrightarrow> q \<in> tree_paths path t \<Longrightarrow> q = path \<or> below path q"
proof (induction path t rule: tree_paths.induct)
  case (2 path es)
  show ?case
  proof (cases "q = path")
    case False
    with 2(3) obtain name u where u: "(name, u) \<in> set es" "q \<in> tree_paths (join path name) u" by auto
    with 2(2) have n: "path \<noteq> []" "name \<noteq> []" "47 \<notin> set name" "names_ok stat (join path name) u" by auto
    with 2(1) [OF u(1) refl] u(2) have "q = join path name \<or> below (join path name) q" by simp
    with below_entry [OF n(1-3)] show ?thesis by auto
  qed simp
qed simp

text \<open>A path below one entry of a directory belongs to the tree of that entry.\<close>

lemma below_unique:
  assumes ok: "names_ok stat path (FDir es)" and e: "(name, t) \<in> set es" "(name', t') \<in> set es"
    and q: "q \<in> tree_paths (join path name') t'" "below (join path name) q"
  shows "name' = name" and "t' = t"
proof -
  from ok e have n: "path \<noteq> []" "name \<noteq> []" "47 \<notin> set name" "name' \<noteq> []" "47 \<notin> set name'"
    "names_ok stat (join path name') t'" and d: "distinct (map fst es)" by auto
  from q(2) n obtain r where "q = join path name @ 47 # r" by (auto simp: below_def join_name)
  then have r: "q = join path [] @ name @ 47 # r" using join_eq [OF n(1), of name] by simp
  from tree_paths_shape [OF n(6) q(1)] show eq: "name' = name"
  proof
    assume "q = join path name'"
    then have "name' = name @ 47 # r" using r join_eq [OF n(1), of name'] by simp
    with n(5) show ?thesis by simp
  next
    assume "below (join path name') q"
    then obtain s where "q = join path name' @ 47 # s" using n by (auto simp: below_def join_name)
    then have "q = join path [] @ name' @ 47 # s" using join_eq [OF n(1), of name'] by simp
    with r have "name @ 47 # r = name' @ 47 # s" by simp
    with split_slash [OF n(3,5)] show ?thesis by simp
  qed
  show "t' = t" using d e unfolding eq by (metis eq_key_imp_eq_value)
qed

section \<open>Removal\<close>

lemma exec_Rmdir_absent: "p \<notin> S \<Longrightarrow> exec (Rmdir p) S = S"
  by simp

lemma Remove_loop_skip:
  "Remove_loop stat rec_remove path names =
   Remove_loop stat rec_remove path (filter (\<lambda>n. \<not> dot_name n) names)"
  by (induction names) (auto cong: option.case_cong bool.case_cong)

text \<open>The calls for one entry of a directory remove what is below it.\<close>

lemma Remove_loop_entry:
  assumes ok: "names_ok stat path (FDir es)" and nt: "(name, t) \<in> set es" and "\<not> dot_name name"
    and "full_path_of path name = Some (join path name)"
    and cs: "Remove_loop stat rec_remove path names = Some (True, cs)"
    and rec: "t \<noteq> FFile \<longrightarrow> (\<exists>r cs. rec_remove (join path name) = Some (r, cs) \<and>
         (\<forall>S. (\<forall>q\<in>S. below (join path name) q \<longrightarrow> q \<in> tree_paths (join path name) t) \<longrightarrow>
            fold exec cs S = S - tree_paths (join path name) t))"
  shows "\<exists>ds. Remove_loop stat rec_remove path (name # names) = Some (True, ds @ cs) \<and>
    (\<forall>S. (\<forall>q\<in>S. below (join path name) q \<longrightarrow> q \<in> tree_paths (join path name) t) \<longrightarrow>
       fold exec ds S = S - tree_paths (join path name) t)"
proof (cases t)
  case FFile
  with ok nt have "stat (join path name) = Some False" by auto
  with assms(3-5) FFile show ?thesis by (auto intro!: exI [of _ "[Unlink (join path name)]"])
next
  case (FDir gs)
  let ?p = "join path name" and ?T = "tree_paths (join path name) t"
  from ok nt FDir have st: "stat ?p = Some True" by auto
  from rec FDir obtain r ds where ds: "rec_remove ?p = Some (r, ds)"
    "\<And>S. \<forall>q\<in>S. below ?p q \<longrightarrow> q \<in> ?T \<Longrightarrow> fold exec ds S = S - ?T" by auto
  have "?p \<in> ?T" using FDir by simp
  then have "fold exec (ds @ [Rmdir ?p]) S = S - ?T" if "\<forall>q\<in>S. below ?p q \<longrightarrow> q \<in> ?T" for S
    using ds(2) [OF that] exec_Rmdir_absent [of ?p "S - ?T"] by simp
  moreover have "Remove_loop stat rec_remove path (name # names) = Some (True, (ds @ [Rmdir ?p]) @ cs)"
    using assms(3-5) st ds(1) by simp
  ultimately show ?thesis by blast
qed

lemma Remove_loop_entries:
  assumes ok: "names_ok stat path (FDir es)" and "set fs \<subseteq> set es"
    and step: "\<And>name t. (name, t) \<in> set fs \<Longrightarrow> \<not> dot_name name \<and> full_path_of path name = Some (join path name) \<and>
      (t \<noteq> FFile \<longrightarrow> (\<exists>r cs. rec_remove (join path name) = Some (r, cs) \<and>
         (\<forall>S. (\<forall>q\<in>S. below (join path name) q \<longrightarrow> q \<in> tree_paths (join path name) t) \<longrightarrow>
            fold exec cs S = S - tree_paths (join path name) t)))"
  shows "\<exists>cs. Remove_loop stat rec_remove path (map fst fs) = Some (True, cs) \<and>
    (\<forall>S. (\<forall>q\<in>S. below path q \<longrightarrow> (\<exists>(name, t)\<in>set fs. q \<in> tree_paths (join path name) t)) \<longrightarrow>
       fold exec cs S = S - tree_paths path (FDir fs))"
  using assms(2) step
proof (induction fs)
  case Nil
  then show ?case by auto
next
  case (Cons e fs)
  obtain name t where e: "e = (name, t)" by fastforce
  let ?p = "join path name" and ?T = "tree_paths (join path name) t"
  have nt: "(name, t) \<in> set es" using Cons.prems(1) e by simp
  have "\<exists>cs. Remove_loop stat rec_remove path (map fst fs) = Some (True, cs) \<and>
    (\<forall>S. (\<forall>q\<in>S. below path q \<longrightarrow> (\<exists>(name, t)\<in>set fs. q \<in> tree_paths (join path name) t)) \<longrightarrow>
       fold exec cs S = S - tree_paths path (FDir fs))"
    by (rule Cons.IH) (use Cons.prems(1) in simp, rule Cons.prems(2), simp)
  then obtain cs where cs: "Remove_loop stat rec_remove path (map fst fs) = Some (True, cs)"
    and run: "\<And>S. \<forall>q\<in>S. below path q \<longrightarrow> (\<exists>(name, t)\<in>set fs. q \<in> tree_paths (join path name) t) \<Longrightarrow>
       fold exec cs S = S - tree_paths path (FDir fs)" by blast
  have d: "\<not> dot_name name" "full_path_of path name = Some ?p" using Cons.prems(2) [of name t] e by auto
  from Remove_loop_entry [OF ok nt d cs] Cons.prems(2) [of name t] e
  have "\<exists>ds. Remove_loop stat rec_remove path (map fst (e # fs)) = Some (True, ds @ cs) \<and>
    (\<forall>S. (\<forall>q\<in>S. below ?p q \<longrightarrow> q \<in> ?T) \<longrightarrow> fold exec ds S = S - ?T)" by simp
  then obtain ds where loop: "Remove_loop stat rec_remove path (map fst (e # fs)) = Some (True, ds @ cs)"
    and first: "\<And>S. \<forall>q\<in>S. below ?p q \<longrightarrow> q \<in> ?T \<Longrightarrow> fold exec ds S = S - ?T" by blast
  have "fold exec (ds @ cs) S = S - tree_paths path (FDir (e # fs))"
    if S: "\<forall>q\<in>S. below path q \<longrightarrow> (\<exists>(name, t)\<in>set (e # fs). q \<in> tree_paths (join path name) t)" for S
  proof -
    have "q \<in> ?T" if q: "q \<in> S" "below ?p q" for q
    proof -
      have "below path q" using below_entry(2) [OF _ _ _ q(2)] ok nt by auto
      with S q have "\<exists>(n, u)\<in>set (e # fs). q \<in> tree_paths (join path n) u" by blast
      then obtain n u where u: "(n, u) \<in> set (e # fs)" "q \<in> tree_paths (join path n) u" by blast
      then have "(n, u) \<in> set es" using Cons.prems(1) by auto
      from below_unique [OF ok nt this u(2) q(2)] u(2) show ?thesis by simp
    qed
    with first have "fold exec ds S = S - ?T" by blast
    moreover have "fold exec cs (S - ?T) = (S - ?T) - tree_paths path (FDir fs)"
      by (rule run) (use S e in auto)
    ultimately show ?thesis by (auto simp: e)
  qed
  with loop show ?case by blast
qed

lemma Directory_Remove_tree:
  assumes "shows_tree opendir (\<lambda>p. stat p = Some True) path (FDir es)" and "names_ok stat path (FDir es)"
    and "depth (FDir es) \<le> n"
  shows "\<exists>cs. Directory_Remove n opendir stat path = Some (True, cs) \<and>
    (\<forall>S. (\<forall>q\<in>S. below path q \<longrightarrow> q \<in> tree_paths path (FDir es)) \<longrightarrow>
       fold exec cs S = S - tree_paths path (FDir es))"
  using assms
proof (induction n arbitrary: path es)
  case (Suc n)
  from Suc.prems(1) obtain names where names: "opendir path = Some names"
    "filter (\<lambda>n. \<not> dot_name n) names = map fst es" and path: "path \<noteq> []" by auto
  have "\<exists>cs. Remove_loop stat (Directory_Remove n opendir stat) path (map fst es) = Some (True, cs) \<and>
    (\<forall>S. (\<forall>q\<in>S. below path q \<longrightarrow> (\<exists>(name, t)\<in>set es. q \<in> tree_paths (join path name) t)) \<longrightarrow>
       fold exec cs S = S - tree_paths path (FDir es))"
  proof (rule Remove_loop_entries [OF Suc.prems(2) subset_refl])
    fix name t assume nt: "(name, t) \<in> set es"
    then have "name \<in> set (map fst es)" by force
    then have "\<not> dot_name name" unfolding names(2) [symmetric] by simp
    moreover from Suc.prems(1,2) nt have t: "shows_tree opendir (\<lambda>p. stat p = Some True) (join path name) t"
      "names_ok stat (join path name) t" and "full_path_of path name = Some (join path name)"
      by (auto intro!: full_path_join)
    moreover have "\<exists>r cs. Directory_Remove n opendir stat (join path name) = Some (r, cs) \<and>
         (\<forall>S. (\<forall>q\<in>S. below (join path name) q \<longrightarrow> q \<in> tree_paths (join path name) t) \<longrightarrow>
            fold exec cs S = S - tree_paths (join path name) t)" if ne: "t \<noteq> FFile"
    proof -
      obtain gs where gs: "t = FDir gs" using ne by (cases t) auto
      have "depth t \<le> n" using depth_entry [OF nt] Suc.prems(3) by simp
      with Suc.IH [of "join path name" gs] t show ?thesis unfolding gs by blast
    qed
    ultimately show "\<not> dot_name name \<and> full_path_of path name = Some (join path name) \<and>
      (t \<noteq> FFile \<longrightarrow> (\<exists>r cs. Directory_Remove n opendir stat (join path name) = Some (r, cs) \<and>
         (\<forall>S. (\<forall>q\<in>S. below (join path name) q \<longrightarrow> q \<in> tree_paths (join path name) t) \<longrightarrow>
            fold exec cs S = S - tree_paths (join path name) t)))"
      by blast
  qed
  then obtain cs where cs: "Remove_loop stat (Directory_Remove n opendir stat) path (map fst es) = Some (True, cs)"
    and run: "\<And>S. \<forall>q\<in>S. below path q \<longrightarrow> (\<exists>(name, t)\<in>set es. q \<in> tree_paths (join path name) t) \<Longrightarrow>
       fold exec cs S = S - tree_paths path (FDir es)" by blast
  have "\<exists>(name, t)\<in>set es. q \<in> tree_paths (join path name) t"
    if "below path q" "q \<in> tree_paths path (FDir es)" for q
    using that by (auto simp: below_def join_def split: if_splits)
  then have "fold exec cs S = S - tree_paths path (FDir es)"
    if "\<forall>q\<in>S. below path q \<longrightarrow> q \<in> tree_paths path (FDir es)" for S
    using that by (intro run) blast
  moreover have "Directory_Remove (Suc n) opendir stat path = Some (True, cs)"
    using names cs Remove_loop_skip [of stat "Directory_Remove n opendir stat" path names] by simp
  ultimately show ?case by blast
qed simp

section \<open>Creation\<close>

text \<open>
  What \<^verbatim>\<open>mkdir\<close> promises: after success the directory exists, no call makes a directory vanish, and
  one that fails makes none.
\<close>

definition mkdir_ok :: "('s \<Rightarrow> bytes \<Rightarrow> bool) \<Rightarrow> (bytes \<Rightarrow> 's \<Rightarrow> int \<times> 's) \<Rightarrow> bool" where
  "mkdir_ok exist mkdir \<longleftrightarrow> (\<forall>p fs. fst (mkdir p fs) = 0 \<longrightarrow> exist (snd (mkdir p fs)) p) \<and>
     (\<forall>p q fs. exist fs q \<longrightarrow> exist (snd (mkdir p fs)) q) \<and>
     (\<forall>p q fs. fst (mkdir p fs) \<noteq> 0 \<longrightarrow> exist (snd (mkdir p fs)) q \<longrightarrow> exist fs q)"

text \<open>The prefixes of a path that end before a slash at position \<open>k\<close> or later, up to position \<open>i\<close>.\<close>

definition prefixes_exist :: "('s \<Rightarrow> bytes \<Rightarrow> bool) \<Rightarrow> bytes \<Rightarrow> nat \<Rightarrow> nat \<Rightarrow> 's \<Rightarrow> bool" where
  "prefixes_exist exist path k i fs \<longleftrightarrow> (\<forall>j. k \<le> j \<longrightarrow> j < i \<longrightarrow> path ! j = 47 \<longrightarrow> exist fs (take j path))"

text \<open>The first prefix that could not be made, and where the caller's string is cut then.\<close>

definition missing_at :: "('s \<Rightarrow> bytes \<Rightarrow> bool) \<Rightarrow> bytes \<Rightarrow> nat \<Rightarrow> nat \<Rightarrow> 's \<Rightarrow> bool" where
  "missing_at exist path k i fs \<longleftrightarrow> k \<le> i \<and> i < length path \<and> path ! i = 47 \<and> \<not> exist fs (take i path) \<and>
     prefixes_exist exist path k i fs"

lemma slash_from_first:
  assumes "k \<le> i" and "i < length path" and "path ! i = 47"
  shows "\<exists>j. slash_from path k = Some j \<and> j \<le> i"
proof -
  obtain us vs where d: "drop k path = us @ 47 # vs" and u: "47 \<notin> set us" and l: "length us \<le> i - k"
  proof -
    have at: "drop k path ! (i - k) = 47" and lt: "i - k < length (drop k path)" using assms by auto
    then have "47 \<in> set (drop k path)" using nth_mem by metis
    then obtain us vs where d: "drop k path = us @ 47 # vs" "47 \<notin> set us" by (meson split_list_first)
    have "length us \<le> i - k"
    proof (rule ccontr)
      assume "\<not> ?thesis"
      then have "us ! (i - k) = 47" "i - k < length us" using at d(1) by (auto simp: nth_append)
      then show False using d(2) nth_mem by metis
    qed
    with d that show thesis by blast
  qed
  have "takeWhile (\<lambda>c. c \<noteq> 47) (us @ 47 # vs) = us" using u by (subst takeWhile_append2) auto
  then show ?thesis using assms(1) l by (auto simp: slash_from_def d)
qed

lemma cstr_cut: "0 \<notin> set path \<Longrightarrow> j < length path \<Longrightarrow> cstr (path[j := 0]) = take j path"
  unfolding upd_conv_take_nth_drop by (intro cstr_id) (auto dest: in_set_takeD)

lemma Create_r_loop_spec:
  assumes "mkdir_ok exist mkdir" and "0 \<notin> set path"
    and "case slash of None \<Rightarrow> k = length path | Some j \<Rightarrow> k = j \<and> j < length path \<and> path ! j = 47"
    and "Create_r_loop exist mkdir path slash fs = (r, path', fs')"
  shows "(\<forall>q. exist fs q \<longrightarrow> exist fs' q) \<and>
     (r \<longrightarrow> path' = path \<and> exist fs' path \<and> prefixes_exist exist path k (length path) fs') \<and>
     (\<not> r \<longrightarrow> (\<exists>i. missing_at exist path k i fs' \<and> path' = path[i := 0]) \<or>
        (path' = path \<and> \<not> exist fs' path \<and> prefixes_exist exist path k (length path) fs')) \<and>
     ((\<forall>p fs. fst (mkdir p fs) = 0) \<longrightarrow> r)"
  using assms
proof (induction exist mkdir path slash fs arbitrary: r path' fs' k rule: Create_r_loop.induct)
  case (1 exist mkdir path fs)
  then show ?case
    by (auto simp: mkdir_ok_def prefixes_exist_def split_beta Let_def split: if_splits)
next
  case (2 exist mkdir path slash fs)
  have s: "slash < length path" "path ! slash = 47" and k: "k = slash" using 2(4) by auto
  define m where "m = (if \<not> exist fs (take slash path) then mkdir (take slash path) fs else (0, fs))"
  have cut: "cstr (path[slash := 0]) = take slash path" using 2(3) s(1) by (rule cstr_cut)
  have restored: "path[slash := 0, slash := 47] = path" using s by (metis list_update_id list_update_overwrite)
  have keep: "\<forall>q. exist fs q \<longrightarrow> exist (snd m) q" and made: "fst m = 0 \<Longrightarrow> exist (snd m) (take slash path)"
    and unmade: "fst m \<noteq> 0 \<Longrightarrow> \<not> exist (snd m) (take slash path)"
    using 2(2) by (auto simp: m_def mkdir_ok_def)
  show ?case
  proof (cases "fst m = 0")
    case False
    then have "(r, path', fs') = (False, path[slash := 0], snd m)"
      using 2(5) s(1) cut by (auto simp: m_def Let_def split: if_splits prod.splits)
    moreover have "\<not> (\<forall>p fs. fst (mkdir p fs) = 0)" using False by (auto simp: m_def split: if_splits)
    moreover have "missing_at exist path k slash (snd m)"
      using s k unmade [OF False] by (simp add: missing_at_def prefixes_exist_def)
    ultimately show ?thesis using keep by auto
  next
    case True
    let ?nx = "slash_from path (slash + 1)"
    let ?k = "case ?nx of None \<Rightarrow> length path | Some j \<Rightarrow> j"
    have res: "Create_r_loop exist mkdir path ?nx (snd m) = (r, path', fs')"
      using 2(5) s(1) cut restored True by (auto simp: m_def Let_def split: if_splits prod.splits)
    have n: "case ?nx of None \<Rightarrow> ?k = length path | Some j \<Rightarrow> ?k = j \<and> j < length path \<and> path ! j = 47"
      by (auto split: option.splits dest: slash_from_bounds)
    have ok: "\<not> fst m \<noteq> 0" using True by simp
    note IH = 2(1) [OF s(1) refl, unfolded cut restored, OF m_def prod.collapse ok 2(2,3) n res]
    have later: "?k \<le> j" if "slash < j" "j < length path" "path ! j = 47" for j
      using slash_from_first [of "slash + 1" j path] that by auto
    have at: "exist fs' (take slash path)" using made True IH by blast
    have ext: "prefixes_exist exist path k i fs'" if "prefixes_exist exist path ?k i fs'" "i \<le> length path" for i
      unfolding prefixes_exist_def k
    proof (intro allI impI)
      fix j
      assume j: "slash \<le> j" "j < i" "path ! j = 47"
      show "exist fs' (take j path)"
      proof (cases "j = slash")
        case False
        with j that(2) have "?k \<le> j" by (intro later) auto
        with that(1) j show ?thesis by (simp add: prefixes_exist_def)
      qed (simp add: at)
    qed
    have "slash \<le> ?k" using s(1) by (auto split: option.splits dest: slash_from_bounds)
    then have "missing_at exist path ?k i fs' \<Longrightarrow> missing_at exist path k i fs'" for i
      using ext [of i] by (simp add: missing_at_def k)
    with IH keep ext [of "length path"] show ?thesis by blast
  qed
qed

section \<open>Properties\<close>

text \<open>
  C36: \<open>Create_r\<close> on a path that is not empty ends. When it reports success, the directory and every prefix
  of the path that ends before a slash exist and the caller's string is unchanged. When it fails, some \<^verbatim>\<open>mkdir\<close>
  has failed, and there are two cases: the first prefix that is missing tells where the caller's
  string stays cut, a NUL in the place of the slash; or all prefixes are there, only the last call
  failed, and the string is unchanged. \<open>Create\<close> succeeds only if the directory exists afterwards.
\<close>

theorem Create_r_spec:
  assumes "mkdir_ok exist mkdir" and "0 \<notin> set path" and "path \<noteq> []"
  shows "\<exists>r path' fs'. Create_r exist mkdir path fs = Some (r, path', fs') \<and>
     (if r then path' = path \<and> exist fs' path \<and> prefixes_exist exist path 1 (length path) fs'
      else (\<exists>i. missing_at exist path 1 i fs' \<and> path' = path[i := 0]) \<or>
        (path' = path \<and> \<not> exist fs' path \<and> prefixes_exist exist path 1 (length path) fs')) \<and>
     ((\<forall>p fs. fst (mkdir p fs) = 0) \<longrightarrow> r) \<and>
     (fst (Directory_Create exist mkdir path fs) \<longrightarrow> exist (snd (Directory_Create exist mkdir path fs)) path)"
proof -
  let ?nx = "slash_from path 1"
  let ?k = "case ?nx of None \<Rightarrow> length path | Some j \<Rightarrow> j"
  obtain r path' fs' where c: "Create_r_loop exist mkdir path ?nx fs = (r, path', fs')" by (metis prod_cases3)
  have "case ?nx of None \<Rightarrow> ?k = length path | Some j \<Rightarrow> ?k = j \<and> j < length path \<and> path ! j = 47"
    by (auto split: option.splits dest: slash_from_bounds)
  note l = Create_r_loop_spec [OF assms(1,2) this c]
  have first: "?k \<le> j" if "1 \<le> j" "j < length path" "path ! j = 47" for j
    using slash_from_first [of 1 j path] that by auto
  then have ext: "prefixes_exist exist path 1 i fs'" if "prefixes_exist exist path ?k i fs'" "i \<le> length path" for i
    using that by (simp add: prefixes_exist_def)
  have "1 \<le> ?k" using assms(3) by (auto simp: Suc_le_eq split: option.splits dest: slash_from_bounds)
  then have "missing_at exist path ?k i fs' \<Longrightarrow> missing_at exist path 1 i fs'" for i
    using ext [of i] by (simp add: missing_at_def)
  moreover have "fst (Directory_Create exist mkdir path fs) \<longrightarrow>
      exist (snd (Directory_Create exist mkdir path fs)) path"
    using assms(1) by (auto simp: Directory_Create_def mkdir_ok_def split_beta)
  moreover have "Create_r exist mkdir path fs = Some (r, path', fs')" using c assms(3) by (simp add: Create_r_def)
  ultimately show ?thesis using l ext [of "length path"] by (intro exI [of _ r] exI [of _ path'] exI [of _ fs']) auto
qed

text \<open>With a disk on which only \<open>a\<close> can be made, \<open>a/b/c\<close> comes back as \<open>a/b\<close>.\<close>

theorem Create_r_spec_witness:
  "\<exists>S. Create_r (\<lambda>S p. p \<in> S) (\<lambda>p S. if p = [97] then (0, insert p S) else (-1, S)) [97, 47, 98, 47, 99] {} =
     Some (False, [97, 47, 98, 0, 99], S) \<and> [97] \<in> S \<and> [97, 47, 98] \<notin> S"
proof -
  let ?mkdir = "\<lambda>p S. if p = [97] then (0, insert p S) else (-1 :: int, S)" and ?path = "[97, 47, 98, 47, 99 :: u8]"
  have ok: "mkdir_ok (\<lambda>S p. p \<in> S) ?mkdir" by (auto simp: mkdir_ok_def split: if_splits)
  from Create_r_spec [OF ok, of ?path "{}"] show ?thesis
    by (auto simp: Create_r_def slash_from_def cstr_def missing_at_def prefixes_exist_def split: if_splits)
qed

text \<open>
  C24: on every directory tree whose paths fit into \<^verbatim>\<open>MAX_PATH_LEN\<close> bytes, \<open>Remove\<close> ends, reports success,
  and its calls of \<^verbatim>\<open>unlink\<close> and \<^verbatim>\<open>rmdir\<close> come in an order that removes the whole tree and nothing
  else: no \<^verbatim>\<open>rmdir\<close> that matters meets a directory that is not empty.
\<close>

theorem Directory_Remove_spec:
  assumes "shows_tree opendir (\<lambda>p. stat p = Some True) path (FDir es)" and "names_ok stat path (FDir es)"
    and "depth (FDir es) \<le> n" and "\<forall>q\<in>S. below path q \<longrightarrow> q \<in> tree_paths path (FDir es)"
  shows "\<exists>cs. Directory_Remove n opendir stat path = Some (True, cs) \<and>
     fold exec cs S = S - tree_paths path (FDir es)"
proof -
  from Directory_Remove_tree [OF assms(1-3)] obtain cs where "Directory_Remove n opendir stat path = Some (True, cs)"
    and "\<forall>S. (\<forall>q\<in>S. below path q \<longrightarrow> q \<in> tree_paths path (FDir es)) \<longrightarrow>
       fold exec cs S = S - tree_paths path (FDir es)" by (elim exE conjE)
  with assms(4) show ?thesis by (intro exI [of _ cs] conjI) simp_all
qed

theorem Directory_Remove_spec_witness:
  "\<exists>cs. Directory_Remove 1 (\<lambda>p. if p = [97] then Some [[46, 46], [98]] else None)
       (\<lambda>p. if p = [97] then Some True else if p = [97, 47, 98] then Some False else None) [97] = Some (True, cs) \<and>
     fold exec cs {[97], [97, 47, 98], [99]} = {[99]}"
proof -
  have "\<exists>cs. Directory_Remove 1 (\<lambda>p. if p = [97] then Some [[46, 46], [98]] else None)
       (\<lambda>p. if p = [97] then Some True else if p = [97, 47, 98] then Some False else None) [97] = Some (True, cs) \<and>
     fold exec cs {[97], [97, 47, 98], [99]} =
       {[97], [97, 47, 98], [99]} - tree_paths [97] (FDir [([98], FFile)])"
    by (rule Directory_Remove_spec)
      (auto simp: join_def dot_name_def MAX_PATH_LEN_def below_def)
  moreover have "{[97], [97, 47, 98], [99]} - tree_paths [97] (FDir [([98], FFile)]) = {[99]}"
    by (auto simp: join_def)
  ultimately show ?thesis by simp
qed

end
