(* ===== verification/File.thy ===== *)
theory File
  imports Xf_Prelude "HOL-Library.Sublist"
begin

text \<open>
  \<^verbatim>\<open>include/xfutil/file.h\<close> and \<^verbatim>\<open>src/file.cpp\<close>: a file descriptor with an owner, reads and writes that are
  repeated when a signal interrupts them, and copying of files. The operating system is a
  parameter: a state \<open>'s\<close> and, for every system call, a function from the state to the result, the
  error number, the data read (if any) and the new state. Of the calls without interesting
  control flow only the result is an argument. Repetition need not end, so the operations that
  repeat have an \<open>option\<close> result, and \<^const>\<open>None\<close> means that they never return.
\<close>

section \<open>Definitions\<close>

record File =
  m_fid :: int

definition INVALID_FILEID :: int where
  "INVALID_FILEID = -1"

text \<open>The flags of \<open>Open\<close>, with the values of \<^verbatim>\<open>fcntl.h\<close> on x86-64 Linux.\<close>

definition OF_READONLY :: u32 where "OF_READONLY = 0"
definition OF_WRITEONLY :: u32 where "OF_WRITEONLY = 1"
definition OF_READWRITE :: u32 where "OF_READWRITE = 2"
definition OF_CREATE :: u32 where "OF_CREATE = 0x40"
definition OF_TRUNCATE :: u32 where "OF_TRUNCATE = 0x200"
definition OF_APPEND :: u32 where "OF_APPEND = 0x400"
definition OF_DIRECT :: u32 where "OF_DIRECT = 0x4000"

record FileTime =
  change_time :: u64
  access_time :: u64
  modify_time :: u64

definition EINTR :: int where "EINTR = 4"
definition ENOENT :: int where "ENOENT = 2"

definition File_new :: File where
  "File_new = \<lparr>m_fid = INVALID_FILEID\<rparr>"

text \<open>Moving: the new object and what is left of the other.\<close>

definition File_move :: "File \<Rightarrow> File \<times> File" where
  "File_move other = (\<lparr>m_fid = m_fid other\<rparr>, other\<lparr>m_fid := INVALID_FILEID\<rparr>)"

definition GetID :: "File \<Rightarrow> int" where
  "GetID f = m_fid f"

text \<open>
  \<open>umask\<close> (the new mask to the old one) and \<open>open_sys\<close> are the system calls. The flag for large files
  is added to the flags, and the mask of the process is zero during the call.
\<close>

definition File_Open :: "(u32 \<Rightarrow> 's \<Rightarrow> u32 \<times> 's) \<Rightarrow> (bytes \<Rightarrow> u32 \<Rightarrow> u32 \<Rightarrow> 's \<Rightarrow> int \<times> 's) \<Rightarrow> u32 \<Rightarrow>
    bytes \<Rightarrow> u32 \<Rightarrow> File \<Rightarrow> 's \<Rightarrow> bool \<times> File \<times> 's" where
  "File_Open umask open_sys o_largefile file_path flags f s =
     (let flags = flags OR o_largefile;
          (old_mask, s) = umask 0 s;
          (fid, s) = open_sys file_path flags 0x1A4 s;
          f = f\<lparr>m_fid := fid\<rparr>;
          (_, s) = umask old_mask s
      in (m_fid f \<noteq> INVALID_FILEID, f, s))"

text \<open>The first component is the descriptor given to \<^verbatim>\<open>close\<close>, if any.\<close>

definition File_Close :: "File \<Rightarrow> int option \<times> File" where
  "File_Close f =
     (if m_fid f \<noteq> INVALID_FILEID then (Some (m_fid f), f\<lparr>m_fid := INVALID_FILEID\<rparr>) else (None, f))"

definition File_destroy :: "File \<Rightarrow> int option" where
  "File_destroy f = fst (File_Close f)"

type_synonym ('s, 'd) sys = "'s \<Rightarrow> int \<times> int \<times> 'd \<times> 's"

text \<open>The loop of all eight reads and writes: call again while the call was interrupted.\<close>

partial_function (option) retry :: "('s, 'd) sys \<Rightarrow> 's \<Rightarrow> (int \<times> 'd \<times> 's) option" where
  "retry call s =
     (case call s of (rs, err, d, s) \<Rightarrow>
        if rs = -1 \<and> err = EINTR then retry call s else Some (rs, d, s))"

definition File_Read :: "(int \<Rightarrow> nat \<Rightarrow> ('s, bytes) sys) \<Rightarrow> File \<Rightarrow> nat \<Rightarrow> 's \<Rightarrow> (int \<times> bytes \<times> 's) option" where
  "File_Read read f buf_size s = retry (read (m_fid f) buf_size) s"

definition File_Readv :: "(int \<Rightarrow> nat list \<Rightarrow> ('s, bytes) sys) \<Rightarrow> File \<Rightarrow> nat list \<Rightarrow> 's \<Rightarrow> (int \<times> bytes \<times> 's) option" where
  "File_Readv readv f iobuf s = retry (readv (m_fid f) iobuf) s"

definition File_PRead ::
    "(int \<Rightarrow> nat \<Rightarrow> u64 \<Rightarrow> ('s, bytes) sys) \<Rightarrow> File \<Rightarrow> u64 \<Rightarrow> nat \<Rightarrow> 's \<Rightarrow> (int \<times> bytes \<times> 's) option" where
  "File_PRead pread f offset buf_size s = retry (pread (m_fid f) buf_size offset) s"

definition File_PReadv ::
    "(int \<Rightarrow> nat list \<Rightarrow> u64 \<Rightarrow> ('s, bytes) sys) \<Rightarrow> File \<Rightarrow> u64 \<Rightarrow> nat list \<Rightarrow> 's \<Rightarrow> (int \<times> bytes \<times> 's) option" where
  "File_PReadv preadv f offset iobuf s = retry (preadv (m_fid f) iobuf offset) s"

definition File_Write :: "(int \<Rightarrow> bytes \<Rightarrow> ('s, unit) sys) \<Rightarrow> File \<Rightarrow> bytes \<Rightarrow> 's \<Rightarrow> (int \<times> unit \<times> 's) option" where
  "File_Write write_sys f buf s = retry (write_sys (m_fid f) buf) s"

definition File_Writev :: "(int \<Rightarrow> bytes list \<Rightarrow> ('s, unit) sys) \<Rightarrow> File \<Rightarrow> bytes list \<Rightarrow> 's \<Rightarrow> (int \<times> unit \<times> 's) option" where
  "File_Writev writev f iobuf s = retry (writev (m_fid f) iobuf) s"

definition File_PWrite ::
    "(int \<Rightarrow> bytes \<Rightarrow> u64 \<Rightarrow> ('s, unit) sys) \<Rightarrow> File \<Rightarrow> u64 \<Rightarrow> bytes \<Rightarrow> 's \<Rightarrow> (int \<times> unit \<times> 's) option" where
  "File_PWrite pwrite f offset buf s = retry (pwrite (m_fid f) buf offset) s"

definition File_PWritev ::
    "(int \<Rightarrow> bytes list \<Rightarrow> u64 \<Rightarrow> ('s, unit) sys) \<Rightarrow> File \<Rightarrow> u64 \<Rightarrow> bytes list \<Rightarrow> 's \<Rightarrow> (int \<times> unit \<times> 's) option" where
  "File_PWritev pwritev f offset iobuf s = retry (pwritev (m_fid f) iobuf offset) s"

text \<open>The calls of one line; the arguments are the answers of the system.\<close>

definition File_Sync :: "int \<Rightarrow> bool" where "File_Sync fsync_res \<longleftrightarrow> fsync_res = 0"
definition File_Truncate :: "int \<Rightarrow> bool" where "File_Truncate ftruncate_res \<longleftrightarrow> ftruncate_res = 0"
definition File_Allocate :: "int \<Rightarrow> bool" where "File_Allocate fallocate_res \<longleftrightarrow> fallocate_res \<noteq> 0"
definition File_Seek :: "int \<Rightarrow> bool" where "File_Seek lseek_res \<longleftrightarrow> lseek_res \<noteq> 0"

definition File_Size :: "int \<Rightarrow> int \<Rightarrow> int" where
  "File_Size fstat_res st_size = (if fstat_res = 0 then st_size else -1)"

definition File_Size_path :: "int \<Rightarrow> int \<Rightarrow> int" where
  "File_Size_path stat_res st_size = (if stat_res = 0 then st_size else -1)"

definition ModifyTime :: "int \<Rightarrow> u64 \<Rightarrow> u64" where
  "ModifyTime stat_res st_mtime = (if stat_res = 0 then st_mtime else 0)"

definition TryReadLock :: "int \<Rightarrow> bool" where "TryReadLock flock_res \<longleftrightarrow> flock_res = 0"
definition TryWriteLock :: "int \<Rightarrow> bool" where "TryWriteLock flock_res \<longleftrightarrow> flock_res = 0"
definition File_Unlock :: "int \<Rightarrow> bool" where "File_Unlock flock_res \<longleftrightarrow> flock_res = 0"

definition File_Exist :: "int \<Rightarrow> bool \<Rightarrow> bool" where
  "File_Exist stat_res is_reg \<longleftrightarrow> stat_res = 0 \<and> is_reg"

definition File_Remove :: "int \<Rightarrow> int \<Rightarrow> bool" where
  "File_Remove unlink_res err \<longleftrightarrow> unlink_res = 0 \<or> err = ENOENT"

definition File_Rename :: "int \<Rightarrow> bool" where "File_Rename rename_res \<longleftrightarrow> rename_res = 0"

definition COPY_BUF_SIZE :: nat where
  "COPY_BUF_SIZE = 1024 * 1024"

partial_function (option) Copy_loop ::
    "(int \<Rightarrow> nat \<Rightarrow> ('s, bytes) sys) \<Rightarrow> (int \<Rightarrow> bytes \<Rightarrow> ('s, unit) sys) \<Rightarrow> File \<Rightarrow> File \<Rightarrow> 's \<Rightarrow> (bool \<times> 's) option" where
  "Copy_loop read write_sys src_file dst_file s =
     Option.bind (File_Read read src_file COPY_BUF_SIZE s) (\<lambda>(read_size, buf, s).
       if read_size < 0 then Some (False, s)
       else if read_size = 0 then Some (True, s)
       else Option.bind (File_Write write_sys dst_file (take (nat read_size) buf) s) (\<lambda>(ws, _, s).
              if ws \<noteq> read_size then Some (False, s)
              else Copy_loop read write_sys src_file dst_file s))"

text \<open>
  \<open>Copy\<close> with the opening of the two files. The last component of the result is the descriptors the
  destructors close. The buffer is freed by its guard on every way out of the loop.
\<close>

definition File_Copy :: "(int \<Rightarrow> nat \<Rightarrow> ('s, bytes) sys) \<Rightarrow> (int \<Rightarrow> bytes \<Rightarrow> ('s, unit) sys) \<Rightarrow> (int \<Rightarrow> 's \<Rightarrow> int \<times> 's) \<Rightarrow>
    (bytes \<Rightarrow> u32 \<Rightarrow> File \<Rightarrow> 's \<Rightarrow> bool \<times> File \<times> 's) \<Rightarrow>
    bytes \<Rightarrow> bytes \<Rightarrow> bool \<Rightarrow> 's \<Rightarrow> (bool \<times> 's \<times> int option list) option" where
  "File_Copy read write_sys fsync Open src_filepath dst_filepath sync s =
     (let (ok, src_file, s) = Open src_filepath OF_READONLY File_new s
      in if \<not> ok then Some (False, s, [File_destroy src_file])
         else
           let (ok, dst_file, s) = Open dst_filepath (OF_CREATE OR OF_WRITEONLY OR OF_TRUNCATE) File_new s
           in if \<not> ok then Some (False, s, [File_destroy dst_file, File_destroy src_file])
              else map_option
                (\<lambda>(r, s). (r, if r \<and> sync then snd (fsync (m_fid dst_file) s) else s,
                   [File_destroy dst_file, File_destroy src_file]))
                (Copy_loop read write_sys src_file dst_file s))"

section \<open>Repetition\<close>

text \<open>\<open>interrupted call k s\<close>: the first \<open>k\<close> calls from state \<open>s\<close> are interrupted; \<open>after\<close> is the state then.\<close>

fun after :: "('s, 'd) sys \<Rightarrow> nat \<Rightarrow> 's \<Rightarrow> 's" where
  "after call 0 s = s"
| "after call (Suc k) s = after call k (snd (snd (snd (call s))))"

definition interrupts :: "('s, 'd) sys \<Rightarrow> 's \<Rightarrow> bool" where
  "interrupts call s \<longleftrightarrow> fst (call s) = -1 \<and> fst (snd (call s)) = EINTR"

lemma retry_step:
  "retry call s = (if interrupts call s then retry call (snd (snd (snd (call s))))
     else Some (fst (call s), snd (snd (call s))))"
  by (subst retry.simps) (auto simp: interrupts_def split: prod.splits)

lemma retry_after:
  assumes "\<forall>i<k. interrupts call (after call i s)" and "\<not> interrupts call (after call k s)"
  shows "retry call s = Some (fst (call (after call k s)), snd (snd (call (after call k s))))"
  using assms
proof (induction k arbitrary: s)
  case 0
  then show ?case by (subst retry_step) simp
next
  case (Suc k)
  have "interrupts call s" using Suc.prems(1) by force
  moreover have "\<forall>i<k. interrupts call (after call i (snd (snd (snd (call s)))))"
    using Suc.prems(1) by force
  ultimately show ?case using Suc.IH [of "snd (snd (snd (call s)))"] Suc.prems(2)
    by (subst retry_step) simp
qed

lemma retry_Some:
  assumes "retry call s = Some r"
  shows "\<exists>k. (\<forall>i<k. interrupts call (after call i s)) \<and> \<not> interrupts call (after call k s)"
proof (rule retry.raw_induct [OF _ assms])
  fix rec :: "('s, 'd) sys \<Rightarrow> 's \<Rightarrow> (int \<times> 'd \<times> 's) option" and call s y
  assume IH: "\<And>call s y. rec call s = Some y \<Longrightarrow>
      \<exists>k. (\<forall>i<k. interrupts call (after call i s)) \<and> \<not> interrupts call (after call k s)"
    and body: "(case call s of (rs, err, d, s) \<Rightarrow>
        if rs = -1 \<and> err = EINTR then rec call s else Some (rs, d, s)) = Some y"
  show "\<exists>k. (\<forall>i<k. interrupts call (after call i s)) \<and> \<not> interrupts call (after call k s)"
  proof (cases "interrupts call s")
    case False
    then show ?thesis by (intro exI [of _ 0]) simp
  next
    case True
    with body have "rec call (snd (snd (snd (call s)))) = Some y"
      by (auto simp: interrupts_def split: prod.splits)
    from IH [OF this] obtain k where
      "\<forall>i<k. interrupts call (after call i (snd (snd (snd (call s)))))"
      "\<not> interrupts call (after call k (snd (snd (snd (call s)))))" by blast
    with True show ?thesis by (intro exI [of _ "Suc k"]) (auto simp: less_Suc_eq_0_disj)
  qed
qed

section \<open>Copying\<close>

text \<open>
  What the system calls promise on regular files: \<open>rest\<close> is what has not been read of the source yet,
  \<open>out\<close> what has been written. A read delivers the next bytes, none only at the end of the file; a
  write writes a prefix of its data; a call that fails changes nothing.
\<close>

definition files_ok :: "(int \<Rightarrow> nat \<Rightarrow> ('s, bytes) sys) \<Rightarrow> (int \<Rightarrow> bytes \<Rightarrow> ('s, unit) sys) \<Rightarrow> File \<Rightarrow> File \<Rightarrow>
    ('s \<Rightarrow> bytes) \<Rightarrow> ('s \<Rightarrow> bytes) \<Rightarrow> bool" where
  "files_ok read write_sys src dst rest out \<longleftrightarrow>
     (\<forall>n s rs err d s'. read (m_fid src) n s = (rs, err, d, s') \<longrightarrow> out s' = out s \<and> -1 \<le> rs \<and>
        (if rs = -1 then rest s' = rest s
         else rs \<le> int n \<and> rest s = take (nat rs) d @ rest s' \<and> nat rs \<le> length d \<and>
           (rs = 0 \<and> 0 < n \<longrightarrow> rest s = []))) \<and>
     (\<forall>b s ws err d s'. write_sys (m_fid dst) b s = (ws, err, d, s') \<longrightarrow> rest s' = rest s \<and> -1 \<le> ws \<and>
        (if ws = -1 then out s' = out s
         else ws \<le> int (length b) \<and> out s' = out s @ take (nat ws) b))"

text \<open>What interrupted calls leave alone, the whole repetition has at its last call.\<close>

lemma retry_keeps:
  assumes keep: "\<And>s. interrupts call s \<Longrightarrow> v (snd (snd (snd (call s)))) = v s"
    and r: "retry call s = Some (rs, d, s')"
  shows "\<exists>t err. v t = v s \<and> call t = (rs, err, d, s')"
proof -
  from retry_Some [OF r] obtain k where k: "\<forall>i<k. interrupts call (after call i s)"
    "\<not> interrupts call (after call k s)" by blast
  have "v (after call j s) = v s" if "\<forall>i<j. interrupts call (after call i s)" for j
    using that
  proof (induction j arbitrary: s)
    case (Suc j)
    have "interrupts call s" using Suc.prems by force
    moreover have "\<forall>i<j. interrupts call (after call i (snd (snd (snd (call s)))))" using Suc.prems by force
    ultimately show ?case using Suc.IH [of "snd (snd (snd (call s)))"] keep by simp
  qed simp
  with k(1) have "v (after call k s) = v s" by blast
  moreover from retry_after [OF k] r obtain e where "call (after call k s) = (rs, e, d, s')"
    by (cases "call (after call k s)") auto
  ultimately show ?thesis by blast
qed

lemma retry_read:
  assumes ok: "files_ok read write_sys src dst rest out" and r: "retry (read (m_fid src) n) s = Some (rs, d, s')"
  shows "out s' = out s \<and> -1 \<le> rs \<and>
     (if rs = -1 then rest s' = rest s
      else rest s = take (nat rs) d @ rest s' \<and> nat rs \<le> length d \<and> (rs = 0 \<and> 0 < n \<longrightarrow> rest s = []))"
proof -
  have "\<exists>t err. (rest t, out t) = (rest s, out s) \<and> read (m_fid src) n t = (rs, err, d, s')"
  proof (rule retry_keeps [OF _ r])
    fix s assume "interrupts (read (m_fid src) n) s"
    then obtain a e b t where "read (m_fid src) n s = (a, e, b, t)" "a = -1"
      by (cases "read (m_fid src) n s") (auto simp: interrupts_def)
    with ok show "(rest (snd (snd (snd (read (m_fid src) n s)))), out (snd (snd (snd (read (m_fid src) n s))))) = (rest s, out s)"
      by (auto simp: files_ok_def)
  qed
  with ok show ?thesis unfolding files_ok_def by (metis prod.inject)
qed

lemma retry_write:
  assumes ok: "files_ok read write_sys src dst rest out" and r: "retry (write_sys (m_fid dst) b) s = Some (ws, d, s')"
  shows "rest s' = rest s \<and> -1 \<le> ws \<and>
     (if ws = -1 then out s' = out s else ws \<le> int (length b) \<and> out s' = out s @ take (nat ws) b)"
proof -
  have "\<exists>t err. (rest t, out t) = (rest s, out s) \<and> write_sys (m_fid dst) b t = (ws, err, d, s')"
  proof (rule retry_keeps [OF _ r])
    fix s assume "interrupts (write_sys (m_fid dst) b) s"
    then obtain a e c t where "write_sys (m_fid dst) b s = (a, e, c, t)" "a = -1"
      by (cases "write_sys (m_fid dst) b s") (auto simp: interrupts_def)
    with ok show "(rest (snd (snd (snd (write_sys (m_fid dst) b s)))), out (snd (snd (snd (write_sys (m_fid dst) b s))))) =
        (rest s, out s)"
      by (auto simp: files_ok_def)
  qed
  with ok show ?thesis unfolding files_ok_def by (metis prod.inject)
qed

text \<open>The system never interrupts a call for ever.\<close>

definition fair :: "(int \<Rightarrow> nat \<Rightarrow> ('s, bytes) sys) \<Rightarrow> (int \<Rightarrow> bytes \<Rightarrow> ('s, unit) sys) \<Rightarrow> File \<Rightarrow> File \<Rightarrow> bool" where
  "fair read write_sys src dst \<longleftrightarrow>
     (\<forall>n s. \<exists>k. \<not> interrupts (read (m_fid src) n) (after (read (m_fid src) n) k s)) \<and>
     (\<forall>b s. \<exists>k. \<not> interrupts (write_sys (m_fid dst) b) (after (write_sys (m_fid dst) b) k s))"

lemma retry_ends:
  assumes "\<exists>k. \<not> interrupts call (after call k s)"
  shows "\<exists>rs d t. retry call s = Some (rs, d, t)"
proof -
  define k where "k = (LEAST k. \<not> interrupts call (after call k s))"
  have "\<not> interrupts call (after call k s)" unfolding k_def using assms by (rule LeastI_ex)
  moreover have "\<forall>i<k. interrupts call (after call i s)" unfolding k_def using not_less_Least by blast
  ultimately show ?thesis using retry_after [of k call s] by (metis prod.collapse)
qed

lemma write_prefix:
  assumes "files_ok read write_sys src dst rest out" and "retry (write_sys (m_fid dst) b) t = Some (ws, u, v)"
  shows "\<exists>p. prefix p b \<and> out v = out t @ p"
proof (cases "ws = -1")
  case True
  with retry_write [OF assms] show ?thesis by (intro exI [of _ "[]"]) simp
next
  case False
  with retry_write [OF assms] show ?thesis by (intro exI [of _ "take (nat ws) b"]) (simp add: take_is_prefix)
qed

lemma copied_further:
  assumes "if r then y = x @ c else \<exists>p. prefix p c \<and> y = x @ p" and "x = a @ b"
  shows "if r then y = a @ b @ c else \<exists>p. prefix p (b @ c) \<and> y = a @ p"
proof (cases r)
  case False
  with assms obtain p where "prefix (b @ p) (b @ c) \<and> y = a @ (b @ p)" by auto
  then have "\<exists>p. prefix p (b @ c) \<and> y = a @ p" by (rule exI)
  with False show ?thesis by simp
qed (use assms in simp)

lemma Copy_loop_correct:
  assumes ok: "files_ok read write_sys src dst rest out" and fair: "fair read write_sys src dst"
  shows "\<exists>r s'. Copy_loop read write_sys src dst s = Some (r, s') \<and>
     (if r then out s' = out s @ rest s else \<exists>p. prefix p (rest s) \<and> out s' = out s @ p)"
proof (induction "length (rest s)" arbitrary: s rule: less_induct)
  case less
  obtain rs d t where r: "retry (read (m_fid src) COPY_BUF_SIZE) s = Some (rs, d, t)"
    using retry_ends fair unfolding fair_def by metis
  note rd = retry_read [OF ok r]
  consider "rs = -1" | "rs = 0" | "0 < rs" using rd by linarith
  then show ?case
  proof cases
    case 1
    with r rd show ?thesis by (subst Copy_loop.simps) (auto simp: File_Read_def)
  next
    case 2
    with r have "Copy_loop read write_sys src dst s = Some (True, t)"
      by (subst Copy_loop.simps) (simp add: File_Read_def)
    moreover have "rest s = []" using rd 2 by (auto simp: COPY_BUF_SIZE_def)
    ultimately show ?thesis using rd by (intro exI [of _ True] exI [of _ t]) simp
  next
    case 3
    let ?b = "take (nat rs) d"
    obtain ws u v where w: "retry (write_sys (m_fid dst) ?b) t = Some (ws, u, v)"
      using retry_ends fair unfolding fair_def by metis
    note wr = retry_write [OF ok w]
    have s: "rest s = ?b @ rest t" "out t = out s" "length ?b = nat rs" using rd 3 by auto
    show ?thesis
    proof (cases "ws = rs")
      case False
      with r w 3 have "Copy_loop read write_sys src dst s = Some (False, v)"
        by (subst Copy_loop.simps) (simp add: File_Read_def File_Write_def)
      moreover have "\<exists>p. prefix p (rest s) \<and> out v = out s @ p"
        using write_prefix [OF ok w] s(1,2) by (metis prefix_order.trans prefix_def)
      ultimately show ?thesis by auto
    next
      case True
      with r w 3 have step: "Copy_loop read write_sys src dst s = Copy_loop read write_sys src dst v"
        by (subst Copy_loop.simps) (simp add: File_Read_def File_Write_def)
      have v: "rest v = rest t" "out v = out s @ ?b" using wr True 3 s by auto
      have "length (rest v) < length (rest s)" using s v 3 by simp
      from less [OF this] obtain r s' where l: "Copy_loop read write_sys src dst v = Some (r, s')"
        and IH: "if r then out s' = out v @ rest v else \<exists>p. prefix p (rest v) \<and> out s' = out v @ p" by blast
      have "if r then out s' = out s @ rest s else \<exists>p. prefix p (rest s) \<and> out s' = out s @ p"
        using copied_further [OF IH v(2)] unfolding s(1) v(1) .
      with step l show ?thesis by auto
    qed
  qed
qed

section \<open>Properties\<close>

text \<open>
  A read or write returns exactly when some call in a row is not interrupted, and its result is
  that of the first such call: an interruption never reaches the caller.
\<close>

theorem File_retry_spec:
  "(retry call s \<noteq> None \<longleftrightarrow> (\<exists>k. \<not> interrupts call (after call k s))) \<and>
   (\<forall>rs d s'. retry call s = Some (rs, d, s') \<longrightarrow>
      (\<exists>k err. (\<forall>i<k. interrupts call (after call i s)) \<and> call (after call k s) = (rs, err, d, s') \<and>
         \<not> (rs = -1 \<and> err = EINTR)))"
proof -
  have "\<exists>k err. (\<forall>i<k. interrupts call (after call i s)) \<and> call (after call k s) = (rs, err, d, s') \<and>
      \<not> (rs = -1 \<and> err = EINTR)" if r: "retry call s = Some (rs, d, s')" for rs d s'
  proof -
    from retry_Some [OF r] obtain k where k: "\<forall>i<k. interrupts call (after call i s)"
      "\<not> interrupts call (after call k s)" by blast
    with retry_after [OF k] r show ?thesis
      by (cases "call (after call k s)") (auto simp: interrupts_def)
  qed
  moreover have "retry call s \<noteq> None \<longleftrightarrow> (\<exists>k. \<not> interrupts call (after call k s))"
    using retry_ends [of call s] retry_Some [of call s] by fastforce
  ultimately show ?thesis by blast
qed

theorem File_retry_spec_witness:
  "retry (\<lambda>n. if n < 2 then (-1, EINTR, [] :: bytes, n + 1) else (5, 0, [1], n)) (0 :: nat) \<noteq> None"
proof -
  let ?call = "\<lambda>n. if n < 2 then (-1, EINTR, [] :: bytes, n + 1) else (5, 0, [1], n)"
  have "\<not> interrupts ?call (after ?call 2 (0 :: nat))" by (simp add: interrupts_def numeral_2_eq_2)
  with File_retry_spec [of ?call "0 :: nat"] show ?thesis by blast
qed

lemma File_Open_False:
  "File_Open umask open_sys lf path flags f s = (False, g, t) \<Longrightarrow> File_destroy g = None"
  by (auto simp: File_Open_def File_destroy_def File_Close_def Let_def split: prod.splits)

text \<open>A file that cannot be opened ends the copy, with nothing read or written; what was opened is closed.\<close>

lemma File_Copy_open_fails:
  assumes "Open = File_Open umask open_sys lf"
  shows "Open src OF_READONLY File_new s = (False, f, t) \<Longrightarrow>
      File_Copy read write_sys fsync Open src dst sync s = Some (False, t, [None])"
    and "Open src OF_READONLY File_new s = (True, \<lparr>m_fid = i\<rparr>, t) \<Longrightarrow> i \<noteq> INVALID_FILEID \<Longrightarrow>
      Open dst (OF_CREATE OR OF_WRITEONLY OR OF_TRUNCATE) File_new t = (False, g, u) \<Longrightarrow>
      File_Copy read write_sys fsync Open src dst sync s = Some (False, u, [None, Some i])"
  unfolding assms
  by (auto simp: File_Copy_def File_Open_False) (simp add: File_destroy_def File_Close_def)

text \<open>
  C22: \<open>Copy\<close> ends on every pair of files whose calls are not interrupted for ever. If the two files
  can be opened, with the descriptor \<open>i\<close> at the beginning of the source, which holds \<open>data\<close>, and \<open>j\<close>
  on the destination, which opening truncates, then success means that the destination holds
  exactly \<open>data\<close>, and failure that it holds a prefix of it. Both descriptors are closed in every case.
\<close>

theorem File_Copy_spec:
  assumes "File_Open umask open_sys lf src OF_READONLY File_new s = (True, \<lparr>m_fid = i\<rparr>, t)"
    and "File_Open umask open_sys lf dst (OF_CREATE OR OF_WRITEONLY OR OF_TRUNCATE) File_new t =
      (True, \<lparr>m_fid = j\<rparr>, u)"
    and "rest u = data" and "out u = []"
    and "files_ok read write_sys \<lparr>m_fid = i\<rparr> \<lparr>m_fid = j\<rparr> rest out"
    and "fair read write_sys \<lparr>m_fid = i\<rparr> \<lparr>m_fid = j\<rparr>" and "\<forall>fd s. out (snd (fsync fd s)) = out s"
  shows "\<exists>r s'. File_Copy read write_sys fsync (File_Open umask open_sys lf) src dst sync s =
       Some (r, s', [Some j, Some i]) \<and>
     (if r then out s' = data else prefix (out s') data)"
proof -
  from assms(1,2) have ids: "i \<noteq> INVALID_FILEID" "j \<noteq> INVALID_FILEID"
    by (auto simp: File_Open_def File_new_def Let_def split: prod.splits)
  from Copy_loop_correct [OF assms(5,6), of u] obtain r v where
    "Copy_loop read write_sys \<lparr>m_fid = i\<rparr> \<lparr>m_fid = j\<rparr> u = Some (r, v)"
    "if r then out v = out u @ rest u else \<exists>p. prefix p (rest u) \<and> out v = out u @ p" by blast
  with assms(1-4,7) ids show ?thesis
    by (auto simp: File_Copy_def File_destroy_def File_Close_def)
qed

theorem File_Copy_spec_witness:
  "\<exists>r s'. File_Copy (\<lambda>_ n (i, o'). (int (min n (length i)), 0, take n i, drop n i, o'))
      (\<lambda>_ b (i, o'). (int (length b), 0, (), i, o' @ b)) (\<lambda>_ s. (0, s))
      (File_Open (\<lambda>_ s. (18, s)) (\<lambda>_ flags _ (i, o'). if flags = 0 then (3, i, o') else (4, i, [])) 0)
      [97] [98] True ([1, 2], [7, 7, 7] :: bytes) = Some (r, s', [Some 4, Some 3]) \<and>
     (if r then snd s' = [1, 2] else prefix (snd s') [1, 2])"
proof -
  let ?r = "\<lambda>_ n (i, o'). (int (min n (length i)), 0, take n i, drop n i, o')
    :: int \<times> int \<times> bytes \<times> bytes \<times> bytes"
  let ?w = "\<lambda>_ b (i, o'). (int (length b), 0, (), i, o' @ b) :: int \<times> int \<times> unit \<times> bytes \<times> bytes"
  let ?umask = "\<lambda>_ s. (18, s) :: u32 \<times> bytes \<times> bytes"
  let ?open = "\<lambda>_ flags _ (i, o'). (if flags = 0 then (3, i, o') else (4, i, [])) :: int \<times> bytes \<times> bytes"
  have a: "files_ok ?r ?w \<lparr>m_fid = 3\<rparr> \<lparr>m_fid = 4\<rparr> fst snd"
    by (auto simp: files_ok_def min_def split: if_splits)
  have b: "fair ?r ?w \<lparr>m_fid = 3\<rparr> \<lparr>m_fid = 4\<rparr>"
    by (auto simp: fair_def interrupts_def intro!: exI [of _ 0])
  have c: "File_Open ?umask ?open 0 [97] OF_READONLY File_new ([1, 2], [7, 7, 7]) =
      (True, \<lparr>m_fid = 3\<rparr>, ([1, 2], [7, 7, 7]))"
    by (simp add: File_Open_def File_new_def OF_READONLY_def INVALID_FILEID_def)
  have d: "File_Open ?umask ?open 0 [98] (OF_CREATE OR OF_WRITEONLY OR OF_TRUNCATE) File_new ([1, 2], [7, 7, 7]) =
      (True, \<lparr>m_fid = 4\<rparr>, ([1, 2], []))"
    by (simp add: File_Open_def File_new_def OF_CREATE_def OF_WRITEONLY_def OF_TRUNCATE_def INVALID_FILEID_def)
  show ?thesis by (rule File_Copy_spec [OF c d _ _ a b]) simp_all
qed

text \<open>
  \<open>Allocate\<close> and \<open>Seek\<close> report the raw result as a truth value: \<open>Allocate\<close> says true exactly when
  the system call failed, and \<open>Seek\<close> says true when it failed and false when it moved to offset
  zero.
\<close>

theorem File_Allocate_Seek_inverted:
  "(File_Allocate fallocate_res \<longleftrightarrow> fallocate_res \<noteq> 0) \<and> File_Seek (-1) \<and> \<not> File_Seek 0 \<and>
   (File_Seek offset \<longleftrightarrow> offset \<noteq> 0)"
  by (simp add: File_Allocate_def File_Seek_def)

text \<open>
  Descriptors: what an object holds. A history of opening (only while closed), closing and
  destroying gives back every descriptor it obtained, once, in order.
\<close>

datatype file_op = OpOpen int | OpClose

fun file_run :: "file_op list \<Rightarrow> File \<Rightarrow> int list \<times> int list \<times> File" where
  "file_run [] f = ([], [], f)"
| "file_run (OpOpen fd # ops) f =
     (let (ok, f, _) = File_Open (\<lambda>_. Pair 0) (\<lambda>_ _ _. Pair fd) 0 [] 0 f ();
          (got, closed, f) = file_run ops f
      in (if ok then fd # got else got, closed, f))"
| "file_run (OpClose # ops) f =
     (let (c, f) = File_Close f;
          (got, closed, f) = file_run ops f
      in (got, (case c of None \<Rightarrow> closed | Some fd \<Rightarrow> fd # closed), f))"

fun opens_closed :: "file_op list \<Rightarrow> bool \<Rightarrow> bool" where
  "opens_closed [] is_open \<longleftrightarrow> True"
| "opens_closed (OpOpen fd # ops) is_open \<longleftrightarrow> \<not> is_open \<and> opens_closed ops (fd \<noteq> INVALID_FILEID)"
| "opens_closed (OpClose # ops) is_open \<longleftrightarrow> opens_closed ops False"

lemma file_run_balanced:
  assumes "opens_closed ops (m_fid f \<noteq> INVALID_FILEID)" and "file_run ops f = (got, closed, g)"
  shows "(if m_fid f \<noteq> INVALID_FILEID then [m_fid f] else []) @ got =
     closed @ (case File_destroy g of None \<Rightarrow> [] | Some fd \<Rightarrow> [fd])"
  using assms
proof (induction ops f arbitrary: got closed g rule: file_run.induct)
  case (1 f)
  then show ?case by (auto simp: File_destroy_def File_Close_def)
next
  case (2 fd ops f)
  obtain ok h u where o: "File_Open (\<lambda>_. Pair 0) (\<lambda>_ _ _. Pair fd) 0 [] 0 f () = (ok, h, u)"
    by (metis prod_cases3)
  obtain got' closed' g' where r: "file_run ops h = (got', closed', g')" by (cases "file_run ops h") auto
  from 2(1) [OF o [symmetric] refl refl _ r] 2(2,3) o r show ?case
    by (auto simp: File_Open_def)
next
  case (3 ops f)
  obtain c h where o: "File_Close f = (c, h)" by fastforce
  obtain got' closed' g' where r: "file_run ops h = (got', closed', g')" by (cases "file_run ops h") auto
  from 3(1) [OF o [symmetric] refl _ r] 3(2,3) o r show ?case
    by (auto simp: File_Close_def INVALID_FILEID_def split: if_splits)
qed

text \<open>
  A \<open>File\<close> that is opened only while it is closed gives every descriptor it obtained back to the
  system exactly once, in the order it obtained them, the last by its destructor.
\<close>

theorem File_descriptors_balanced:
  assumes "opens_closed ops False" and "file_run ops File_new = (got, closed, f)"
  shows "got = closed @ (case File_destroy f of None \<Rightarrow> [] | Some fd \<Rightarrow> [fd])"
  using file_run_balanced [of ops File_new got closed f] assms by (simp add: File_new_def)

theorem File_descriptors_balanced_witness:
  "file_run [OpOpen 3, OpClose, OpOpen 5] File_new = ([3, 5], [3], \<lparr>m_fid = 5\<rparr>) \<and>
   [3, 5] = [3] @ (case File_destroy \<lparr>m_fid = 5\<rparr> of None \<Rightarrow> [] | Some fd \<Rightarrow> [fd])"
proof -
  have r: "file_run [OpOpen 3, OpClose, OpOpen 5] File_new = ([3, 5], [3], \<lparr>m_fid = 5\<rparr>)"
    by (simp add: File_Open_def File_Close_def File_new_def INVALID_FILEID_def)
  from File_descriptors_balanced [OF _ r] r show ?thesis by simp
qed

end
