(* ===== verification/File_Watcher.thy ===== *)
theory File_Watcher
  imports File Directory Coding "HOL-Library.Monad_Syntax"
begin

text \<open>
  \<^verbatim>\<open>include/xfutil/file_watcher.h\<close> and \<^verbatim>\<open>src/file_watcher.cpp\<close>: directories watched with \<^verbatim>\<open>inotify\<close>. The answers
  of the system are arguments: descriptors as numbers, the calls that are made in a loop (\<^verbatim>\<open>read\<close>,
  \<^verbatim>\<open>poll\<close>) as functions on a state, as for files. The bytes \<^verbatim>\<open>read\<close> delivers are the \<^verbatim>\<open>struct inotify_event\<close>
  records of the kernel, in the byte order of the machine (little endian). Assertions are compiled
  out, as in the release build. \<^const>\<open>None\<close> is undefined behaviour (a read behind the bytes the system
  delivered) or a call that never returns.
\<close>

section \<open>Definitions\<close>

definition FE_CREATE :: u32 where "FE_CREATE = 0x100"
definition FE_OPEN :: u32 where "FE_OPEN = 0x20"
definition FE_CLOSE :: u32 where "FE_CLOSE = 0x8 OR 0x10"
definition FE_DELETE :: u32 where "FE_DELETE = 0x200 OR 0x40"
definition FE_RENAME :: u32 where "FE_RENAME = 0x80"
definition FE_MODIFY :: u32 where "FE_MODIFY = 0x2"

definition IBUF_SIZE :: nat where "IBUF_SIZE = 4096"
definition EAGAIN :: int where "EAGAIN = 11"
definition POLLERR :: int where "POLLERR = 8"

text \<open>\<^verbatim>\<open>std::map<int, std::string>\<close>: the pairs in the order of their keys.\<close>

record FileWatcher =
  m_ifd :: int
  m_paths :: "(int \<times> bytes) list"

fun paths_set :: "int \<Rightarrow> bytes \<Rightarrow> (int \<times> bytes) list \<Rightarrow> (int \<times> bytes) list" where
  "paths_set k v [] = [(k, v)]"
| "paths_set k v ((l, u) # m) =
     (if k < l then (k, v) # (l, u) # m else if k = l then (k, v) # m else (l, u) # paths_set k v m)"

definition FileWatcher_new :: "int \<Rightarrow> FileWatcher" where
  "FileWatcher_new inotify_init_res = \<lparr>m_ifd = inotify_init_res, m_paths = []\<rparr>"

text \<open>\<open>add_watch\<close> is \<^verbatim>\<open>inotify_add_watch\<close>, \<open>mode\<close> the answer of \<^verbatim>\<open>stat\<close> for the path.\<close>

definition FileWatcher_Add ::
    "(int \<Rightarrow> bytes \<Rightarrow> u32 \<Rightarrow> int) \<Rightarrow> bool option \<Rightarrow> bytes \<Rightarrow> u32 \<Rightarrow> FileWatcher \<Rightarrow> bool \<times> FileWatcher" where
  "FileWatcher_Add add_watch mode path events w =
     (if m_ifd w \<noteq> INVALID_FILEID then (False, w)
      else if \<not> Directory_Exist mode then (False, w)
      else
        let wfd = add_watch (m_ifd w) path events
        in if wfd = INVALID_FILEID then (False, w)
           else (True, w\<lparr>m_paths := paths_set wfd path (m_paths w)\<rparr>))"

text \<open>The watches that are removed, in order, and the watcher then.\<close>

definition RemoveAll :: "FileWatcher \<Rightarrow> (int \<times> int) list \<times> FileWatcher" where
  "RemoveAll w = (map (\<lambda>(wfd, _). (m_ifd w, wfd)) (m_paths w), w\<lparr>m_paths := []\<rparr>)"

text \<open>The destructor: the watches it removes and the descriptor it closes.\<close>

definition FileWatcher_destroy :: "FileWatcher \<Rightarrow> (int \<times> int) list \<times> int option" where
  "FileWatcher_destroy w =
     (let (rm, w) = RemoveAll w in (rm, if m_ifd w \<noteq> INVALID_FILEID then Some (m_ifd w) else None))"

partial_function (option) Select :: "('s, int) sys \<Rightarrow> 's \<Rightarrow> (int \<times> 's) option" where
  "Select poll s =
     (case poll s of (ret, err, revents, s) \<Rightarrow>
        if ret > 0 then (if revents AND POLLERR \<noteq> 0 then Some (-1, s) else Some (revents, s))
        else if ret = 0 then Some (ret, s)
        else if err \<noteq> EINTR then Some (ret, s)
        else Select poll s)"

text \<open>\<open>file_name\<close> is the memory from the pointer on; the result tells whether the watch is known.\<close>

definition GetFilePath :: "int \<Rightarrow> bytes \<Rightarrow> bytes \<Rightarrow> nat \<Rightarrow> FileWatcher \<Rightarrow> (bool \<times> bytes) option" where
  "GetFilePath wfd file_name file_path file_path_size w =
     (case map_of (m_paths w) wfd of
        Some dir \<Rightarrow>
          if 0 \<notin> set file_name then None
          else map_option (Pair True) (Combine file_path file_path_size dir (cstr file_name))
      | None \<Rightarrow> Some (False, file_path))"

record inotify_event =
  ev_wd :: u32
  ev_mask :: u32
  ev_cookie :: u32
  ev_len :: u32

definition EVENT_SIZE :: nat where "EVENT_SIZE = 16"

definition event_at :: "bytes \<Rightarrow> inotify_event option" where
  "event_at buf =
     (if length buf < EVENT_SIZE then None
      else
        let (_, wd, buf) = DecodeFixed_u32 buf 0;
            (_, events, buf) = DecodeFixed_u32 buf 0;
            (_, cookie, buf) = DecodeFixed_u32 buf 0;
            (_, len, buf) = DecodeFixed_u32 buf 0
        in Some \<lparr>ev_wd = wd, ev_mask = events, ev_cookie = cookie, ev_len = len\<rparr>)"

text \<open>
  \<open>HandleEvent\<close> on the bytes from \<^verbatim>\<open>buf\<close> to \<^verbatim>\<open>end\<close>; \<open>path\<close> is what the local buffer holds. The result is
  the calls of the callback: the path and the mask.
\<close>

function HandleEvent :: "FileWatcher \<Rightarrow> bytes \<Rightarrow> bytes \<Rightarrow> (bytes \<times> u32) list option" where
  "HandleEvent w path buf =
     (if buf = [] then Some []
      else do {
        ev \<leftarrow> event_at buf;
        let rest = drop (EVENT_SIZE + unat (ev_len ev)) buf;
        (known, path) \<leftarrow> GetFilePath (sint (ev_wd ev)) (drop EVENT_SIZE buf) path MAX_PATH_LEN w;
        calls \<leftarrow> HandleEvent w path rest;
        Some (if known then (cstr path, ev_mask ev) # calls else calls)
      })"
  by pat_completeness auto

termination
  by (relation "measure (\<lambda>(_, _, buf). length buf)") (auto simp: EVENT_SIZE_def)

declare HandleEvent.simps [simp del]

text \<open>\<open>FileWatcher_Read\<close>: \<open>junk\<close> is what the local buffer of \<open>HandleEvent\<close> holds, \<open>cbs\<close> the calls so far.\<close>

partial_function (option) FileWatcher_Read ::
    "(int \<Rightarrow> nat \<Rightarrow> ('s, bytes) sys) \<Rightarrow> (int \<Rightarrow> ('s, int) sys) \<Rightarrow> bytes \<Rightarrow> FileWatcher \<Rightarrow> (bytes \<times> u32) list \<Rightarrow> 's \<Rightarrow>
     (int \<times> (bytes \<times> u32) list \<times> 's) option" where
  "FileWatcher_Read read poll junk w cbs s =
     (case read (m_ifd w) IBUF_SIZE s of (rsize, err, buf, s) \<Rightarrow>
        if rsize > 0 then
          Option.bind (HandleEvent w junk (take (nat rsize) buf)) (\<lambda>calls.
            FileWatcher_Read read poll junk w (cbs @ calls) s)
        else if rsize < 0 then
          if err = EAGAIN then
            Option.bind (Select (poll (m_ifd w)) s) (\<lambda>(events, s).
              if events \<le> 0 then Some (events, cbs, s) else FileWatcher_Read read poll junk w cbs s)
          else if err \<noteq> EINTR then Some (-1, cbs, s)
          else FileWatcher_Read read poll junk w cbs s
        else FileWatcher_Read read poll junk w cbs s)"

section \<open>Events\<close>

text \<open>The records of the kernel: the name of a file in the directory, padded with NUL bytes.\<close>

datatype kevent = KEvent (ke_wd: u32) (ke_mask: u32) (ke_cookie: u32) (ke_name: bytes) (ke_pad: nat)

definition event_head :: "u32 \<Rightarrow> u32 \<Rightarrow> u32 \<Rightarrow> u32 \<Rightarrow> bytes" where
  "event_head wd events cookie len =
     EncodeFixed_u32 wd @ EncodeFixed_u32 events @ EncodeFixed_u32 cookie @ EncodeFixed_u32 len"

definition event_bytes :: "kevent \<Rightarrow> bytes" where
  "event_bytes e =
     event_head (ke_wd e) (ke_mask e) (ke_cookie e) (of_nat (length (ke_name e) + ke_pad e)) @
     ke_name e @ replicate (ke_pad e) 0"

text \<open>An event of a file in a watched directory; an event of the directory itself has no name and no padding.\<close>

definition named_event :: "kevent \<Rightarrow> bool" where
  "named_event e \<longleftrightarrow> 0 \<notin> set (ke_name e) \<and> 1 \<le> ke_pad e \<and> length (ke_name e) + ke_pad e < 2 ^ 32"

definition watcher_ok :: "FileWatcher \<Rightarrow> bool" where
  "watcher_ok w \<longleftrightarrow> (\<forall>dir \<in> snd ` set (m_paths w). 0 \<notin> set dir)"

text \<open>What a program that watches expects: the full path of every event of a directory it watches.\<close>

definition report :: "FileWatcher \<Rightarrow> kevent \<Rightarrow> (bytes \<times> u32) list" where
  "report w e =
     (case map_of (m_paths w) (sint (ke_wd e)) of
        None \<Rightarrow> []
      | Some dir \<Rightarrow> [(take (MAX_PATH_LEN - 1) (dir @ [47] @ ke_name e), ke_mask e)])"

lemma EncodeFixed_u32_length: "length (EncodeFixed_u32 x) = 4"
  by (simp add: EncodeFixed_u32_def)

lemma event_head_length: "length (event_head wd events cookie len) = EVENT_SIZE"
  by (simp add: event_head_def EncodeFixed_u32_length EVENT_SIZE_def)

lemma event_at_head:
  "event_at (event_head wd events cookie len @ rest) =
   Some \<lparr>ev_wd = wd, ev_mask = events, ev_cookie = cookie, ev_len = len\<rparr>"
  by (simp add: event_at_def event_head_length) (simp add: event_head_def codec_rt)

lemma Combine_cstr:
  assumes "0 \<notin> set dir" and "0 \<notin> set name" and "length buf = MAX_PATH_LEN"
  obtains b where "Combine buf MAX_PATH_LEN dir name = Some b" and "length b = MAX_PATH_LEN"
    and "cstr b = take (MAX_PATH_LEN - 1) (dir @ [47] @ name)"
proof -
  have "0 \<notin> set (dir @ [47] @ name)" using assms by simp
  from snprintf_cstr [OF this, of MAX_PATH_LEN buf] assms(3) obtain b where
    b: "snprintf buf 0 MAX_PATH_LEN (dir @ [47] @ name) = Some (int (length (dir @ [47] @ name)), b)"
    "cstr b = take (MAX_PATH_LEN - 1) (dir @ [47] @ name)" by (auto simp: MAX_PATH_LEN_def)
  then have "length b = MAX_PATH_LEN"
    using assms(3) mem_write_length by (fastforce simp: snprintf_def MAX_PATH_LEN_def)
  with b show ?thesis by (intro that [of b]) (simp_all add: Combine_def)
qed

lemma HandleEvent_head:
  "HandleEvent w path (event_head wd events cookie len @ data) = do {
     (known, path) \<leftarrow> GetFilePath (sint wd) data path MAX_PATH_LEN w;
     calls \<leftarrow> HandleEvent w path (drop (unat len) data);
     Some (if known then (cstr path, events) # calls else calls)
   }"
proof -
  let ?h = "event_head wd events cookie len"
  have "?h \<noteq> []" using event_head_length [of wd events cookie len] by (auto simp: EVENT_SIZE_def)
  then show ?thesis
    by (subst HandleEvent.simps) (simp add: event_at_head event_head_length cong: if_cong)
qed

lemma HandleEvent_events:
  assumes "watcher_ok w" and "list_all named_event es" and "length path = MAX_PATH_LEN"
  shows "HandleEvent w path (concat (map event_bytes es)) = Some (concat (map (report w) es))"
  using assms(2,3)
proof (induction es arbitrary: path)
  case Nil
  then show ?case by (simp add: HandleEvent.simps)
next
  case (Cons e es)
  let ?rest = "concat (map event_bytes es)"
  let ?data = "ke_name e @ replicate (ke_pad e) 0 @ ?rest"
  from Cons.prems have e: "0 \<notin> set (ke_name e)" "1 \<le> ke_pad e" "length (ke_name e) + ke_pad e < 2 ^ 32"
    by (simp_all add: named_event_def)
  have len: "unat (of_nat (length (ke_name e) + ke_pad e) :: u32) = length (ke_name e) + ke_pad e"
    using e(3) by (intro unat_of_nat_small) simp
  have data: "drop (length (ke_name e) + ke_pad e) ?data = ?rest" by simp
  from e(2) obtain n where "ke_pad e = Suc n" by (cases "ke_pad e") auto
  then have name: "cstr ?data = ke_name e" "0 \<in> set ?data" using cstr_id [OF e(1)] by auto
  have step: "HandleEvent w path (concat (map event_bytes (e # es))) = do {
     (known, path) \<leftarrow> GetFilePath (sint (ke_wd e)) ?data path MAX_PATH_LEN w;
     calls \<leftarrow> HandleEvent w path ?rest;
     Some (if known then (cstr path, ke_mask e) # calls else calls)
   }"
    using len data by (simp add: event_bytes_def HandleEvent_head del: of_nat_add)
  show ?case
  proof (cases "map_of (m_paths w) (sint (ke_wd e))")
    case None
    with step Cons show ?thesis by (simp add: GetFilePath_def report_def)
  next
    case (Some dir)
    then have "0 \<notin> set dir" using assms(1) by (force simp: watcher_ok_def dest: map_of_SomeD)
    from Combine_cstr [OF this e(1) Cons.prems(2)] obtain b where
      b: "Combine path MAX_PATH_LEN dir (ke_name e) = Some b" "length b = MAX_PATH_LEN"
      "cstr b = take (MAX_PATH_LEN - 1) (dir @ [47] @ ke_name e)" by blast
    with step Some name Cons show ?thesis by (simp add: GetFilePath_def report_def)
  qed
qed

lemma HandleEvent_no_paths:
  assumes "m_paths w = []"
  shows "HandleEvent w path buf = Some cs \<Longrightarrow> cs = []"
proof (induction buf arbitrary: path cs rule: length_induct)
  case (1 buf)
  show ?case
  proof (cases "buf = []")
    case True
    with 1 show ?thesis by (simp add: HandleEvent.simps)
  next
    case False
    have "length (drop (EVENT_SIZE + n) buf) < length buf" for n using False by (simp add: EVENT_SIZE_def)
    then have IH: "HandleEvent w p (drop (EVENT_SIZE + n) buf) = Some c \<Longrightarrow> c = []" for n p c
      using 1(1) by blast
    from 1(2) False assms show ?thesis
      by (subst (asm) HandleEvent.simps) (auto simp: GetFilePath_def split: Option.bind_splits dest: IH)
  qed
qed

section \<open>Reading\<close>

text \<open>
  A schedule of the kernel: what successive calls meet. A read may be interrupted, or find events;
  or it finds nothing, and the poll after it is interrupted a number of times and then reports that
  there is something to read. At the end of the schedule nothing happens any more: a read finds
  nothing and the poll times out.
\<close>

datatype tick = Interrupted | Events "kevent list" | Ready nat

fun kernel_read :: "int \<Rightarrow> nat \<Rightarrow> (tick list, bytes) sys" where
  "kernel_read fd n (Interrupted # ts) = (-1, EINTR, [], ts)"
| "kernel_read fd n (Events es # ts) =
     (let b = concat (map event_bytes es) in (int (length b), 0, b, ts))"
| "kernel_read fd n ts = (-1, EAGAIN, [], ts)"

fun kernel_poll :: "int \<Rightarrow> (tick list, int) sys" where
  "kernel_poll fd (Ready 0 # ts) = (1, 0, 1, ts)"
| "kernel_poll fd (Ready (Suc n) # ts) = (-1, EINTR, 0, Ready n # ts)"
| "kernel_poll fd ts = (0, 0, 0, ts)"

fun events_of :: "tick \<Rightarrow> kevent list" where
  "events_of (Events es) = es"
| "events_of _ = []"

definition schedule_ok :: "tick list \<Rightarrow> bool" where
  "schedule_ok ts \<longleftrightarrow>
     (\<forall>t \<in> set ts. list_all named_event (events_of t) \<and> length (concat (map event_bytes (events_of t))) \<le> IBUF_SIZE)"

lemma Select_ready: "Select (kernel_poll fd) (Ready n # ts) = Some (1, ts)"
  by (induction n) (subst Select.simps; simp add: POLLERR_def)+

lemma Select_timeout: "Select (kernel_poll fd) [] = Some (0, [])"
  by (subst Select.simps) simp

lemma EAGAIN_EINTR [simp]: "EINTR \<noteq> EAGAIN"
  by (simp add: EAGAIN_def EINTR_def)

lemma Read_schedule:
  assumes "watcher_ok w" and "length junk = MAX_PATH_LEN" and "schedule_ok ts"
  shows "FileWatcher_Read kernel_read kernel_poll junk w cbs ts =
     Some (0, cbs @ concat (map (report w) (concat (map events_of ts))), [])"
  using assms(3)
proof (induction ts arbitrary: cbs)
  case Nil
  show ?case by (subst FileWatcher_Read.simps) (simp add: Select_timeout)
next
  case (Cons t ts)
  have IH: "FileWatcher_Read kernel_read kernel_poll junk w c ts =
     Some (0, c @ concat (map (report w) (concat (map events_of ts))), [])" for c
    using Cons by (simp add: schedule_ok_def)
  show ?case
  proof (cases t)
    case Interrupted
    then show ?thesis by (subst FileWatcher_Read.simps) (simp add: IH)
  next
    case (Events es)
    have "list_all named_event es" using Cons.prems Events by (simp add: schedule_ok_def)
    note h = HandleEvent_events [OF assms(1) this assms(2)]
    show ?thesis
    proof (cases es)
      case Nil
      with Events show ?thesis by (subst FileWatcher_Read.simps) (simp add: IH)
    next
      case (Cons e r)
      have "0 < length (concat (map event_bytes es))"
        by (simp add: Cons event_bytes_def event_head_length EVENT_SIZE_def)
      with Events h show ?thesis by (subst FileWatcher_Read.simps) (simp add: IH Let_def)
    qed
  next
    case (Ready n)
    then show ?thesis by (subst FileWatcher_Read.simps) (simp add: Select_ready IH)
  qed
qed

text \<open>Whatever the system does, \<open>Read\<close> returns an error or a timeout, never a positive number.\<close>

lemma Select_nonpos_or_events:
  "Option.bind (Select poll s) (\<lambda>(events, s). if events \<le> 0 then Some (events, cbs, s) else f s) = Some r \<Longrightarrow>
   fst r \<le> 0 \<or> (\<exists>s. f s = Some r)"
  by (auto split: Option.bind_splits if_splits)

lemma Read_never_positive:
  assumes "FileWatcher_Read read poll junk w cbs s = Some r"
  shows "fst r \<le> 0"
proof (rule FileWatcher_Read.raw_induct [OF _ assms, where P = "\<lambda>_ _ _ _ _ _ r. fst r \<le> 0"])
  fix rec :: "(int \<Rightarrow> nat \<Rightarrow> ('s, bytes) sys) \<Rightarrow> (int \<Rightarrow> ('s, int) sys) \<Rightarrow> bytes \<Rightarrow> FileWatcher \<Rightarrow> (bytes \<times> u32) list \<Rightarrow> 's \<Rightarrow>
     (int \<times> (bytes \<times> u32) list \<times> 's) option" and read poll junk w cbs s r
  assume IH: "\<And>read poll junk w cbs s y. rec read poll junk w cbs s = Some y \<Longrightarrow> fst y \<le> 0"
    and body: "(case read (m_ifd w) IBUF_SIZE s of (rsize, err, buf, s) \<Rightarrow>
        if rsize > 0 then
          Option.bind (HandleEvent w junk (take (nat rsize) buf)) (\<lambda>calls. rec read poll junk w (cbs @ calls) s)
        else if rsize < 0 then
          if err = EAGAIN then
            Option.bind (Select (poll (m_ifd w)) s) (\<lambda>(events, s).
              if events \<le> 0 then Some (events, cbs, s) else rec read poll junk w cbs s)
          else if err \<noteq> EINTR then Some (-1, cbs, s)
          else rec read poll junk w cbs s
        else rec read poll junk w cbs s) = Some r"
  then show "fst r \<le> 0"
    by (auto split: prod.splits if_splits Option.bind_splits dest: IH)
qed

section \<open>Properties\<close>

text \<open>
  For every schedule of interruptions, batches of events with names, and idle periods, \<open>Read\<close> comes back
  when the kernel has nothing more and the poll times out: it returns 0, and the callback has been
  called for every event of a directory in \<open>m_paths\<close>, in order, with the directory and the file name
  joined (cut to 255 bytes), and for no other event. Events without a name are not in such a schedule (what
  becomes of them is \<open>FileWatcher_nameless_event\<close> below), and that \<open>m_paths\<close> has an entry at all is an
  assumption that the class does not meet as it stands (\<open>FileWatcher_watches_nothing\<close>).
\<close>

theorem FileWatcher_Read_reports:
  assumes "watcher_ok w" and "length junk = MAX_PATH_LEN" and "schedule_ok ts"
  shows "FileWatcher_Read kernel_read kernel_poll junk w [] ts =
     Some (0, concat (map (report w) (concat (map events_of ts))), [])"
  using Read_schedule [OF assms, of "[]"] by simp

theorem FileWatcher_Read_reports_witness:
  "FileWatcher_Read kernel_read kernel_poll (replicate MAX_PATH_LEN 0) \<lparr>m_ifd = 3, m_paths = [(1, [100])]\<rparr> []
     [Interrupted, Ready 2, Events [KEvent 1 2 0 [97] 3, KEvent 7 2 0 [98] 3]] = Some (0, [([100, 47, 97], 2)], [])"
proof -
  let ?w = "\<lparr>m_ifd = 3, m_paths = [(1, [100])]\<rparr>" and ?es = "[KEvent 1 2 0 [97] 3, KEvent 7 2 0 [98] 3]"
  have w: "watcher_ok ?w" by (simp add: watcher_ok_def)
  have "schedule_ok [Interrupted, Ready 2, Events ?es]"
    by (simp add: schedule_ok_def named_event_def event_bytes_def event_head_length EVENT_SIZE_def IBUF_SIZE_def)
  from FileWatcher_Read_reports [OF w _ this, of "replicate MAX_PATH_LEN 0"] show ?thesis
    by (simp add: report_def MAX_PATH_LEN_def)
qed

text \<open>
  \<open>Read\<close> never returns a positive number, whatever the system does: its last line is never
  reached, and the caller cannot learn from the result that there were events.
\<close>

theorem FileWatcher_Read_result:
  "FileWatcher_Read read poll junk w cbs s = Some (res, calls, s') \<Longrightarrow> res \<le> 0"
  using Read_never_positive [of read poll junk w cbs s "(res, calls, s')"] by simp

theorem FileWatcher_Read_result_witness:
  "FileWatcher_Read (\<lambda>_ _ s. (-1, EAGAIN, [], s)) (\<lambda>_ s. (0, 0, 0, s)) [] \<lparr>m_ifd = 3, m_paths = []\<rparr> [] () = Some (0, [], ()) \<and>
   (0 :: int) \<le> 0"
proof -
  have "Select (\<lambda>s. (0, 0, 0, s)) () = Some (0, ())" by (subst Select.simps) simp
  then have r: "FileWatcher_Read (\<lambda>_ _ s. (-1, EAGAIN, [], s)) (\<lambda>_ s. (0, 0, 0, s)) [] \<lparr>m_ifd = 3, m_paths = []\<rparr> [] () =
      Some (0, [], ())"
    by (subst FileWatcher_Read.simps) simp
  with FileWatcher_Read_result [OF r] show ?thesis by simp
qed

text \<open>
  C39: the guard of \<open>Add\<close> is the wrong way round. A watcher whose constructor succeeded refuses every
  directory; one whose constructor failed passes the invalid descriptor on, which the system
  refuses. So no sequence of calls of \<open>Add\<close> on a new watcher ever succeeds, and \<open>HandleEvent\<close> never calls
  back, whatever bytes it is given.
\<close>

theorem FileWatcher_watches_nothing:
  assumes "\<forall>path events. add_watch INVALID_FILEID path events = INVALID_FILEID"
  shows "\<forall>calls w. w = foldl (\<lambda>w (mode, path, events). snd (FileWatcher_Add add_watch mode path events w)) (FileWatcher_new fd) calls \<longrightarrow>
     w = FileWatcher_new fd \<and> (\<forall>mode path events. \<not> fst (FileWatcher_Add add_watch mode path events w)) \<and>
     (\<forall>buf path cs. HandleEvent w path buf = Some cs \<longrightarrow> cs = []) \<and> fst (FileWatcher_destroy w) = []"
proof -
  have add: "FileWatcher_Add add_watch mode path events (FileWatcher_new fd) = (False, FileWatcher_new fd)" for mode path events
    using assms by (simp add: FileWatcher_Add_def FileWatcher_new_def Let_def)
  have fold: "foldl (\<lambda>w (mode, path, events). snd (FileWatcher_Add add_watch mode path events w)) (FileWatcher_new fd) calls =
      FileWatcher_new fd" for calls
    by (induction calls) (auto simp: add)
  have "HandleEvent (FileWatcher_new fd) path buf = Some cs \<longrightarrow> cs = []" for path buf cs
    using HandleEvent_no_paths [of "FileWatcher_new fd" path buf cs] by (simp add: FileWatcher_new_def)
  then show ?thesis by (simp add: fold add) (simp add: FileWatcher_destroy_def RemoveAll_def FileWatcher_new_def)
qed

theorem FileWatcher_watches_nothing_witness:
  "fst (FileWatcher_Add (\<lambda>fd _ _. if fd = INVALID_FILEID then INVALID_FILEID else 1) (Some True) [100] FE_MODIFY (FileWatcher_new 3)) =
   False"
  using FileWatcher_watches_nothing [of "\<lambda>fd _ _. if fd = INVALID_FILEID then INVALID_FILEID else 1" 3,
      rule_format, of "FileWatcher_new 3" "[]"] by simp

text \<open>
  An event without a name (one on the watched directory itself) has no bytes after its header,
  and \<open>HandleEvent\<close> takes the bytes of the next event for its name: the path it reports ends in the
  number of that event's watch.
\<close>

theorem FileWatcher_nameless_event:
  assumes "map_of (m_paths w) (sint wd) = Some dir" and "watcher_ok w" and "length path = MAX_PATH_LEN"
    and "list_all named_event (e # es)" and "1 \<le> ke_wd e" and "ke_wd e \<le> 255"
  shows "HandleEvent w path (event_head wd events cookie 0 @ concat (map event_bytes (e # es))) =
     Some ((take (MAX_PATH_LEN - 1) (dir @ [47, ucast (ke_wd e)]), events) # concat (map (report w) (e # es)))"
proof -
  let ?data = "concat (map event_bytes (e # es))"
  have "drop_bit 8 (ke_wd e) = 0"
    using assms(6) by (intro word_unat_eq_iff [THEN iffD2]) (simp add: unat_drop_bit_div word_le_nat_alt)
  then have data: "\<exists>r. ?data = [ucast (ke_wd e)] @ 0 # r"
    by (simp add: event_bytes_def event_head_def EncodeFixed_u32_def [of "ke_wd e"])
  have "unat (ucast (ke_wd e) :: u8) = unat (ke_wd e)"
    using assms(6) by (intro unat_ucast_small) (simp add: word_le_nat_alt)
  then have "(ucast (ke_wd e) :: u8) \<noteq> 0" using assms(5) by (auto simp: word_le_nat_alt dest: arg_cong [where f = unat])
  then have nul: "0 \<notin> set [ucast (ke_wd e) :: u8]" by auto
  from data obtain r where r: "?data = [ucast (ke_wd e)] @ 0 # r" by blast
  then have name: "cstr ?data = [ucast (ke_wd e)]" "0 \<in> set ?data"
    using cstr_id [OF nul] by (simp_all only: r) simp
  have dir: "0 \<notin> set dir" using assms(1,2) by (force simp: watcher_ok_def dest: map_of_SomeD)
  from Combine_cstr [OF dir nul assms(3)] obtain b where
    b: "Combine path MAX_PATH_LEN dir [ucast (ke_wd e)] = Some b" "length b = MAX_PATH_LEN"
    "cstr b = take (MAX_PATH_LEN - 1) (dir @ [47] @ [ucast (ke_wd e)])" by blast
  note h = HandleEvent_events [OF assms(2,4) b(2)]
  have "GetFilePath (sint wd) ?data path MAX_PATH_LEN w = Some (True, b)"
    using assms(1) name b(1) unfolding GetFilePath_def by simp
  then show ?thesis
    using b(3) h unfolding HandleEvent_head by simp
qed

theorem FileWatcher_nameless_event_witness:
  "HandleEvent \<lparr>m_ifd = 3, m_paths = [(1, [100])]\<rparr> (replicate MAX_PATH_LEN 0)
     (event_head 1 0x20 0 0 @ event_bytes (KEvent 1 2 0 [97] 3)) = Some [([100, 47, 1], 0x20), ([100, 47, 97], 2)]"
  using FileWatcher_nameless_event [of "\<lparr>m_ifd = 3, m_paths = [(1, [100])]\<rparr>" 1 "[100]" "replicate MAX_PATH_LEN 0"
      "KEvent 1 2 0 [97] 3" "[]" "0x20" 0]
  by (simp add: watcher_ok_def named_event_def report_def MAX_PATH_LEN_def)

end
