(* ===== verification/Thread.thy ===== *)
theory Thread
  imports Xf_Prelude
begin

text \<open>
  \<^verbatim>\<open>include/xfutil/thread.h\<close> and \<^verbatim>\<open>src/thread.cpp\<close>: owners of one thread and of a group. Of a thread the
  model keeps what \<^verbatim>\<open>std::thread\<close> keeps, whether it is joinable, and the index it was started with. As
  the standard prescribes, destroying a joinable thread ends the program and joining or detaching
  one that is not joinable throws: both are \<^const>\<open>None\<close>. The members for sleeping, yielding and the
  thread number only call the system. Also here: the fixed answers of \<^verbatim>\<open>src/xfutil.cpp\<close>, the system information
  of \<^verbatim>\<open>include/xfutil/sysinfo.h\<close>, and the end of the process as in \<^verbatim>\<open>include/xfutil/process.h\<close>.
\<close>

section \<open>Definitions\<close>

datatype thread = NoThread | Joinable nat

text \<open>\<open>Start\<close> swaps the new thread with the old, which is then destroyed.\<close>

definition Thread_Start :: "thread \<Rightarrow> (bool \<times> thread) option" where
  "Thread_Start m_thread = (case m_thread of NoThread \<Rightarrow> Some (True, Joinable 0) | Joinable _ \<Rightarrow> None)"

definition Thread_Detach :: "thread \<Rightarrow> thread option" where
  "Thread_Detach m_thread = (case m_thread of NoThread \<Rightarrow> None | Joinable _ \<Rightarrow> Some NoThread)"

definition Thread_Join :: "thread \<Rightarrow> thread option" where
  "Thread_Join m_thread = (case m_thread of NoThread \<Rightarrow> None | Joinable _ \<Rightarrow> Some NoThread)"

type_synonym thread_group = "thread list"

definition ThreadGroup_new :: thread_group where
  "ThreadGroup_new = []"

fun start_threads :: "nat \<Rightarrow> nat \<Rightarrow> thread list \<Rightarrow> thread list" where
  "start_threads i 0 threads = threads"
| "start_threads i (Suc n) threads = start_threads (Suc i) n (threads @ [Joinable i])"

text \<open>
  A negative count becomes a huge size in \<^verbatim>\<open>reserve\<close>, which throws. The threads the group had before are
  destroyed when the local vector, swapped with \<^verbatim>\<open>m_threads\<close>, goes out of scope.
\<close>

definition ThreadGroup_Start :: "int \<Rightarrow> thread_group \<Rightarrow> thread_group option" where
  "ThreadGroup_Start thread_count m_threads =
     (if thread_count < 0 then None
      else
        let threads = start_threads 0 (nat thread_count) []
        in if list_all (\<lambda>t. t = NoThread) m_threads then Some threads else None)"

fun ThreadGroup_Detach :: "thread_group \<Rightarrow> thread_group option" where
  "ThreadGroup_Detach [] = Some []"
| "ThreadGroup_Detach (t # ts) =
     Option.bind (Thread_Detach t) (\<lambda>t. map_option (Cons t) (ThreadGroup_Detach ts))"

fun ThreadGroup_Join :: "thread_group \<Rightarrow> thread_group option" where
  "ThreadGroup_Join [] = Some []"
| "ThreadGroup_Join (t # ts) =
     Option.bind (Thread_Join t) (\<lambda>t. map_option (Cons t) (ThreadGroup_Join ts))"

definition ThreadGroup_Size :: "thread_group \<Rightarrow> nat" where
  "ThreadGroup_Size m_threads = length m_threads"

definition GetVersion :: u32 where
  "GetVersion = push_bit 16 0 OR push_bit 8 1 OR 0"

definition GetCpuNum :: "u32 \<Rightarrow> u32" where
  "GetCpuNum hardware_concurrency = hardware_concurrency"

definition GetPhyMemSize :: "u64 \<Rightarrow> u32 \<Rightarrow> u64" where
  "GetPhyMemSize phys_pages page_size = phys_pages * ucast page_size"

text \<open>
  The process: the functions registered with \<^verbatim>\<open>atexit\<close>, the last one first. Ending the process gives the
  exit code the parent sees, one byte, and the functions that ran, in order.
\<close>

definition Process_AddExitFunc :: "'f \<Rightarrow> 'f list \<Rightarrow> 'f list" where
  "Process_AddExitFunc func registered = func # registered"

definition Process_Exit :: "u32 \<Rightarrow> 'f list \<Rightarrow> u8 \<times> 'f list" where
  "Process_Exit exit_code registered = (ucast exit_code, registered)"

definition Process_ForceExit :: "u32 \<Rightarrow> 'f list \<Rightarrow> u8 \<times> 'f list" where
  "Process_ForceExit exit_code registered = (ucast exit_code, [])"

section \<open>Properties\<close>

lemma start_threads_eq: "start_threads i n threads = threads @ map Joinable [i..<i + n]"
proof (induction n arbitrary: i threads)
  case (Suc n)
  have "[i..<i + Suc n] = i # [Suc i..<Suc i + n]" by (simp add: upt_conv_Cons)
  with Suc show ?case by simp
qed simp

lemma ThreadGroup_Join_all:
  "(\<forall>t\<in>set ts. \<exists>i. t = Joinable i) \<Longrightarrow> ThreadGroup_Join ts = Some (replicate (length ts) NoThread)"
  "(\<forall>t\<in>set ts. \<exists>i. t = Joinable i) \<Longrightarrow> ThreadGroup_Detach ts = Some (replicate (length ts) NoThread)"
  by (induction ts) (auto simp: Thread_Join_def Thread_Detach_def)

text \<open>
  The life of a thread group: after \<open>Start(n)\<close> it has \<open>n\<close> threads, numbered from zero; starting
  it again without joining ends the program; after \<open>Join\<close> the size is still \<open>n\<close>, a second \<open>Join\<close>
  throws unless there are no threads, and it may be started again.
\<close>

theorem ThreadGroup_life_cycle:
  "ThreadGroup_Start (int n) ThreadGroup_new = Some (map Joinable [0..<n]) \<and>
   (0 < n \<longrightarrow> ThreadGroup_Start m (map Joinable [0..<n]) = None) \<and>
   ThreadGroup_Join (map Joinable [0..<n]) = Some (replicate n NoThread) \<and>
   ThreadGroup_Size (replicate n NoThread) = n \<and>
   (ThreadGroup_Join (replicate n NoThread) \<noteq> None \<longleftrightarrow> n = 0) \<and>
   ThreadGroup_Start (int m') (replicate n NoThread) = Some (map Joinable [0..<m'])"
proof -
  have "ThreadGroup_Join (map Joinable [0..<n]) = Some (replicate n NoThread)"
    using ThreadGroup_Join_all(1) [of "map Joinable [0..<n]"] by auto
  moreover have "ThreadGroup_Join (replicate n NoThread) \<noteq> None \<longleftrightarrow> n = 0"
    by (cases n) (simp_all add: Thread_Join_def)
  ultimately show ?thesis
    by (auto simp: ThreadGroup_Start_def ThreadGroup_new_def ThreadGroup_Size_def start_threads_eq list_all_iff)
qed

theorem ThreadGroup_life_cycle_witness:
  "ThreadGroup_Start 2 ThreadGroup_new = Some [Joinable 0, Joinable 1] \<and>
   ThreadGroup_Start 5 [Joinable 0, Joinable 1] = None"
  using ThreadGroup_life_cycle [of 2 5 0] by (simp add: upt_rec)

text \<open>
  A normal exit runs the registered functions in the reverse order of their registration, a
  forced exit runs none; the exit code is the same.
\<close>

theorem Process_exit_order:
  "Process_Exit code (foldl (\<lambda>fs f. Process_AddExitFunc f fs) [] funcs) = (ucast code, rev funcs) \<and>
   Process_ForceExit code (foldl (\<lambda>fs f. Process_AddExitFunc f fs) [] funcs) = (ucast code, [])"
proof -
  have "foldl (\<lambda>fs f. Process_AddExitFunc f fs) acc funcs = rev funcs @ acc" for acc
    by (induction funcs arbitrary: acc) (simp_all add: Process_AddExitFunc_def)
  then show ?thesis by (simp add: Process_Exit_def Process_ForceExit_def)
qed

end
