(* ===== verification/Lock.thy ===== *)
theory Lock
  imports Xf_Prelude "HOL-Library.Multiset"
begin

text \<open>
  \<^verbatim>\<open>include/xfutil/rwlock.h\<close> and \<^verbatim>\<open>include/xfutil/spinlock.h\<close>: wrappers of the POSIX locks and the guards that
  take a lock in their constructor and release it in their destructor. The locks of the C library
  are modelled as POSIX and glibc describe them: a reader-writer lock knows the threads that hold it
  for reading, each as often as it holds it, and the one that holds it for writing. A call either
  waits, or is undefined, or returns; waiting leaves no trace in the state, the call is made again.
\<close>

section \<open>The locks of the C library\<close>

datatype ('a, 'l) outcome = Blocks | Undefined | Done 'a 'l

fun outcome_map :: "('a \<Rightarrow> 'b) \<Rightarrow> ('a, 'l) outcome \<Rightarrow> ('b, 'l) outcome" where
  "outcome_map f Blocks = Blocks"
| "outcome_map f Undefined = Undefined"
| "outcome_map f (Done a l) = Done (f a) l"

definition EBUSY :: int where "EBUSY = 16"
definition EDEADLK :: int where "EDEADLK = 35"
definition EAGAIN_rd :: int where "EAGAIN_rd = 11"

record rwlock_t =
  rw_readers :: "nat list"
  rw_writer :: "nat option"

definition pthread_rwlock_init :: "(int, rwlock_t) outcome" where
  "pthread_rwlock_init = Done 0 \<lparr>rw_readers = [], rw_writer = None\<rparr>"

definition pthread_rwlock_destroy :: "rwlock_t \<Rightarrow> (int, rwlock_t) outcome" where
  "pthread_rwlock_destroy l = (if rw_readers l = [] \<and> rw_writer l = None then Done 0 l else Undefined)"

text \<open>\<open>max_rd\<close> is the largest number of read locks, \<open>t\<close> the calling thread.\<close>

definition pthread_rwlock_rdlock :: "nat \<Rightarrow> nat \<Rightarrow> rwlock_t \<Rightarrow> (int, rwlock_t) outcome" where
  "pthread_rwlock_rdlock max_rd t l =
     (if rw_writer l = Some t then Done EDEADLK l
      else if rw_writer l \<noteq> None then Blocks
      else if max_rd \<le> length (rw_readers l) then Done EAGAIN_rd l
      else Done 0 (l\<lparr>rw_readers := t # rw_readers l\<rparr>))"

definition pthread_rwlock_tryrdlock :: "nat \<Rightarrow> nat \<Rightarrow> rwlock_t \<Rightarrow> (int, rwlock_t) outcome" where
  "pthread_rwlock_tryrdlock max_rd t l =
     (if rw_writer l \<noteq> None then Done EBUSY l
      else if max_rd \<le> length (rw_readers l) then Done EAGAIN_rd l
      else Done 0 (l\<lparr>rw_readers := t # rw_readers l\<rparr>))"

definition pthread_rwlock_wrlock :: "nat \<Rightarrow> rwlock_t \<Rightarrow> (int, rwlock_t) outcome" where
  "pthread_rwlock_wrlock t l =
     (if rw_writer l = Some t then Done EDEADLK l
      else if rw_writer l \<noteq> None \<or> rw_readers l \<noteq> [] then Blocks
      else Done 0 (l\<lparr>rw_writer := Some t\<rparr>))"

definition pthread_rwlock_trywrlock :: "nat \<Rightarrow> rwlock_t \<Rightarrow> (int, rwlock_t) outcome" where
  "pthread_rwlock_trywrlock t l =
     (if rw_writer l \<noteq> None \<or> rw_readers l \<noteq> [] then Done EBUSY l
      else Done 0 (l\<lparr>rw_writer := Some t\<rparr>))"

definition pthread_rwlock_unlock :: "nat \<Rightarrow> rwlock_t \<Rightarrow> (int, rwlock_t) outcome" where
  "pthread_rwlock_unlock t l =
     (if rw_writer l = Some t then Done 0 (l\<lparr>rw_writer := None\<rparr>)
      else if t \<in> set (rw_readers l) then Done 0 (l\<lparr>rw_readers := remove1 t (rw_readers l)\<rparr>)
      else Undefined)"

text \<open>A spin lock: the thread that holds it.\<close>

type_synonym spinlock_t = "nat option"

definition pthread_spin_lock :: "nat \<Rightarrow> spinlock_t \<Rightarrow> (int, spinlock_t) outcome" where
  "pthread_spin_lock t l = (case l of None \<Rightarrow> Done 0 (Some t) | Some _ \<Rightarrow> Blocks)"

definition pthread_spin_trylock :: "nat \<Rightarrow> spinlock_t \<Rightarrow> (int, spinlock_t) outcome" where
  "pthread_spin_trylock t l = (case l of None \<Rightarrow> Done 0 (Some t) | Some _ \<Rightarrow> Done EBUSY l)"

definition pthread_spin_unlock :: "nat \<Rightarrow> spinlock_t \<Rightarrow> (int, spinlock_t) outcome" where
  "pthread_spin_unlock t l = (if l = Some t then Done 0 None else Undefined)"

section \<open>The wrappers\<close>

abbreviation is_zero :: "(int, 'l) outcome \<Rightarrow> (bool, 'l) outcome" where
  "is_zero \<equiv> outcome_map (\<lambda>r. r = 0)"

definition rwlock_init :: "(bool, rwlock_t) outcome" where
  "rwlock_init = is_zero pthread_rwlock_init"
definition rwlock_destroy :: "rwlock_t \<Rightarrow> (bool, rwlock_t) outcome" where
  "rwlock_destroy l = is_zero (pthread_rwlock_destroy l)"
definition rwlock_readlock :: "nat \<Rightarrow> nat \<Rightarrow> rwlock_t \<Rightarrow> (bool, rwlock_t) outcome" where
  "rwlock_readlock max_rd t l = is_zero (pthread_rwlock_rdlock max_rd t l)"
definition rwlock_try_readlock :: "nat \<Rightarrow> nat \<Rightarrow> rwlock_t \<Rightarrow> (bool, rwlock_t) outcome" where
  "rwlock_try_readlock max_rd t l = is_zero (pthread_rwlock_tryrdlock max_rd t l)"
definition rwlock_read_unlock :: "nat \<Rightarrow> rwlock_t \<Rightarrow> (bool, rwlock_t) outcome" where
  "rwlock_read_unlock t l = is_zero (pthread_rwlock_unlock t l)"
definition rwlock_writelock :: "nat \<Rightarrow> rwlock_t \<Rightarrow> (bool, rwlock_t) outcome" where
  "rwlock_writelock t l = is_zero (pthread_rwlock_wrlock t l)"
definition rwlock_try_writelock :: "nat \<Rightarrow> rwlock_t \<Rightarrow> (bool, rwlock_t) outcome" where
  "rwlock_try_writelock t l = is_zero (pthread_rwlock_trywrlock t l)"
definition rwlock_write_unlock :: "nat \<Rightarrow> rwlock_t \<Rightarrow> (bool, rwlock_t) outcome" where
  "rwlock_write_unlock t l = is_zero (pthread_rwlock_unlock t l)"

text \<open>The class holds one lock.\<close>

record ReadWriteLock =
  m_bucket_rwlock :: rwlock_t

fun in_lock :: "(bool, rwlock_t) outcome \<Rightarrow> (bool, ReadWriteLock) outcome" where
  "in_lock Blocks = Blocks"
| "in_lock Undefined = Undefined"
| "in_lock (Done r l) = Done r \<lparr>m_bucket_rwlock = l\<rparr>"

definition ReadWriteLock_new :: "(bool, ReadWriteLock) outcome" where
  "ReadWriteLock_new = in_lock rwlock_init"
definition ReadWriteLock_destroy :: "ReadWriteLock \<Rightarrow> (bool, ReadWriteLock) outcome" where
  "ReadWriteLock_destroy l = in_lock (rwlock_destroy (m_bucket_rwlock l))"
definition ReadLock :: "nat \<Rightarrow> nat \<Rightarrow> ReadWriteLock \<Rightarrow> (bool, ReadWriteLock) outcome" where
  "ReadLock max_rd t l = in_lock (rwlock_readlock max_rd t (m_bucket_rwlock l))"
definition ReadUnlock :: "nat \<Rightarrow> ReadWriteLock \<Rightarrow> (bool, ReadWriteLock) outcome" where
  "ReadUnlock t l = in_lock (rwlock_read_unlock t (m_bucket_rwlock l))"
definition WriteLock :: "nat \<Rightarrow> ReadWriteLock \<Rightarrow> (bool, ReadWriteLock) outcome" where
  "WriteLock t l = in_lock (rwlock_writelock t (m_bucket_rwlock l))"
definition WriteUnlock :: "nat \<Rightarrow> ReadWriteLock \<Rightarrow> (bool, ReadWriteLock) outcome" where
  "WriteUnlock t l = in_lock (rwlock_write_unlock t (m_bucket_rwlock l))"

text \<open>The guards drop the result of the lock they take: a guard exists whether the call succeeded or not.\<close>

definition ReadLockGuard_new :: "nat \<Rightarrow> nat \<Rightarrow> ReadWriteLock \<Rightarrow> (unit, ReadWriteLock) outcome" where
  "ReadLockGuard_new max_rd t l = outcome_map (\<lambda>_. ()) (ReadLock max_rd t l)"
definition ReadLockGuard_destroy :: "nat \<Rightarrow> ReadWriteLock \<Rightarrow> (unit, ReadWriteLock) outcome" where
  "ReadLockGuard_destroy t l = outcome_map (\<lambda>_. ()) (ReadUnlock t l)"
definition WriteLockGuard_new :: "nat \<Rightarrow> ReadWriteLock \<Rightarrow> (unit, ReadWriteLock) outcome" where
  "WriteLockGuard_new t l = outcome_map (\<lambda>_. ()) (WriteLock t l)"
definition WriteLockGuard_destroy :: "nat \<Rightarrow> ReadWriteLock \<Rightarrow> (unit, ReadWriteLock) outcome" where
  "WriteLockGuard_destroy t l = outcome_map (\<lambda>_. ()) (WriteUnlock t l)"

definition spinlock_init :: "int \<Rightarrow> bool \<times> spinlock_t" where
  "spinlock_init init_res = (init_res = 0, None)"
definition spinlock_destroy :: "int \<Rightarrow> bool" where
  "spinlock_destroy destroy_res \<longleftrightarrow> destroy_res = 0"
definition spinlock_lock :: "nat \<Rightarrow> spinlock_t \<Rightarrow> (bool, spinlock_t) outcome" where
  "spinlock_lock t l = is_zero (pthread_spin_lock t l)"
definition spinlock_trylock :: "nat \<Rightarrow> spinlock_t \<Rightarrow> (bool, spinlock_t) outcome" where
  "spinlock_trylock t l = is_zero (pthread_spin_trylock t l)"
definition spinlock_unlock :: "nat \<Rightarrow> spinlock_t \<Rightarrow> (bool, spinlock_t) outcome" where
  "spinlock_unlock t l = is_zero (pthread_spin_unlock t l)"
definition SpinLockGuard_new :: "nat \<Rightarrow> spinlock_t \<Rightarrow> (unit, spinlock_t) outcome" where
  "SpinLockGuard_new t l = outcome_map (\<lambda>_. ()) (spinlock_lock t l)"
definition SpinLockGuard_destroy :: "nat \<Rightarrow> spinlock_t \<Rightarrow> (unit, spinlock_t) outcome" where
  "SpinLockGuard_destroy t l = outcome_map (\<lambda>_. ()) (spinlock_unlock t l)"

lemmas rw_defs =
  ReadWriteLock_new_def ReadWriteLock_destroy_def ReadLock_def ReadUnlock_def WriteLock_def WriteUnlock_def
  ReadLockGuard_new_def ReadLockGuard_destroy_def WriteLockGuard_new_def WriteLockGuard_destroy_def
  rwlock_init_def rwlock_destroy_def rwlock_readlock_def rwlock_read_unlock_def rwlock_writelock_def
  rwlock_write_unlock_def pthread_rwlock_init_def pthread_rwlock_destroy_def pthread_rwlock_rdlock_def
  pthread_rwlock_wrlock_def pthread_rwlock_unlock_def

lemmas spin_defs = spinlock_lock_def spinlock_unlock_def SpinLockGuard_new_def SpinLockGuard_destroy_def
  pthread_spin_lock_def pthread_spin_unlock_def

section \<open>Scopes\<close>

text \<open>
  What the three kinds of guards have in common: releasing a lock right after taking it gives back
  the lock as it was. So do nested scopes of any threads, as long as every lock is granted.
\<close>

locale scoped_lock =
  fixes acquire release :: "nat \<Rightarrow> 'l \<Rightarrow> (bool, 'l) outcome"
  assumes release_acquired: "acquire t l = Done True l' \<Longrightarrow> release t l' = Done True l"
begin

inductive nested :: "nat list \<Rightarrow> 'l \<Rightarrow> 'l \<Rightarrow> bool" where
  nested_Nil: "nested [] l l"
| nested_Cons: "acquire t l = Done True l' \<Longrightarrow> nested ts l' l'' \<Longrightarrow> nested (t # ts) l l''"

fun unwind :: "nat list \<Rightarrow> 'l \<Rightarrow> 'l option" where
  "unwind [] l = Some l"
| "unwind (t # ts) l = (case release t l of Done True l' \<Rightarrow> unwind ts l' | _ \<Rightarrow> None)"

lemma unwind_append: "unwind (ts @ us) l = Option.bind (unwind ts l) (unwind us)"
  by (induction ts l rule: unwind.induct) (simp_all split: outcome.splits bool.splits)

lemma unwind_nested: "nested ts l l' \<Longrightarrow> unwind (rev ts) l' = Some l"
  by (induction rule: nested.induct) (simp_all add: unwind_append release_acquired)

end

interpretation read_scope: scoped_lock "ReadLock max_rd" ReadUnlock for max_rd
  by unfold_locales (auto simp: rw_defs EDEADLK_def EAGAIN_rd_def split: if_splits)

interpretation write_scope: scoped_lock WriteLock WriteUnlock
  by unfold_locales (auto simp: rw_defs EDEADLK_def EAGAIN_rd_def split: if_splits)

interpretation spin_scope: scoped_lock spinlock_lock spinlock_unlock
  by unfold_locales (auto simp: spin_defs split: option.splits)

section \<open>Threads and guards\<close>

text \<open>
  The guards of each thread, the innermost first. The threads open and close guards in any order of
  their steps, also inside guards of their own; a call that waits is made again, one that is
  undefined is no step.
\<close>

datatype guard = RGuard | WGuard

type_synonym guards = "nat \<Rightarrow> guard list"

fun guard_destroy :: "guard \<Rightarrow> nat \<Rightarrow> ReadWriteLock \<Rightarrow> (unit, ReadWriteLock) outcome" where
  "guard_destroy RGuard t l = ReadLockGuard_destroy t l"
| "guard_destroy WGuard t l = WriteLockGuard_destroy t l"

inductive guard_step :: "nat \<Rightarrow> ReadWriteLock \<times> guards \<Rightarrow> ReadWriteLock \<times> guards \<Rightarrow> bool" for max_rd where
  read: "ReadLockGuard_new max_rd t l = Done () l' \<Longrightarrow> guard_step max_rd (l, g) (l', g(t := RGuard # g t))"
| write_step: "WriteLockGuard_new t l = Done () l' \<Longrightarrow> guard_step max_rd (l, g) (l', g(t := WGuard # g t))"
| leave: "g t = x # gs \<Longrightarrow> guard_destroy x t l = Done () l' \<Longrightarrow> guard_step max_rd (l, g) (l', g(t := gs))"

definition no_guards :: "ReadWriteLock \<times> guards" where
  "no_guards = (\<lparr>m_bucket_rwlock = \<lparr>rw_readers = [], rw_writer = None\<rparr>\<rparr>, \<lambda>_. [])"

text \<open>The constructor gives the lock without guards.\<close>

lemma no_guards_new: "ReadWriteLock_new = Done True (fst no_guards)"
  by (simp add: no_guards_def rw_defs)

text \<open>
  What the class leaves to its user: not to open a guard inside a write guard of the same thread, and
  to keep the number of read guards within the limit of the library. In both cases the library refuses
  the lock, and the guard does not notice.
\<close>

definition careful :: "nat \<Rightarrow> ReadWriteLock \<times> guards \<Rightarrow> ReadWriteLock \<times> guards \<Rightarrow> bool" where
  "careful max_rd s s' \<longleftrightarrow> guard_step max_rd s s' \<and>
     (\<forall>t x. snd s' t = x # snd s t \<longrightarrow> WGuard \<notin> set (snd s t) \<and>
        (x = RGuard \<longrightarrow> length (rw_readers (m_bucket_rwlock (fst s))) < max_rd))"

definition guards_ok :: "ReadWriteLock \<Rightarrow> guards \<Rightarrow> bool" where
  "guards_ok l g \<longleftrightarrow>
     (\<forall>t. count_list (rw_readers (m_bucket_rwlock l)) t = count_list (g t) RGuard) \<and>
     (\<forall>t. rw_writer (m_bucket_rwlock l) = Some t \<longleftrightarrow> WGuard \<in> set (g t)) \<and>
     (\<forall>t. WGuard \<in> set (g t) \<longrightarrow> g t = [WGuard] \<and> (\<forall>u. u \<noteq> t \<longrightarrow> g u = []))"

lemma count_list_remove1: "x \<in> set xs \<Longrightarrow> count_list (remove1 x xs) y = count_list xs y - (if x = y then 1 else 0)"
proof (induction xs)
  case (Cons a xs)
  then show ?case
    using count_list_0_iff [of xs x] by (cases "a = x") auto
qed simp

lemma no_guard: "RGuard \<notin> set gs \<Longrightarrow> WGuard \<notin> set gs \<Longrightarrow> gs = []"
  by (cases gs) (metis guard.exhaust list.set_intros(1))+

lemma guards_ok_writer:
  "guards_ok l g \<Longrightarrow> WGuard \<in> set (g t) \<Longrightarrow>
   rw_writer (m_bucket_rwlock l) = Some t \<and> g t = [WGuard] \<and> (\<forall>u. u \<noteq> t \<longrightarrow> g u = [])"
  by (simp add: guards_ok_def)

lemma guards_ok_read:
  assumes "guards_ok l g" and "WGuard \<notin> set (g t)" and "length (rw_readers (m_bucket_rwlock l)) < max_rd"
    and "ReadLockGuard_new max_rd t l = Done () l'"
  shows "guards_ok l' (g(t := RGuard # g t))"
proof -
  have w: "rw_writer (m_bucket_rwlock l) = None"
    using assms by (auto simp: rw_defs guards_ok_def split: if_splits)
  with assms have "l' = \<lparr>m_bucket_rwlock = (m_bucket_rwlock l)\<lparr>rw_readers := t # rw_readers (m_bucket_rwlock l)\<rparr>\<rparr>"
    by (simp add: rw_defs)
  with assms(1) w show ?thesis by (auto simp: guards_ok_def)
qed

lemma guards_ok_write:
  assumes "guards_ok l g" and "WGuard \<notin> set (g t)" and "WriteLockGuard_new t l = Done () l'"
  shows "guards_ok l' (g(t := WGuard # g t))"
proof -
  have w: "rw_writer (m_bucket_rwlock l) = None" "rw_readers (m_bucket_rwlock l) = []"
    using assms by (auto simp: rw_defs guards_ok_def split: if_splits)
  have "g u = []" for u
  proof (rule no_guard)
    show "RGuard \<notin> set (g u)" using assms(1) w(2) by (auto simp: guards_ok_def count_list_0_iff [symmetric])
    show "WGuard \<notin> set (g u)" using assms(1) w(1) by (auto simp: guards_ok_def)
  qed
  moreover have "l' = \<lparr>m_bucket_rwlock = (m_bucket_rwlock l)\<lparr>rw_writer := Some t\<rparr>\<rparr>"
    using assms(3) w by (simp add: rw_defs)
  ultimately show ?thesis using w by (auto simp: guards_ok_def)
qed

text \<open>Closing a guard releases exactly what it stands for; the call neither waits nor is undefined.\<close>

lemma guards_ok_leave:
  assumes "guards_ok l g" and "g t = x # gs"
  shows "\<exists>l'. guard_destroy x t l = Done () l' \<and> guards_ok l' (g(t := gs))"
proof (cases x)
  case RGuard
  have "0 < count_list (rw_readers (m_bucket_rwlock l)) t" using assms RGuard by (simp add: guards_ok_def)
  then have t: "t \<in> set (rw_readers (m_bucket_rwlock l))" using count_notin by force
  have nw: "WGuard \<notin> set (g t)" using guards_ok_writer [OF assms(1)] assms(2) RGuard by fastforce
  then have w: "rw_writer (m_bucket_rwlock l) \<noteq> Some t" "WGuard \<notin> set gs"
    using assms by (simp_all add: guards_ok_def)
  let ?l = "\<lparr>m_bucket_rwlock = (m_bucket_rwlock l)\<lparr>rw_readers := remove1 t (rw_readers (m_bucket_rwlock l))\<rparr>\<rparr>"
  have "guard_destroy x t l = Done () ?l" using t w RGuard by (simp add: rw_defs)
  moreover have "guards_ok ?l (g(t := gs))"
    using assms t w RGuard by (auto simp: guards_ok_def count_list_remove1)
  ultimately show ?thesis by blast
next
  case WGuard
  with assms(2) have "WGuard \<in> set (g t)" by simp
  from guards_ok_writer [OF assms(1) this] assms(2)
  have w: "rw_writer (m_bucket_rwlock l) = Some t" "gs = []" "\<And>u. u \<noteq> t \<Longrightarrow> g u = []" by simp_all
  have "count_list (g u) RGuard = 0" for u using w assms(2) WGuard by (cases "u = t") simp_all
  with assms(1) have "count_list (rw_readers (m_bucket_rwlock l)) u = 0" for u by (simp add: guards_ok_def)
  let ?l = "\<lparr>m_bucket_rwlock = (m_bucket_rwlock l)\<lparr>rw_writer := None\<rparr>\<rparr>"
  have "guard_destroy x t l = Done () ?l" using w WGuard by (simp add: rw_defs)
  moreover have "guards_ok ?l (g(t := gs))"
    using \<open>\<And>u. count_list (rw_readers (m_bucket_rwlock l)) u = 0\<close> w by (simp add: guards_ok_def)
  ultimately show ?thesis by blast
qed

lemma careful_ok:
  assumes "careful max_rd s s'" and "guards_ok (fst s) (snd s)"
  shows "guards_ok (fst s') (snd s')"
proof -
  from assms(1) have st: "guard_step max_rd s s'" and
    c: "\<And>t x. snd s' t = x # snd s t \<Longrightarrow> WGuard \<notin> set (snd s t) \<and>
      (x = RGuard \<longrightarrow> length (rw_readers (m_bucket_rwlock (fst s))) < max_rd)" by (auto simp: careful_def)
  from st show ?thesis
  proof cases
    case (read t l l' g)
    with guards_ok_read [of l g t max_rd l'] c [of t RGuard] assms(2) show ?thesis by simp
  next
    case (write_step t l l' g)
    with guards_ok_write [of l g t l'] c [of t WGuard] assms(2) show ?thesis by simp
  next
    case (leave g t x gs l l')
    with guards_ok_leave [of l g t x gs] assms(2) show ?thesis by auto
  qed
qed

lemma careful_run_ok: "(careful max_rd)\<^sup>*\<^sup>* no_guards s \<Longrightarrow> guards_ok (fst s) (snd s)"
proof (induction rule: rtranclp_induct)
  case base
  then show ?case by (auto simp: guards_ok_def no_guards_def)
qed (rule careful_ok)

lemma careful_leave:
  assumes "g t = x # gs" and "guard_destroy x t l = Done () l'"
  shows "careful max_rd (l, g) (l', g(t := gs))"
proof -
  have "gs \<noteq> y # x # gs" for y using arg_cong [of gs "y # x # gs" length] by auto
  moreover have "g u \<noteq> y # g u" for u y using arg_cong [of "g u" "y # g u" length] by auto
  ultimately show ?thesis using guard_step.leave [of g t x gs l l' max_rd] assms
    by (auto simp: careful_def split: if_splits)
qed

text \<open>What happens when a thread opens and closes a read guard inside its write guard.\<close>

lemma nested_guard_run:
  assumes "guards_ok l g" and "WGuard \<in> set (g t)" and "u \<noteq> t"
  shows "\<exists>l'. (guard_step max_rd)\<^sup>*\<^sup>* (l, g) (l', g(u := [WGuard]))"
proof -
  from guards_ok_writer [OF assms(1,2)] assms(3) have w: "rw_writer (m_bucket_rwlock l) = Some t" "g t = [WGuard]" "g u = []"
    by simp_all
  have none: "\<And>v. v \<noteq> t \<Longrightarrow> g v = []" using guards_ok_writer [OF assms(1,2)] by simp
  have r: "rw_readers (m_bucket_rwlock l) = []"
  proof -
    have "count_list (rw_readers (m_bucket_rwlock l)) v = 0" for v
      using assms(1) w(2) none [of v] by (cases "v = t") (simp_all add: guards_ok_def)
    then show ?thesis by (metis count_list_0_iff list.set_intros(1) neq_Nil_conv)
  qed
  let ?free = "\<lparr>m_bucket_rwlock = (m_bucket_rwlock l)\<lparr>rw_writer := None\<rparr>\<rparr>"
  let ?u = "\<lparr>m_bucket_rwlock = (m_bucket_rwlock l)\<lparr>rw_writer := Some u\<rparr>\<rparr>"
  have "guard_step max_rd (l, g) (l, g(t := RGuard # g t))"
    by (rule guard_step.read) (simp add: rw_defs w EDEADLK_def)
  moreover have "guard_step max_rd (l, g(t := RGuard # g t)) (?free, (g(t := RGuard # g t))(t := g t))"
    by (rule guard_step.leave [where x = RGuard]) (simp_all add: rw_defs w)
  moreover have "guard_step max_rd (?free, g) (?u, g(u := WGuard # g u))"
    by (rule guard_step.write_step) (simp add: rw_defs r)
  ultimately have "(guard_step max_rd)\<^sup>*\<^sup>* (l, g) (?u, g(u := WGuard # g u))"
    by (simp add: converse_rtranclp_into_rtranclp r_into_rtranclp)
  then show ?thesis using w(3) by auto
qed

section \<open>Properties\<close>

text \<open>
  C29: however the threads interleave, the guards exclude each other, provided that no thread opens a guard inside
  a write guard of its own and that the read guards stay within the limit of the library: while one thread
  has a write guard, no thread has any other guard; closing a guard always succeeds at once; and when
  all guards are closed the lock is free, so that destroying it is allowed. Without the proviso this
  fails: from every state with a write guard there is a run, in which the thread opens and closes a read guard
  inside, to a state in which a second thread has a write guard as well.
\<close>

theorem rwlock_guards_exclude:
  assumes "(careful max_rd)\<^sup>*\<^sup>* no_guards (l, g)"
  shows "(\<forall>t u. WGuard \<in> set (g t) \<longrightarrow> g t = [WGuard] \<and> (u \<noteq> t \<longrightarrow> g u = [])) \<and>
     (\<forall>t x gs. g t = x # gs \<longrightarrow> (\<exists>l'. guard_destroy x t l = Done () l' \<and> careful max_rd (l, g) (l', g(t := gs)))) \<and>
     ((\<forall>t. g t = []) \<longrightarrow> ReadWriteLock_destroy l = Done True l) \<and>
     (\<forall>t u. WGuard \<in> set (g t) \<longrightarrow> u \<noteq> t \<longrightarrow>
        (\<exists>l' g'. (guard_step max_rd)\<^sup>*\<^sup>* (l, g) (l', g') \<and> WGuard \<in> set (g' t) \<and> WGuard \<in> set (g' u)))"
proof (intro conjI allI impI)
  have ok: "guards_ok l g" using careful_run_ok [OF assms] by simp
  fix t u
  assume w: "WGuard \<in> set (g t)"
  from guards_ok_writer [OF ok w] show "g t = [WGuard]" "u \<noteq> t \<Longrightarrow> g u = []" by simp_all
  assume "u \<noteq> t"
  from nested_guard_run [OF ok w this] obtain l' where "(guard_step max_rd)\<^sup>*\<^sup>* (l, g) (l', g(u := [WGuard]))" by blast
  with w \<open>u \<noteq> t\<close> show "\<exists>l' g'. (guard_step max_rd)\<^sup>*\<^sup>* (l, g) (l', g') \<and> WGuard \<in> set (g' t) \<and> WGuard \<in> set (g' u)"
    by (intro exI [of _ l'] exI [of _ "g(u := [WGuard])"]) simp
next
  have ok: "guards_ok l g" using careful_run_ok [OF assms] by simp
  fix t x gs
  assume h: "g t = x # gs"
  from guards_ok_leave [OF ok h] careful_leave [of g t x gs l, OF h]
  show "\<exists>l'. guard_destroy x t l = Done () l' \<and> careful max_rd (l, g) (l', g(t := gs))" by blast
next
  have ok: "guards_ok l g" using careful_run_ok [OF assms] by simp
  assume "\<forall>t. g t = []"
  with ok have "rw_readers (m_bucket_rwlock l) = []" "rw_writer (m_bucket_rwlock l) = None"
    by (auto simp: guards_ok_def count_list_0_iff intro!: set_empty [THEN iffD1])
  then show "ReadWriteLock_destroy l = Done True l" by (simp add: rw_defs)
qed

theorem rwlock_guards_exclude_witness:
  "\<exists>l g. (careful 8)\<^sup>*\<^sup>* no_guards (l, g) \<and> g 1 = [WGuard] \<and> g 2 = []"
proof -
  let ?k = "\<lparr>m_bucket_rwlock = \<lparr>rw_readers = [], rw_writer = Some 1\<rparr>\<rparr>" and ?g = "(\<lambda>_. [])(1 := [WGuard]) :: guards"
  have "guard_step 8 no_guards (?k, ?g)"
    using guard_step.write_step [of 1 "fst no_guards" ?k 8 "\<lambda>_. []"] by (simp add: no_guards_def rw_defs)
  then have "careful 8 no_guards (?k, ?g)" by (simp add: careful_def no_guards_def)
  then have r: "(careful 8)\<^sup>*\<^sup>* no_guards (?k, ?g)" by simp
  have "WGuard \<in> set (?g 1) \<longrightarrow> ?g 1 = [WGuard] \<and> ((2 :: nat) \<noteq> 1 \<longrightarrow> ?g 2 = [])"
    using rwlock_guards_exclude [OF r] by blast
  with r show ?thesis by fastforce
qed

text \<open>
  A read guard inside a write guard of the same thread does not get the lock (the library
  refuses it), but its destructor releases the write lock all the same: the lock is free while the
  write guard still exists, another thread may take it, and then the destructor of the write guard
  is undefined.
\<close>

theorem rwlock_nested_guard_releases:
  assumes "WriteLockGuard_new t l = Done () l1" and "u \<noteq> t" and "rw_writer (m_bucket_rwlock l) = None"
  shows "\<exists>l2 l3. ReadLockGuard_new max_rd t l1 = Done () l1 \<and> ReadLockGuard_destroy t l1 = Done () l2 \<and>
     WriteLockGuard_new u l2 = Done () l3 \<and> WriteLockGuard_destroy t l3 = Undefined"
  using assms by (auto simp: rw_defs EDEADLK_def split: if_splits)

theorem rwlock_nested_guard_releases_witness:
  "WriteLockGuard_new 1 \<lparr>m_bucket_rwlock = \<lparr>rw_readers = [], rw_writer = None\<rparr>\<rparr> =
     Done () \<lparr>m_bucket_rwlock = \<lparr>rw_readers = [], rw_writer = Some 1\<rparr>\<rparr> \<and>
   ReadLockGuard_new 8 1 \<lparr>m_bucket_rwlock = \<lparr>rw_readers = [], rw_writer = Some 1\<rparr>\<rparr> =
     Done () \<lparr>m_bucket_rwlock = \<lparr>rw_readers = [], rw_writer = Some 1\<rparr>\<rparr>"
proof -
  have w: "WriteLockGuard_new 1 \<lparr>m_bucket_rwlock = \<lparr>rw_readers = [], rw_writer = None\<rparr>\<rparr> =
     Done () \<lparr>m_bucket_rwlock = \<lparr>rw_readers = [], rw_writer = Some 1\<rparr>\<rparr>" by (simp add: rw_defs)
  from rwlock_nested_guard_releases [OF w, of 2 8] w show ?thesis by auto
qed

text \<open>
  A spin lock guard holds the lock between its constructor and its destructor: every thread
  that asks for it, its holder included, waits; \<^verbatim>\<open>trylock\<close> fails without waiting; and the destructor
  leaves the lock free.
\<close>

theorem spinlock_guard_exclude:
  assumes "SpinLockGuard_new t None = Done () l"
  shows "(\<forall>u. SpinLockGuard_new u l = Blocks) \<and> (\<forall>u. spinlock_trylock u l = Done False l) \<and>
     SpinLockGuard_destroy t l = Done () None \<and> (\<forall>u. spinlock_trylock u None = Done True (Some u))"
  using assms by (auto simp: spin_defs spinlock_trylock_def pthread_spin_trylock_def EBUSY_def)

theorem spinlock_guard_exclude_witness:
  "SpinLockGuard_new 1 None = Done () (Some 1) \<and> SpinLockGuard_new 2 (Some 1) = Blocks"
proof -
  have w: "SpinLockGuard_new 1 None = Done () (Some 1)" by (simp add: spin_defs)
  from spinlock_guard_exclude [OF w] w show ?thesis by simp
qed

end
