(* ===== verification/Aio.thy ===== *)
theory Aio
  imports Thread "HOL-Library.Monad_Syntax"
begin

text \<open>
  \<^verbatim>\<open>include/xfutil/aio.h\<close>, \<^verbatim>\<open>src/aio.cpp\<close>, \<^verbatim>\<open>src/aio_cmd.cpp\<close> and \<^verbatim>\<open>src/aio_request.h/.cpp\<close>: asynchronous I/O. A request
  is a vector of commands; every command is put into a queue, threads take commands from the
  queues, and the thread that completes the last command of a request calls back. The model has
  the commands and the state of the service as records, \<open>Submit\<close>, \<open>Start\<close> and \<open>Stop\<close> as functions, and
  the processing of one request by its threads as a step relation whose steps are the atomic
  operations on the counters. A request is shared by its queue entries and has a number; results
  of system calls are arguments. \<^const>\<open>None\<close> is undefined behaviour.
\<close>

section \<open>Commands\<close>

definition CMD_READ :: int where "CMD_READ = 0"
definition CMD_WRITE :: int where "CMD_WRITE = 1"
definition CMD_READV :: int where "CMD_READV = 2"
definition CMD_WRITEV :: int where "CMD_WRITEV = 3"
definition CMD_MIN_PIO :: int where "CMD_MIN_PIO = 4"
definition CMD_PREAD :: int where "CMD_PREAD = 5"
definition CMD_PWRITE :: int where "CMD_PWRITE = 6"
definition CMD_PREADV :: int where "CMD_PREADV = 7"
definition CMD_PWRITEV :: int where "CMD_PWRITEV = 8"
definition CMD_READAHEAD :: int where "CMD_READAHEAD = 9"
definition CMD_FSYNC :: int where "CMD_FSYNC = 10"
definition CMD_FDATASYNC :: int where "CMD_FDATASYNC = 11"

lemmas CMD_defs = CMD_READ_def CMD_WRITE_def CMD_READV_def CMD_WRITEV_def CMD_MIN_PIO_def CMD_PREAD_def
  CMD_PWRITE_def CMD_PREADV_def CMD_PWRITEV_def CMD_READAHEAD_def CMD_FSYNC_def CMD_FDATASYNC_def

record Command =
  c_cmd :: int
  c_fd :: int
  c_pos :: u64
  c_buf :: nat
  c_size :: u64
  c_ret :: int
  c_error :: int

definition Command_Set :: "int \<Rightarrow> int \<Rightarrow> nat \<Rightarrow> u64 \<Rightarrow> Command \<Rightarrow> Command" where
  "Command_Set cmd fd buf sz c =
     c\<lparr>c_cmd := cmd, c_fd := fd, c_buf := buf, c_size := sz, c_ret := -1, c_error := 0\<rparr>"

definition Command_Set_pos :: "int \<Rightarrow> int \<Rightarrow> u64 \<Rightarrow> nat \<Rightarrow> u64 \<Rightarrow> Command \<Rightarrow> Command" where
  "Command_Set_pos cmd fd pos buf sz c =
     c\<lparr>c_cmd := cmd, c_fd := fd, c_pos := pos, c_buf := buf, c_size := sz, c_ret := -1, c_error := 0\<rparr>"

definition Command_Read :: "int \<Rightarrow> nat \<Rightarrow> u64 \<Rightarrow> Command \<Rightarrow> Command" where
  "Command_Read fd buf sz = Command_Set CMD_READ fd buf sz"
definition Command_Write :: "int \<Rightarrow> nat \<Rightarrow> u64 \<Rightarrow> Command \<Rightarrow> Command" where
  "Command_Write fd buf sz = Command_Set CMD_WRITE fd buf sz"
definition Command_PRead :: "int \<Rightarrow> u64 \<Rightarrow> nat \<Rightarrow> u64 \<Rightarrow> Command \<Rightarrow> Command" where
  "Command_PRead fd pos buf sz = Command_Set_pos CMD_PREAD fd pos buf sz"
definition Command_PWrite :: "int \<Rightarrow> u64 \<Rightarrow> nat \<Rightarrow> u64 \<Rightarrow> Command \<Rightarrow> Command" where
  "Command_PWrite fd pos buf sz = Command_Set_pos CMD_PWRITE fd pos buf sz"
definition Command_Readv :: "int \<Rightarrow> nat \<Rightarrow> u64 \<Rightarrow> Command \<Rightarrow> Command" where
  "Command_Readv fd iobuf iovcnt = Command_Set CMD_READV fd iobuf iovcnt"
definition Command_Writev :: "int \<Rightarrow> nat \<Rightarrow> u64 \<Rightarrow> Command \<Rightarrow> Command" where
  "Command_Writev fd iobuf iovcnt = Command_Set CMD_WRITEV fd iobuf iovcnt"
definition Command_PReadv :: "int \<Rightarrow> u64 \<Rightarrow> nat \<Rightarrow> u64 \<Rightarrow> Command \<Rightarrow> Command" where
  "Command_PReadv fd pos iobuf iovcnt = Command_Set_pos CMD_PREADV fd pos iobuf iovcnt"
definition Command_PWritev :: "int \<Rightarrow> u64 \<Rightarrow> nat \<Rightarrow> u64 \<Rightarrow> Command \<Rightarrow> Command" where
  "Command_PWritev fd pos iobuf iovcnt = Command_Set_pos CMD_PWRITEV fd pos iobuf iovcnt"
definition Command_ReadAhead :: "int \<Rightarrow> u64 \<Rightarrow> u64 \<Rightarrow> Command \<Rightarrow> Command" where
  "Command_ReadAhead fd pos sz = Command_Set_pos CMD_READAHEAD fd pos 0 sz"
definition Command_Sync :: "int \<Rightarrow> Command \<Rightarrow> Command" where
  "Command_Sync fd = Command_Set_pos CMD_FSYNC fd 0 0 0"
definition Command_DataSync :: "int \<Rightarrow> Command \<Rightarrow> Command" where
  "Command_DataSync fd = Command_Set_pos CMD_FDATASYNC fd 0 0 0"

text \<open>The system call that \<^verbatim>\<open>ProcessRequest\<close> makes for a command, with its arguments.\<close>

datatype io_call =
    SysRead int nat u64 | SysWrite int nat u64 | SysReadv int nat int | SysWritev int nat int
  | SysPread int nat u64 u64 | SysPwrite int nat u64 u64
  | SysPreadv int nat int u64 | SysPwritev int nat int u64
  | SysReadahead int u64 u64 | SysFsync int | SysFdatasync int

definition dispatch :: "Command \<Rightarrow> io_call option" where
  "dispatch c =
     (let iov = sint (ucast (c_size c) :: u32)
      in if c_cmd c = CMD_READ then Some (SysRead (c_fd c) (c_buf c) (c_size c))
         else if c_cmd c = CMD_WRITE then Some (SysWrite (c_fd c) (c_buf c) (c_size c))
         else if c_cmd c = CMD_READV then Some (SysReadv (c_fd c) (c_buf c) iov)
         else if c_cmd c = CMD_WRITEV then Some (SysWritev (c_fd c) (c_buf c) iov)
         else if c_cmd c = CMD_PREAD then Some (SysPread (c_fd c) (c_buf c) (c_size c) (c_pos c))
         else if c_cmd c = CMD_PWRITE then Some (SysPwrite (c_fd c) (c_buf c) (c_size c) (c_pos c))
         else if c_cmd c = CMD_PREADV then Some (SysPreadv (c_fd c) (c_buf c) iov (c_pos c))
         else if c_cmd c = CMD_PWRITEV then Some (SysPwritev (c_fd c) (c_buf c) iov (c_pos c))
         else if c_cmd c = CMD_READAHEAD then Some (SysReadahead (c_fd c) (c_pos c) (c_size c))
         else if c_cmd c = CMD_FSYNC then Some (SysFsync (c_fd c))
         else if c_cmd c = CMD_FDATASYNC then Some (SysFdatasync (c_fd c))
         else None)"

section \<open>Requests\<close>

record Request =
  m_cmds :: "Command list"
  m_create_time :: int
  m_cmd_fail_cnt :: u32
  m_completed_cnt :: u32
  m_completed_time :: int

definition Request_new :: "Command list \<Rightarrow> int \<Rightarrow> Request" where
  "Request_new cmds now = \<lparr>m_cmds = cmds, m_create_time = now, m_cmd_fail_cnt = 0, m_completed_cnt = 0,
     m_completed_time = -1\<rparr>"

definition ElapsedTime :: "Request \<Rightarrow> int" where
  "ElapsedTime r = m_completed_time r - m_create_time r"

definition EINVAL :: int where "EINVAL = 22"

text \<open>
  The three parts of \<^verbatim>\<open>ProcessRequest\<close>: the system call (\<open>sys\<close> is its result and error number), the
  failure count, and the completion count with the call back. The call back gets the commands, the
  number of failures and the elapsed time.
\<close>

definition Process_call :: "nat \<Rightarrow> int \<times> int \<Rightarrow> Request \<Rightarrow> int \<times> Request" where
  "Process_call idx sys r =
     (let (res, err) = (case dispatch (m_cmds r ! idx) of Some _ \<Rightarrow> sys | None \<Rightarrow> (-1, EINVAL))
      in (err, r\<lparr>m_cmds := (m_cmds r)[idx := (m_cmds r ! idx)\<lparr>c_ret := res\<rparr>]\<rparr>))"

definition Process_fail :: "nat \<Rightarrow> int \<Rightarrow> Request \<Rightarrow> Request" where
  "Process_fail idx err r =
     (if c_ret (m_cmds r ! idx) = -1
      then r\<lparr>m_cmds := (m_cmds r)[idx := (m_cmds r ! idx)\<lparr>c_error := err\<rparr>], m_cmd_fail_cnt := m_cmd_fail_cnt r + 1\<rparr>
      else r)"

definition Process_complete :: "Request \<Rightarrow> (Command list \<times> u32 \<times> int) option \<times> Request" where
  "Process_complete r =
     (let prev_cnt = m_completed_cnt r;
          r = r\<lparr>m_completed_cnt := prev_cnt + 1\<rparr>
      in (if (ucast prev_cnt :: u64) = of_nat (length (m_cmds r)) - 1
          then Some (m_cmds r, m_cmd_fail_cnt r, ElapsedTime r) else None, r))"

text \<open>
  The threads that work on one request (\<open>req_at i\<close> is the one that processes command \<open>i\<close>): where the processing of each command is, and the calls
  back made so far.
\<close>

datatype progress = Queued | Called int | Counted | Completed

record req_conf =
  rc_req :: Request
  rc_progress :: "progress list"
  rc_calls :: "(Command list \<times> u32 \<times> int) list"

inductive req_at :: "nat \<Rightarrow> req_conf \<Rightarrow> req_conf \<Rightarrow> bool" for i where
  call: "i < length (rc_progress c) \<Longrightarrow> rc_progress c ! i = Queued \<Longrightarrow> Process_call i sys (rc_req c) = (err, r) \<Longrightarrow>
    req_at i c (c\<lparr>rc_req := r, rc_progress := (rc_progress c)[i := Called err]\<rparr>)"
| fail: "i < length (rc_progress c) \<Longrightarrow> rc_progress c ! i = Called err \<Longrightarrow>
    req_at i c (c\<lparr>rc_req := Process_fail i err (rc_req c), rc_progress := (rc_progress c)[i := Counted]\<rparr>)"
| complete: "i < length (rc_progress c) \<Longrightarrow> rc_progress c ! i = Counted \<Longrightarrow>
    Process_complete (rc_req c) = (cb, r) \<Longrightarrow>
    req_at i c (c\<lparr>rc_req := r, rc_progress := (rc_progress c)[i := Completed],
                 rc_calls := (case cb of None \<Rightarrow> rc_calls c | Some x \<Rightarrow> rc_calls c @ [x])\<rparr>)"

definition req_step :: "req_conf \<Rightarrow> req_conf \<Rightarrow> bool" where
  "req_step c d \<longleftrightarrow> (\<exists>i. req_at i c d)"

lemma req_stepI: "req_at i c d \<Longrightarrow> req_step c d"
  by (auto simp: req_step_def)

definition req_start :: "Command list \<Rightarrow> int \<Rightarrow> req_conf" where
  "req_start cmds now = \<lparr>rc_req = Request_new cmds now, rc_progress = replicate (length cmds) Queued, rc_calls = []\<rparr>"

section \<open>The service\<close>

datatype AioState = AIO_STOPPED | AIO_STARTING | AIO_STARTED | AIO_STOPPING

text \<open>An entry of a queue: a command of a request, or the mark that ends a thread.\<close>

datatype RequestEx = ReqEx nat nat | EmptyReq

record Aio =
  s_state :: AioState
  s_reqid :: u64
  s_io_request_queues :: "RequestEx list list option"
  s_io_thread_group :: thread_group
  s_pio_request_queue :: "RequestEx list"
  s_pio_thread_group :: thread_group

definition Aio_new :: Aio where
  "Aio_new = \<lparr>s_state = AIO_STOPPED, s_reqid = 1, s_io_request_queues = None, s_io_thread_group = [],
     s_pio_request_queue = [], s_pio_thread_group = []\<rparr>"

text \<open>A negative number asks for a multiple of the number of processors, in unsigned arithmetic.\<close>

definition thread_num :: "int \<Rightarrow> u32 \<Rightarrow> int" where
  "thread_num n cpus = (if n < 0 then sint (of_int (- n) * cpus :: u32) else n)"

definition Aio_Start :: "int \<Rightarrow> int \<Rightarrow> u32 \<Rightarrow> Aio \<Rightarrow> (int \<times> Aio) option" where
  "Aio_Start io_threadnum pio_threadnum cpus a =
     (if s_state a \<noteq> AIO_STOPPED then Some (-1, a)
      else do {
        let a = a\<lparr>s_state := AIO_STARTING\<rparr>;
        let io_threadnum = thread_num io_threadnum cpus;
        a \<leftarrow> (if io_threadnum < 0 then None
              else Some (a\<lparr>s_io_request_queues := Some (replicate (nat io_threadnum) [])\<rparr>));
        g \<leftarrow> ThreadGroup_Start io_threadnum (s_io_thread_group a);
        let a = a\<lparr>s_io_thread_group := g\<rparr>;
        g \<leftarrow> ThreadGroup_Start (thread_num pio_threadnum cpus) (s_pio_thread_group a);
        let a = a\<lparr>s_pio_thread_group := g\<rparr>;
        Some (0, a\<lparr>s_state := AIO_STARTED\<rparr>)
      })"

text \<open>One command of \<open>Submit\<close> is pushed to the queue of its descriptor, or to the common queue.\<close>

definition Submit_push :: "nat \<Rightarrow> nat \<Rightarrow> Command \<Rightarrow> Aio \<Rightarrow> Aio option" where
  "Submit_push req i c a =
     (if c_cmd c < CMD_MIN_PIO then
        if ThreadGroup_Size (s_io_thread_group a) = 0 then None
        else
          let queue_idx = unat (of_int (c_fd c) :: u64) mod ThreadGroup_Size (s_io_thread_group a)
          in case s_io_request_queues a of
               None \<Rightarrow> None
             | Some qs \<Rightarrow> if queue_idx < length qs
                 then Some (a\<lparr>s_io_request_queues := Some (qs[queue_idx := qs ! queue_idx @ [ReqEx req i]])\<rparr>)
                 else None
      else Some (a\<lparr>s_pio_request_queue := s_pio_request_queue a @ [ReqEx req i]\<rparr>))"

fun Submit_loop :: "nat \<Rightarrow> nat \<Rightarrow> Command list \<Rightarrow> Aio \<Rightarrow> Aio option" where
  "Submit_loop req i [] a = Some a"
| "Submit_loop req i (c # cs) a = Option.bind (Submit_push req i c a) (Submit_loop req (Suc i) cs)"

definition Submit :: "nat \<Rightarrow> Command list \<Rightarrow> Aio \<Rightarrow> (u64 \<times> Aio) option" where
  "Submit req cmds a =
     (if s_state a \<noteq> AIO_STARTED then Some (0, a)
      else map_option (\<lambda>a. (s_reqid a, a\<lparr>s_reqid := s_reqid a + 1\<rparr>)) (Submit_loop req 0 cmds a))"

text \<open>
  A thread takes entries from its queue until it meets a mark; the results are the entries it
  processes and what is left of the queue. \<^const>\<open>None\<close> means that it waits for more.
\<close>

fun ProcThreadFunc :: "RequestEx list \<Rightarrow> (RequestEx list \<times> RequestEx list) option" where
  "ProcThreadFunc [] = None"
| "ProcThreadFunc (EmptyReq # q) = Some ([], q)"
| "ProcThreadFunc (ReqEx r i # q) = map_option (\<lambda>(done, q). (ReqEx r i # done, q)) (ProcThreadFunc q)"

text \<open>
  The threads on the common queue: every entry is taken by one of the threads that have not met a
  mark; a mark ends one thread. The result is the entries processed, in the order they are taken.
\<close>

fun PIOThreads :: "nat \<Rightarrow> RequestEx list \<Rightarrow> (RequestEx list \<times> RequestEx list) option" where
  "PIOThreads 0 q = Some ([], q)"
| "PIOThreads (Suc n) [] = None"
| "PIOThreads (Suc n) (EmptyReq # q) = PIOThreads n q"
| "PIOThreads (Suc n) (ReqEx r i # q) = map_option (\<lambda>(done, q). (ReqEx r i # done, q)) (PIOThreads (Suc n) q)"

text \<open>
  \<open>Stop\<close>: a mark into every queue, wait for the threads, the same for the common queue. Waiting for
  threads that never end is \<^const>\<open>None\<close>. The second component of the result is what the threads
  processed before they ended.
\<close>

definition Aio_Stop :: "Aio \<Rightarrow> (int \<times> RequestEx list list \<times> RequestEx list \<times> Aio) option" where
  "Aio_Stop a =
     (if s_state a \<noteq> AIO_STARTED then Some (-1, [], [], a)
      else do {
        let a = a\<lparr>s_state := AIO_STOPPING\<rparr>;
        qs \<leftarrow> s_io_request_queues a;
        let n = ThreadGroup_Size (s_io_thread_group a);
        let qs = map (\<lambda>i. if i < n then qs ! i @ [EmptyReq] else qs ! i) [0..<length qs];
        runs \<leftarrow> those (map (\<lambda>i. ProcThreadFunc (qs ! i)) [0..<n]);
        g \<leftarrow> ThreadGroup_Join (s_io_thread_group a);
        let a = a\<lparr>s_io_thread_group := g, s_io_request_queues := None\<rparr>;
        let q = s_pio_request_queue a @ replicate (ThreadGroup_Size (s_pio_thread_group a)) EmptyReq;
        (pio, q) \<leftarrow> PIOThreads (ThreadGroup_Size (s_pio_thread_group a)) q;
        g \<leftarrow> ThreadGroup_Join (s_pio_thread_group a);
        let a = a\<lparr>s_pio_request_queue := q, s_pio_thread_group := g\<rparr>;
        Some (0, map fst runs, pio, a\<lparr>s_state := AIO_STOPPED\<rparr>)
      })"

section \<open>One request\<close>

definition done_set :: "req_conf \<Rightarrow> nat set" where
  "done_set c = {i. i < length (rc_progress c) \<and> rc_progress c ! i = Completed}"

definition failed_set :: "req_conf \<Rightarrow> nat set" where
  "failed_set c = {i. i < length (rc_progress c) \<and> (rc_progress c ! i = Counted \<or> rc_progress c ! i = Completed) \<and>
     c_ret (m_cmds (rc_req c) ! i) = -1}"

definition req_inv :: "int \<Rightarrow> nat \<Rightarrow> req_conf \<Rightarrow> bool" where
  "req_inv now n c \<longleftrightarrow> length (rc_progress c) = n \<and> length (m_cmds (rc_req c)) = n \<and>
     m_create_time (rc_req c) = now \<and> m_completed_time (rc_req c) = -1 \<and>
     m_completed_cnt (rc_req c) = of_nat (card (done_set c)) \<and>
     m_cmd_fail_cnt (rc_req c) = of_nat (card (failed_set c)) \<and>
     rc_calls c = (if card (done_set c) = n \<and> 0 < n
       then [(m_cmds (rc_req c), of_nat (card (failed_set c)), -1 - now)] else [])"

lemma done_set_finite [simp]: "finite (done_set c)"
  and failed_set_finite [simp]: "finite (failed_set c)"
  by (simp_all add: done_set_def failed_set_def)

lemma done_set_less:
  assumes "i < length (rc_progress c)" and "rc_progress c ! i \<noteq> Completed"
  shows "card (done_set c) < length (rc_progress c)"
proof -
  have "done_set c \<subset> {..<length (rc_progress c)}" using assms by (auto simp: done_set_def)
  then show ?thesis using psubset_card_mono [of "{..<length (rc_progress c)}" "done_set c"] by simp
qed

lemma req_at_inv:
  assumes "req_at i c d" and inv: "req_inv now n c" and n: "n < 2 ^ 32"
  shows "req_inv now n d"
  using assms(1)
proof cases
  case (call sys err r)
  from call(4) obtain res where r: "r = (rc_req c)\<lparr>m_cmds := (m_cmds (rc_req c))[i := (m_cmds (rc_req c) ! i)\<lparr>c_ret := res\<rparr>]\<rparr>"
    by (auto simp: Process_call_def split: prod.splits)
  have ds: "done_set d = done_set c" using call(2,3) by (auto simp: done_set_def call(1) nth_list_update)
  have fs: "failed_set d = failed_set c" using call(2,3) by (auto simp: failed_set_def call(1) r nth_list_update)
  have "card (done_set c) \<noteq> n" using done_set_less [of i c] call(2,3) inv by (simp add: req_inv_def)
  with inv ds fs show ?thesis by (auto simp: req_inv_def call(1) r)
next
  case (fail err)
  let ?r = "rc_req c"
  have ds: "done_set d = done_set c" using fail(2,3) by (auto simp: done_set_def fail(1) nth_list_update)
  have i: "i < length (m_cmds ?r)" using fail(2) inv by (simp add: req_inv_def)
  have fs: "failed_set d = (if c_ret (m_cmds ?r ! i) = -1 then insert i (failed_set c) else failed_set c)"
    using fail(2,3) i by (auto simp: failed_set_def fail(1) Process_fail_def nth_list_update)
  have "i \<notin> failed_set c" using fail(3) by (simp add: failed_set_def)
  moreover have "card (done_set c) \<noteq> n" using done_set_less [of i c] fail(2,3) inv by (simp add: req_inv_def)
  ultimately show ?thesis using inv ds fs by (auto simp: req_inv_def fail(1) Process_fail_def)
next
  case (complete cb r)
  let ?k = "card (done_set c)"
  have ds: "done_set d = insert i (done_set c)" using complete(2,3) by (auto simp: done_set_def complete(1) nth_list_update)
  have cd: "card (done_set d) = Suc ?k" using complete(3) by (simp add: ds) (simp add: done_set_def)
  have lt: "?k < n" using done_set_less [of i c] complete(2,3) inv by (simp add: req_inv_def)
  have r: "r = (rc_req c)\<lparr>m_completed_cnt := m_completed_cnt (rc_req c) + 1\<rparr>"
    using complete(4) by (simp add: Process_complete_def Let_def)
  have fs: "failed_set d = failed_set c" using complete(2,3) by (auto simp: failed_set_def complete(1) r nth_list_update)
  have "(ucast (m_completed_cnt (rc_req c)) :: u64) = of_nat ?k"
    using inv lt n by (simp add: req_inv_def word_unat_eq_iff unat_ucast_up unat_of_nat_small)
  moreover have "(of_nat ?k = (of_nat n - 1 :: u64)) \<longleftrightarrow> Suc ?k = n"
  proof -
    have "unat (of_nat ?k :: u64) = ?k" and "unat (of_nat (n - 1) :: u64) = n - 1"
      using lt n unat_of_nat_small [of ?k, where ?'a = 64] unat_of_nat_small [of "n - 1", where ?'a = 64]
      by (simp_all del: of_nat_diff)
    moreover have "(of_nat n - 1 :: u64) = of_nat (n - 1)" using lt by (simp add: of_nat_diff)
    ultimately show ?thesis using lt by (metis Suc_pred' diff_Suc_1 gr_implies_not0 neq0_conv)
  qed
  ultimately have "cb = (if Suc ?k = n then Some (m_cmds (rc_req c), m_cmd_fail_cnt (rc_req c), -1 - now) else None)"
    using complete(4) inv by (auto simp: Process_complete_def Let_def req_inv_def ElapsedTime_def)
  with inv ds cd fs lt show ?thesis by (auto simp: req_inv_def complete(1) r)
qed

lemma req_inv_step: "req_step c d \<Longrightarrow> req_inv now n c \<Longrightarrow> n < 2 ^ 32 \<Longrightarrow> req_inv now n d"
  unfolding req_step_def using req_at_inv by blast

lemma req_inv_start: "req_inv now (length cmds) (req_start cmds now)"
proof -
  have "done_set (req_start cmds now) = {}" "failed_set (req_start cmds now) = {}"
    by (auto simp: req_start_def done_set_def failed_set_def)
  then show ?thesis by (simp add: req_inv_def) (simp add: req_start_def Request_new_def)
qed

lemma req_inv_reach:
  "req_step\<^sup>*\<^sup>* c d \<Longrightarrow> req_inv now n c \<Longrightarrow> n < 2 ^ 32 \<Longrightarrow> req_inv now n d"
  by (induction rule: rtranclp_induct) (auto intro: req_inv_step)

lemma req_calls:
  assumes "req_step\<^sup>*\<^sup>* (req_start cmds now) c" and "length cmds < 2 ^ 32"
  shows "rc_calls c = (if (\<forall>p\<in>set (rc_progress c). p = Completed) \<and> cmds \<noteq> []
     then [(m_cmds (rc_req c),
            of_nat (card {i. i < length cmds \<and> c_ret (m_cmds (rc_req c) ! i) = -1}), -1 - now)]
     else [])"
proof -
  let ?n = "length cmds"
  have inv: "req_inv now ?n c" using req_inv_reach [OF assms(1) req_inv_start assms(2)] .
  have l: "length (rc_progress c) = ?n" using inv by (simp add: req_inv_def)
  have all: "(\<forall>p\<in>set (rc_progress c). p = Completed) \<longleftrightarrow> card (done_set c) = ?n"
  proof
    assume "\<forall>p\<in>set (rc_progress c). p = Completed"
    then have "done_set c = {..<?n}" using l by (auto simp: done_set_def)
    then show "card (done_set c) = ?n" by simp
  next
    assume card: "card (done_set c) = ?n"
    have "done_set c \<subseteq> {..<?n}" using l by (auto simp: done_set_def)
    then have "done_set c = {..<?n}" using card by (intro card_subset_eq) auto
    then have "rc_progress c ! i = Completed" if "i < ?n" for i using that by (auto simp: done_set_def)
    then show "\<forall>p\<in>set (rc_progress c). p = Completed" using l by (metis in_set_conv_nth)
  qed
  have "failed_set c = {i. i < ?n \<and> c_ret (m_cmds (rc_req c) ! i) = -1}"
    if "\<forall>p\<in>set (rc_progress c). p = Completed"
    using that l nth_mem [of _ "rc_progress c"] by (auto simp: failed_set_def)
  moreover have "rc_calls c = (if card (done_set c) = ?n \<and> 0 < ?n
       then [(m_cmds (rc_req c), of_nat (card (failed_set c)), -1 - now)] else [])"
    using inv unfolding req_inv_def by blast
  ultimately show ?thesis unfolding all [symmetric] by simp
qed

text \<open>Processing changes the results of the commands and nothing else of them.\<close>

definition command_static :: "Command \<Rightarrow> Command" where
  "command_static c = c\<lparr>c_ret := 0, c_error := 0\<rparr>"

lemma req_at_static:
  assumes "req_at i c d"
  shows "map command_static (m_cmds (rc_req d)) = map command_static (m_cmds (rc_req c))"
proof -
  have upd: "map command_static (cs[i := e]) = map command_static cs"
    if "i < length cs \<Longrightarrow> command_static e = command_static (cs ! i)" for cs e
    using that by (cases "i < length cs") (simp_all add: map_update list_update_same_conv list_update_beyond)
  from assms show ?thesis
  proof cases
    case (call sys err r)
    then show ?thesis by (auto simp: Process_call_def command_static_def split: prod.splits intro!: upd)
  next
    case (fail err)
    then show ?thesis by (auto simp: Process_fail_def command_static_def intro!: upd)
  next
    case (complete cb r)
    then show ?thesis by (auto simp: Process_complete_def Let_def)
  qed
qed

lemma req_static:
  "req_step\<^sup>*\<^sup>* (req_start cmds now) c \<Longrightarrow> map command_static (m_cmds (rc_req c)) = map command_static cmds"
  by (induction rule: rtranclp_induct) (auto simp: req_step_def req_at_static, simp add: req_start_def Request_new_def)

section \<open>The queues\<close>

text \<open>The commands of a request that go to queue \<open>j\<close> of \<open>n\<close>, and those for the common queue.\<close>

definition routed :: "nat \<Rightarrow> nat \<Rightarrow> Command \<Rightarrow> bool" where
  "routed n j c \<longleftrightarrow> c_cmd c < CMD_MIN_PIO \<and> unat (of_int (c_fd c) :: u64) mod n = j"

fun entries :: "(Command \<Rightarrow> bool) \<Rightarrow> nat \<Rightarrow> nat \<Rightarrow> Command list \<Rightarrow> RequestEx list" where
  "entries P req i [] = []"
| "entries P req i (c # cs) = (if P c then ReqEx req i # entries P req (Suc i) cs else entries P req (Suc i) cs)"

text \<open>
  The service while it runs: one queue and one joinable thread per index, no mark in any queue.
  While it is stopped no queue is left and no thread is joinable.
\<close>

definition aio_inv :: "Aio \<Rightarrow> bool" where
  "aio_inv a \<longleftrightarrow>
     (case s_state a of
        AIO_STARTED \<Rightarrow> (\<exists>qs. s_io_request_queues a = Some qs \<and> length qs = length (s_io_thread_group a) \<and>
          (\<forall>q\<in>set qs. EmptyReq \<notin> set q)) \<and> EmptyReq \<notin> set (s_pio_request_queue a) \<and>
          (\<forall>t\<in>set (s_io_thread_group a @ s_pio_thread_group a). \<exists>i. t = Joinable i)
      | AIO_STOPPED \<Rightarrow> s_io_request_queues a = None \<and> EmptyReq \<notin> set (s_pio_request_queue a) \<and>
          (\<forall>t\<in>set (s_io_thread_group a @ s_pio_thread_group a). t = NoThread)
      | _ \<Rightarrow> False)"

lemma Submit_loop_routes:
  assumes "s_io_request_queues a = Some qs" and "length qs = length (s_io_thread_group a)" and "0 < length qs"
  shows "\<exists>b. Submit_loop req i cmds a = Some b \<and> s_state b = s_state a \<and> s_reqid b = s_reqid a \<and>
     s_io_thread_group b = s_io_thread_group a \<and> s_pio_thread_group b = s_pio_thread_group a \<and>
     s_io_request_queues b = Some (map (\<lambda>j. qs ! j @ entries (routed (length qs) j) req i cmds) [0..<length qs]) \<and>
     s_pio_request_queue b = s_pio_request_queue a @ entries (\<lambda>c. \<not> c_cmd c < CMD_MIN_PIO) req i cmds"
  using assms
proof (induction cmds arbitrary: a qs i)
  case Nil
  then show ?case using map_nth [of qs] by simp
next
  case (Cons c cs)
  let ?n = "length qs" and ?j = "unat (of_int (c_fd c) :: u64) mod length qs"
  have j: "?j < ?n" using Cons.prems(3) by simp
  show ?case
  proof (cases "c_cmd c < CMD_MIN_PIO")
    case True
    let ?qs = "qs[?j := qs ! ?j @ [ReqEx req i]]"
    let ?a = "a\<lparr>s_io_request_queues := Some ?qs\<rparr>"
    have step: "Submit_push req i c a = Some ?a"
      using Cons.prems True j by (simp add: Submit_push_def ThreadGroup_Size_def Let_def)
    from Cons.IH [of ?a ?qs "Suc i"] Cons.prems obtain b where b: "Submit_loop req (Suc i) cs ?a = Some b"
      "s_state b = s_state a" "s_reqid b = s_reqid a" "s_io_thread_group b = s_io_thread_group a"
      "s_pio_thread_group b = s_pio_thread_group a"
      "s_io_request_queues b = Some (map (\<lambda>j. ?qs ! j @ entries (routed ?n j) req (Suc i) cs) [0..<?n])"
      "s_pio_request_queue b = s_pio_request_queue a @ entries (\<lambda>c. \<not> c_cmd c < CMD_MIN_PIO) req (Suc i) cs"
      by auto
    have "map (\<lambda>j. ?qs ! j @ entries (routed ?n j) req (Suc i) cs) [0..<?n] =
        map (\<lambda>j. qs ! j @ entries (routed ?n j) req i (c # cs)) [0..<?n]"
      using True j by (intro map_cong refl) (auto simp: routed_def nth_list_update)
    with b step True show ?thesis by simp
  next
    case False
    let ?a = "a\<lparr>s_pio_request_queue := s_pio_request_queue a @ [ReqEx req i]\<rparr>"
    have "Submit_push req i c a = Some ?a" using False by (simp add: Submit_push_def)
    with Cons.IH [of ?a qs "Suc i"] Cons.prems False show ?thesis by (auto simp: routed_def)
  qed
qed

lemma entries_no_mark: "EmptyReq \<notin> set (entries P req i cs)"
  by (induction cs arbitrary: i) auto

lemma ProcThreadFunc_drains: "EmptyReq \<notin> set q \<Longrightarrow> ProcThreadFunc (q @ EmptyReq # r) = Some (q, r)"
proof (induction q)
  case (Cons x q)
  then show ?case by (cases x) auto
qed simp

lemma PIOThreads_drains: "EmptyReq \<notin> set q \<Longrightarrow> PIOThreads n (q @ replicate n EmptyReq) = Some (if n = 0 then ([], q) else (q, []))"
proof (induction q)
  case Nil
  then show ?case by (induction n) (auto split: if_splits)
next
  case (Cons x q)
  then show ?case by (cases x; cases n) auto
qed

lemma those_map_Some: "(\<And>x. x \<in> set xs \<Longrightarrow> f x = Some (g x)) \<Longrightarrow> those (map f xs) = Some (map g xs)"
  by (induction xs) auto

lemma Aio_Stop_started:
  assumes "aio_inv a" and "s_state a = AIO_STARTED" and "s_io_request_queues a = Some qs"
    and "s_pio_thread_group a \<noteq> []"
  shows "\<exists>b. Aio_Stop a = Some (0, qs, s_pio_request_queue a, b) \<and> s_state b = AIO_STOPPED \<and> aio_inv b \<and>
    s_pio_request_queue b = [] \<and> s_io_request_queues b = None \<and> s_reqid b = s_reqid a"
proof -
  let ?n = "length (s_io_thread_group a)" and ?m = "length (s_pio_thread_group a)"
  from assms(1-3) have l: "length qs = ?n" and e: "\<forall>q\<in>set qs. EmptyReq \<notin> set q"
    "EmptyReq \<notin> set (s_pio_request_queue a)"
    and t: "\<forall>t\<in>set (s_io_thread_group a). \<exists>i. t = Joinable i" "\<forall>t\<in>set (s_pio_thread_group a). \<exists>i. t = Joinable i"
    by (auto simp: aio_inv_def)
  have m: "?m \<noteq> 0" using assms(4) by simp
  let ?qs = "map (\<lambda>i. if i < ?n then qs ! i @ [EmptyReq] else qs ! i) [0..<length qs]"
  have "ProcThreadFunc (?qs ! i) = Some (qs ! i, [])" if "i \<in> set [0..<?n]" for i
    using that l e ProcThreadFunc_drains [of "qs ! i" "[]"] by simp
  then have r: "those (map (\<lambda>i. ProcThreadFunc (?qs ! i)) [0..<?n]) = Some (map (\<lambda>i. (qs ! i, [])) [0..<?n])"
    by (rule those_map_Some)
  have q: "map fst (map (\<lambda>i. (qs ! i, [])) [0..<?n]) = qs" using l map_nth [of qs] by (simp add: comp_def)
  show ?thesis
    using assms(2,3) r q m PIOThreads_drains [OF e(2), of ?m] ThreadGroup_Join_all(1) [OF t(1)]
      ThreadGroup_Join_all(1) [OF t(2)]
    by (simp add: Aio_Stop_def ThreadGroup_Size_def Let_def aio_inv_def)
qed

section \<open>Properties\<close>

text \<open>
  C14: whatever the interleaving of the threads that work on a request, its callback is called at
  most once, and it has been called exactly when every one of its (at least one) commands is
  complete; it then gets the final results and the number of commands that failed. The elapsed
  time it gets is \<open>-1 - now\<close>: nothing ever sets the completion time.
\<close>

theorem aio_callback_once:
  assumes "req_step\<^sup>*\<^sup>* (req_start cmds now) c" and "length cmds < 2 ^ 32"
  shows "rc_calls c = (if (\<forall>p\<in>set (rc_progress c). p = Completed) \<and> cmds \<noteq> []
     then [(m_cmds (rc_req c),
            of_nat (card {i. i < length cmds \<and> c_ret (m_cmds (rc_req c) ! i) = -1}), -1 - now)]
     else [])"
  by (rule req_calls [OF assms])

theorem aio_callback_once_witness:
  "rc_calls (req_start [] 7) = [] \<and>
   (let c = \<lparr>c_cmd = 4, c_fd = 3, c_pos = 0, c_buf = 0, c_size = 0, c_ret = -1, c_error = 0\<rparr>
    in \<exists>d. req_step\<^sup>*\<^sup>* (req_start [c] 7) d \<and> rc_calls d = [([c\<lparr>c_error := EINVAL\<rparr>], 1, -8)])"
proof -
  let ?c = "\<lparr>c_cmd = 4, c_fd = 3, c_pos = 0, c_buf = 0, c_size = 0, c_ret = -1, c_error = 0\<rparr>"
  let ?r = "Request_new [?c] 7"
  let ?c1 = "(req_start [?c] 7)\<lparr>rc_req := ?r, rc_progress := [Called EINVAL]\<rparr>"
  let ?c2 = "?c1\<lparr>rc_req := Process_fail 0 EINVAL ?r, rc_progress := [Counted]\<rparr>"
  let ?c3 = "?c2\<lparr>rc_req := (Process_fail 0 EINVAL ?r)\<lparr>m_completed_cnt := 1\<rparr>, rc_progress := [Completed],
    rc_calls := [([?c\<lparr>c_error := EINVAL\<rparr>], 1, -8)]\<rparr>"
  have 1: "req_step (req_start [?c] 7) ?c1"
    using req_stepI [OF req_at.call [of 0 "req_start [?c] 7" "(0, 0)" EINVAL ?r]]
    by (simp add: req_start_def Process_call_def dispatch_def CMD_defs Request_new_def)
  have 2: "req_step ?c1 ?c2"
    using req_stepI [OF req_at.fail [of 0 ?c1 EINVAL]] by simp
  have 3: "req_step ?c2 ?c3"
    using req_stepI [OF req_at.complete [of 0 ?c2 "Some ([?c\<lparr>c_error := EINVAL\<rparr>], 1, -8)"
        "(Process_fail 0 EINVAL ?r)\<lparr>m_completed_cnt := 1\<rparr>"]]
    by (simp add: Process_complete_def Process_fail_def Request_new_def ElapsedTime_def req_start_def)
  from 1 have "req_step\<^sup>*\<^sup>* (req_start [?c] 7) ?c1" by simp
  from this 2 have "req_step\<^sup>*\<^sup>* (req_start [?c] 7) ?c2" by (rule rtranclp.rtrancl_into_rtrancl)
  from this 3 have run: "req_step\<^sup>*\<^sup>* (req_start [?c] 7) ?c3" by (rule rtranclp.rtrancl_into_rtrancl)
  have "rc_calls (req_start [] 7) = []" using aio_callback_once [of "[]" 7 "req_start [] 7"] by simp
  with run show ?thesis unfolding Let_def by (intro conjI exI [of _ ?c3]) simp_all
qed

abbreviation (input) demo_service :: Aio where
  "demo_service \<equiv> \<lparr>s_state = AIO_STARTED, s_reqid = 1, s_io_request_queues = Some [[], []],
     s_io_thread_group = [Joinable 0, Joinable 1], s_pio_request_queue = [], s_pio_thread_group = [Joinable 0]\<rparr>"

lemma demo_aio: "Aio_Start 2 1 1 Aio_new = Some (0, demo_service)" "aio_inv demo_service"
  by (simp_all add: Aio_Start_def Aio_new_def thread_num_def ThreadGroup_Start_def start_threads_eq upt_rec
      numeral_2_eq_2 aio_inv_def)

text \<open>
  C27: \<open>Submit\<close> puts every command of a request into exactly one queue, behind what is there, in the
  order of the request; commands without an offset for the same descriptor always meet in the
  same queue, so they are processed in order. A service that is not running accepts nothing.
\<close>

theorem aio_Submit_routes:
  assumes "aio_inv a" and "s_state a = AIO_STARTED" and "s_io_request_queues a = Some qs" and "qs \<noteq> []"
  shows "\<exists>b. Submit req cmds a = Some (s_reqid a, b) \<and> aio_inv b \<and>
     s_io_request_queues b = Some (map (\<lambda>j. qs ! j @ entries (routed (length qs) j) req 0 cmds) [0..<length qs]) \<and>
     s_pio_request_queue b = s_pio_request_queue a @ entries (\<lambda>c. \<not> c_cmd c < CMD_MIN_PIO) req 0 cmds \<and>
     (\<forall>c\<in>set cmds. \<forall>d\<in>set cmds. c_fd c = c_fd d \<longrightarrow> c_cmd c < CMD_MIN_PIO \<longrightarrow> c_cmd d < CMD_MIN_PIO \<longrightarrow>
        (\<exists>!j. routed (length qs) j c) \<and> (\<forall>j. routed (length qs) j c = routed (length qs) j d)) \<and>
     Submit req cmds (a\<lparr>s_state := AIO_STOPPED\<rparr>) = Some (0, a\<lparr>s_state := AIO_STOPPED\<rparr>)"
proof -
  have l: "length qs = length (s_io_thread_group a)" "0 < length qs"
    using assms by (auto simp: aio_inv_def)
  from Submit_loop_routes [OF assms(3) l, of req 0 cmds] obtain b where
    b: "Submit_loop req 0 cmds a = Some b" "s_state b = s_state a" "s_reqid b = s_reqid a"
    "s_io_thread_group b = s_io_thread_group a" "s_pio_thread_group b = s_pio_thread_group a"
    "s_io_request_queues b = Some (map (\<lambda>j. qs ! j @ entries (routed (length qs) j) req 0 cmds) [0..<length qs])"
    "s_pio_request_queue b = s_pio_request_queue a @ entries (\<lambda>c. \<not> c_cmd c < CMD_MIN_PIO) req 0 cmds" by blast
  let ?b = "b\<lparr>s_reqid := s_reqid b + 1\<rparr>"
  have "aio_inv ?b" using assms b l(1) entries_no_mark by (auto simp: aio_inv_def)
  moreover have "Submit req cmds a = Some (s_reqid a, ?b)" using assms(2) b(1,3) by (simp add: Submit_def)
  ultimately show ?thesis using b by (auto simp: routed_def Submit_def)
qed

definition demo_command :: Command where
  "demo_command = \<lparr>c_cmd = 0, c_fd = 0, c_pos = 0, c_buf = 0, c_size = 0, c_ret = 0, c_error = 0\<rparr>"

theorem aio_Submit_routes_witness:
  "\<exists>a. Aio_Start 2 1 1 Aio_new = Some (0, a) \<and>
     (\<exists>b. Submit 9 [Command_Read 3 0 8 demo_command, Command_PRead 3 0 0 8 demo_command] a = Some (1, b) \<and>
        s_io_request_queues b = Some [[], [ReqEx 9 0]] \<and> s_pio_request_queue b = [ReqEx 9 1])"
proof -
  let ?cs = "[Command_Read 3 0 8 demo_command, Command_PRead 3 0 0 8 demo_command]"
  have r: "routed 2 0 (?cs ! 0) = False" "routed 2 1 (?cs ! 0) = True" "routed 2 j (?cs ! 1) = False" for j
    by (simp_all add: routed_def Command_Read_def Command_PRead_def Command_Set_def Command_Set_pos_def
        CMD_READ_def CMD_PREAD_def CMD_MIN_PIO_def)
  have c: "c_cmd (?cs ! 0) < CMD_MIN_PIO" "\<not> c_cmd (?cs ! 1) < CMD_MIN_PIO"
    by (simp_all add: Command_Read_def Command_PRead_def Command_Set_def Command_Set_pos_def
        CMD_READ_def CMD_PREAD_def CMD_MIN_PIO_def)
  from aio_Submit_routes [OF demo_aio(2), of "[[], []]" 9 ?cs] obtain b where
    "Submit 9 ?cs demo_service = Some (1, b)"
    "s_io_request_queues b = Some (map (\<lambda>j. [[], []] ! j @ entries (routed 2 j) 9 0 ?cs) [0..<2])"
    "s_pio_request_queue b = entries (\<lambda>c. \<not> c_cmd c < CMD_MIN_PIO) 9 0 ?cs" by (auto simp: numeral_2_eq_2)
  with r c demo_aio(1) show ?thesis by (intro exI [of _ demo_service]) (simp add: upt_rec)
qed

text \<open>
  C26: \<open>Stop\<close> of a running service returns: every thread meets its mark, but only after all the
  commands queued before it, so nothing that was submitted is lost; afterwards the service is
  stopped, and can be started again. A push that a \<open>Submit\<close> had begun before and finishes after
  it uses a queue that no longer exists.
\<close>

theorem aio_Stop_drains:
  assumes "aio_inv a" and "s_state a = AIO_STARTED" and "s_io_request_queues a = Some qs"
    and "s_pio_thread_group a \<noteq> []"
  shows "\<exists>b. Aio_Stop a = Some (0, qs, s_pio_request_queue a, b) \<and> s_state b = AIO_STOPPED \<and> aio_inv b \<and>
     (\<exists>c. Aio_Start 1 1 cpus b = Some (0, c)) \<and>
     (\<forall>req i c. c_cmd c < CMD_MIN_PIO \<longrightarrow> Submit_push req i c b = None)"
proof -
  from Aio_Stop_started [OF assms] obtain b where b: "Aio_Stop a = Some (0, qs, s_pio_request_queue a, b)"
    "s_state b = AIO_STOPPED" "aio_inv b" "s_io_request_queues b = None" by blast
  then have "list_all (\<lambda>t. t = NoThread) (s_io_thread_group b)" "list_all (\<lambda>t. t = NoThread) (s_pio_thread_group b)"
    by (auto simp: aio_inv_def list_all_iff)
  then have "\<exists>c. Aio_Start 1 1 cpus b = Some (0, c)"
    using b(2) by (simp add: Aio_Start_def thread_num_def ThreadGroup_Start_def)
  with b show ?thesis by (simp add: Submit_push_def)
qed

theorem aio_Stop_drains_witness:
  "\<exists>a b. Aio_Start 2 1 1 Aio_new = Some (0, a) \<and> Aio_Stop a = Some (0, [[], []], [], b)"
proof -
  have "s_state demo_service = AIO_STARTED" "s_io_request_queues demo_service = Some [[], []]"
    "s_pio_thread_group demo_service \<noteq> []" by simp_all
  from aio_Stop_drains [OF demo_aio(2) this] obtain b where
    "Aio_Stop demo_service = Some (0, [[], []], s_pio_request_queue demo_service, b)" by blast
  with demo_aio(1) show ?thesis by auto
qed

end
