(* ===== verification/Aio_Service.thy ===== *)
theory Aio_Service
  imports Aio Queue
begin

text \<open>
  The asynchronous I/O service at work (\<^verbatim>\<open>src/aio.cpp\<close>): any number of threads submit requests, the I/O threads
  take commands from their queues and process them, and one thread calls \<open>Stop\<close>, all interleaved. The
  queues are the blocking queues of theory \<open>Queue\<close>, the requests those of theory \<open>Aio\<close>; a step is one
  access to something shared: a push, a pop, the system call of a command, an operation on an
  atomic counter. \<open>Stop\<close> may begin at any moment, also while a \<open>Submit\<close> is under way; a \<open>Submit\<close> that
  comes later is refused; one that is under way can then come to use a queue that \<open>Stop\<close> has deleted, and
  this undefined behaviour is a step of its own (\<open>fault\<close>). What holds for all runs (\<open>sv_step\<close>), also with
  later calls of \<open>Start\<close> (\<open>sv_life\<close>), is told apart from what the service promises to users that do not
  let \<open>Stop\<close> and \<open>Submit\<close> overlap (\<open>calm_step\<close>). There is at least one thread of each kind.
\<close>

section \<open>Definitions\<close>

definition QUEUE_DEFAULT_CAPACITY :: u64 where "QUEUE_DEFAULT_CAPACITY = -1"

text \<open>A thread that submits: the requests to come, and the request that it is pushing, at command \<open>i\<close>.\<close>

datatype submitter_pc = SubIdle | Submitting nat "Command list" nat

record submitter =
  sb_todo :: "Command list list"
  sb_pc :: submitter_pc

datatype stopper_pc = StopIdle | IoMark nat | PioMark nat | StopDone

datatype worker_pc = Fetching | Working nat nat | Quit

text \<open>
  The threads have numbers: first those that submit, then the one that stops the service, then the I/O threads,
  of which the first \<open>n\<close> have a queue each and the others share the queue \<open>n\<close>. \<open>sv_accepted\<close> is the
  history of accepted requests with the time of their creation; \<open>sv_fault\<close> says that a thread has used a queue
  that had been deleted, after which the program does what it likes.
\<close>

record service =
  sv_state :: AioState
  sv_reqid :: u64
  sv_queues :: "RequestEx system list"
  sv_submitters :: "submitter list"
  sv_stopper :: stopper_pc
  sv_workers :: "worker_pc list"
  sv_reqs :: "req_conf list"
  sv_accepted :: "(Command list \<times> int) list"
  sv_fault :: bool

definition io_num :: "service \<Rightarrow> nat" where
  "io_num s = length (sv_queues s) - 1"

definition thread_count :: "service \<Rightarrow> nat" where
  "thread_count s = length (sv_submitters s) + 1 + length (sv_workers s)"

text \<open>The queue of a command, and the queue of an I/O thread.\<close>

definition queue_idx :: "nat \<Rightarrow> Command \<Rightarrow> nat" where
  "queue_idx n c = (if c_cmd c < CMD_MIN_PIO then unat (of_int (c_fd c) :: u64) mod n else n)"

definition worker_queue :: "nat \<Rightarrow> nat \<Rightarrow> nat" where
  "worker_queue n w = (if w < n then w else n)"

text \<open>The queue and the call of it that a thread has come to.\<close>

definition submitter_wants :: "nat \<Rightarrow> submitter_pc \<Rightarrow> (nat \<times> RequestEx call) option" where
  "submitter_wants n pc = (case pc of
       Submitting r cmds i \<Rightarrow> if i < length cmds then Some (queue_idx n (cmds ! i), CPush (ReqEx r i)) else None
     | SubIdle \<Rightarrow> None)"

definition stopper_wants :: "nat \<Rightarrow> nat \<Rightarrow> stopper_pc \<Rightarrow> (nat \<times> RequestEx call) option" where
  "stopper_wants n workers pc = (case pc of
       IoMark j \<Rightarrow> if j < n then Some (j, CPush EmptyReq) else None
     | PioMark k \<Rightarrow> if k < workers - n then Some (n, CPush EmptyReq) else None
     | _ \<Rightarrow> None)"

definition sv_wants :: "service \<Rightarrow> nat \<Rightarrow> (nat \<times> RequestEx call) option" where
  "sv_wants s i =
     (let m = length (sv_submitters s); n = io_num s; w = i - Suc m
      in if i < m then submitter_wants n (sb_pc (sv_submitters s ! i))
         else if i = m then stopper_wants n (length (sv_workers s)) (sv_stopper s)
         else if w < length (sv_workers s) \<and> sv_workers s ! w = Fetching then Some (worker_queue n w, CPop)
         else None)"

definition sv_return :: "nat \<Rightarrow> nat \<Rightarrow> service \<Rightarrow> service" where
  "sv_return i j s =
     (let m = length (sv_submitters s); w = i - Suc m
      in if i < m then
           s\<lparr>sv_submitters := (sv_submitters s)[i := (sv_submitters s ! i)\<lparr>sb_pc :=
               (case sb_pc (sv_submitters s ! i) of Submitting r cmds k \<Rightarrow> Submitting r cmds (Suc k) | pc \<Rightarrow> pc)\<rparr>]\<rparr>
         else if i = m then
           s\<lparr>sv_stopper := (case sv_stopper s of IoMark k \<Rightarrow> IoMark (Suc k) | PioMark k \<Rightarrow> PioMark (Suc k) | pc \<Rightarrow> pc)\<rparr>
         else
           s\<lparr>sv_workers := (sv_workers s)[w := (case last (popped (sv_queues s ! j)) of
               ReqEx r k \<Rightarrow> Working r k | EmptyReq \<Rightarrow> Quit)]\<rparr>)"

text \<open>
  \<open>Stop\<close> deletes the queues of the first kind once their threads have ended. A thread that goes on to use one of
  them takes the step \<open>fault\<close>.
\<close>

definition sv_alive :: "service \<Rightarrow> nat \<Rightarrow> bool" where
  "sv_alive s j \<longleftrightarrow> io_num s \<le> j \<or>
     (case sv_stopper s of StopIdle \<Rightarrow> True | IoMark i \<Rightarrow> True | PioMark k \<Rightarrow> False | StopDone \<Rightarrow> False)"

inductive sv_step :: "bool \<Rightarrow> service \<Rightarrow> service \<Rightarrow> bool" where
  submit: "i < length (sv_submitters s) \<Longrightarrow> sv_submitters s ! i = \<lparr>sb_todo = cmds # rest, sb_pc = SubIdle\<rparr> \<Longrightarrow>
    sv_state s = AIO_STARTED \<Longrightarrow> sv_step False s
      (s\<lparr>sv_submitters := (sv_submitters s)[i := \<lparr>sb_todo = rest, sb_pc = Submitting (length (sv_reqs s)) cmds 0\<rparr>],
         sv_reqs := sv_reqs s @ [req_start cmds now], sv_accepted := sv_accepted s @ [(cmds, now)]\<rparr>)"
| refuse: "i < length (sv_submitters s) \<Longrightarrow> sv_submitters s ! i = \<lparr>sb_todo = cmds # rest, sb_pc = SubIdle\<rparr> \<Longrightarrow>
    sv_state s \<noteq> AIO_STARTED \<Longrightarrow> sv_step False s
      (s\<lparr>sv_submitters := (sv_submitters s)[i := \<lparr>sb_todo = rest, sb_pc = SubIdle\<rparr>]\<rparr>)"
| submitted: "i < length (sv_submitters s) \<Longrightarrow> sv_submitters s ! i = \<lparr>sb_todo = rest, sb_pc = Submitting r cmds (length cmds)\<rparr> \<Longrightarrow>
    sv_step False s
      (s\<lparr>sv_submitters := (sv_submitters s)[i := \<lparr>sb_todo = rest, sb_pc = SubIdle\<rparr>], sv_reqid := sv_reqid s + 1\<rparr>)"
| stop: "sv_stopper s = StopIdle \<Longrightarrow> sv_state s = AIO_STARTED \<Longrightarrow>
    sv_step False s (s\<lparr>sv_state := AIO_STOPPING, sv_stopper := IoMark 0\<rparr>)"
| join_io: "sv_stopper s = IoMark (io_num s) \<Longrightarrow> \<forall>w<io_num s. sv_workers s ! w = Quit \<Longrightarrow>
    sv_step False s (s\<lparr>sv_stopper := PioMark 0\<rparr>)"
| join_pio: "sv_stopper s = PioMark (length (sv_workers s) - io_num s) \<Longrightarrow>
    \<forall>w. io_num s \<le> w \<longrightarrow> w < length (sv_workers s) \<longrightarrow> sv_workers s ! w = Quit \<Longrightarrow>
    sv_step False s (s\<lparr>sv_stopper := StopDone, sv_state := AIO_STOPPED\<rparr>)"
| process: "w < length (sv_workers s) \<Longrightarrow> sv_workers s ! w = Working r i \<Longrightarrow> r < length (sv_reqs s) \<Longrightarrow>
    req_at i (sv_reqs s ! r) c \<Longrightarrow> sv_step False s
      (s\<lparr>sv_reqs := (sv_reqs s)[r := c],
         sv_workers := (sv_workers s)[w := (if rc_progress c ! i = Completed then Fetching else Working r i)]\<rparr>)"
| call: "sv_wants s i = Some (j, c) \<Longrightarrow> j < length (sv_queues s) \<Longrightarrow> i < length (threads (sv_queues s ! j)) \<Longrightarrow>
    threads (sv_queues s ! j) ! i = Idle \<Longrightarrow> sv_alive s j \<Longrightarrow> sv_step False s
      (s\<lparr>sv_queues := (sv_queues s)[j := (sv_queues s ! j)\<lparr>threads := (threads (sv_queues s ! j))[i := Ready c]\<rparr>]\<rparr>)"
| act: "j < length (sv_queues s) \<Longrightarrow> bq_act i (sv_queues s ! j) q \<Longrightarrow> sv_alive s j \<Longrightarrow> sv_step False s
    (if threads q ! i = Idle then sv_return i j (s\<lparr>sv_queues := (sv_queues s)[j := q]\<rparr>)
     else s\<lparr>sv_queues := (sv_queues s)[j := q]\<rparr>)"
| spurious: "j < length (sv_queues s) \<Longrightarrow> i < length (threads (sv_queues s ! j)) \<Longrightarrow>
    threads (sv_queues s ! j) ! i = Waiting c \<Longrightarrow> sv_alive s j \<Longrightarrow> sv_step True s
      (s\<lparr>sv_queues := (sv_queues s)[j := (sv_queues s ! j)\<lparr>threads := (threads (sv_queues s ! j))[i := Ready c]\<rparr>]\<rparr>)"
| fault: "sv_wants s i = Some (j, c) \<Longrightarrow> \<not> sv_alive s j \<Longrightarrow> sv_step False s (s\<lparr>sv_fault := True\<rparr>)"

text \<open>The steps of users that do not call \<open>Stop\<close> while a \<open>Submit\<close> is under way.\<close>

definition calm_step :: "bool \<Rightarrow> service \<Rightarrow> service \<Rightarrow> bool" where
  "calm_step b s t \<longleftrightarrow> sv_step b s t \<and>
     (sv_stopper s = StopIdle \<and> sv_stopper t \<noteq> StopIdle \<longrightarrow> (\<forall>u\<in>set (sv_submitters s). sb_pc u = SubIdle))"

lemma calm_step_sv: "(any_label calm_step)\<^sup>*\<^sup>* s t \<Longrightarrow> (any_label sv_step)\<^sup>*\<^sup>* s t"
  by (rule rtranclp_mono [THEN predicate2D]) (auto simp: any_label_def calm_step_def)

text \<open>The service after \<open>Start\<close> with \<open>n\<close> threads of the first kind and \<open>k\<close> of the second.\<close>

definition sv_start :: "nat \<Rightarrow> nat \<Rightarrow> Command list list list \<Rightarrow> service" where
  "sv_start n k progs = \<lparr>sv_state = AIO_STARTED, sv_reqid = 1,
     sv_queues = replicate (Suc n) (system_new QUEUE_DEFAULT_CAPACITY (length progs + 1 + (n + k))),
     sv_submitters = map (\<lambda>p. \<lparr>sb_todo = p, sb_pc = SubIdle\<rparr>) progs,
     sv_stopper = StopIdle, sv_workers = replicate (n + k) Fetching, sv_reqs = [], sv_accepted = [], sv_fault = False\<rparr>"

text \<open>
  \<open>Start\<close> again, after a \<open>Stop\<close>: new queues for the I/O threads, while the shared queue is a static object that
  keeps its entries. To make new queues while a thread is inside a deleted one is a fault already.
\<close>

definition sv_restart :: "nat \<Rightarrow> nat \<Rightarrow> service \<Rightarrow> service" where
  "sv_restart n k s =
     (let m = length (sv_submitters s); shared = sv_queues s ! io_num s
      in s\<lparr>sv_state := AIO_STARTED,
           sv_queues := replicate n (system_new QUEUE_DEFAULT_CAPACITY (m + 1 + (n + k))) @
             [shared\<lparr>threads := take (Suc m) (threads shared) @ replicate (n + k) Idle\<rparr>],
           sv_stopper := StopIdle, sv_workers := replicate (n + k) Fetching,
           sv_fault := (sv_fault s \<or> (\<exists>j<io_num s. \<exists>i<m. threads (sv_queues s ! j) ! i \<noteq> Idle))\<rparr>)"

inductive sv_life :: "service \<Rightarrow> service \<Rightarrow> bool" where
  step: "sv_step b s t \<Longrightarrow> sv_life s t"
| restart: "sv_stopper s = StopDone \<Longrightarrow> sv_state s = AIO_STOPPED \<Longrightarrow> 0 < n \<Longrightarrow> 0 < k \<Longrightarrow> sv_life s (sv_restart n k s)"

section \<open>The queues with their threads\<close>

text \<open>The calls of one queue.\<close>

definition wants_at :: "service \<Rightarrow> nat \<Rightarrow> nat \<Rightarrow> RequestEx call option" where
  "wants_at s j i = (case sv_wants s i of Some (j', c) \<Rightarrow> if j' = j then Some c else None | None \<Rightarrow> None)"

definition sv_queues_ok :: "service \<Rightarrow> bool" where
  "sv_queues_ok s \<longleftrightarrow> io_num s < length (sv_queues s) \<and> io_num s \<le> length (sv_workers s) \<and>
     (\<forall>j<length (sv_queues s). queue_at (wants_at s j) QUEUE_DEFAULT_CAPACITY (sv_queues s ! j) \<and>
        length (threads (sv_queues s ! j)) = thread_count s)"

lemma wants_at_Some: "wants_at s j i = Some c \<longleftrightarrow> sv_wants s i = Some (j, c)"
  by (auto simp: wants_at_def split: option.splits)

lemma sv_wants_cases:
  assumes "sv_wants s i = Some (j, c)"
  obtains r cmds k where "i < length (sv_submitters s)" "sb_pc (sv_submitters s ! i) = Submitting r cmds k" "k < length cmds"
      "j = queue_idx (io_num s) (cmds ! k)" "c = CPush (ReqEx r k)"
  | "i = length (sv_submitters s)" "sv_stopper s = IoMark j" "j < io_num s" "c = CPush EmptyReq"
  | k where "i = length (sv_submitters s)" "sv_stopper s = PioMark k" "k < length (sv_workers s) - io_num s" "j = io_num s"
      "c = CPush EmptyReq"
  | w where "i = Suc (length (sv_submitters s) + w)" "w < length (sv_workers s)" "sv_workers s ! w = Fetching"
      "j = worker_queue (io_num s) w" "c = CPop"
proof -
  let ?m = "length (sv_submitters s)"
  consider "i < ?m" | "i = ?m" | w where "i = Suc (?m + w)"
    by (metis less_iff_Suc_add linorder_neqE_nat)
  then show ?thesis
  proof cases
    case 1
    then show ?thesis using assms that(1)
      by (auto simp: sv_wants_def submitter_wants_def split: if_splits submitter_pc.splits)
  next
    case 2
    then show ?thesis using assms that(2,3)
      by (auto simp: sv_wants_def stopper_wants_def Let_def split: if_splits stopper_pc.splits)
  next
    case (3 w)
    then show ?thesis using assms that(4) by (auto simp: sv_wants_def split: if_splits)
  qed
qed

lemma sv_wants_plain: "plain_calls (wants_at s j)"
proof -
  have "c = CPop \<or> (\<exists>v. c = CPush v)" if "sv_wants s i = Some (j, c)" for i c
    using that by (cases rule: sv_wants_cases) auto
  then show ?thesis by (auto simp: plain_calls_def wants_at_def split: option.splits)
qed

lemma sv_wants_cong:
  assumes "length (sv_submitters t) = length (sv_submitters s)" and "length (sv_queues t) = length (sv_queues s)"
    and "length (sv_workers t) = length (sv_workers s)"
    and "i < length (sv_submitters s) \<Longrightarrow> sb_pc (sv_submitters t ! i) = sb_pc (sv_submitters s ! i)"
    and "i = length (sv_submitters s) \<Longrightarrow> sv_stopper t = sv_stopper s"
    and "\<And>w. i = Suc (length (sv_submitters s) + w) \<Longrightarrow> w < length (sv_workers s) \<Longrightarrow>
       sv_workers t ! w = Fetching \<longleftrightarrow> sv_workers s ! w = Fetching"
  shows "sv_wants t i = sv_wants s i"
proof -
  let ?m = "length (sv_submitters s)"
  have n: "io_num t = io_num s" using assms(2) by (simp add: io_num_def)
  consider "i < ?m" | "i = ?m" | w where "i = Suc (?m + w)"
    by (metis less_iff_Suc_add linorder_neqE_nat)
  then show ?thesis
  proof cases
    case (3 w)
    with assms(1,3) assms(6) [OF 3] n show ?thesis by (auto simp: sv_wants_def)
  qed (use assms n in \<open>simp_all add: sv_wants_def Let_def\<close>)
qed

lemma sv_queues_ok_at:
  "sv_queues_ok s \<Longrightarrow> j < length (sv_queues s) \<Longrightarrow> queue_at (wants_at s j) QUEUE_DEFAULT_CAPACITY (sv_queues s ! j)"
  "sv_queues_ok s \<Longrightarrow> j < length (sv_queues s) \<Longrightarrow> length (threads (sv_queues s ! j)) = thread_count s"
  by (simp_all add: sv_queues_ok_def)

text \<open>The things an act can be.\<close>

lemma sv_act_cases [consumes 3, case_names entry io_mark pio_mark pop wait]:
  assumes ok: "sv_queues_ok s" and j: "j < length (sv_queues s)" and a: "bq_act i (sv_queues s ! j) q"
  obtains r cmds k where "i < length (sv_submitters s)" "sb_pc (sv_submitters s ! i) = Submitting r cmds k" "k < length cmds"
      "j = queue_idx (io_num s) (cmds ! k)" "threads q ! i = Idle"
      "m_queue (bq q) = m_queue (bq (sv_queues s ! j)) @ [ReqEx r k]"
      "sv_return i j (s\<lparr>sv_queues := (sv_queues s)[j := q]\<rparr>) = s\<lparr>sv_queues := (sv_queues s)[j := q],
         sv_submitters := (sv_submitters s)[i := (sv_submitters s ! i)\<lparr>sb_pc := Submitting r cmds (Suc k)\<rparr>]\<rparr>"
  | "i = length (sv_submitters s)" "sv_stopper s = IoMark j" "j < io_num s" "threads q ! i = Idle"
      "m_queue (bq q) = m_queue (bq (sv_queues s ! j)) @ [EmptyReq]"
      "sv_return i j (s\<lparr>sv_queues := (sv_queues s)[j := q]\<rparr>) = s\<lparr>sv_queues := (sv_queues s)[j := q], sv_stopper := IoMark (Suc j)\<rparr>"
  | k where "i = length (sv_submitters s)" "sv_stopper s = PioMark k" "k < length (sv_workers s) - io_num s" "j = io_num s"
      "threads q ! i = Idle" "m_queue (bq q) = m_queue (bq (sv_queues s ! j)) @ [EmptyReq]"
      "sv_return i j (s\<lparr>sv_queues := (sv_queues s)[j := q]\<rparr>) = s\<lparr>sv_queues := (sv_queues s)[j := q], sv_stopper := PioMark (Suc k)\<rparr>"
  | w v where "i = Suc (length (sv_submitters s) + w)" "w < length (sv_workers s)" "sv_workers s ! w = Fetching"
      "j = worker_queue (io_num s) w" "threads q ! i = Idle" "m_queue (bq (sv_queues s ! j)) = v # m_queue (bq q)"
      "sv_return i j (s\<lparr>sv_queues := (sv_queues s)[j := q]\<rparr>) = s\<lparr>sv_queues := (sv_queues s)[j := q],
         sv_workers := (sv_workers s)[w := (case v of ReqEx r k \<Rightarrow> Working r k | EmptyReq \<Rightarrow> Quit)]\<rparr>"
  | "threads q ! i \<noteq> Idle" "m_queue (bq q) = m_queue (bq (sv_queues s ! j))"
proof -
  from sv_queues_ok_at(1) [OF ok j] a sv_wants_plain show thesis
  proof (cases rule: queue_at_act_cases)
    case (push v)
    then have "sv_wants s i = Some (j, CPush v)" by (simp add: wants_at_Some)
    then show ?thesis
    proof (cases rule: sv_wants_cases)
      case (1 r cmds k)
      with push show ?thesis by (intro that(1) [of r cmds k]) (simp_all add: sv_return_def)
    next
      case 2
      with push show ?thesis by (intro that(2)) (simp_all add: sv_return_def)
    next
      case (3 k)
      with push show ?thesis by (intro that(3) [of k]) (simp_all add: sv_return_def)
    qed simp_all
  next
    case (pop v)
    then have "sv_wants s i = Some (j, CPop)" by (simp add: wants_at_Some)
    then show ?thesis
    proof (cases rule: sv_wants_cases)
      case (4 w)
      with pop j show ?thesis by (intro that(4) [of w v]) (simp_all add: sv_return_def)
    qed simp_all
  next
    case wait
    then show ?thesis by (intro that(5)) simp_all
  qed
qed

lemma sv_act_wants:
  assumes ok: "sv_queues_ok s" and j: "j < length (sv_queues s)" and a: "bq_act i (sv_queues s ! j) q"
  shows "sv_wants s i \<noteq> None" and "\<And>c j'. sv_wants s i = Some (j', c) \<Longrightarrow> j' = j"
proof -
  have "wants_at s j i \<noteq> None"
    using sv_queues_ok_at(1) [OF ok j] bq_act_busy [OF a] bq_act_frame(1) [OF a]
    by (auto simp: queue_at_def served_def)
  then obtain c where "sv_wants s i = Some (j, c)" using wants_at_Some by blast
  then show "sv_wants s i \<noteq> None" and "\<And>c j'. sv_wants s i = Some (j', c) \<Longrightarrow> j' = j" by simp_all
qed

lemma sv_queues_other:
  assumes ok: "sv_queues_ok s" and "sv_queues t = sv_queues s" and "length (sv_workers t) = length (sv_workers s)"
    and "length (sv_submitters t) = length (sv_submitters s)"
    and w: "\<And>i. sv_wants s i \<noteq> None \<Longrightarrow> sv_wants t i = sv_wants s i"
  shows "sv_queues_ok t"
proof -
  have "queue_at (wants_at t j) QUEUE_DEFAULT_CAPACITY (sv_queues s ! j)" if "j < length (sv_queues s)" for j
  proof (rule queue_at_other [OF sv_queues_ok_at(1) [OF ok that]])
    fix i
    assume "i < length (threads (sv_queues s ! j))" and "threads (sv_queues s ! j) ! i \<noteq> Idle"
    then have "wants_at s j i \<noteq> None"
      using sv_queues_ok_at(1) [OF ok that] by (auto simp: queue_at_def served_def)
    then obtain c where "wants_at s j i = Some c" by blast
    then have "sv_wants s i \<noteq> None" by (simp add: wants_at_Some)
    with w show "wants_at t j i = wants_at s j i" by (simp add: wants_at_def)
  qed
  with ok assms(2-4) show ?thesis by (simp add: sv_queues_ok_def io_num_def thread_count_def)
qed

lemma sv_queues_one:
  assumes ok: "sv_queues_ok s" and j: "j < length (sv_queues s)"
    and q: "queue_at (wants_at t j) QUEUE_DEFAULT_CAPACITY q" "length (threads q) = thread_count s"
    and t: "sv_queues t = (sv_queues s)[j := q]" "length (sv_workers t) = length (sv_workers s)"
      "length (sv_submitters t) = length (sv_submitters s)"
    and w: "\<And>i j'. j' \<noteq> j \<Longrightarrow> wants_at s j' i \<noteq> None \<Longrightarrow> wants_at t j' i = wants_at s j' i"
  shows "sv_queues_ok t"
proof -
  have "queue_at (wants_at t j') QUEUE_DEFAULT_CAPACITY (sv_queues s ! j')" if j': "j' < length (sv_queues s)" "j' \<noteq> j" for j'
  proof (rule queue_at_other [OF sv_queues_ok_at(1) [OF ok j'(1)]])
    fix i
    assume "i < length (threads (sv_queues s ! j'))" and "threads (sv_queues s ! j') ! i \<noteq> Idle"
    then have "wants_at s j' i \<noteq> None"
      using sv_queues_ok_at(1) [OF ok j'(1)] by (auto simp: queue_at_def served_def)
    with w j'(2) show "wants_at t j' i = wants_at s j' i" by simp
  qed
  with ok q t j show ?thesis by (auto simp: sv_queues_ok_def io_num_def thread_count_def nth_list_update)
qed

lemma sv_queues_step:
  assumes st: "sv_step b s t" and ok: "sv_queues_ok s"
  shows "sv_queues_ok t"
  using st
proof cases
  case (submit i cmds rest now)
  show ?thesis
  proof (rule sv_queues_other [OF ok])
    fix i'
    assume "sv_wants s i' \<noteq> None"
    then have "i' \<noteq> i" using submit(3,4) by (auto simp: sv_wants_def submitter_wants_def)
    with submit show "sv_wants t i' = sv_wants s i'" by (intro sv_wants_cong) simp_all
  qed (use submit in simp_all)
next
  case (refuse i cmds rest)
  show ?thesis
  proof (rule sv_queues_other [OF ok])
    fix i'
    assume "sv_wants s i' \<noteq> None"
    then have "i' \<noteq> i" using refuse(3,4) by (auto simp: sv_wants_def submitter_wants_def)
    with refuse show "sv_wants t i' = sv_wants s i'" by (intro sv_wants_cong) simp_all
  qed (use refuse in simp_all)
next
  case (submitted i rest r cmds)
  show ?thesis
  proof (rule sv_queues_other [OF ok])
    fix i'
    assume "sv_wants s i' \<noteq> None"
    then have "i' \<noteq> i" using submitted(3,4) by (auto simp: sv_wants_def submitter_wants_def)
    with submitted show "sv_wants t i' = sv_wants s i'" by (intro sv_wants_cong) simp_all
  qed (use submitted in simp_all)
next
  case stop
  show ?thesis
  proof (rule sv_queues_other [OF ok])
    fix i'
    assume "sv_wants s i' \<noteq> None"
    then have "i' \<noteq> length (sv_submitters s)" using stop(3) by (auto simp: sv_wants_def stopper_wants_def)
    with stop show "sv_wants t i' = sv_wants s i'" by (intro sv_wants_cong) simp_all
  qed (use stop in simp_all)
next
  case join_io
  show ?thesis
  proof (rule sv_queues_other [OF ok])
    fix i'
    assume "sv_wants s i' \<noteq> None"
    then have "i' \<noteq> length (sv_submitters s)" using join_io(3) by (auto simp: sv_wants_def stopper_wants_def)
    with join_io show "sv_wants t i' = sv_wants s i'" by (intro sv_wants_cong) simp_all
  qed (use join_io in simp_all)
next
  case join_pio
  show ?thesis
  proof (rule sv_queues_other [OF ok])
    fix i'
    assume "sv_wants s i' \<noteq> None"
    then have "i' \<noteq> length (sv_submitters s)" using join_pio(3) by (auto simp: sv_wants_def stopper_wants_def)
    with join_pio show "sv_wants t i' = sv_wants s i'" by (intro sv_wants_cong) simp_all
  qed (use join_pio in simp_all)
next
  case (process w r i c)
  show ?thesis
  proof (rule sv_queues_other [OF ok])
    fix i'
    assume "sv_wants s i' \<noteq> None"
    then have "i' \<noteq> Suc (length (sv_submitters s) + w)" using process(4) by (auto simp: sv_wants_def)
    with process show "sv_wants t i' = sv_wants s i'" by (intro sv_wants_cong) (auto simp: nth_list_update)
  qed (use process in simp_all)
next
  case (fault i j c)
  show ?thesis by (rule sv_queues_other [OF ok]) (use fault in \<open>auto intro: sv_wants_cong\<close>)
next
  case (call i j c)
  have w: "wants_at t = wants_at s"
    using call(2) by (auto simp: fun_eq_iff wants_at_def intro!: arg_cong [where f = "case_option _ _"] sv_wants_cong)
  have "queue_at (wants_at s j) QUEUE_DEFAULT_CAPACITY ((sv_queues s ! j)\<lparr>threads := (threads (sv_queues s ! j))[i := Ready c]\<rparr>)"
    by (rule queue_at_call [OF sv_queues_ok_at(1) [OF ok call(4)]]) (use call in \<open>simp_all add: wants_at_Some\<close>)
  then show ?thesis
    by (rule sv_queues_one [OF ok call(4), of t, unfolded w])
      (use sv_queues_ok_at(2) [OF ok call(4)] call(2) in simp_all)
next
  case (spurious j i c)
  have w: "wants_at t = wants_at s"
    using spurious(2) by (auto simp: fun_eq_iff wants_at_def intro!: arg_cong [where f = "case_option _ _"] sv_wants_cong)
  have "queue_at (wants_at s j) QUEUE_DEFAULT_CAPACITY ((sv_queues s ! j)\<lparr>threads := (threads (sv_queues s ! j))[i := Ready c]\<rparr>)"
    by (rule queue_at_spurious [OF sv_queues_ok_at(1) [OF ok spurious(3)]]) (use spurious in simp_all)
  then show ?thesis
    by (rule sv_queues_one [OF ok spurious(3), of t, unfolded w])
      (use sv_queues_ok_at(2) [OF ok spurious(3)] spurious(2) in simp_all)
next
  case (act j i q)
  note f = bq_act_frame(2) [OF act(4)]
  have t: "sv_queues t = (sv_queues s)[j := q]" "length (sv_workers t) = length (sv_workers s)"
    "length (sv_submitters t) = length (sv_submitters s)"
    using act(2) by (simp_all add: sv_return_def Let_def)
  have others: "sv_wants t i' = sv_wants s i'" if "i' \<noteq> i \<or> threads q ! i \<noteq> Idle" for i'
    using ok act(3,4)
  proof (cases rule: sv_act_cases)
    case (entry r cmds k)
    then show ?thesis using that act(2) by (intro sv_wants_cong) simp_all
  next
    case io_mark
    then show ?thesis using that act(2) by (intro sv_wants_cong) simp_all
  next
    case (pio_mark k)
    then show ?thesis using that act(2) by (intro sv_wants_cong) simp_all
  next
    case (pop w v)
    then show ?thesis using that act(2) by (intro sv_wants_cong) (auto simp: nth_list_update)
  next
    case wait
    then show ?thesis using act(2) by (intro sv_wants_cong) simp_all
  qed
  have q: "queue_at (wants_at t j) QUEUE_DEFAULT_CAPACITY q"
    by (rule queue_at_act [OF sv_queues_ok_at(1) [OF ok act(3)] sv_wants_plain act(4)])
      (simp_all add: wants_at_def others)
  have "wants_at t j' i' = wants_at s j' i'" if "j' \<noteq> j" "wants_at s j' i' \<noteq> None" for j' i'
  proof (cases "i' = i")
    case True
    obtain c where "sv_wants s i = Some (j, c)" using sv_act_wants [OF ok act(3,4)] by auto
    with True that show ?thesis by (simp add: wants_at_def)
  next
    case False
    with others show ?thesis by (simp add: wants_at_def)
  qed
  with q t sv_queues_ok_at(2) [OF ok act(3)] f show ?thesis by (intro sv_queues_one [OF ok act(3)]) simp_all
qed

section \<open>Commands in flight\<close>

text \<open>
  A command that is accepted and not complete has exactly one owner: the thread that has yet to push it, a
  queue, or the I/O thread that processes it.
\<close>

fun sub_tokens :: "submitter_pc \<Rightarrow> (nat \<times> nat) list" where
  "sub_tokens SubIdle = []"
| "sub_tokens (Submitting r cmds k) = map (Pair r) [k..<length cmds]"

fun entry_tokens :: "RequestEx \<Rightarrow> (nat \<times> nat) list" where
  "entry_tokens (ReqEx r k) = [(r, k)]"
| "entry_tokens EmptyReq = []"

fun worker_tokens :: "worker_pc \<Rightarrow> (nat \<times> nat) list" where
  "worker_tokens (Working r k) = [(r, k)]"
| "worker_tokens _ = []"

definition queue_tokens :: "RequestEx system \<Rightarrow> (nat \<times> nat) list" where
  "queue_tokens q = concat (map entry_tokens (m_queue (bq q)))"

definition tokens :: "service \<Rightarrow> (nat \<times> nat) multiset" where
  "tokens s = mset (concat (map (\<lambda>b. sub_tokens (sb_pc b)) (sv_submitters s))) +
     mset (concat (map queue_tokens (sv_queues s))) + mset (concat (map worker_tokens (sv_workers s)))"

definition unfinished :: "req_conf list \<Rightarrow> (nat \<times> nat) set" where
  "unfinished reqs = {(r, k). r < length reqs \<and> k < length (rc_progress (reqs ! r)) \<and> rc_progress (reqs ! r) ! k \<noteq> Completed}"

definition sv_tokens_ok :: "service \<Rightarrow> bool" where
  "sv_tokens_ok s \<longleftrightarrow> sole (tokens s) \<and> set_mset (tokens s) = unfinished (sv_reqs s)"

lemma req_at_frame:
  assumes "req_at i c d"
  shows "i < length (rc_progress c)" and "length (rc_progress d) = length (rc_progress c)"
    and "j \<noteq> i \<Longrightarrow> rc_progress d ! j = rc_progress c ! j" and "rc_progress c ! i \<noteq> Completed"
  using assms by (cases; simp)+

lemma unfinished_append:
  "unfinished (reqs @ [req_start cmds now]) = unfinished reqs \<union> set (map (Pair (length reqs)) [0..<length cmds])"
  by (auto simp: unfinished_def nth_append req_start_def less_Suc_eq)

lemma unfinished_update:
  assumes "req_at i (reqs ! r) c" and "r < length reqs"
  shows "unfinished (reqs[r := c]) = (if rc_progress c ! i = Completed then unfinished reqs - {(r, i)} else unfinished reqs)"
  using req_at_frame [OF assms(1)] assms(2)
  by (auto simp: unfinished_def nth_list_update split: if_splits) metis+

lemma tokens_sub:
  assumes "i < length (sv_submitters s)"
  shows "mset (concat (map (\<lambda>b. sub_tokens (sb_pc b)) ((sv_submitters s)[i := b]))) + mset (sub_tokens (sb_pc (sv_submitters s ! i))) =
     mset (concat (map (\<lambda>b. sub_tokens (sb_pc b)) (sv_submitters s))) + mset (sub_tokens (sb_pc b))"
  by (rule mset_concat_update [OF assms])

lemma tokens_queue:
  assumes "j < length (sv_queues s)"
  shows "mset (concat (map queue_tokens ((sv_queues s)[j := q]))) + mset (queue_tokens (sv_queues s ! j)) =
     mset (concat (map queue_tokens (sv_queues s))) + mset (queue_tokens q)"
  by (rule mset_concat_update [OF assms])

lemma tokens_worker:
  assumes "w < length (sv_workers s)"
  shows "mset (concat (map worker_tokens ((sv_workers s)[w := x]))) + mset (worker_tokens (sv_workers s ! w)) =
     mset (concat (map worker_tokens (sv_workers s))) + mset (worker_tokens x)"
  by (rule mset_concat_update [OF assms])

lemma tokens_act:
  assumes qok: "sv_queues_ok s" and j: "j < length (sv_queues s)" and a: "bq_act i (sv_queues s ! j) q"
    and t: "t = (if threads q ! i = Idle then sv_return i j (s\<lparr>sv_queues := (sv_queues s)[j := q]\<rparr>)
       else s\<lparr>sv_queues := (sv_queues s)[j := q]\<rparr>)"
  shows "tokens t = tokens s \<and> sv_reqs t = sv_reqs s \<and> sv_accepted t = sv_accepted s"
proof -
  note tq = tokens_queue [OF j, of q]
  have r: "sv_reqs t = sv_reqs s" "sv_accepted t = sv_accepted s" using t by (simp_all add: sv_return_def Let_def)
  from qok j a have "tokens t = tokens s"
  proof (cases rule: sv_act_cases)
    case (entry r cmds k)
    have "map (Pair r) [k..<length cmds] = (r, k) # map (Pair r) [Suc k..<length cmds]" using entry(3) by (simp add: upt_conv_Cons)
    with tokens_sub [OF entry(1), of "(sv_submitters s ! i)\<lparr>sb_pc := Submitting r cmds (Suc k)\<rparr>"] tq entry t
    show ?thesis by (simp add: tokens_def queue_tokens_def)
  next
    case io_mark
    with tq t show ?thesis by (simp add: tokens_def queue_tokens_def)
  next
    case (pio_mark k)
    with tq t show ?thesis by (simp add: tokens_def queue_tokens_def)
  next
    case (pop w v)
    with tokens_worker [OF pop(2), of "case v of ReqEx r k \<Rightarrow> Working r k | EmptyReq \<Rightarrow> Quit"] tq t
    show ?thesis by (cases v) (simp_all add: tokens_def queue_tokens_def)
  next
    case wait
    with tq t show ?thesis by (simp add: tokens_def queue_tokens_def)
  qed
  with r show ?thesis by simp
qed

lemma queue_tokens_threads [simp]: "queue_tokens (q\<lparr>threads := ths\<rparr>) = queue_tokens q"
  by (simp add: queue_tokens_def)

lemma sole_new:
  assumes "sole M" and "\<And>x. x \<in> set xs \<Longrightarrow> x \<notin># M" and "distinct xs"
  shows "sole (M + mset xs)"
  using assms(2,3)
proof (induction xs)
  case (Cons x xs)
  then show ?case by (simp add: sole_add)
qed (simp add: assms(1))

lemma sv_tokens_step:
  assumes st: "sv_step b s t" and ok: "sv_tokens_ok s" and qok: "sv_queues_ok s"
  shows "sv_tokens_ok t"
  using st
proof cases
  case (submit i cmds rest now)
  let ?new = "map (Pair (length (sv_reqs s))) [0..<length cmds]"
  have tk: "tokens t = tokens s + mset ?new"
    using tokens_sub [OF submit(3), of "\<lparr>sb_todo = rest, sb_pc = Submitting (length (sv_reqs s)) cmds 0\<rparr>"] submit(2,4)
    by (simp add: tokens_def)
  have "x \<notin># tokens s" if "x \<in> set ?new" for x using that ok by (auto simp: sv_tokens_ok_def unfinished_def)
  then have "sole (tokens t)" unfolding tk
    using ok by (intro sole_new) (auto simp: sv_tokens_ok_def distinct_map inj_on_def)
  moreover have "set_mset (tokens t) = unfinished (sv_reqs t)"
    using ok submit(2) unfolding tk by (simp add: sv_tokens_ok_def unfinished_append)
  ultimately show ?thesis by (simp add: sv_tokens_ok_def)
next
  case (refuse i cmds rest)
  with tokens_sub [OF refuse(3), of "\<lparr>sb_todo = rest, sb_pc = SubIdle\<rparr>"] ok show ?thesis
    by (simp add: tokens_def sv_tokens_ok_def)
next
  case (submitted i rest r cmds)
  with tokens_sub [OF submitted(3), of "\<lparr>sb_todo = rest, sb_pc = SubIdle\<rparr>"] ok show ?thesis
    by (simp add: tokens_def sv_tokens_ok_def)
next
  case (process w r i c)
  show ?thesis
  proof (cases "rc_progress c ! i = Completed")
    case True
    with tokens_worker [OF process(3), of Fetching] process(2,4) have tk: "tokens s = add_mset (r, i) (tokens t)"
      by (simp add: tokens_def)
    then have "sole (tokens t)" "(r, i) \<notin># tokens t" using ok by (auto simp: sv_tokens_ok_def sole_add)
    moreover have "set_mset (tokens t) = unfinished (sv_reqs s) - {(r, i)}"
      using ok calculation(2) tk by (auto simp: sv_tokens_ok_def)
    ultimately show ?thesis using unfinished_update [OF process(6,5)] True process(2) by (simp add: sv_tokens_ok_def)
  next
    case False
    with tokens_worker [OF process(3), of "Working r i"] process(2,4) have "tokens t = tokens s" by (simp add: tokens_def)
    with ok unfinished_update [OF process(6,5)] False process(2) show ?thesis by (simp add: sv_tokens_ok_def)
  qed
next
  case (call i j c)
  with tokens_queue [OF call(4), of "(sv_queues s ! j)\<lparr>threads := (threads (sv_queues s ! j))[i := Ready c]\<rparr>"] ok show ?thesis
    by (simp add: tokens_def sv_tokens_ok_def)
next
  case (spurious j i c)
  with tokens_queue [OF spurious(3), of "(sv_queues s ! j)\<lparr>threads := (threads (sv_queues s ! j))[i := Ready c]\<rparr>"] ok show ?thesis
    by (simp add: tokens_def sv_tokens_ok_def)
next
  case (act j i q)
  from tokens_act [OF qok act(3,4,2)] ok show ?thesis by (simp add: sv_tokens_ok_def)
qed (use ok in \<open>simp_all add: sv_tokens_ok_def tokens_def\<close>)

section \<open>The requests\<close>

text \<open>Every accepted request runs as a request alone does, whatever the threads do otherwise.\<close>

definition sv_reqs_ok :: "service \<Rightarrow> bool" where
  "sv_reqs_ok s \<longleftrightarrow> length (sv_accepted s) = length (sv_reqs s) \<and>
     (\<forall>r<length (sv_reqs s). req_step\<^sup>*\<^sup>* (req_start (fst (sv_accepted s ! r)) (snd (sv_accepted s ! r))) (sv_reqs s ! r))"

lemma sv_step_request:
  assumes "sv_step b s t" and "r < length (sv_reqs s)"
  shows "r < length (sv_reqs t) \<and> (sv_reqs t ! r = sv_reqs s ! r \<or> req_step (sv_reqs s ! r) (sv_reqs t ! r))"
  using assms(1)
proof cases
  case (process w r' i c)
  then show ?thesis using assms(2) req_stepI by (cases "r = r'") auto
qed (use assms(2) in \<open>simp_all add: nth_append sv_return_def Let_def\<close>)

interpretation sv_request: simulation "any_label sv_step" req_step "\<lambda>s c. r < length (sv_reqs s) \<and> c = sv_reqs s ! r"
  for r :: nat
proof
  fix s t :: service and c
  assume "any_label sv_step s t" and "r < length (sv_reqs s) \<and> c = sv_reqs s ! r"
  then show "\<exists>d. req_step\<^sup>*\<^sup>* c d \<and> r < length (sv_reqs t) \<and> d = sv_reqs t ! r"
    using sv_step_request by (fastforce simp: any_label_def)
qed

lemma sv_accepted_step:
  assumes "sv_step b s t"
  shows "\<exists>xs. sv_accepted t = sv_accepted s @ xs \<and> length xs + length (sv_reqs s) = length (sv_reqs t)"
  using assms by cases (auto simp: sv_return_def Let_def)

lemma sv_reqs_step:
  assumes st: "sv_step b s t" and ok: "sv_reqs_ok s"
  shows "sv_reqs_ok t"
proof -
  obtain xs where xs: "sv_accepted t = sv_accepted s @ xs" "length xs + length (sv_reqs s) = length (sv_reqs t)"
    using sv_accepted_step [OF st] by blast
  have "req_step\<^sup>*\<^sup>* (req_start (fst (sv_accepted t ! r)) (snd (sv_accepted t ! r))) (sv_reqs t ! r)"
    if r: "r < length (sv_reqs t)" for r
  proof (cases "r < length (sv_reqs s)")
    case True
    then have "req_step\<^sup>*\<^sup>* (req_start (fst (sv_accepted t ! r)) (snd (sv_accepted t ! r))) (sv_reqs s ! r)"
      using ok xs(1) by (simp add: sv_reqs_ok_def nth_append)
    with sv_step_request [OF st True] show ?thesis by (auto intro: rtranclp.rtrancl_into_rtrancl)
  next
    case False
    from st show ?thesis
    proof cases
      case (submit i cmds rest now)
      with False r ok show ?thesis by (simp add: sv_reqs_ok_def nth_append)
    qed (use False r in \<open>simp_all add: sv_return_def Let_def split: if_splits\<close>)
  qed
  with ok xs show ?thesis by (simp add: sv_reqs_ok_def)
qed

section \<open>Stopping\<close>

definition quits :: "service \<Rightarrow> nat \<Rightarrow> nat" where
  "quits s j = card {w. w < length (sv_workers s) \<and> sv_workers s ! w = Quit \<and> worker_queue (io_num s) w = j}"

fun marks_for :: "stopper_pc \<Rightarrow> nat \<Rightarrow> nat \<Rightarrow> nat \<Rightarrow> nat" where
  "marks_for StopIdle n workers j = 0"
| "marks_for (IoMark i) n workers j = (if j < i then 1 else 0)"
| "marks_for (PioMark k) n workers j = (if j < n then 1 else k)"
| "marks_for StopDone n workers j = (if j < n then 1 else workers - n)"

definition marks_sent :: "service \<Rightarrow> nat \<Rightarrow> nat" where
  "marks_sent s j = marks_for (sv_stopper s) (io_num s) (length (sv_workers s)) j"

text \<open>
  The marks of a queue are behind all its entries; each was sent by \<open>Stop\<close>, and each ends one thread, which
  leaves no entry behind.
\<close>

definition marks_at_end :: "RequestEx list \<Rightarrow> nat \<Rightarrow> nat \<Rightarrow> bool" where
  "marks_at_end q quit sent \<longleftrightarrow> (\<exists>es b. q = es @ replicate b EmptyReq \<and> EmptyReq \<notin> set es \<and> b + quit = sent \<and>
     (0 < quit \<longrightarrow> es = []))"

definition sv_stop_ok :: "service \<Rightarrow> bool" where
  "sv_stop_ok s \<longleftrightarrow>
     (\<forall>k. sv_stopper s = PioMark k \<longrightarrow> (\<forall>w<io_num s. sv_workers s ! w = Quit)) \<and>
     (sv_stopper s = StopDone \<longrightarrow> (\<forall>w<length (sv_workers s). sv_workers s ! w = Quit)) \<and>
     (sv_stopper s = StopIdle \<longleftrightarrow> sv_state s = AIO_STARTED) \<and> (sv_stopper s = StopDone \<longleftrightarrow> sv_state s = AIO_STOPPED)"

definition sv_marks_ok :: "service \<Rightarrow> bool" where
  "sv_marks_ok s \<longleftrightarrow>
     (\<forall>j<length (sv_queues s). marks_at_end (m_queue (bq (sv_queues s ! j))) (quits s j) (marks_sent s j)) \<and>
     (\<forall>i. sv_stopper s = IoMark i \<longrightarrow> i \<le> io_num s) \<and>
     (\<forall>k. sv_stopper s = PioMark k \<longrightarrow> k \<le> length (sv_workers s) - io_num s) \<and> sv_stop_ok s \<and>
     (sv_stopper s \<noteq> StopIdle \<longrightarrow> (\<forall>i<length (sv_submitters s). sb_pc (sv_submitters s ! i) = SubIdle))"

lemma marks_at_end_entry: "marks_at_end q 0 0 \<Longrightarrow> marks_at_end (q @ [ReqEx r k]) 0 0"
  by (auto simp: marks_at_end_def)

lemma marks_at_end_mark:
  assumes "marks_at_end q n k"
  shows "marks_at_end (q @ [EmptyReq]) n (Suc k)"
proof -
  from assms obtain es b where e: "q = es @ replicate b EmptyReq" "EmptyReq \<notin> set es" "b + n = k" "0 < n \<longrightarrow> es = []"
    by (auto simp: marks_at_end_def)
  then have "q @ [EmptyReq] = es @ replicate (Suc b) EmptyReq" by (simp add: replicate_append_same)
  with e show ?thesis unfolding marks_at_end_def by (intro exI [of _ es] exI [of _ "Suc b"]) simp
qed

lemma marks_at_end_pop:
  assumes "marks_at_end (v # q) n k"
  shows "marks_at_end q (if v = EmptyReq then Suc n else n) k"
proof -
  from assms obtain es b where e: "v # q = es @ replicate b EmptyReq" "EmptyReq \<notin> set es" "b + n = k" "0 < n \<longrightarrow> es = []"
    by (auto simp: marks_at_end_def)
  show ?thesis
  proof (cases es)
    case Nil
    with e obtain b' where "b = Suc b'" by (cases b) auto
    with e Nil show ?thesis unfolding marks_at_end_def by (intro exI [of _ "[]"] exI [of _ b']) simp
  next
    case (Cons x xs)
    with e show ?thesis unfolding marks_at_end_def by (intro exI [of _ xs] exI [of _ b]) auto
  qed
qed

lemma quits_worker:
  assumes "w < length (sv_workers s)" and "sv_workers s ! w \<noteq> Quit" and "sv_workers t = (sv_workers s)[w := x]"
    and "io_num t = io_num s"
  shows "quits t j = (if x = Quit \<and> worker_queue (io_num s) w = j then Suc (quits s j) else quits s j)"
proof -
  let ?Q = "\<lambda>s. {w. w < length (sv_workers s) \<and> sv_workers s ! w = Quit \<and> worker_queue (io_num s) w = j}"
  have "?Q t = (if x = Quit \<and> worker_queue (io_num s) w = j then insert w (?Q s) else ?Q s)"
    using assms by (auto simp: nth_list_update)
  moreover have "card (insert w (?Q s)) = Suc (card (?Q s))" using assms(2) by (intro card_insert_disjoint) auto
  ultimately show ?thesis unfolding quits_def by (simp split: if_splits)
qed

lemma quits_cong: "sv_workers t = sv_workers s \<Longrightarrow> length (sv_queues t) = length (sv_queues s) \<Longrightarrow> quits t j = quits s j"
  by (simp add: quits_def io_num_def)

lemma sv_marks_same:
  assumes "sv_marks_ok s" and "sv_stopper t = sv_stopper s" and "sv_workers t = sv_workers s" and "sv_state t = sv_state s"
    and "length (sv_queues t) = length (sv_queues s)"
    and "\<And>j. j < length (sv_queues s) \<Longrightarrow> m_queue (bq (sv_queues t ! j)) = m_queue (bq (sv_queues s ! j))"
    and "sv_stopper s \<noteq> StopIdle \<Longrightarrow> \<forall>i<length (sv_submitters t). sb_pc (sv_submitters t ! i) = SubIdle"
  shows "sv_marks_ok t"
proof -
  have io: "io_num t = io_num s" using assms(5) by (simp add: io_num_def)
  then have "quits t j = quits s j" "marks_sent t j = marks_sent s j" for j
    using assms(2,3) by (simp_all add: quits_def marks_sent_def)
  with io assms show ?thesis unfolding sv_marks_ok_def sv_stop_ok_def by simp
qed

lemma sv_marks_act:
  assumes ok: "sv_marks_ok s" and qok: "sv_queues_ok s" and j: "j < length (sv_queues s)" and a: "bq_act i (sv_queues s ! j) q"
    and t: "t = (if threads q ! i = Idle then sv_return i j (s\<lparr>sv_queues := (sv_queues s)[j := q]\<rparr>)
       else s\<lparr>sv_queues := (sv_queues s)[j := q]\<rparr>)"
  shows "sv_marks_ok t"
proof -
  have m: "marks_at_end (m_queue (bq (sv_queues s ! j'))) (quits s j') (marks_sent s j')" if "j' < length (sv_queues s)" for j'
    using ok that by (simp add: sv_marks_ok_def sv_stop_ok_def)
  have n: "io_num s < length (sv_queues s)" "io_num s \<le> length (sv_workers s)" using qok by (simp_all add: sv_queues_ok_def)
  from qok j a show ?thesis
  proof (cases rule: sv_act_cases)
    case (entry r cmds k)
    have si: "sv_stopper s = StopIdle" using ok entry(1,2) by (auto simp: sv_marks_ok_def sv_stop_ok_def)
    with m [OF j] have "quits s j = 0" "marks_at_end (m_queue (bq (sv_queues s ! j))) 0 0"
      by (auto simp: marks_sent_def marks_at_end_def)
    with marks_at_end_entry entry(6) have "marks_at_end (m_queue (bq q)) 0 0" by simp
    moreover have io: "io_num t = io_num s" using entry(5,7) t by (simp add: io_num_def)
    moreover have "quits t j' = quits s j'" "marks_sent t j' = marks_sent s j'" for j'
      using entry(5,7) t io by (simp_all add: quits_def marks_sent_def)
    ultimately show ?thesis
      using ok entry(5,7) t si j \<open>quits s j = 0\<close> by (auto simp: sv_marks_ok_def sv_stop_ok_def nth_list_update marks_sent_def)
  next
    case io_mark
    have io: "io_num t = io_num s" using io_mark(4,6) t by (simp add: io_num_def)
    moreover have "quits t j' = quits s j'" for j' using io_mark(4,6) t io by (simp add: quits_def)
    moreover have "marks_sent t j' = (if j' = j then Suc (marks_sent s j') else marks_sent s j')" for j'
      using io_mark(2,4,6) t by (auto simp: marks_sent_def)
    ultimately show ?thesis
      using ok io_mark(2,3,4,5,6) t j marks_at_end_mark [OF m [OF j]] by (auto simp: sv_marks_ok_def sv_stop_ok_def nth_list_update)
  next
    case (pio_mark k)
    have io: "io_num t = io_num s" using pio_mark(5,7) t by (simp add: io_num_def)
    moreover have "quits t j' = quits s j'" for j' using pio_mark(5,7) t io by (simp add: quits_def)
    moreover have "marks_sent t j' = (if j' = j then Suc (marks_sent s j') else marks_sent s j')" if "j' < length (sv_queues s)" for j'
      using pio_mark(2,4,5,7) t that by (auto simp: marks_sent_def io_num_def)
    ultimately show ?thesis
      using ok pio_mark(2,3,5,6,7) t j marks_at_end_mark [OF m [OF j]] by (auto simp: sv_marks_ok_def sv_stop_ok_def nth_list_update)
  next
    case (pop w v)
    let ?x = "case v of ReqEx r k \<Rightarrow> Working r k | EmptyReq \<Rightarrow> Quit"
    have x: "?x = Quit \<longleftrightarrow> v = EmptyReq" by (cases v) auto
    have tt: "t = s\<lparr>sv_queues := (sv_queues s)[j := q], sv_workers := (sv_workers s)[w := ?x]\<rparr>" using t pop(5,7) by simp
    have io: "io_num t = io_num s" by (simp add: tt io_num_def)
    have q: "quits t j' = (if v = EmptyReq \<and> j = j' then Suc (quits s j') else quits s j')" for j'
      using quits_worker [OF pop(2) _ _ io, of ?x j'] pop(3,4) x by (simp add: tt)
    have ms: "marks_sent t j' = marks_sent s j'" for j' using io by (simp add: tt marks_sent_def)
    have "marks_at_end (v # m_queue (bq q)) (quits s j) (marks_sent s j)" using m [OF j] pop(6) by simp
    from marks_at_end_pop [OF this] have "marks_at_end (m_queue (bq q)) (quits t j) (marks_sent t j)"
      by (simp add: q ms)
    then have "\<forall>j'<length (sv_queues t). marks_at_end (m_queue (bq (sv_queues t ! j'))) (quits t j') (marks_sent t j')"
      using m j by (auto simp: tt nth_list_update q [unfolded tt] ms [unfolded tt])
    moreover have "sv_workers t ! w' = Quit" if "sv_workers s ! w' = Quit" for w'
      using that pop(3) by (cases "w' = w") (auto simp: tt)
    ultimately show ?thesis using ok unfolding sv_marks_ok_def sv_stop_ok_def io by (simp add: tt)
  next
    case wait
    then show ?thesis using ok t j by (intro sv_marks_same [OF ok]) (auto simp: nth_list_update sv_marks_ok_def sv_stop_ok_def)
  qed
qed

lemma sv_stop_step:
  assumes st: "sv_step b s t" and ok: "sv_stop_ok s" and qok: "sv_queues_ok s"
  shows "sv_stop_ok t"
  using st
proof cases
  case (process w r i c)
  then have "io_num t = io_num s" by (simp add: io_num_def)
  moreover have "sv_workers t ! w' = Quit" if "sv_workers s ! w' = Quit" for w'
    using that process(2,4) by (cases "w' = w") auto
  ultimately show ?thesis using ok process(2) by (simp add: sv_stop_ok_def)
next
  case (act j i q)
  have io: "io_num t = io_num s" using act(2) by (simp add: io_num_def sv_return_def Let_def)
  from qok act(3,4) show ?thesis
  proof (cases rule: sv_act_cases)
    case (pop w v)
    then have "sv_workers t ! w' = Quit" if "sv_workers s ! w' = Quit" for w'
      using that act(2) by (cases "w' = w") auto
    then show ?thesis using ok pop act(2) io by (simp add: sv_stop_ok_def)
  qed (use ok act(2) io in \<open>simp_all add: sv_stop_ok_def\<close>)
next
  case join_pio
  then have "io_num t = io_num s" by (simp add: io_num_def)
  moreover have "sv_workers s ! w = Quit" if "w < length (sv_workers s)" for w
    using ok join_pio(3,4) that by (cases "w < io_num s") (auto simp: sv_stop_ok_def)
  ultimately show ?thesis using ok join_pio(2,3) by (simp add: sv_stop_ok_def)
qed (use ok in \<open>auto simp: sv_stop_ok_def io_num_def\<close>)

lemma sv_marks_step:
  assumes st: "sv_step b s t"
    and calm: "sv_stopper s = StopIdle \<and> sv_stopper t \<noteq> StopIdle \<longrightarrow> (\<forall>u\<in>set (sv_submitters s). sb_pc u = SubIdle)" and ok: "sv_marks_ok s" and qok: "sv_queues_ok s"
  shows "sv_marks_ok t"
  using st
proof cases
  case (submit i cmds rest now)
  then show ?thesis using ok by (intro sv_marks_same [OF ok]) (auto simp: sv_marks_ok_def sv_stop_ok_def)
next
  case (refuse i cmds rest)
  then show ?thesis using ok by (intro sv_marks_same [OF ok]) (auto simp: sv_marks_ok_def sv_stop_ok_def nth_list_update)
next
  case (submitted i rest r cmds)
  then show ?thesis using ok by (intro sv_marks_same [OF ok]) (auto simp: sv_marks_ok_def sv_stop_ok_def nth_list_update)
next
  case stop
  then have io: "io_num t = io_num s" by (simp add: io_num_def)
  then have "quits t j = quits s j" "marks_sent t j = marks_sent s j" for j
    using stop(2,3) by (simp_all add: quits_def marks_sent_def)
  moreover have "\<forall>u\<in>set (sv_submitters s). sb_pc u = SubIdle" using calm stop(2,3) by simp
  ultimately show ?thesis using ok stop io by (auto simp: sv_marks_ok_def sv_stop_ok_def)
next
  case join_io
  then have io: "io_num t = io_num s" by (simp add: io_num_def)
  have "quits t j = quits s j" for j using join_io(2) io by (simp add: quits_def)
  moreover have "marks_sent t j = marks_sent s j" if "j < length (sv_queues s)" for j
    using that join_io(2,3) io by (auto simp: marks_sent_def io_num_def)
  ultimately show ?thesis using ok join_io io by (simp add: sv_marks_ok_def sv_stop_ok_def)
next
  case join_pio
  then have io: "io_num t = io_num s" by (simp add: io_num_def)
  have "quits t j = quits s j" for j using join_pio(2) io by (simp add: quits_def)
  moreover have "marks_sent t j = marks_sent s j" for j
    using join_pio(2,3) io by (auto simp: marks_sent_def)
  moreover have "sv_workers s ! w = Quit" if "w < length (sv_workers s)" for w
    using ok join_pio(3,4) that by (cases "w < io_num s") (auto simp: sv_marks_ok_def sv_stop_ok_def)
  ultimately show ?thesis using ok join_pio(2,3) io by (simp add: sv_marks_ok_def sv_stop_ok_def)
next
  case (process w r i c)
  let ?x = "if rc_progress c ! i = Completed then Fetching else Working r i"
  have io: "io_num t = io_num s" using process(2) by (simp add: io_num_def)
  have q: "quits t j = quits s j" for j
    using quits_worker [OF process(3) _ _ io, of ?x j] process(2,4) by simp
  have ms: "marks_sent t j = marks_sent s j" for j using process(2) io by (simp add: marks_sent_def)
  have "sv_workers t ! w' = Quit" if "sv_workers s ! w' = Quit" for w'
    using that process(2,4) by (cases "w' = w") auto
  then show ?thesis using ok q ms process(2) unfolding sv_marks_ok_def sv_stop_ok_def io by simp
next
  case (call i j c)
  then show ?thesis using ok by (intro sv_marks_same [OF ok]) (auto simp: nth_list_update sv_marks_ok_def sv_stop_ok_def)
next
  case (spurious j i c)
  then show ?thesis using ok by (intro sv_marks_same [OF ok]) (auto simp: nth_list_update sv_marks_ok_def sv_stop_ok_def)
next
  case (fault i j c)
  then show ?thesis using ok by (intro sv_marks_same [OF ok]) (auto simp: sv_marks_ok_def)
next
  case (act j i q)
  show ?thesis by (rule sv_marks_act [OF ok qok act(3,4,2)])
qed

text \<open>What is accepted comes from the programs; while the service runs nothing is refused.\<close>

definition sv_progs_ok :: "Command list list list \<Rightarrow> service \<Rightarrow> bool" where
  "sv_progs_ok progs s \<longleftrightarrow>
     mset (map fst (sv_accepted s)) + mset (concat (map sb_todo (sv_submitters s))) \<subseteq># mset (concat progs) \<and>
     (sv_stopper s = StopIdle \<longrightarrow>
        mset (map fst (sv_accepted s)) + mset (concat (map sb_todo (sv_submitters s))) = mset (concat progs))"

lemma sv_progs_step:
  assumes st: "sv_step b s t" and ok: "sv_progs_ok progs s" and mk: "sv_stop_ok s" and qok: "sv_queues_ok s"
  shows "sv_progs_ok progs t"
  using st
proof cases
  case (submit i cmds rest now)
  with mset_concat_update [OF submit(3), of sb_todo "\<lparr>sb_todo = rest, sb_pc = Submitting (length (sv_reqs s)) cmds 0\<rparr>"]
  have "mset (concat (map sb_todo (sv_submitters s))) = add_mset cmds (mset (concat (map sb_todo (sv_submitters t))))" by simp
  with ok submit(2) show ?thesis by (simp add: sv_progs_ok_def)
next
  case (refuse i cmds rest)
  with mset_concat_update [OF refuse(3), of sb_todo "\<lparr>sb_todo = rest, sb_pc = SubIdle\<rparr>"]
  have "mset (concat (map sb_todo (sv_submitters s))) = add_mset cmds (mset (concat (map sb_todo (sv_submitters t))))" by simp
  then have sub: "mset (map fst (sv_accepted t)) + mset (concat (map sb_todo (sv_submitters t))) \<subseteq>#
      mset (map fst (sv_accepted s)) + mset (concat (map sb_todo (sv_submitters s)))" using refuse(2) by simp
  have "mset (map fst (sv_accepted t)) + mset (concat (map sb_todo (sv_submitters t))) \<subseteq># mset (concat progs)"
    by (rule subset_mset.trans [OF sub]) (use ok in \<open>simp add: sv_progs_ok_def\<close>)
  moreover have "sv_stopper t \<noteq> StopIdle" using mk refuse(2,5) by (simp add: sv_stop_ok_def)
  ultimately show ?thesis by (simp add: sv_progs_ok_def)
next
  case (submitted i rest r cmds)
  with mset_concat_update [OF submitted(3), of sb_todo "\<lparr>sb_todo = rest, sb_pc = SubIdle\<rparr>"] ok show ?thesis
    by (simp add: sv_progs_ok_def)
next
  case (act j i q)
  note a = tokens_act [OF qok act(3,4,2)]
  from qok act(3,4) have "mset (concat (map sb_todo (sv_submitters t))) = mset (concat (map sb_todo (sv_submitters s))) \<and>
      (sv_stopper t = StopIdle \<longleftrightarrow> sv_stopper s = StopIdle)"
  proof (cases rule: sv_act_cases)
    case (entry r cmds k)
    with mset_concat_update [OF entry(1), of sb_todo "(sv_submitters s ! i)\<lparr>sb_pc := Submitting r cmds (Suc k)\<rparr>"] act(2)
    show ?thesis by simp
  qed (use act(2) in simp_all)
  with a ok show ?thesis by (simp add: sv_progs_ok_def)
qed (use ok in \<open>simp_all add: sv_progs_ok_def\<close>)

text \<open>A submitter does not get past its last command.\<close>

definition sv_subs_ok :: "service \<Rightarrow> bool" where
  "sv_subs_ok s \<longleftrightarrow> (\<forall>i<length (sv_submitters s). \<forall>r cmds k. sb_pc (sv_submitters s ! i) = Submitting r cmds k \<longrightarrow> k \<le> length cmds)"

lemma sv_subs_step:
  assumes st: "sv_step b s t" and ok: "sv_subs_ok s" and qok: "sv_queues_ok s"
  shows "sv_subs_ok t"
  using st
proof cases
  case (act j i q)
  from qok act(3,4) show ?thesis
  proof (cases rule: sv_act_cases)
    case (entry r cmds k)
    with ok act(2) show ?thesis by (auto simp: sv_subs_ok_def nth_list_update)
  qed (use ok act(2) in \<open>simp_all add: sv_subs_ok_def\<close>)
qed (use ok in \<open>auto simp: sv_subs_ok_def nth_list_update\<close>)

text \<open>What has not been taken out of its queue has not been run.\<close>

definition waiting :: "service \<Rightarrow> (nat \<times> nat) multiset" where
  "waiting s = mset (concat (map (\<lambda>b. sub_tokens (sb_pc b)) (sv_submitters s))) + mset (concat (map queue_tokens (sv_queues s)))"

definition sv_fresh_ok :: "service \<Rightarrow> bool" where
  "sv_fresh_ok s \<longleftrightarrow> (\<forall>(r, k) \<in> set_mset (waiting s). rc_progress (sv_reqs s ! r) ! k = Queued)"

lemma tokens_waiting: "tokens s = waiting s + mset (concat (map worker_tokens (sv_workers s)))"
  by (simp add: tokens_def waiting_def)

lemma waiting_act:
  assumes qok: "sv_queues_ok s" and j: "j < length (sv_queues s)" and a: "bq_act i (sv_queues s ! j) q"
    and t: "t = (if threads q ! i = Idle then sv_return i j (s\<lparr>sv_queues := (sv_queues s)[j := q]\<rparr>)
       else s\<lparr>sv_queues := (sv_queues s)[j := q]\<rparr>)"
  shows "waiting t \<subseteq># waiting s"
proof -
  note tq = tokens_queue [OF j, of q]
  from qok j a show ?thesis
  proof (cases rule: sv_act_cases)
    case (entry r cmds k)
    have "map (Pair r) [k..<length cmds] = (r, k) # map (Pair r) [Suc k..<length cmds]" using entry(3) by (simp add: upt_conv_Cons)
    with tokens_sub [OF entry(1), of "(sv_submitters s ! i)\<lparr>sb_pc := Submitting r cmds (Suc k)\<rparr>"] tq entry t
    have "waiting t = waiting s" by (simp add: waiting_def queue_tokens_def)
    then show ?thesis by simp
  next
    case io_mark
    with tq t have "waiting t = waiting s" by (simp add: waiting_def queue_tokens_def)
    then show ?thesis by simp
  next
    case (pio_mark k)
    with tq t have "waiting t = waiting s" by (simp add: waiting_def queue_tokens_def)
    then show ?thesis by simp
  next
    case (pop w v)
    with tq t have "waiting s = waiting t + mset (entry_tokens v)" by (simp add: waiting_def queue_tokens_def)
    then show ?thesis by simp
  next
    case wait
    with tq t have "waiting t = waiting s" by (simp add: waiting_def queue_tokens_def)
    then show ?thesis by simp
  qed
qed

lemma sv_fresh_step:
  assumes st: "sv_step b s t" and ok: "sv_fresh_ok s" and tok: "sv_tokens_ok s" and qok: "sv_queues_ok s"
  shows "sv_fresh_ok t"
proof -
  have same: ?thesis if "waiting t = waiting s" "sv_reqs t = sv_reqs s" using ok that by (simp add: sv_fresh_ok_def)
  show ?thesis using st
  proof cases
    case (submit i cmds rest now)
    let ?new = "map (Pair (length (sv_reqs s))) [0..<length cmds]"
    have w: "waiting t = waiting s + mset ?new"
      using tokens_sub [OF submit(3), of "\<lparr>sb_todo = rest, sb_pc = Submitting (length (sv_reqs s)) cmds 0\<rparr>"] submit(2,4)
      by (simp add: waiting_def)
    have "r < length (sv_reqs s)" if "(r, k) \<in># waiting s" for r k
      using that tok by (auto simp: sv_tokens_ok_def tokens_waiting unfinished_def)
    with ok submit(2) show ?thesis unfolding sv_fresh_ok_def w by (auto simp: nth_append req_start_def split: prod.splits)
  next
    case (refuse i cmds rest)
    with tokens_sub [OF refuse(3), of "\<lparr>sb_todo = rest, sb_pc = SubIdle\<rparr>"] show ?thesis by (intro same) (simp_all add: waiting_def)
  next
    case (submitted i rest r cmds)
    with tokens_sub [OF submitted(3), of "\<lparr>sb_todo = rest, sb_pc = SubIdle\<rparr>"] show ?thesis by (intro same) (simp_all add: waiting_def)
  next
    case (process w r i c)
    have "(r, i) \<in># mset (concat (map worker_tokens (sv_workers s)))"
      using process(3,4) nth_mem [OF process(3)] by (auto intro!: bexI [of _ "sv_workers s ! w"])
    moreover have "sole (waiting s + mset (concat (map worker_tokens (sv_workers s))))" using tok by (simp add: sv_tokens_ok_def tokens_waiting)
    ultimately have "(r, i) \<notin># waiting s" by (auto dest!: multi_member_split simp: sole_add)
    with ok process(2,5) req_at_frame(3) [OF process(6)] show ?thesis
      by (fastforce simp: sv_fresh_ok_def waiting_def nth_list_update)
  next
    case (call i j c)
    with tokens_queue [OF call(4), of "(sv_queues s ! j)\<lparr>threads := (threads (sv_queues s ! j))[i := Ready c]\<rparr>"] show ?thesis
      by (intro same) (simp_all add: waiting_def)
  next
    case (spurious j i c)
    with tokens_queue [OF spurious(3), of "(sv_queues s ! j)\<lparr>threads := (threads (sv_queues s ! j))[i := Ready c]\<rparr>"] show ?thesis
      by (intro same) (simp_all add: waiting_def)
  next
    case (act j i q)
    from waiting_act [OF qok act(3,4,2)] tokens_act [OF qok act(3,4,2)] ok show ?thesis
      by (auto simp: sv_fresh_ok_def dest: mset_subset_eqD)
  qed (use same in \<open>simp_all add: waiting_def\<close>)
qed

section \<open>All together\<close>

text \<open>What holds in every run, and what holds when \<open>Stop\<close> has not met a \<open>Submit\<close>.\<close>

definition sv_safe :: "Command list list list \<Rightarrow> service \<Rightarrow> bool" where
  "sv_safe progs s \<longleftrightarrow> sv_queues_ok s \<and> sv_tokens_ok s \<and> sv_fresh_ok s \<and> sv_reqs_ok s \<and> sv_stop_ok s \<and> sv_progs_ok progs s \<and> sv_subs_ok s \<and>
     0 < io_num s \<and> io_num s < length (sv_workers s)"

definition sv_ok :: "Command list list list \<Rightarrow> service \<Rightarrow> bool" where
  "sv_ok progs s \<longleftrightarrow> sv_safe progs s \<and> sv_marks_ok s \<and> \<not> sv_fault s"

lemma sv_step_sizes:
  assumes "sv_step b s t"
  shows "io_num t = io_num s \<and> length (sv_workers t) = length (sv_workers s) \<and> length (sv_queues t) = length (sv_queues s) \<and>
     length (sv_submitters t) = length (sv_submitters s)"
  using assms by cases (simp_all add: io_num_def sv_return_def Let_def)

lemma sv_safe_step: "sv_step b s t \<Longrightarrow> sv_safe progs s \<Longrightarrow> sv_safe progs t"
  unfolding sv_safe_def
  using sv_queues_step sv_tokens_step sv_fresh_step sv_reqs_step sv_stop_step sv_progs_step sv_subs_step sv_step_sizes by metis

lemma sv_safe_reachable: "(any_label sv_step)\<^sup>*\<^sup>* s t \<Longrightarrow> sv_safe progs s \<Longrightarrow> sv_safe progs t"
  by (induction rule: rtranclp_induct) (auto simp: any_label_def intro: sv_safe_step)

text \<open>Who still wants something of a queue finds it there.\<close>

lemma sv_wants_alive:
  assumes "sv_marks_ok s" and "sv_wants s i = Some (j, c)"
  shows "sv_alive s j"
  using assms(2)
proof (cases rule: sv_wants_cases)
  case (4 w)
  then show ?thesis using assms(1)
    by (auto simp: sv_alive_def sv_marks_ok_def sv_stop_ok_def worker_queue_def split: stopper_pc.splits)
qed (use assms(1) in \<open>auto simp: sv_alive_def sv_marks_ok_def split: stopper_pc.splits\<close>)

lemma sv_step_fault: "sv_step b s t \<Longrightarrow> sv_marks_ok s \<Longrightarrow> \<not> sv_fault s \<Longrightarrow> \<not> sv_fault t"
  by (erule sv_step.cases) (auto simp: sv_return_def Let_def dest: sv_wants_alive)

lemma sv_ok_step:
  assumes "calm_step b s t" and "sv_ok progs s"
  shows "sv_ok progs t"
proof -
  have "sv_step b s t" "sv_safe progs s" using assms by (simp_all add: calm_step_def sv_ok_def)
  then have "sv_safe progs t" by (rule sv_safe_step)
  moreover have "sv_marks_ok t" using sv_marks_step assms unfolding sv_ok_def sv_safe_def calm_step_def by blast
  moreover have "\<not> sv_fault t" using sv_step_fault assms unfolding sv_ok_def calm_step_def by blast
  ultimately show ?thesis by (simp add: sv_ok_def)
qed

lemma sv_start_ok:
  assumes "0 < n" and "0 < k"
  shows "sv_ok progs (sv_start n k progs)"
proof -
  let ?s = "sv_start n k progs"
  have io: "io_num ?s = n" by (simp add: io_num_def sv_start_def)
  have q: "sv_queues ?s ! j = system_new QUEUE_DEFAULT_CAPACITY (length progs + 1 + (n + k))" if "j < Suc n" for j
    using that by (simp add: sv_start_def del: replicate_Suc)
  have l: "length (sv_queues ?s) = Suc n" "length (sv_workers ?s) = n + k" "length (sv_submitters ?s) = length progs"
    by (simp_all add: sv_start_def)
  have "sv_queues_ok ?s"
    using io l q by (simp add: sv_queues_ok_def queue_at_new) (simp add: system_new_def thread_count_def l)
  moreover have "queue_tokens (sv_queues ?s ! j) = []" if "j < Suc n" for j
    using q [OF that] by (simp add: queue_tokens_def system_new_def BlockingQueue_new_def)
  then have "\<forall>x\<in>set (sv_queues ?s). queue_tokens x = []" using l(1) by (metis in_set_conv_nth)
  then have "tokens ?s = {#}" by (simp add: tokens_def) (auto simp: sv_start_def)
  then have "sv_tokens_ok ?s" by (simp add: sv_tokens_ok_def sole_def unfinished_def) (simp add: sv_start_def)
  moreover have "waiting ?s = {#}" using \<open>tokens ?s = {#}\<close> by (simp add: tokens_waiting)
  then have "sv_fresh_ok ?s" by (simp add: sv_fresh_ok_def)
  moreover have "sv_reqs_ok ?s" by (simp add: sv_reqs_ok_def sv_start_def)
  moreover have "sv_stop_ok ?s" by (simp add: sv_stop_ok_def) (simp add: sv_start_def)
  moreover have "quits ?s j = 0" for j
  proof -
    have "{w. w < length (sv_workers ?s) \<and> sv_workers ?s ! w = Quit \<and> worker_queue (io_num ?s) w = j} = {}"
      by (auto simp: sv_start_def)
    then show ?thesis unfolding quits_def by (metis card.empty)
  qed
  then have "sv_marks_ok ?s"
    using q l(1) by (simp add: sv_marks_ok_def sv_stop_ok_def marks_sent_def)
      (simp add: sv_start_def marks_at_end_def system_new_def BlockingQueue_new_def)
  moreover have "concat (map sb_todo (sv_submitters ?s)) = concat progs"
    by (simp add: sv_start_def comp_def)
  then have "sv_progs_ok progs ?s" by (simp add: sv_progs_ok_def) (simp add: sv_start_def)
  moreover have "sv_subs_ok ?s" by (simp add: sv_subs_ok_def sv_start_def)
  moreover have "\<not> sv_fault ?s" by (simp add: sv_start_def)
  ultimately show ?thesis using assms io l by (simp add: sv_ok_def sv_safe_def)
qed

section \<open>Progress\<close>

definition submitters_done :: "service \<Rightarrow> bool" where
  "submitters_done s \<longleftrightarrow> (\<forall>b\<in>set (sv_submitters s). b = \<lparr>sb_todo = [], sb_pc = SubIdle\<rparr>)"

definition sv_final :: "service \<Rightarrow> bool" where
  "sv_final s \<longleftrightarrow> sv_stopper s = StopDone \<and> submitters_done s"

lemma req_at_enabled:
  assumes "k < length (rc_progress c)" and "rc_progress c ! k \<noteq> Completed"
  shows "\<exists>d. req_at k c d"
proof (cases "rc_progress c ! k")
  case Queued
  obtain err r where "Process_call k (0, 0) (rc_req c) = (err, r)" by fastforce
  with req_at.call [OF assms(1) Queued] show ?thesis by blast
next
  case (Called err)
  with req_at.fail [OF assms(1)] show ?thesis by blast
next
  case Counted
  obtain cb r where "Process_complete (rc_req c) = (cb, r)" by fastforce
  with req_at.complete [OF assms(1) Counted] show ?thesis by blast
qed (use assms in simp)

lemma worker_can_process:
  assumes "sv_tokens_ok s" and "w < length (sv_workers s)" and "sv_workers s ! w = Working r k"
  shows "r < length (sv_reqs s) \<and> (\<exists>c. req_at k (sv_reqs s ! r) c)"
proof -
  have "(r, k) \<in># mset (concat (map worker_tokens (sv_workers s)))"
    using assms(2,3) nth_mem [OF assms(2)] by (auto intro!: bexI [of _ "sv_workers s ! w"])
  then have "(r, k) \<in> unfinished (sv_reqs s)" using assms(1) by (auto simp: sv_tokens_ok_def tokens_def)
  then show ?thesis using req_at_enabled by (auto simp: unfinished_def)
qed

lemma queue_idx_less: "0 < n \<Longrightarrow> queue_idx n c \<le> n"
  by (simp add: queue_idx_def less_imp_le)

lemma quits_all:
  assumes "quits s (io_num s) = length (sv_workers s) - io_num s" and "io_num s \<le> w" and "w < length (sv_workers s)"
  shows "sv_workers s ! w = Quit"
proof -
  let ?Q = "{w. w < length (sv_workers s) \<and> sv_workers s ! w = Quit \<and> worker_queue (io_num s) w = io_num s}"
  have "?Q \<subseteq> {io_num s..<length (sv_workers s)}" by (auto simp: worker_queue_def)
  moreover have "card ?Q = card {io_num s..<length (sv_workers s)}" using assms(1) by (simp add: quits_def)
  ultimately have "?Q = {io_num s..<length (sv_workers s)}" by (intro card_subset_eq) auto
  with assms(2,3) show ?thesis by (auto simp: set_eq_iff)
qed

lemma quits_full:
  assumes "\<And>w. io_num s \<le> w \<Longrightarrow> w < length (sv_workers s) \<Longrightarrow> sv_workers s ! w = Quit"
  shows "quits s (io_num s) = length (sv_workers s) - io_num s"
proof -
  have "{w. w < length (sv_workers s) \<and> sv_workers s ! w = Quit \<and> worker_queue (io_num s) w = io_num s} =
      {io_num s..<length (sv_workers s)}" using assms by (auto simp: worker_queue_def)
  then show ?thesis by (simp add: quits_def)
qed

lemma quits_pos: "0 < quits s j \<longleftrightarrow> (\<exists>w<length (sv_workers s). sv_workers s ! w = Quit \<and> worker_queue (io_num s) w = j)"
  by (auto simp: quits_def card_gt_0_iff)

text \<open>When a fetching thread waits, its queue is empty, and then all marks of the queue have been met.\<close>

lemma marks_at_end_Nil: "marks_at_end [] q k \<Longrightarrow> q = k"
  by (auto simp: marks_at_end_def)

lemma sv_blocked:
  assumes ok: "sv_ok progs s" and stuck: "\<And>t. sv_step False s t \<Longrightarrow> sv_stopper s = StopIdle \<and> sv_stopper t \<noteq> StopIdle"
  shows "submitters_done s \<and> (sv_stopper s = StopIdle \<or> sv_final s)"
proof -
  let ?n = "io_num s" and ?m = "length (sv_submitters s)" and ?W = "length (sv_workers s)"
  from ok have qok: "sv_queues_ok s" and tok: "sv_tokens_ok s" and mk: "sv_marks_ok s" and n: "0 < ?n" "?n < ?W"
    by (auto simp: sv_ok_def sv_safe_def)
  have nq: "?n < length (sv_queues s)" using qok by (simp add: sv_queues_ok_def)
  have cap: "0 < unat QUEUE_DEFAULT_CAPACITY" by (simp add: QUEUE_DEFAULT_CAPACITY_def unsigned_minus_1_eq_mask mask_eq_exp_minus_1)
  have no_act: "\<not> bq_act i (sv_queues s ! j) q" if j: "j < length (sv_queues s)" for i j q
  proof
    assume a: "bq_act i (sv_queues s ! j) q"
    from sv_act_wants [OF qok j a] obtain c where "sv_wants s i = Some (j, c)" by auto
    note alive = sv_wants_alive [OF mk this]
    from qok j a show False
      using stuck [OF sv_step.act [OF j a alive]] by (cases rule: sv_act_cases) (simp_all split: if_splits)
  qed
  have no_call: "threads (sv_queues s ! j) ! i \<noteq> Idle"
    if "sv_wants s i = Some (j, c)" "j < length (sv_queues s)" "i < length (threads (sv_queues s ! j))" for i j c
    using stuck [OF sv_step.call [OF that _ sv_wants_alive [OF mk that(1)]]] by auto
  have asleep: "if is_pop c then m_queue (bq (sv_queues s ! j)) = []
      else unat QUEUE_DEFAULT_CAPACITY \<le> length (m_queue (bq (sv_queues s ! j)))"
    if "sv_wants s i = Some (j, c)" "j < length (sv_queues s)" "i < thread_count s" for i j c
  proof (rule queue_at_stuck [OF sv_queues_ok_at(1) [OF qok that(2)] no_act [OF that(2)]])
    show "threads (sv_queues s ! j) ! i' \<noteq> Idle" if "i' < length (threads (sv_queues s ! j))" "wants_at s j i' \<noteq> None" for i'
      using that no_call \<open>j < length (sv_queues s)\<close> by (auto simp: wants_at_Some dest: not_None_eq [THEN iffD1])
  qed (use that sv_queues_ok_at(2) [OF qok that(2)] in \<open>simp_all add: wants_at_Some\<close>)
  have workers: "sv_workers s ! w = Quit \<or> (sv_workers s ! w = Fetching \<and>
      quits s (worker_queue ?n w) = marks_sent s (worker_queue ?n w) \<and> m_queue (bq (sv_queues s ! worker_queue ?n w)) = [])"
    if w: "w < ?W" for w
  proof (cases "sv_workers s ! w")
    case Fetching
    have j: "worker_queue ?n w < length (sv_queues s)" using nq by (simp add: worker_queue_def)
    have "sv_wants s (Suc (?m + w)) = Some (worker_queue ?n w, CPop)" using w Fetching by (simp add: sv_wants_def)
    from asleep [OF this j] w have e: "m_queue (bq (sv_queues s ! worker_queue ?n w)) = []" by (simp add: thread_count_def)
    have "marks_at_end (m_queue (bq (sv_queues s ! worker_queue ?n w))) (quits s (worker_queue ?n w)) (marks_sent s (worker_queue ?n w))"
      using mk j by (simp add: sv_marks_ok_def sv_stop_ok_def)
    with e Fetching marks_at_end_Nil show ?thesis by simp
  next
    case (Working r k)
    with worker_can_process [OF tok w] obtain c where "r < length (sv_reqs s)" "req_at k (sv_reqs s ! r) c" by blast
    from stuck [OF sv_step.process [OF w Working this]] show ?thesis by simp
  qed simp
  have some_worker: "\<exists>w<?W. worker_queue ?n w = j" if "j \<le> ?n" for j
  proof (cases "j < ?n")
    case True
    with n show ?thesis by (intro exI [of _ j]) (simp add: worker_queue_def)
  next
    case False
    with n that show ?thesis by (intro exI [of _ ?n]) (simp add: worker_queue_def)
  qed
  have no_push: "sv_workers s ! w = Quit"
    if p: "sv_wants s i = Some (j, CPush v)" "i < thread_count s" "j \<le> ?n" and w: "w < ?W" "worker_queue ?n w = j" for i j v w
  proof -
    have "m_queue (bq (sv_queues s ! j)) \<noteq> []" using asleep [OF p(1) _ p(2)] p(3) nq cap by auto
    with workers [OF w(1)] w(2) show ?thesis by auto
  qed
  have sent: "quits s j \<le> marks_sent s j" if "j \<le> ?n" for j
  proof -
    have "marks_at_end (m_queue (bq (sv_queues s ! j))) (quits s j) (marks_sent s j)"
      using mk that nq by (simp add: sv_marks_ok_def sv_stop_ok_def)
    then show ?thesis by (auto simp: marks_at_end_def)
  qed
  have subs: "sv_submitters s ! i = \<lparr>sb_todo = [], sb_pc = SubIdle\<rparr>" if i: "i < ?m" for i
  proof -
    obtain todo pc where b: "sv_submitters s ! i = \<lparr>sb_todo = todo, sb_pc = pc\<rparr>" by (cases "sv_submitters s ! i") auto
    show ?thesis
    proof (cases pc)
      case SubIdle
      show ?thesis
      proof (cases todo)
        case (Cons cmds rest)
        with b SubIdle have "sv_submitters s ! i = \<lparr>sb_todo = cmds # rest, sb_pc = SubIdle\<rparr>" by simp
        from stuck [OF sv_step.submit [OF i this]] stuck [OF sv_step.refuse [OF i this]] show ?thesis
          by (cases "sv_state s = AIO_STARTED") auto
      qed (use b SubIdle in simp)
    next
      case (Submitting r cmds k)
      have "sv_stopper s = StopIdle" using mk i b Submitting by (auto simp: sv_marks_ok_def sv_stop_ok_def)
      then have q0: "quits s j = 0" if "j \<le> ?n" for j using sent [OF that] by (simp add: marks_sent_def)
      have "\<not> k < length cmds"
      proof
        assume "k < length cmds"
        then have p: "sv_wants s i = Some (queue_idx ?n (cmds ! k), CPush (ReqEx r k))"
          using i b Submitting by (simp add: sv_wants_def submitter_wants_def Let_def)
        note idx = queue_idx_less [OF n(1), of "cmds ! k"]
        obtain w where w: "w < ?W" "worker_queue ?n w = queue_idx ?n (cmds ! k)" using some_worker [OF idx] by blast
        have "sv_workers s ! w = Quit" by (rule no_push [OF p _ idx w]) (use i in \<open>simp add: thread_count_def\<close>)
        with w have "0 < quits s (queue_idx ?n (cmds ! k))" by (auto simp: quits_pos)
        with q0 [OF idx] show False by simp
      qed
      moreover have "k \<noteq> length cmds" using stuck [OF sv_step.submitted [OF i]] b Submitting by fastforce
      moreover have "k \<le> length cmds" using ok i b Submitting by (simp add: sv_ok_def sv_safe_def sv_subs_ok_def)
      ultimately show ?thesis by simp
    qed
  qed
  then have all_done: "submitters_done s" by (auto simp: submitters_done_def in_set_conv_nth)
  have m: "?m < thread_count s" by (simp add: thread_count_def)
  show ?thesis
  proof (cases "sv_stopper s")
    case (IoMark i)
    then have "i \<le> ?n" using mk by (simp add: sv_marks_ok_def sv_stop_ok_def)
    have "\<not> i < ?n"
    proof
      assume i: "i < ?n"
      then have "sv_wants s ?m = Some (i, CPush EmptyReq)" using IoMark by (simp add: sv_wants_def stopper_wants_def Let_def)
      from no_push [OF this m, of i] i n have "sv_workers s ! i = Quit" by (simp add: worker_queue_def)
      then have "0 < quits s i" using i n by (auto simp: quits_pos worker_queue_def)
      with sent [of i] IoMark i show False by (simp add: marks_sent_def)
    qed
    with \<open>i \<le> ?n\<close> have i: "i = ?n" by simp
    have "sv_workers s ! w = Quit" if w: "w < ?n" for w
    proof (rule ccontr)
      assume "sv_workers s ! w \<noteq> Quit"
      with workers [of w] w n have "quits s w = marks_sent s w" by (simp add: worker_queue_def)
      then have "0 < quits s w" using IoMark i w by (simp add: marks_sent_def)
      then have "sv_workers s ! w = Quit" using w by (auto simp: quits_pos worker_queue_def split: if_splits)
      with \<open>sv_workers s ! w \<noteq> Quit\<close> show False by simp
    qed
    with stuck [OF sv_step.join_io] IoMark i show ?thesis by simp
  next
    case (PioMark k)
    then have "k \<le> ?W - ?n" using mk by (simp add: sv_marks_ok_def sv_stop_ok_def)
    have ms: "marks_sent s ?n = k" using PioMark by (simp add: marks_sent_def)
    have "\<not> k < ?W - ?n"
    proof
      assume k: "k < ?W - ?n"
      then have p: "sv_wants s ?m = Some (?n, CPush EmptyReq)" using PioMark by (simp add: sv_wants_def stopper_wants_def Let_def)
      have "sv_workers s ! w = Quit" if "?n \<le> w" "w < ?W" for w
        by (rule no_push [OF p m]) (use that in \<open>simp_all add: worker_queue_def\<close>)
      from quits_full [OF this] sent [of ?n] ms k show False by simp
    qed
    with \<open>k \<le> ?W - ?n\<close> have k: "k = ?W - ?n" by simp
    have "sv_workers s ! w = Quit" if w: "?n \<le> w" "w < ?W" for w
    proof (rule ccontr)
      assume nq: "sv_workers s ! w \<noteq> Quit"
      with workers [OF w(2)] w(1) ms k have "quits s ?n = ?W - ?n" by (simp add: worker_queue_def)
      from quits_all [OF this w] nq show False by simp
    qed
    with stuck [OF sv_step.join_pio] PioMark k show ?thesis by simp
  qed (use all_done in \<open>simp_all add: sv_final_def\<close>)
qed

text \<open>A bound on the steps that are left.\<close>

fun progress_weight :: "progress \<Rightarrow> nat" where
  "progress_weight Queued = 3"
| "progress_weight (Called err) = 2"
| "progress_weight Counted = 1"
| "progress_weight Completed = 0"

definition req_weight :: "req_conf \<Rightarrow> nat" where
  "req_weight c = sum_list (map progress_weight (rc_progress c))"

fun sub_weight :: "submitter_pc \<Rightarrow> nat" where
  "sub_weight SubIdle = 0"
| "sub_weight (Submitting r cmds k) = 6 * (length cmds - k) + 1"

definition submitter_weight :: "submitter \<Rightarrow> nat" where
  "submitter_weight b = sum_list (map (\<lambda>cmds. 9 * length cmds + 2) (sb_todo b)) + sub_weight (sb_pc b)"

fun stopper_weight :: "nat \<Rightarrow> nat \<Rightarrow> stopper_pc \<Rightarrow> nat" where
  "stopper_weight n workers StopIdle = 6 * workers + 3"
| "stopper_weight n workers (IoMark i) = 6 * (n - i) + 6 * (workers - n) + 2"
| "stopper_weight n workers (PioMark k) = 6 * (workers - n - k) + 1"
| "stopper_weight n workers StopDone = 0"

definition queue_weight :: "RequestEx system \<Rightarrow> nat" where
  "queue_weight q = 3 * length (m_queue (bq q)) + threads_weight q"

definition sv_weight :: "service \<Rightarrow> nat" where
  "sv_weight s = sum_list (map submitter_weight (sv_submitters s)) +
     stopper_weight (io_num s) (length (sv_workers s)) (sv_stopper s) +
     sum_list (map queue_weight (sv_queues s)) + sum_list (map req_weight (sv_reqs s))"

lemma req_at_weight:
  assumes "req_at k c d"
  shows "req_weight d < req_weight c"
  using assms
proof cases
  case (call sys err r)
  with sum_list_update_nat [OF call(2), of progress_weight "Called err"] show ?thesis by (simp add: req_weight_def)
next
  case (fail err)
  with sum_list_update_nat [OF fail(2), of progress_weight Counted] show ?thesis by (simp add: req_weight_def)
next
  case (complete cb r)
  with sum_list_update_nat [OF complete(2), of progress_weight Completed] show ?thesis by (simp add: req_weight_def)
qed

lemma queue_weight_act:
  assumes "queue_at w cap q" and "bq_act i q r"
  shows "length (m_queue (bq r)) = Suc (length (m_queue (bq q))) \<Longrightarrow> queue_weight r \<le> queue_weight q + 5"
    and "length (m_queue (bq q)) = Suc (length (m_queue (bq r))) \<Longrightarrow> queue_weight r < queue_weight q"
    and "m_queue (bq r) = m_queue (bq q) \<Longrightarrow> threads r ! i \<noteq> Idle \<Longrightarrow> queue_weight r < queue_weight q"
  using queue_at_act_weight [OF assms] by (simp_all add: queue_weight_def)

lemma queue_weight_threads:
  assumes "i < length (threads q)"
  shows "queue_weight (q\<lparr>threads := (threads q)[i := th]\<rparr>) + thread_weight (threads q ! i) = queue_weight q + thread_weight th"
  using threads_weight_set [OF assms, of th] by (simp add: queue_weight_def)

lemma sv_weight_step:
  assumes st: "sv_step False s t" and ok: "sv_ok progs s"
  shows "sv_weight t < sv_weight s"
proof -
  have qok: "sv_queues_ok s" and mk: "sv_marks_ok s" and n: "io_num s < length (sv_workers s)" using ok by (simp_all add: sv_ok_def sv_safe_def)
  note sz = sv_step_sizes [OF st]
  from st show ?thesis
  proof cases
    case (submit i cmds rest now)
    have "req_weight (req_start cmds now) = 3 * length cmds" by (simp add: req_weight_def req_start_def sum_list_replicate)
    with sum_list_update_nat [OF submit(2), of submitter_weight "\<lparr>sb_todo = rest, sb_pc = Submitting (length (sv_reqs s)) cmds 0\<rparr>"]
      submit(1,3) sz show ?thesis by (simp add: sv_weight_def submitter_weight_def)
  next
    case (refuse i cmds rest)
    with sum_list_update_nat [OF refuse(2), of submitter_weight "\<lparr>sb_todo = rest, sb_pc = SubIdle\<rparr>"] sz
    show ?thesis by (simp add: sv_weight_def submitter_weight_def)
  next
    case (submitted i rest r cmds)
    with sum_list_update_nat [OF submitted(2), of submitter_weight "\<lparr>sb_todo = rest, sb_pc = SubIdle\<rparr>"] sz
    show ?thesis by (simp add: sv_weight_def submitter_weight_def)
  next
    case stop
    with sz n show ?thesis by (simp add: sv_weight_def)
  next
    case (fault i j c)
    with sv_wants_alive [OF mk] show ?thesis by blast
  next
    case join_io
    with sz n show ?thesis by (simp add: sv_weight_def)
  next
    case join_pio
    with sz show ?thesis by (simp add: sv_weight_def)
  next
    case (process w r i c)
    with sum_list_update_nat [OF process(4), of req_weight c] req_at_weight [OF process(5)] sz
    show ?thesis by (simp add: sv_weight_def)
  next
    case (call i j c)
    with sum_list_update_nat [OF call(3), of queue_weight "(sv_queues s ! j)\<lparr>threads := (threads (sv_queues s ! j))[i := Ready c]\<rparr>"]
      queue_weight_threads [OF call(4), of "Ready c"] sz show ?thesis by (simp add: sv_weight_def)
  next
    case (act j i q)
    note u = sum_list_update_nat [OF act(2), of queue_weight q] and w = queue_weight_act [OF sv_queues_ok_at(1) [OF qok act(2)] act(3)]
    from qok act(2,3) show ?thesis
    proof (cases rule: sv_act_cases)
      case (entry r cmds k)
      have "6 * (length cmds - Suc k) + 6 = 6 * (length cmds - k)" using entry(3) by simp
      then have "submitter_weight ((sv_submitters s ! i)\<lparr>sb_pc := Submitting r cmds (Suc k)\<rparr>) + 6 = submitter_weight (sv_submitters s ! i)"
        using entry(2) by (simp add: submitter_weight_def)
      with sum_list_update_nat [OF entry(1), of submitter_weight "(sv_submitters s ! i)\<lparr>sb_pc := Submitting r cmds (Suc k)\<rparr>"]
        entry act(1) u w(1) sz show ?thesis by (simp add: sv_weight_def)
    next
      case io_mark
      with act(1) u w(1) sz show ?thesis by (simp add: sv_weight_def)
    next
      case (pio_mark k)
      with act(1) u w(1) sz show ?thesis by (simp add: sv_weight_def)
    next
      case (pop x v)
      with act(1) u w(2) sz show ?thesis by (simp add: sv_weight_def)
    next
      case wait
      with act(1) u w(3) sz show ?thesis by (simp add: sv_weight_def)
    qed
  qed simp
qed

lemma sv_weight_spurious:
  assumes "sv_step True s t"
  shows "sv_weight t \<le> Suc (sv_weight s)"
  using assms
proof cases
  case (spurious j i c)
  with sum_list_update_nat [OF spurious(2), of queue_weight "(sv_queues s ! j)\<lparr>threads := (threads (sv_queues s ! j))[i := Ready c]\<rparr>"]
    queue_weight_threads [OF spurious(3), of "Ready c"] sv_step_sizes [OF assms] show ?thesis by (simp add: sv_weight_def)
qed simp_all

lemma sv_weight_start:
  "sv_weight (sv_start n k progs) = sum_list (map (\<lambda>p. sum_list (map (\<lambda>cmds. 9 * length cmds + 2) p)) progs) +
     6 * (n + k) + 3 + Suc n * (3 * (length progs + 1 + (n + k)))"
proof -
  have "queue_weight (system_new cap T :: RequestEx system) = 3 * T" for cap T
    by (simp add: queue_weight_def threads_weight_def system_new_def BlockingQueue_new_def sum_list_replicate)
  moreover have "sum_list (map submitter_weight (map (\<lambda>p. \<lparr>sb_todo = p, sb_pc = SubIdle\<rparr>) progs)) =
      sum_list (map (\<lambda>p. sum_list (map (\<lambda>cmds. 9 * length cmds + 2) p)) progs)"
    by (simp add: submitter_weight_def comp_def)
  ultimately show ?thesis
    by (simp add: sv_weight_def sv_start_def sum_list_replicate del: replicate_Suc mult_Suc)
qed

interpretation sv_progress: bounded_progress calm_step "sv_ok progs" sv_final sv_weight
  for progs :: "Command list list list"
proof
  fix b s t
  assume "calm_step b s t" and "sv_ok progs s"
  then show "sv_ok progs t" by (rule sv_ok_step)
next
  fix s t
  assume "calm_step False s t" and "sv_ok progs s"
  then show "sv_weight t < sv_weight s" by (intro sv_weight_step) (simp_all add: calm_step_def)
next
  fix s t
  assume "calm_step True s t"
  then show "sv_weight t \<le> Suc (sv_weight s)" by (intro sv_weight_spurious) (simp add: calm_step_def)
next
  fix s
  assume ok: "sv_ok progs s" and nf: "\<not> sv_final s"
  show "\<exists>t. calm_step False s t"
  proof (rule ccontr)
    assume no: "\<nexists>t. calm_step False s t"
    then have "sv_stopper s = StopIdle \<and> sv_stopper t \<noteq> StopIdle" if "sv_step False s t" for t
      using that by (auto simp: calm_step_def)
    from sv_blocked [OF ok this] have d: "submitters_done s" "sv_stopper s = StopIdle \<or> sv_final s" by blast+
    with nf have si: "sv_stopper s = StopIdle" by blast
    then have "sv_state s = AIO_STARTED" using ok by (simp add: sv_ok_def sv_safe_def sv_marks_ok_def sv_stop_ok_def)
    moreover have "\<forall>b\<in>set (sv_submitters s). sb_pc b = SubIdle" using d(1) by (auto simp: submitters_done_def)
    ultimately show False using no sv_step.stop [OF si] by (auto simp: calm_step_def)
  qed
qed

text \<open>While nobody stops the service the submitters get to their end.\<close>

definition running_step :: "bool \<Rightarrow> service \<Rightarrow> service \<Rightarrow> bool" where
  "running_step b s t \<longleftrightarrow> sv_step b s t \<and> sv_stopper t = StopIdle"

interpretation sv_submitters: bounded_progress running_step "\<lambda>s. sv_ok progs s \<and> sv_stopper s = StopIdle"
    submitters_done sv_weight
  for progs :: "Command list list list"
proof
  fix b s t
  assume "running_step b s t" and "sv_ok progs s \<and> sv_stopper s = StopIdle"
  then show "sv_ok progs t \<and> sv_stopper t = StopIdle" using sv_ok_step [of b s t progs] by (simp add: running_step_def calm_step_def)
next
  fix s t
  assume "running_step False s t" and "sv_ok progs s \<and> sv_stopper s = StopIdle"
  then show "sv_weight t < sv_weight s" by (auto simp: running_step_def intro: sv_weight_step)
next
  fix s t
  assume "running_step True s t"
  then show "sv_weight t \<le> Suc (sv_weight s)" by (auto simp: running_step_def intro: sv_weight_spurious)
next
  fix s
  assume ok: "sv_ok progs s \<and> sv_stopper s = StopIdle" and nd: "\<not> submitters_done s"
  show "\<exists>t. running_step False s t"
  proof (rule ccontr)
    assume "\<nexists>t. running_step False s t"
    then have "sv_stopper s = StopIdle \<and> sv_stopper t \<noteq> StopIdle" if "sv_step False s t" for t
      using that ok by (auto simp: running_step_def)
    with sv_blocked [of progs s] ok nd show False by blast
  qed
qed

section \<open>Answers\<close>

lemma sv_ok_reachable: "(any_label calm_step)\<^sup>*\<^sup>* s t \<Longrightarrow> sv_ok progs s \<Longrightarrow> sv_ok progs t"
  by (rule sv_progress.ok_reachable)

text \<open>What a request has to show for itself.\<close>

definition answered :: "Command list \<times> int \<Rightarrow> req_conf \<Rightarrow> bool" where
  "answered a c \<longleftrightarrow> map command_static (m_cmds (rc_req c)) = map command_static (fst a) \<and>
     (\<forall>p\<in>set (rc_progress c). p = Completed) \<and>
     rc_calls c = (if fst a = [] then [] else
       [(m_cmds (rc_req c), of_nat (card {i. i < length (fst a) \<and> c_ret (m_cmds (rc_req c) ! i) = -1}), -1 - snd a)])"

lemma sv_accepted_from:
  assumes "sv_safe progs s" and "r < length (sv_accepted s)"
  shows "fst (sv_accepted s ! r) \<in> set (concat progs)"
proof -
  have "mset (map fst (sv_accepted s)) + mset (concat (map sb_todo (sv_submitters s))) \<subseteq># mset (concat progs)"
    using assms(1) by (simp add: sv_ok_def sv_safe_def sv_progs_ok_def)
  with mset_subset_eq_add_left have "mset (map fst (sv_accepted s)) \<subseteq># mset (concat progs)"
    by (rule subset_mset.trans)
  from mset_subset_eqD [OF this, of "fst (sv_accepted s ! r)"] assms(2) show ?thesis by simp
qed

lemma sv_stopped:
  assumes ok: "sv_ok progs s" and st: "sv_stopper s = StopDone"
  shows "unfinished (sv_reqs s) = {}" and "\<forall>q\<in>set (sv_queues s). m_queue (bq q) = []"
proof -
  from ok have mk: "sv_marks_ok s" and qok: "sv_queues_ok s" and tok: "sv_tokens_ok s" and n: "0 < io_num s" "io_num s < length (sv_workers s)"
    by (auto simp: sv_ok_def sv_safe_def)
  have quit: "\<And>w. w < length (sv_workers s) \<Longrightarrow> sv_workers s ! w = Quit" using mk st by (simp add: sv_marks_ok_def sv_stop_ok_def)
  have e: "m_queue (bq (sv_queues s ! j)) = []" if j: "j < length (sv_queues s)" for j
  proof -
    have jn: "j \<le> io_num s" using j by (simp add: io_num_def)
    have m: "marks_at_end (m_queue (bq (sv_queues s ! j))) (quits s j) (marks_sent s j)" using mk j by (simp add: sv_marks_ok_def sv_stop_ok_def)
    have "0 < quits s j \<and> quits s j = marks_sent s j"
    proof (cases "j < io_num s")
      case True
      with quit n have "0 < quits s j" by (auto simp: quits_pos worker_queue_def intro!: exI [of _ j])
      moreover have "marks_sent s j = 1" using st True by (simp add: marks_sent_def)
      moreover have "quits s j \<le> marks_sent s j" using m by (auto simp: marks_at_end_def)
      ultimately show ?thesis by linarith
    next
      case False
      with jn have "j = io_num s" by simp
      with quits_full [of s] quit st n show ?thesis by (simp add: marks_sent_def)
    qed
    with m show ?thesis by (auto simp: marks_at_end_def)
  qed
  then show q: "\<forall>q\<in>set (sv_queues s). m_queue (bq q) = []" by (auto simp: in_set_conv_nth)
  have "worker_tokens x = []" if "x \<in> set (sv_workers s)" for x using that quit by (auto simp: in_set_conv_nth)
  moreover have "sub_tokens (sb_pc b) = []" if "b \<in> set (sv_submitters s)" for b
    using that mk st by (auto simp: sv_marks_ok_def sv_stop_ok_def in_set_conv_nth)
  moreover have "queue_tokens x = []" if "x \<in> set (sv_queues s)" for x using that q by (simp add: queue_tokens_def)
  ultimately have "tokens s = {#}" by (simp add: tokens_def)
  then show "unfinished (sv_reqs s) = {}" using tok by (auto simp: sv_tokens_ok_def)
qed

lemma sv_request_calls:
  assumes ok: "sv_safe progs s" and small: "\<forall>cmds\<in>set (concat progs). length cmds < 2 ^ 32"
    and r: "r < length (sv_accepted s)"
  shows "if \<exists>k. (r, k) \<in> unfinished (sv_reqs s) then rc_calls (sv_reqs s ! r) = [] else answered (sv_accepted s ! r) (sv_reqs s ! r)"
proof -
  let ?a = "sv_accepted s ! r" and ?c = "sv_reqs s ! r"
  have r': "r < length (sv_reqs s)" and run: "req_step\<^sup>*\<^sup>* (req_start (fst ?a) (snd ?a)) ?c"
    using ok r by (simp_all add: sv_safe_def sv_reqs_ok_def)
  have "(\<exists>k. (r, k) \<in> unfinished (sv_reqs s)) \<longleftrightarrow> \<not> (\<forall>p\<in>set (rc_progress ?c). p = Completed)"
    using r' by (simp add: unfinished_def all_set_conv_all_nth)
  moreover have "length (fst ?a) < 2 ^ 32" using sv_accepted_from [OF ok r] small by blast
  ultimately show ?thesis using req_calls [OF run] req_static [OF run] by (simp add: answered_def)
qed

lemma sv_stopped_answers:
  assumes ok: "sv_ok progs s" and st: "sv_stopper s = StopDone" and small: "\<forall>cmds\<in>set (concat progs). length cmds < 2 ^ 32"
    and r: "r < length (sv_accepted s)"
  shows "answered (sv_accepted s ! r) (sv_reqs s ! r)"
  using sv_request_calls [of progs s r] sv_stopped(1) [OF ok st] ok small r by (simp add: sv_ok_def)

lemma sv_accepted_mono: "(any_label sv_step)\<^sup>*\<^sup>* s t \<Longrightarrow> \<exists>xs. sv_accepted t = sv_accepted s @ xs"
proof (induction rule: rtranclp_induct)
  case (step t u)
  then obtain b where "sv_step b t u" by (auto simp: any_label_def)
  from sv_accepted_step [OF this] step.IH show ?case by auto
qed simp

lemma sv_all_accepted:
  assumes ok: "sv_ok progs r" and "sv_stopper r = StopIdle" and "submitters_done r" and "(any_label calm_step)\<^sup>*\<^sup>* r s"
  shows "mset (map fst (sv_accepted s)) = mset (concat progs)"
proof -
  have okS: "sv_ok progs s" by (rule sv_ok_reachable [OF assms(4) ok])
  have "concat (map sb_todo (sv_submitters r)) = []" using assms(3) by (auto simp: submitters_done_def)
  moreover have "mset (map fst (sv_accepted r)) + mset (concat (map sb_todo (sv_submitters r))) = mset (concat progs)"
    using ok assms(2) by (simp add: sv_ok_def sv_safe_def sv_progs_ok_def)
  ultimately have all: "mset (map fst (sv_accepted r)) = mset (concat progs)" by (simp only: mset.simps add_0_right)
  obtain xs where xs: "sv_accepted s = sv_accepted r @ xs" using sv_accepted_mono [OF calm_step_sv [OF assms(4)]] by blast
  have "mset (map fst (sv_accepted s)) + mset (concat (map sb_todo (sv_submitters s))) \<subseteq># mset (concat progs)"
    using okS by (simp add: sv_ok_def sv_safe_def sv_progs_ok_def)
  then show ?thesis
    unfolding all [symmetric] xs by (simp add: add.assoc subset_mset.le_iff_add)
qed

section \<open>Stopping during a submission\<close>

text \<open>Once \<open>Stop\<close> is through, no request changes any more.\<close>

lemma sv_stopped_step:
  assumes st: "sv_step b s t" and ok: "sv_safe progs s" and stopped: "sv_stopper s = StopDone"
  shows "sv_stopper t = StopDone \<and> sv_reqs t = sv_reqs s \<and> sv_accepted t = sv_accepted s"
proof -
  have qok: "sv_queues_ok s" and state: "sv_state s = AIO_STOPPED" and quit: "\<And>w. w < length (sv_workers s) \<Longrightarrow> sv_workers s ! w = Quit"
    using ok stopped by (simp_all add: sv_safe_def sv_stop_ok_def)
  from st show ?thesis
  proof cases
    case (process w r i c)
    with quit show ?thesis by simp
  next
    case (act j i q)
    with tokens_act [OF qok act(3,4,2)] have "sv_reqs t = sv_reqs s \<and> sv_accepted t = sv_accepted s" by simp
    moreover from qok act(3,4) have "sv_stopper t = StopDone"
      using act(2) stopped by (cases rule: sv_act_cases) simp_all
    ultimately show ?thesis by simp
  qed (use stopped state in simp_all)
qed

lemma sv_stopped_run:
  assumes "(any_label sv_step)\<^sup>*\<^sup>* s t" and "sv_safe progs s" and "sv_stopper s = StopDone"
  shows "sv_stopper t = StopDone \<and> sv_reqs t = sv_reqs s \<and> sv_accepted t = sv_accepted s"
  using assms(1)
proof (induction rule: rtranclp_induct)
  case (step t u)
  have "sv_safe progs t" by (rule sv_safe_reachable [OF step(1) assms(2)])
  with step sv_stopped_step show ?case by (fastforce simp: any_label_def)
qed (simp add: assms(3))

text \<open>Where the commands are that were accepted and never ran.\<close>

definition stranded :: "service \<Rightarrow> nat \<Rightarrow> nat \<Rightarrow> bool" where
  "stranded s r k \<longleftrightarrow> (\<exists>q\<in>set (sv_queues s). ReqEx r k \<in> set (m_queue (bq q))) \<or>
     (\<exists>b\<in>set (sv_submitters s). (r, k) \<in> set (sub_tokens (sb_pc b)))"

lemma entry_tokens_iff: "(r, k) \<in> set (entry_tokens e) \<longleftrightarrow> e = ReqEx r k"
  by (cases e) auto

lemma sv_stopped_stranded:
  assumes ok: "sv_safe progs s" and "sv_stopper s = StopDone"
  shows "(r, k) \<in> unfinished (sv_reqs s) \<longleftrightarrow> stranded s r k"
proof -
  have tok: "set_mset (tokens s) = unfinished (sv_reqs s)" and quit: "\<And>w. w < length (sv_workers s) \<Longrightarrow> sv_workers s ! w = Quit"
    using assms by (simp_all add: sv_safe_def sv_stop_ok_def sv_tokens_ok_def)
  have "worker_tokens x = []" if "x \<in> set (sv_workers s)" for x using that quit by (auto simp: in_set_conv_nth)
  then have "concat (map worker_tokens (sv_workers s)) = []" by simp
  then show ?thesis
    unfolding tok [symmetric] by (auto simp: tokens_def stranded_def queue_tokens_def entry_tokens_iff)
qed

section \<open>Starting again\<close>

text \<open>A new queue or an old one whose other threads have gone.\<close>

lemma queue_at_threads:
  assumes q: "queue_at w cap q" and idle: "\<And>i. m \<le> i \<Longrightarrow> i < length (threads q) \<Longrightarrow> threads q ! i = Idle"
    and m: "m \<le> length (threads q)" and w: "\<And>i. i < m \<Longrightarrow> w i \<noteq> None \<Longrightarrow> w' i = w i"
  shows "queue_at w' cap (q\<lparr>threads := take m (threads q) @ replicate n Idle\<rparr>)"
proof -
  have "drop m (threads q) = replicate (length (threads q) - m) Idle"
    using idle m by (intro nth_equalityI) simp_all
  then have split: "threads q = take m (threads q) @ replicate (length (threads q) - m) Idle"
    by (metis append_take_drop_id)
  have cnt: "count_if P (take m (threads q) @ replicate n Idle) = count_if P (threads q)" if "\<not> P Idle" for P
    using that by (subst (2) split) (simp add: count_if_def)
  have "balanced (length (m_queue (bq q))) (unat (m_capacity (bq q))) (take m (threads q) @ replicate n Idle)"
    using q by (auto simp: queue_at_def bq_inv_def balanced_def cnt)
  moreover have "\<exists>c. w' i = Some c \<and> (threads q ! i = Ready c \<or> threads q ! i = Waiting c)"
    if i: "i < m" "threads q ! i \<noteq> Idle" for i
  proof -
    have "served w (threads q)" "i < length (threads q)" using q i m by (simp_all add: queue_at_def)
    with i(2) obtain c where "w i = Some c" "threads q ! i = Ready c \<or> threads q ! i = Waiting c"
      unfolding served_def by blast
    with w [OF i(1)] show ?thesis by auto
  qed
  then have "served w' (take m (threads q) @ replicate n Idle)"
    using m by (simp add: served_def nth_append)
  ultimately show ?thesis using q by (auto simp: queue_at_def bq_inv_def bq_safe_def fifo_def)
qed

text \<open>What holds over several starts.\<close>

definition life_ok :: "service \<Rightarrow> bool" where
  "life_ok s \<longleftrightarrow> sv_queues_ok s \<and> sv_reqs_ok s \<and> sv_stop_ok s \<and> 0 < io_num s"

lemma restart_sizes:
  "io_num (sv_restart n k s) = n" "length (sv_queues (sv_restart n k s)) = Suc n" "length (sv_workers (sv_restart n k s)) = n + k"
  "sv_submitters (sv_restart n k s) = sv_submitters s" "sv_reqs (sv_restart n k s) = sv_reqs s"
  "sv_accepted (sv_restart n k s) = sv_accepted s" "sv_stopper (sv_restart n k s) = StopIdle" "sv_state (sv_restart n k s) = AIO_STARTED"
  by (simp_all add: sv_restart_def io_num_def Let_def)

lemma restart_queue:
  "j < n \<Longrightarrow> sv_queues (sv_restart n k s) ! j = system_new QUEUE_DEFAULT_CAPACITY (length (sv_submitters s) + 1 + (n + k))"
  "sv_queues (sv_restart n k s) ! n = (sv_queues s ! io_num s)\<lparr>threads :=
     take (Suc (length (sv_submitters s))) (threads (sv_queues s ! io_num s)) @ replicate (n + k) Idle\<rparr>"
  by (simp_all add: sv_restart_def nth_append Let_def)

lemma restart_wants:
  assumes "0 < io_num s" and "0 < n" and "sv_stopper s = StopDone" and i: "i < Suc (length (sv_submitters s))"
    and c: "wants_at s (io_num s) i = Some c"
  shows "wants_at (sv_restart n k s) n i = Some c"
proof -
  from c have "sv_wants s i = Some (io_num s, c)" by (simp add: wants_at_Some)
  then show ?thesis
  proof (cases rule: sv_wants_cases)
    case (1 r cmds l)
    have "unat (of_int (c_fd (cmds ! l)) :: u64) mod io_num s < io_num s" using assms(1) by simp
    with 1(4) have "\<not> c_cmd (cmds ! l) < CMD_MIN_PIO" by (auto simp: queue_idx_def)
    with 1 show ?thesis
      by (simp add: wants_at_Some sv_wants_def restart_sizes submitter_wants_def queue_idx_def)
  qed (use assms in simp_all)
qed

lemma life_ok_restart:
  assumes ok: "life_ok s" and st: "sv_stopper s = StopDone" and nk: "0 < n" "0 < k"
  shows "life_ok (sv_restart n k s)"
proof -
  let ?t = "sv_restart n k s" and ?m = "length (sv_submitters s)" and ?q = "sv_queues s ! io_num s"
  have qok: "sv_queues_ok s" and io: "0 < io_num s" and quit: "\<And>w. w < length (sv_workers s) \<Longrightarrow> sv_workers s ! w = Quit"
    using ok st by (simp_all add: life_ok_def sv_stop_ok_def)
  have j: "io_num s < length (sv_queues s)" using qok by (simp add: sv_queues_ok_def)
  note q = sv_queues_ok_at [OF qok j]
  have len: "Suc ?m \<le> length (threads ?q)" using q(2) by (simp add: thread_count_def)
  have idle: "threads ?q ! i = Idle" if i: "Suc ?m \<le> i" "i < length (threads ?q)" for i
  proof (rule ccontr)
    assume "threads ?q ! i \<noteq> Idle"
    then obtain c where "wants_at s (io_num s) i = Some c" using q(1) i(2) by (auto simp: queue_at_def served_def)
    then have "sv_wants s i = Some (io_num s, c)" by (simp add: wants_at_Some)
    then show False by (cases rule: sv_wants_cases) (use i(1) st quit in auto)
  qed
  have "queue_at (wants_at ?t n) QUEUE_DEFAULT_CAPACITY (sv_queues ?t ! n)"
    unfolding restart_queue
    by (rule queue_at_threads [OF q(1) idle len]) (use restart_wants [OF io nk(1) st] in auto)
  moreover have "queue_at (wants_at ?t i) QUEUE_DEFAULT_CAPACITY (sv_queues ?t ! i)" if "i < n" for i
    using that by (simp add: restart_queue queue_at_new)
  moreover have "length (threads (sv_queues ?t ! i)) = thread_count ?t" if "i < Suc n" for i
    using that len by (cases "i < n") (auto simp: less_Suc_eq restart_queue restart_sizes thread_count_def system_new_def)
  ultimately have "sv_queues_ok ?t" by (auto simp: sv_queues_ok_def restart_sizes less_Suc_eq)
  moreover have "sv_reqs_ok ?t" using ok by (simp add: life_ok_def sv_reqs_ok_def restart_sizes)
  ultimately show ?thesis using nk by (simp add: life_ok_def sv_stop_ok_def restart_sizes)
qed

lemma life_ok_step: "sv_life s t \<Longrightarrow> life_ok s \<Longrightarrow> life_ok t"
proof (induction rule: sv_life.induct)
  case (step b s t)
  then show ?case
    using sv_queues_step [OF step.hyps] sv_reqs_step [OF step.hyps] sv_stop_step [OF step.hyps] sv_step_sizes [OF step.hyps]
    unfolding life_ok_def by simp
next
  case (restart s n k)
  then show ?case by (intro life_ok_restart)
qed

text \<open>The commands that can still come to be processed: to be pushed, in a queue that lives, or with a worker.\<close>

definition held :: "service \<Rightarrow> (nat \<times> nat) set" where
  "held s = (\<Union>b\<in>set (sv_submitters s). set (sub_tokens (sb_pc b))) \<union>
     (\<Union>j\<in>{j. j < length (sv_queues s) \<and> sv_alive s j}. set (queue_tokens (sv_queues s ! j))) \<union>
     (\<Union>x\<in>set (sv_workers s). set (worker_tokens x))"

lemma held_sub: "i < length (sv_submitters s) \<Longrightarrow> x \<in> set (sub_tokens (sb_pc (sv_submitters s ! i))) \<Longrightarrow> x \<in> held s"
  and held_queue: "j < length (sv_queues s) \<Longrightarrow> sv_alive s j \<Longrightarrow> x \<in> set (queue_tokens (sv_queues s ! j)) \<Longrightarrow> x \<in> held s"
  and held_worker: "w < length (sv_workers s) \<Longrightarrow> x \<in> set (worker_tokens (sv_workers s ! w)) \<Longrightarrow> x \<in> held s"
  unfolding held_def using nth_mem by blast+

lemma heldE:
  assumes "x \<in> held s"
  obtains i where "i < length (sv_submitters s)" "x \<in> set (sub_tokens (sb_pc (sv_submitters s ! i)))"
  | j where "j < length (sv_queues s)" "sv_alive s j" "x \<in> set (queue_tokens (sv_queues s ! j))"
  | w where "w < length (sv_workers s)" "x \<in> set (worker_tokens (sv_workers s ! w))"
proof -
  from assms consider b where "b \<in> set (sv_submitters s)" "x \<in> set (sub_tokens (sb_pc b))"
    | j where "j < length (sv_queues s)" "sv_alive s j" "x \<in> set (queue_tokens (sv_queues s ! j))"
    | y where "y \<in> set (sv_workers s)" "x \<in> set (worker_tokens y)"
    unfolding held_def by blast
  then show ?thesis
  proof cases
    case 1
    from 1(1) obtain i where "i < length (sv_submitters s)" "b = sv_submitters s ! i" by (auto simp: in_set_conv_nth)
    with 1(2) that(1) show ?thesis by blast
  next
    case 2
    with that(2) show ?thesis by blast
  next
    case 3
    from 3(1) obtain w where "w < length (sv_workers s)" "y = sv_workers s ! w" by (auto simp: in_set_conv_nth)
    with 3(2) that(3) show ?thesis by blast
  qed
qed

text \<open>A step brings only new commands, and changes only what is held.\<close>

lemma held_mono:
  assumes "x \<in> held t" and "length (sv_queues t) = length (sv_queues s)" and "length (sv_workers t) = length (sv_workers s)"
    and "length (sv_submitters t) = length (sv_submitters s)" and "\<And>j. sv_alive t j \<Longrightarrow> sv_alive s j"
    and "\<And>i. i < length (sv_submitters s) \<Longrightarrow> x \<in> set (sub_tokens (sb_pc (sv_submitters t ! i))) \<Longrightarrow> x \<in> held s"
    and "\<And>j. j < length (sv_queues s) \<Longrightarrow> sv_alive s j \<Longrightarrow> x \<in> set (queue_tokens (sv_queues t ! j)) \<Longrightarrow> x \<in> held s"
    and "\<And>w. w < length (sv_workers s) \<Longrightarrow> x \<in> set (worker_tokens (sv_workers t ! w)) \<Longrightarrow> x \<in> held s"
  shows "x \<in> held s"
  using assms(1) by (rule heldE) (use assms(2-8) in simp_all)

lemma held_act:
  assumes qok: "sv_queues_ok s" and j: "j < length (sv_queues s)" and a: "bq_act i (sv_queues s ! j) q" and al: "sv_alive s j"
    and t: "t = (if threads q ! i = Idle then sv_return i j (s\<lparr>sv_queues := (sv_queues s)[j := q]\<rparr>)
       else s\<lparr>sv_queues := (sv_queues s)[j := q]\<rparr>)"
    and x: "x \<in> held t"
  shows "x \<in> held s"
proof -
  have sz: "length (sv_queues t) = length (sv_queues s)" "length (sv_workers t) = length (sv_workers s)"
    "length (sv_submitters t) = length (sv_submitters s)" "sv_queues t = (sv_queues s)[j := q]"
    using t by (simp_all add: sv_return_def Let_def)
  note mono = held_mono [OF x sz(1-3)]
  have q: "x \<in> held s" if "j' < length (sv_queues s)" "sv_alive s j'" "x \<in> set (queue_tokens (sv_queues t ! j'))"
    "set (queue_tokens q) \<subseteq> held s" for j'
    using that held_queue [OF that(1,2)] sz(4) by (cases "j' = j") auto
  have old: "set (queue_tokens (sv_queues s ! j)) \<subseteq> held s" using held_queue [OF j al] by blast
  from qok j a show ?thesis
  proof (cases rule: sv_act_cases)
    case (entry r cmds k)
    have "(r, k) \<in> held s" using held_sub [OF entry(1), of "(r, k)"] entry(2,3) by simp
    then have qq: "set (queue_tokens q) \<subseteq> held s" using old entry(6) by (simp add: queue_tokens_def)
    have tt: "t = s\<lparr>sv_queues := (sv_queues s)[j := q],
         sv_submitters := (sv_submitters s)[i := (sv_submitters s ! i)\<lparr>sb_pc := Submitting r cmds (Suc k)\<rparr>]\<rparr>"
      using t entry(5,7) by simp
    show ?thesis
    proof (rule mono)
      fix i'
      assume i': "i' < length (sv_submitters s)" "x \<in> set (sub_tokens (sb_pc (sv_submitters t ! i')))"
      then have "x \<in> set (sub_tokens (sb_pc (sv_submitters s ! i')))" using entry(1,2) by (cases "i' = i") (auto simp: tt)
      then show "x \<in> held s" by (rule held_sub [OF i'(1)])
    qed (use q [OF _ _ _ qq] held_worker in \<open>auto simp: tt sv_alive_def io_num_def\<close>)
  next
    case io_mark
    have qq: "set (queue_tokens q) \<subseteq> held s" using old io_mark(5) by (simp add: queue_tokens_def)
    show ?thesis
      by (rule mono) (use t io_mark q [OF _ _ _ qq] held_worker held_sub in \<open>auto simp: sv_alive_def io_num_def\<close>)
  next
    case (pio_mark k)
    have qq: "set (queue_tokens q) \<subseteq> held s" using old pio_mark(6) by (simp add: queue_tokens_def)
    show ?thesis
      by (rule mono) (use t pio_mark q [OF _ _ _ qq] held_worker held_sub in \<open>auto simp: sv_alive_def io_num_def\<close>)
  next
    case (pop w v)
    have qs: "set (queue_tokens q) \<union> set (entry_tokens v) \<subseteq> held s" using old pop(6) by (simp add: queue_tokens_def)
    then have qq: "set (queue_tokens q) \<subseteq> held s" by simp
    have tt: "t = s\<lparr>sv_queues := (sv_queues s)[j := q],
         sv_workers := (sv_workers s)[w := (case v of ReqEx r k \<Rightarrow> Working r k | EmptyReq \<Rightarrow> Quit)]\<rparr>" using t pop(5,7) by simp
    show ?thesis
    proof (rule mono)
      fix w'
      assume w': "w' < length (sv_workers s)" "x \<in> set (worker_tokens (sv_workers t ! w'))"
      show "x \<in> held s"
      proof (cases "w' = w")
        case True
        with w' pop(2) have "x \<in> set (entry_tokens v)" by (cases v) (simp_all add: tt)
        with qs show ?thesis by blast
      next
        case False
        with w' held_worker [OF w'(1)] show ?thesis by (simp add: tt)
      qed
    qed (use q [OF _ _ _ qq] held_sub in \<open>auto simp: tt sv_alive_def io_num_def\<close>)
  next
    case wait
    have qq: "set (queue_tokens q) \<subseteq> held s" using old wait(2) by (simp add: queue_tokens_def)
    show ?thesis
      by (rule mono) (use t wait q [OF _ _ _ qq] held_worker held_sub in \<open>auto simp: sv_alive_def io_num_def\<close>)
  qed
qed

lemma held_step:
  assumes st: "sv_step b s t" and qok: "sv_queues_ok s" and x: "x \<in> held t"
  shows "x \<in> held s \<or> length (sv_reqs s) \<le> fst x"
proof -
  note sz = sv_step_sizes [OF st]
  have mono: "x \<in> held s" if "\<And>j. sv_alive t j \<Longrightarrow> sv_alive s j" "\<And>j. queue_tokens (sv_queues t ! j) = queue_tokens (sv_queues s ! j)"
    "\<And>i. i < length (sv_submitters s) \<Longrightarrow> set (sub_tokens (sb_pc (sv_submitters t ! i))) \<subseteq> set (sub_tokens (sb_pc (sv_submitters s ! i)))"
    "\<And>w. w < length (sv_workers s) \<Longrightarrow> set (worker_tokens (sv_workers t ! w)) \<subseteq> set (worker_tokens (sv_workers s ! w))"
    using x
  proof (rule held_mono)
    fix i
    assume "i < length (sv_submitters s)" "x \<in> set (sub_tokens (sb_pc (sv_submitters t ! i)))"
    with that(3) show "x \<in> held s" by (blast intro: held_sub)
  next
    fix j
    assume "j < length (sv_queues s)" "sv_alive s j" "x \<in> set (queue_tokens (sv_queues t ! j))"
    with that(2) show "x \<in> held s" by (metis held_queue)
  next
    fix w
    assume "w < length (sv_workers s)" "x \<in> set (worker_tokens (sv_workers t ! w))"
    with that(4) show "x \<in> held s" by (blast intro: held_worker)
  qed (use sz that(1) in simp_all)
  show ?thesis using st
  proof cases
    case (submit i cmds rest now)
    show ?thesis
    proof (cases "length (sv_reqs s) \<le> fst x")
      case False
      have "x \<in> held s"
      proof (rule held_mono [OF x])
        fix i'
        assume i': "i' < length (sv_submitters s)" "x \<in> set (sub_tokens (sb_pc (sv_submitters t ! i')))"
        with False submit(2) have "x \<in> set (sub_tokens (sb_pc (sv_submitters s ! i')))" by (cases "i' = i") auto
        then show "x \<in> held s" by (rule held_sub [OF i'(1)])
      qed (use submit sz held_queue held_worker in \<open>simp_all add: sv_alive_def io_num_def\<close>)
      then show ?thesis ..
    qed simp
  next
    case (act j i q)
    from held_act [OF qok act(3,4,5,2) x] show ?thesis ..
  next
    case (process w r i c)
    have "x \<in> held s" by (rule mono) (use process in \<open>auto simp: sv_alive_def io_num_def nth_list_update\<close>)
    then show ?thesis ..
  next
    case (refuse i cmds rest)
    have "x \<in> held s" by (rule mono) (use refuse in \<open>auto simp: sv_alive_def io_num_def nth_list_update\<close>)
    then show ?thesis ..
  next
    case (submitted i rest r cmds)
    have "x \<in> held s" by (rule mono) (use submitted in \<open>auto simp: sv_alive_def io_num_def nth_list_update\<close>)
    then show ?thesis ..
  next
    case (call i j c)
    have "queue_tokens (sv_queues t ! j') = queue_tokens (sv_queues s ! j')" for j'
      using call(2,4) by (cases "j' = j") simp_all
    then have "x \<in> held s" by (intro mono) (use call in \<open>auto simp: sv_alive_def io_num_def\<close>)
    then show ?thesis ..
  next
    case (spurious j i c)
    have "queue_tokens (sv_queues t ! j') = queue_tokens (sv_queues s ! j')" for j'
      using spurious(2,3) by (cases "j' = j") simp_all
    then have "x \<in> held s" by (intro mono) (use spurious in \<open>auto simp: sv_alive_def io_num_def\<close>)
    then show ?thesis ..
  next
    case stop
    have "x \<in> held s" by (rule mono) (use stop in \<open>auto simp: sv_alive_def io_num_def\<close>)
    then show ?thesis ..
  next
    case join_io
    have "x \<in> held s" by (rule mono) (use join_io in \<open>auto simp: sv_alive_def io_num_def\<close>)
    then show ?thesis ..
  next
    case join_pio
    have "x \<in> held s" by (rule mono) (use join_pio in \<open>auto simp: sv_alive_def io_num_def\<close>)
    then show ?thesis ..
  next
    case (fault i j c)
    have "x \<in> held s" by (rule mono) (use fault in \<open>auto simp: sv_alive_def io_num_def\<close>)
    then show ?thesis ..
  qed
qed

lemma held_restart:
  assumes x: "x \<in> held (sv_restart n k s)" and qok: "sv_queues_ok s"
  shows "x \<in> held s"
  using x
proof (rule heldE)
  fix i
  assume "i < length (sv_submitters (sv_restart n k s))" "x \<in> set (sub_tokens (sb_pc (sv_submitters (sv_restart n k s) ! i)))"
  then show ?thesis by (simp add: restart_sizes held_sub)
next
  fix j
  assume j: "j < length (sv_queues (sv_restart n k s))" "x \<in> set (queue_tokens (sv_queues (sv_restart n k s) ! j))"
  have "\<not> j < n"
  proof
    assume "j < n"
    from j(2) show False unfolding restart_queue(1) [OF \<open>j < n\<close>] by (simp add: queue_tokens_def system_new_def BlockingQueue_new_def)
  qed
  with j(1) have "j = n" by (simp add: restart_sizes)
  with j(2) have "x \<in> set (queue_tokens (sv_queues s ! io_num s))" by (simp add: restart_queue)
  then show ?thesis using qok by (intro held_queue [of "io_num s"]) (simp_all add: sv_queues_ok_def sv_alive_def)
next
  fix w
  assume "w < length (sv_workers (sv_restart n k s))" "x \<in> set (worker_tokens (sv_workers (sv_restart n k s) ! w))"
  then show ?thesis by (simp add: sv_restart_def Let_def)
qed

lemma held_process:
  assumes st: "sv_step b s t" and r: "r < length (sv_reqs s)" and x: "(r, k) \<notin> held s"
  shows "rc_progress (sv_reqs t ! r) ! k = rc_progress (sv_reqs s ! r) ! k \<and>
     length (rc_progress (sv_reqs t ! r)) = length (rc_progress (sv_reqs s ! r)) \<and> r < length (sv_reqs t)"
  using st
proof cases
  case (process w r' i c)
  have "(r', i) \<in> held s" using held_worker [OF process(3), of "(r', i)"] process(4) by simp
  with x have "r' \<noteq> r \<or> i \<noteq> k" by auto
  with req_at_frame(2,3) [OF process(6)] process(2,5) r show ?thesis by (cases "r' = r") auto
qed (use r in \<open>simp_all add: nth_append sv_return_def Let_def\<close>)

text \<open>What nobody holds stays as it is, however the service goes on.\<close>

definition doomed :: "service \<Rightarrow> (nat \<times> nat) set \<Rightarrow> service \<Rightarrow> bool" where
  "doomed s D t \<longleftrightarrow> life_ok t \<and> (\<exists>xs. sv_accepted t = sv_accepted s @ xs) \<and> D \<inter> held t = {} \<and>
     (\<forall>(r, k) \<in> D. r < length (sv_reqs t) \<and> k < length (rc_progress (sv_reqs t ! r)) \<and> rc_progress (sv_reqs t ! r) ! k = Queued)"

lemma doomed_step:
  assumes st: "sv_life t u" and d: "doomed s D t"
  shows "doomed s D u"
proof -
  have ok: "life_ok t" and qok: "sv_queues_ok t" using d by (simp_all add: doomed_def life_ok_def)
  note oku = life_ok_step [OF st ok]
  from st show ?thesis
  proof cases
    case (step b)
    obtain xs where "sv_accepted u = sv_accepted t @ xs" using sv_accepted_step [OF step] by blast
    then have "\<exists>xs. sv_accepted u = sv_accepted s @ xs" using d by (auto simp: doomed_def)
    moreover have "x \<notin> held u" if "x \<in> D" for x
      using held_step [OF step qok, of x] d that by (force simp: doomed_def)
    moreover have "r < length (sv_reqs u) \<and> k < length (rc_progress (sv_reqs u ! r)) \<and> rc_progress (sv_reqs u ! r) ! k = Queued"
      if "(r, k) \<in> D" for r k
    proof -
      have "r < length (sv_reqs t)" "(r, k) \<notin> held t" "k < length (rc_progress (sv_reqs t ! r))" "rc_progress (sv_reqs t ! r) ! k = Queued"
        using d that by (auto simp: doomed_def)
      with held_process [OF step this(1,2)] show ?thesis by simp
    qed
    ultimately show ?thesis using oku unfolding doomed_def by auto
  next
    case (restart n k)
    with held_restart [OF _ qok] d oku show ?thesis unfolding doomed_def by (auto simp: restart_sizes)
  qed
qed

lemma doomed_run: "sv_life\<^sup>*\<^sup>* t u \<Longrightarrow> doomed s D t \<Longrightarrow> doomed s D u"
  by (induction rule: rtranclp_induct) (auto intro: doomed_step)

text \<open>An entry that \<open>Stop\<close> has left in a queue that it has deleted.\<close>

definition deleted :: "service \<Rightarrow> (nat \<times> nat) set" where
  "deleted s = (\<Union>j\<in>{..<io_num s}. set (queue_tokens (sv_queues s ! j)))"

lemma deleted_waiting:
  assumes "sv_queues_ok s" and "x \<in> deleted s"
  shows "x \<in># waiting s"
proof -
  from assms(2) obtain j where "j < io_num s" "x \<in> set (queue_tokens (sv_queues s ! j))" by (auto simp: deleted_def)
  moreover from this have "sv_queues s ! j \<in> set (sv_queues s)" using assms(1) by (intro nth_mem) (simp add: sv_queues_ok_def)
  ultimately show ?thesis by (auto simp: waiting_def)
qed

lemma deleted_doomed:
  assumes ok: "sv_safe progs s" and st: "sv_stopper s = StopDone"
  shows "doomed s (deleted s) s"
proof -
  have qok: "sv_queues_ok s" and sole: "sole (tokens s)" and tok: "set_mset (tokens s) = unfinished (sv_reqs s)"
    and fresh: "sv_fresh_ok s" and quit: "\<And>w. w < length (sv_workers s) \<Longrightarrow> sv_workers s ! w = Quit" and "life_ok s"
    using ok st by (simp_all add: sv_safe_def sv_tokens_ok_def sv_stop_ok_def life_ok_def)
  have nq: "io_num s < length (sv_queues s)" using qok by (simp add: sv_queues_ok_def)
  have "x \<notin> held s" if x: "x \<in> deleted s" for x
  proof
    assume "x \<in> held s"
    from x obtain j where j: "j < io_num s" "x \<in> set (queue_tokens (sv_queues s ! j))" by (auto simp: deleted_def)
    let ?e = "(sv_queues s ! j)\<lparr>bq := BlockingQueue_new 0\<rparr>"
    have e: "queue_tokens ?e = []" by (simp add: queue_tokens_def BlockingQueue_new_def)
    have "mset (concat (map queue_tokens (sv_queues s))) =
        mset (concat (map queue_tokens ((sv_queues s)[j := ?e]))) + mset (queue_tokens (sv_queues s ! j))"
      using tokens_queue [of j s ?e] j(1) nq e by simp
    with sole j(2) have no: "x \<notin># mset (concat (map (\<lambda>b. sub_tokens (sb_pc b)) (sv_submitters s)))"
      "x \<notin># mset (concat (map queue_tokens ((sv_queues s)[j := ?e])))"
      unfolding tokens_def by (auto dest!: split_list simp: sole_add)
    from \<open>x \<in> held s\<close> show False
    proof (rule heldE)
      fix i
      assume "i < length (sv_submitters s)" "x \<in> set (sub_tokens (sb_pc (sv_submitters s ! i)))"
      with no(1) nth_mem show False by auto
    next
      fix i
      assume i: "i < length (sv_queues s)" "sv_alive s i" "x \<in> set (queue_tokens (sv_queues s ! i))"
      then have "i \<noteq> j" using j(1) st by (auto simp: sv_alive_def)
      then have "sv_queues s ! i \<in> set ((sv_queues s)[j := ?e])" using i(1) nth_mem [of i "(sv_queues s)[j := ?e]"] by simp
      with no(2) i(3) show False by auto
    next
      fix w
      assume "w < length (sv_workers s)" "x \<in> set (worker_tokens (sv_workers s ! w))"
      with quit show False by simp
    qed
  qed
  moreover have "r < length (sv_reqs s) \<and> k < length (rc_progress (sv_reqs s ! r)) \<and> rc_progress (sv_reqs s ! r) ! k = Queued"
    if "(r, k) \<in> deleted s" for r k
  proof -
    from deleted_waiting [OF qok that] have w: "(r, k) \<in># waiting s" .
    then have "(r, k) \<in> unfinished (sv_reqs s)" using tok by (auto simp: tokens_waiting)
    with w fresh show ?thesis by (auto simp: unfinished_def sv_fresh_ok_def)
  qed
  ultimately show ?thesis using \<open>life_ok s\<close> by (auto simp: doomed_def)
qed

lemma deleted_never_answered:
  assumes ok: "sv_safe progs s" and st: "sv_stopper s = StopDone" and small: "\<forall>cmds\<in>set (concat progs). length cmds < 2 ^ 32"
    and d: "(r, k) \<in> deleted s" and run: "sv_life\<^sup>*\<^sup>* s t"
  shows "rc_progress (sv_reqs t ! r) ! k = Queued \<and> rc_calls (sv_reqs t ! r) = []"
proof -
  have s0: "doomed s (deleted s) s" by (rule deleted_doomed [OF ok st])
  have t: "doomed s (deleted s) t" by (rule doomed_run [OF run s0])
  have "r < length (sv_reqs s)" using s0 d by (auto simp: doomed_def)
  then have r: "r < length (sv_accepted s)" using ok by (simp add: sv_safe_def sv_reqs_ok_def)
  have "length (fst (sv_accepted s ! r)) < 2 ^ 32" using sv_accepted_from [OF ok r] small by blast
  then have len: "length (fst (sv_accepted t ! r)) < 2 ^ 32" using t r by (auto simp: doomed_def nth_append)
  have q: "r < length (sv_reqs t)" "k < length (rc_progress (sv_reqs t ! r))" "rc_progress (sv_reqs t ! r) ! k = Queued"
    using t d by (auto simp: doomed_def)
  have "req_step\<^sup>*\<^sup>* (req_start (fst (sv_accepted t ! r)) (snd (sv_accepted t ! r))) (sv_reqs t ! r)"
    using t q(1) by (simp add: doomed_def life_ok_def sv_reqs_ok_def)
  moreover have "\<not> (\<forall>p\<in>set (rc_progress (sv_reqs t ! r)). p = Completed)"
    using q(2,3) nth_mem [OF q(2)] by auto
  ultimately have "rc_calls (sv_reqs t ! r) = []" using req_calls [OF _ len] by auto
  with q(3) show ?thesis by simp
qed

section \<open>A run\<close>

text \<open>A service with one thread of each kind and one caller that submits one request, for the witnesses.\<close>

definition demo_progs :: "Command list list list" where
  "demo_progs = [[[demo_command]]]"

lemma demo_progs_small: "\<forall>cmds\<in>set (concat demo_progs). length cmds < 2 ^ 32"
  by (simp add: demo_progs_def)

lemma demo_service_run:
  "\<exists>r s. (any_label calm_step)\<^sup>*\<^sup>* (sv_start 1 1 demo_progs) r \<and> sv_stopper r = StopIdle \<and> submitters_done r \<and>
     (any_label calm_step)\<^sup>*\<^sup>* r s \<and> sv_stopper s = StopDone"
proof -
  let ?s = "sv_start 1 1 demo_progs"
  have ok: "sv_ok demo_progs ?s \<and> sv_stopper ?s = StopIdle" using sv_start_ok [of 1 1 demo_progs] by (simp add: sv_start_def)
  obtain r where r: "(running_step False)\<^sup>*\<^sup>* ?s r" "submitters_done r" using sv_submitters.runs_to_end [OF ok] by blast
  have "sv_stopper r = StopIdle"
    using sv_submitters.ok_reachable [OF rtranclp_any_label [where step = running_step and l = False, OF r(1)] ok] by simp
  have "running_step False \<le> calm_step False" by (auto simp: running_step_def calm_step_def)
  from rtranclp_mono [OF this] r(1) have run: "(any_label calm_step)\<^sup>*\<^sup>* ?s r" by (blast intro: rtranclp_any_label)
  from sv_ok_reachable [OF this] ok obtain s where "(calm_step False)\<^sup>*\<^sup>* r s" "sv_final s"
    using sv_progress.runs_to_end by blast
  with run r(2) \<open>sv_stopper r = StopIdle\<close> show ?thesis by (auto simp: sv_final_def intro: rtranclp_any_label)
qed

lemma demo_service_answer:
  "\<exists>s now. (any_label calm_step)\<^sup>*\<^sup>* (sv_start 1 1 demo_progs) s \<and> sv_stopper s = StopDone \<and>
     sv_accepted s = [([demo_command], now)] \<and> (\<forall>p\<in>set (rc_progress (sv_reqs s ! 0)). p = Completed)"
proof -
  obtain r s where rs: "(any_label calm_step)\<^sup>*\<^sup>* (sv_start 1 1 demo_progs) r" "sv_stopper r = StopIdle" "submitters_done r"
     "(any_label calm_step)\<^sup>*\<^sup>* r s" "sv_stopper s = StopDone" using demo_service_run by blast
  have ok: "sv_ok demo_progs r" by (rule sv_ok_reachable [OF rs(1) sv_start_ok]) simp_all
  have "mset (map fst (sv_accepted s)) = {#[demo_command]#}" using sv_all_accepted [OF ok rs(2-4)] by (simp add: demo_progs_def)
  then have "map fst (sv_accepted s) = [[demo_command]]" by (simp only: mset_single_iff_right [symmetric] mset.simps)
  then obtain now where a: "sv_accepted s = [([demo_command], now)]" by (cases "sv_accepted s") auto
  with sv_stopped_answers [OF sv_ok_reachable [OF rs(4) ok] rs(5) demo_progs_small, of 0] rs show ?thesis
    by (intro exI [of _ s] exI [of _ now]) (auto simp: answered_def)
qed

text \<open>
  A run in which \<open>Stop\<close> begins during a \<open>Submit\<close> and gets its mark in front of the entry. Queues on which no thread
  is busy make a push and a pop two steps each.
\<close>

definition resting :: "nat \<Rightarrow> RequestEx list \<Rightarrow> RequestEx system \<Rightarrow> bool" where
  "resting T xs q \<longleftrightarrow> bq q = \<lparr>m_queue = xs, m_capacity = QUEUE_DEFAULT_CAPACITY\<rparr> \<and> threads q = replicate T Idle"

lemma sv_two_steps: "sv_step False r s \<Longrightarrow> sv_step False s t \<Longrightarrow> (any_label sv_step)\<^sup>*\<^sup>* r t"
proof -
  assume "sv_step False r s" and "sv_step False s t"
  then have "(sv_step False)\<^sup>*\<^sup>* r t" using converse_rtranclp_into_rtranclp [of "sv_step False" r s t] by simp
  then show ?thesis by (rule rtranclp_any_label)
qed

lemma resting_act:
  assumes r: "resting T xs (sv_queues s ! j)" and w: "sv_wants s i = Some (j, c)" and j: "j < length (sv_queues s)" and i: "i < T"
    and alive: "sv_alive s j" and q: "resting T ys q"
    and a: "bq_act i ((sv_queues s ! j)\<lparr>threads := (replicate T Idle)[i := Ready c]\<rparr>) q"
  shows "(any_label sv_step)\<^sup>*\<^sup>* s (sv_return i j (s\<lparr>sv_queues := (sv_queues s)[j := q]\<rparr>))"
proof -
  let ?t = "s\<lparr>sv_queues := (sv_queues s)[j := (sv_queues s ! j)\<lparr>threads := (replicate T Idle)[i := Ready c]\<rparr>]\<rparr>"
  have "threads (sv_queues s ! j) = replicate T Idle" using r by (simp add: resting_def)
  then have 1: "sv_step False s ?t" using sv_step.call [OF w j] i alive by simp
  have "sv_alive ?t j" using alive by (simp add: sv_alive_def io_num_def)
  moreover have "threads q ! i = Idle" using q i by (simp add: resting_def)
  ultimately have 2: "sv_step False ?t (sv_return i j (s\<lparr>sv_queues := (sv_queues s)[j := q]\<rparr>))"
    using sv_step.act [of j ?t i q] a j by simp
  from sv_two_steps [OF 1 2] show ?thesis .
qed

lemma notify_idle:
  assumes "i < T"
  shows "notify_one p ((replicate T Idle)[i := Idle]) (replicate T Idle)"
proof -
  have "(replicate T Idle)[i := Idle] = replicate T Idle" using assms by (metis list_update_id nth_replicate)
  moreover have "notify_one p (replicate T Idle) (replicate T Idle)" by (simp add: notify_one_def)
  ultimately show ?thesis by metis
qed

lemma push_steps:
  assumes r: "resting T xs (sv_queues s ! j)" and w: "sv_wants s i = Some (j, CPush v)" and j: "j < length (sv_queues s)" and i: "i < T"
    and alive: "sv_alive s j" and small: "length xs < 10"
  shows "\<exists>q. resting T (xs @ [v]) q \<and> (any_label sv_step)\<^sup>*\<^sup>* s (sv_return i j (s\<lparr>sv_queues := (sv_queues s)[j := q]\<rparr>))"
proof -
  let ?p = "sv_queues s ! j" and ?ths = "(replicate T Idle)[i := Ready (CPush v)]"
  let ?q = "?p\<lparr>bq := \<lparr>m_queue = xs @ [v], m_capacity = QUEUE_DEFAULT_CAPACITY\<rparr>,
      threads := replicate T Idle, pushed := pushed ?p @ [v]\<rparr>"
  have b: "bq ?p = \<lparr>m_queue = xs, m_capacity = QUEUE_DEFAULT_CAPACITY\<rparr>" using r by (simp add: resting_def)
  have "unat QUEUE_DEFAULT_CAPACITY = 2 ^ 64 - 1"
    by (simp add: QUEUE_DEFAULT_CAPACITY_def unsigned_minus_1_eq_mask mask_eq_exp_minus_1)
  then have "put_body (CPush v) (bq ?p) = Some \<lparr>m_queue = xs @ [v], m_capacity = QUEUE_DEFAULT_CAPACITY\<rparr>"
    using small by (simp add: b put_body_def Push_body_def queue_full_def)
  from bq_act.put [of i "?p\<lparr>threads := ?ths\<rparr>" "CPush v" _ "replicate T Idle"] this i notify_idle [OF i, of True]
  have "bq_act i (?p\<lparr>threads := ?ths\<rparr>) ?q" by simp
  from resting_act [OF r w j i alive _ this] show ?thesis by (intro exI [of _ ?q]) (simp add: resting_def)
qed

lemma pop_steps:
  assumes r: "resting T (v # xs) (sv_queues s ! j)" and w: "sv_wants s i = Some (j, CPop)" and j: "j < length (sv_queues s)" and i: "i < T"
    and alive: "sv_alive s j"
  shows "\<exists>q. resting T xs q \<and> last (popped q) = v \<and>
     (any_label sv_step)\<^sup>*\<^sup>* s (sv_return i j (s\<lparr>sv_queues := (sv_queues s)[j := q]\<rparr>))"
proof -
  let ?p = "sv_queues s ! j" and ?ths = "(replicate T Idle)[i := Ready CPop]"
  let ?q = "?p\<lparr>bq := \<lparr>m_queue = xs, m_capacity = QUEUE_DEFAULT_CAPACITY\<rparr>,
      threads := replicate T Idle, popped := popped ?p @ [v]\<rparr>"
  have b: "bq ?p = \<lparr>m_queue = v # xs, m_capacity = QUEUE_DEFAULT_CAPACITY\<rparr>" using r by (simp add: resting_def)
  then have "Pop_body (bq ?p) = Some (v, \<lparr>m_queue = xs, m_capacity = QUEUE_DEFAULT_CAPACITY\<rparr>)" by (simp add: Pop_body_def)
  from bq_act.get [of i "?p\<lparr>threads := ?ths\<rparr>" CPop _ _ "replicate T Idle"] this i notify_idle [OF i, of False]
  have "bq_act i (?p\<lparr>threads := ?ths\<rparr>) ?q" by simp
  from resting_act [OF r w j i alive _ this] show ?thesis by (intro exI [of _ ?q]) (simp add: resting_def)
qed

definition race_at :: "AioState \<Rightarrow> u64 \<Rightarrow> RequestEx system list \<Rightarrow> submitter_pc \<Rightarrow> stopper_pc \<Rightarrow> worker_pc list \<Rightarrow> service" where
  "race_at st reqid qs sub stp ws = \<lparr>sv_state = st, sv_reqid = reqid, sv_queues = qs,
     sv_submitters = [\<lparr>sb_todo = [], sb_pc = sub\<rparr>], sv_stopper = stp, sv_workers = ws,
     sv_reqs = [req_start [demo_command] 0], sv_accepted = [([demo_command], 0)], sv_fault = False\<rparr>"

lemmas race_simps = race_at_def sv_alive_def io_num_def sv_wants_def submitter_wants_def stopper_wants_def worker_queue_def
  queue_idx_def sv_return_def Let_def

lemma demo_race_run:
  "\<exists>s. (any_label sv_step)\<^sup>*\<^sup>* (sv_start 1 1 demo_progs) s \<and> sv_final s \<and> sv_accepted s = [([demo_command], 0)] \<and>
     \<not> sv_fault s \<and> (0, 0) \<in> deleted s"
proof -
  let ?Q = "system_new QUEUE_DEFAULT_CAPACITY 4 :: RequestEx system" and ?w = "[Fetching, Fetching]" and ?e = "ReqEx 0 0"
  let ?on = "Submitting 0 [demo_command] 0" and ?off = "Submitting 0 [demo_command] 1"
  have Q: "resting 4 [] ?Q" by (simp add: resting_def system_new_def BlockingQueue_new_def)
  have c: "c_cmd demo_command < CMD_MIN_PIO" by (simp add: demo_command_def CMD_MIN_PIO_def)
  have "sv_step False (sv_start 1 1 demo_progs) (race_at AIO_STARTED 1 [?Q, ?Q] ?on StopIdle ?w)"
    using sv_step.submit [of 0 "sv_start 1 1 demo_progs" "[demo_command]" "[]" 0]
    by (simp add: sv_start_def demo_progs_def race_at_def eval_nat_numeral)
  moreover have "sv_step False (race_at AIO_STARTED 1 [?Q, ?Q] ?on StopIdle ?w) (race_at AIO_STOPPING 1 [?Q, ?Q] ?on (IoMark 0) ?w)"
    using sv_step.stop [of "race_at AIO_STARTED 1 [?Q, ?Q] ?on StopIdle ?w"] by (simp add: race_at_def)
  ultimately have r1: "(any_label sv_step)\<^sup>*\<^sup>* (sv_start 1 1 demo_progs) (race_at AIO_STOPPING 1 [?Q, ?Q] ?on (IoMark 0) ?w)"
    by (rule sv_two_steps)
  obtain qa where qa: "resting 4 [EmptyReq] qa" and
    r2: "(any_label sv_step)\<^sup>*\<^sup>* (race_at AIO_STOPPING 1 [?Q, ?Q] ?on (IoMark 0) ?w) (race_at AIO_STOPPING 1 [qa, ?Q] ?on (IoMark 1) ?w)"
    using push_steps [of 4 "[]" "race_at AIO_STOPPING 1 [?Q, ?Q] ?on (IoMark 0) ?w" 0 1 EmptyReq] Q by (auto simp: race_simps)
  obtain qb where qb: "resting 4 [EmptyReq, ?e] qb" and
    r3: "(any_label sv_step)\<^sup>*\<^sup>* (race_at AIO_STOPPING 1 [qa, ?Q] ?on (IoMark 1) ?w) (race_at AIO_STOPPING 1 [qb, ?Q] ?off (IoMark 1) ?w)"
    using push_steps [of 4 "[EmptyReq]" "race_at AIO_STOPPING 1 [qa, ?Q] ?on (IoMark 1) ?w" 0 0 ?e] qa c by (auto simp: race_simps)
  obtain qc where qc: "resting 4 [?e] qc" and
    r4: "(any_label sv_step)\<^sup>*\<^sup>* (race_at AIO_STOPPING 1 [qb, ?Q] ?off (IoMark 1) ?w) (race_at AIO_STOPPING 1 [qc, ?Q] ?off (IoMark 1) [Quit, Fetching])"
    using pop_steps [of 4 EmptyReq "[?e]" "race_at AIO_STOPPING 1 [qb, ?Q] ?off (IoMark 1) ?w" 0 2] qb by (auto simp: race_simps)
  have "sv_step False (race_at AIO_STOPPING 1 [qc, ?Q] ?off (IoMark 1) [Quit, Fetching]) (race_at AIO_STOPPING 2 [qc, ?Q] SubIdle (IoMark 1) [Quit, Fetching])"
    using sv_step.submitted [of 0 "race_at AIO_STOPPING 1 [qc, ?Q] ?off (IoMark 1) [Quit, Fetching]" "[]" 0 "[demo_command]"]
    by (simp add: race_at_def)
  moreover have "sv_step False (race_at AIO_STOPPING 2 [qc, ?Q] SubIdle (IoMark 1) [Quit, Fetching]) (race_at AIO_STOPPING 2 [qc, ?Q] SubIdle (PioMark 0) [Quit, Fetching])"
    using sv_step.join_io [of "race_at AIO_STOPPING 2 [qc, ?Q] SubIdle (IoMark 1) [Quit, Fetching]"] by (simp add: race_simps)
  ultimately have r5: "(any_label sv_step)\<^sup>*\<^sup>* (race_at AIO_STOPPING 1 [qc, ?Q] ?off (IoMark 1) [Quit, Fetching])
      (race_at AIO_STOPPING 2 [qc, ?Q] SubIdle (PioMark 0) [Quit, Fetching])" by (rule sv_two_steps)
  obtain qd where qd: "resting 4 [EmptyReq] qd" and
    r6: "(any_label sv_step)\<^sup>*\<^sup>* (race_at AIO_STOPPING 2 [qc, ?Q] SubIdle (PioMark 0) [Quit, Fetching]) (race_at AIO_STOPPING 2 [qc, qd] SubIdle (PioMark 1) [Quit, Fetching])"
    using push_steps [of 4 "[]" "race_at AIO_STOPPING 2 [qc, ?Q] SubIdle (PioMark 0) [Quit, Fetching]" 1 1 EmptyReq] Q by (auto simp: race_simps)
  obtain qe where
    r7: "(any_label sv_step)\<^sup>*\<^sup>* (race_at AIO_STOPPING 2 [qc, qd] SubIdle (PioMark 1) [Quit, Fetching]) (race_at AIO_STOPPING 2 [qc, qe] SubIdle (PioMark 1) [Quit, Quit])"
    using pop_steps [of 4 EmptyReq "[]" "race_at AIO_STOPPING 2 [qc, qd] SubIdle (PioMark 1) [Quit, Fetching]" 1 3] qd by (auto simp: race_simps)
  have "sv_step False (race_at AIO_STOPPING 2 [qc, qe] SubIdle (PioMark 1) [Quit, Quit]) (race_at AIO_STOPPED 2 [qc, qe] SubIdle StopDone [Quit, Quit])"
    using sv_step.join_pio [of "race_at AIO_STOPPING 2 [qc, qe] SubIdle (PioMark 1) [Quit, Quit]"] by (simp add: race_simps less_Suc_eq)
  then have "any_label sv_step (race_at AIO_STOPPING 2 [qc, qe] SubIdle (PioMark 1) [Quit, Quit]) (race_at AIO_STOPPED 2 [qc, qe] SubIdle StopDone [Quit, Quit])"
    unfolding any_label_def by blast
  with r1 r2 r3 r4 r5 r6 r7 have "(any_label sv_step)\<^sup>*\<^sup>* (sv_start 1 1 demo_progs) (race_at AIO_STOPPED 2 [qc, qe] SubIdle StopDone [Quit, Quit])"
    by (meson rtranclp_trans rtranclp.rtrancl_into_rtrancl)
  moreover have "(0, 0) \<in> deleted (race_at AIO_STOPPED 2 [qc, qe] SubIdle StopDone [Quit, Quit])"
    using qc by (simp add: deleted_def race_simps queue_tokens_def resting_def lessThan_Suc)
  ultimately show ?thesis by (intro exI conjI) (auto simp: race_at_def sv_final_def submitters_done_def)
qed

section \<open>Properties\<close>

text \<open>
  C7: the asynchronous I/O service answers every request. Any number of threads submit requests, interleaved in
  any way with the I/O threads. When they have finished and somebody calls \<open>Stop\<close>, then by the time
  it returns every request that was submitted has been accepted, all its commands have been
  processed, and its callback has been called exactly once (a request without commands: never), with the commands
  submitted, their results and the number of failures. No entry is left in a queue, and no deleted queue has been used. (\<open>calm_step\<close>: no \<open>Submit\<close>
  is under way when \<open>Stop\<close> begins.)
\<close>

theorem aio_service_answers_all:
  assumes "0 < n" and "0 < k" and "\<forall>cmds\<in>set (concat progs). length cmds < 2 ^ 32"
    and "(any_label calm_step)\<^sup>*\<^sup>* (sv_start n k progs) r" and "sv_stopper r = StopIdle" and "submitters_done r"
    and "(any_label calm_step)\<^sup>*\<^sup>* r s" and "sv_stopper s = StopDone"
  shows "mset (map fst (sv_accepted s)) = mset (concat progs) \<and> length (sv_reqs s) = length (sv_accepted s) \<and>
     (\<forall>i<length (sv_accepted s). answered (sv_accepted s ! i) (sv_reqs s ! i)) \<and>
     (\<forall>q\<in>set (sv_queues s). m_queue (bq q) = []) \<and> sv_state s = AIO_STOPPED \<and> \<not> sv_fault s"
proof -
  have ok: "sv_ok progs r" by (rule sv_ok_reachable [OF assms(4) sv_start_ok [OF assms(1,2)]])
  have okS: "sv_ok progs s" by (rule sv_ok_reachable [OF assms(7) ok])
  have "mset (map fst (sv_accepted s)) = mset (concat progs)" by (rule sv_all_accepted [OF ok assms(5-7)])
  moreover have "sv_state s = AIO_STOPPED" using okS assms(8) by (simp add: sv_ok_def sv_safe_def sv_marks_ok_def sv_stop_ok_def)
  moreover have "length (sv_reqs s) = length (sv_accepted s)" using okS by (simp add: sv_ok_def sv_safe_def sv_reqs_ok_def)
  moreover have "\<not> sv_fault s" using okS by (simp add: sv_ok_def)
  ultimately show ?thesis using sv_stopped_answers [OF okS assms(8,3)] sv_stopped(2) [OF okS assms(8)] by simp
qed

theorem aio_service_answers_all_witness:
  "\<exists>s. (any_label calm_step)\<^sup>*\<^sup>* (sv_start 1 1 demo_progs) s \<and> sv_stopper s = StopDone \<and>
     (\<exists>now. sv_accepted s = [([demo_command], now)] \<and> answered ([demo_command], now) (sv_reqs s ! 0))"
proof -
  obtain r s where rs: "(any_label calm_step)\<^sup>*\<^sup>* (sv_start 1 1 demo_progs) r" "sv_stopper r = StopIdle" "submitters_done r"
     "(any_label calm_step)\<^sup>*\<^sup>* r s" "sv_stopper s = StopDone" using demo_service_run by blast
  note t = aio_service_answers_all [OF zero_less_one zero_less_one demo_progs_small rs]
  have "mset (map fst (sv_accepted s)) = {#[demo_command]#}" using t by (simp add: demo_progs_def)
  then have "map fst (sv_accepted s) = [[demo_command]]" by (simp only: mset_single_iff_right [symmetric] mset.simps)
  then obtain now where a: "sv_accepted s = [([demo_command], now)]" by (cases "sv_accepted s") auto
  with t have "answered ([demo_command], now) (sv_reqs s ! 0)" by (metis length_Cons nth_Cons_0 zero_less_Suc)
  with a rs show ?thesis by (metis rtranclp_trans)
qed

text \<open>
  At no moment, whatever the other requests and threads do, has the callback of a request been called
  twice, early or with results that are not final: it is called when all the commands of the request are
  complete, and not before.
\<close>

theorem aio_service_callbacks:
  assumes "0 < n" and "0 < k" and "\<forall>cmds\<in>set (concat progs). length cmds < 2 ^ 32"
    and "(any_label sv_step)\<^sup>*\<^sup>* (sv_start n k progs) s" and "i < length (sv_accepted s)"
  shows "let (cmds, now) = sv_accepted s ! i; c = sv_reqs s ! i
     in rc_calls c = (if (\<forall>p\<in>set (rc_progress c). p = Completed) \<and> cmds \<noteq> []
       then [(m_cmds (rc_req c), of_nat (card {j. j < length cmds \<and> c_ret (m_cmds (rc_req c) ! j) = -1}), -1 - now)] else [])"
proof -
  have ok: "sv_safe progs s"
    using sv_safe_reachable [OF assms(4)] sv_start_ok [OF assms(1,2)] by (simp add: sv_ok_def)
  then have "req_step\<^sup>*\<^sup>* (req_start (fst (sv_accepted s ! i)) (snd (sv_accepted s ! i))) (sv_reqs s ! i)"
    using assms(5) by (simp add: sv_safe_def sv_reqs_ok_def)
  moreover have "length (fst (sv_accepted s ! i)) < 2 ^ 32" using sv_accepted_from [OF ok assms(5)] assms(3) by blast
  ultimately have "rc_calls (sv_reqs s ! i) = (if (\<forall>p\<in>set (rc_progress (sv_reqs s ! i)). p = Completed) \<and> fst (sv_accepted s ! i) \<noteq> []
       then [(m_cmds (rc_req (sv_reqs s ! i)), of_nat (card {j. j < length (fst (sv_accepted s ! i)) \<and>
         c_ret (m_cmds (rc_req (sv_reqs s ! i)) ! j) = -1}), -1 - snd (sv_accepted s ! i))] else [])" by (rule req_calls)
  then show ?thesis by (cases "sv_accepted s ! i") (simp add: Let_def)
qed

theorem aio_service_callbacks_witness:
  "\<exists>s. (any_label sv_step)\<^sup>*\<^sup>* (sv_start 1 1 demo_progs) s \<and> length (rc_calls (sv_reqs s ! 0)) = 1"
proof -
  obtain s now where "(any_label calm_step)\<^sup>*\<^sup>* (sv_start 1 1 demo_progs) s" and a: "sv_accepted s = [([demo_command], now)]"
    and c: "\<forall>p\<in>set (rc_progress (sv_reqs s ! 0)). p = Completed" using demo_service_answer by blast
  then have run: "(any_label sv_step)\<^sup>*\<^sup>* (sv_start 1 1 demo_progs) s" by (intro calm_step_sv)
  from aio_service_callbacks [OF zero_less_one zero_less_one demo_progs_small run, of 0] a c
  have "length (rc_calls (sv_reqs s ! 0)) = 1" by (simp add: Let_def)
  with run show ?thesis by blast
qed

text \<open>
  C16: what a \<open>Stop\<close> that overlaps a \<open>Submit\<close> costs, whatever the interleaving is. When \<open>Stop\<close> has returned, every
  accepted request has been answered, unless one of its commands is stranded: it stands in a queue behind
  the marks, or has not been pushed; such a request has not been answered. What becomes of it depends on where the
  command is. In a queue that \<open>Stop\<close> has deleted: it is never run, and the callback never comes, also after any number of
  later calls of \<open>Start\<close>. In the shared queue: it stays there, and a later \<open>Start\<close> finds it there; until then no
  request changes. Yet to be pushed to a queue of the first kind: the next thing that the thread does is to use a queue that has
  been deleted. All this is said as long as no thread has done that. The witness is a run in which the only
  request, though accepted, is never answered.
\<close>

theorem aio_stop_race:
  assumes "0 < n" and "0 < k" and "\<forall>cmds\<in>set (concat progs). length cmds < 2 ^ 32"
    and "(any_label sv_step)\<^sup>*\<^sup>* (sv_start n k progs) s" and "sv_stopper s = StopDone" and "\<not> sv_fault s"
  shows "(\<forall>i<length (sv_accepted s). if \<exists>j. stranded s i j then rc_calls (sv_reqs s ! i) = []
        else answered (sv_accepted s ! i) (sv_reqs s ! i)) \<and>
     (\<forall>i j t. (i, j) \<in> deleted s \<longrightarrow> sv_life\<^sup>*\<^sup>* s t \<longrightarrow> \<not> sv_fault t \<longrightarrow>
        rc_progress (sv_reqs t ! i) ! j = Queued \<and> rc_calls (sv_reqs t ! i) = []) \<and>
     (\<forall>n' k'. m_queue (bq (sv_queues (sv_restart n' k' s) ! n')) = m_queue (bq (sv_queues s ! io_num s)) \<and>
        sv_reqs (sv_restart n' k' s) = sv_reqs s) \<and>
     (\<forall>t. (any_label sv_step)\<^sup>*\<^sup>* s t \<longrightarrow> \<not> sv_fault t \<longrightarrow> sv_reqs t = sv_reqs s \<and> sv_accepted t = sv_accepted s) \<and>
     (\<forall>i<length (sv_submitters s). \<forall>r cmds j. sb_pc (sv_submitters s ! i) = Submitting r cmds j \<longrightarrow> j < length cmds \<longrightarrow>
        c_cmd (cmds ! j) < CMD_MIN_PIO \<longrightarrow>
        (\<exists>q c. sv_wants s i = Some (q, c) \<and> \<not> sv_alive s q) \<and> sv_step False s (s\<lparr>sv_fault := True\<rparr>))"
proof -
  have ok: "sv_safe progs s"
    using sv_safe_reachable [OF assms(4)] sv_start_ok [OF assms(1,2)] by (simp add: sv_ok_def)
  have answers: "if \<exists>j. stranded s i j then rc_calls (sv_reqs s ! i) = [] else answered (sv_accepted s ! i) (sv_reqs s ! i)"
    if "i < length (sv_accepted s)" for i
    using sv_request_calls [OF ok assms(3) that] unfolding sv_stopped_stranded [OF ok assms(5)] .
  have pending: "(\<exists>q c. sv_wants s i = Some (q, c) \<and> \<not> sv_alive s q) \<and> sv_step False s (s\<lparr>sv_fault := True\<rparr>)"
    if "i < length (sv_submitters s)" "sb_pc (sv_submitters s ! i) = Submitting r cmds j" "j < length cmds" "c_cmd (cmds ! j) < CMD_MIN_PIO"
    for i r cmds j
  proof -
    let ?q = "queue_idx (io_num s) (cmds ! j)"
    have "?q < io_num s" using ok that(4) by (simp add: sv_safe_def queue_idx_def)
    then have "\<not> sv_alive s ?q" using assms(5) by (simp add: sv_alive_def)
    moreover have "sv_wants s i = Some (?q, CPush (ReqEx r j))" using that by (simp add: sv_wants_def submitter_wants_def)
    ultimately show ?thesis using sv_step.fault by blast
  qed
  have shared: "m_queue (bq (sv_queues (sv_restart n' k' s) ! n')) = m_queue (bq (sv_queues s ! io_num s)) \<and>
      sv_reqs (sv_restart n' k' s) = sv_reqs s" for n' k' by (simp add: restart_queue restart_sizes)
  show ?thesis
    using answers pending shared deleted_never_answered [OF ok assms(5,3)] sv_stopped_run [OF _ ok assms(5)]
    by (intro conjI allI impI) (assumption | blast)+
qed

theorem aio_stop_race_witness:
  "\<exists>s. (any_label sv_step)\<^sup>*\<^sup>* (sv_start 1 1 demo_progs) s \<and> sv_final s \<and> \<not> sv_fault s \<and> sv_accepted s = [([demo_command], 0)] \<and>
     (\<forall>t. sv_life\<^sup>*\<^sup>* s t \<longrightarrow> \<not> sv_fault t \<longrightarrow> rc_calls (sv_reqs t ! 0) = [])"
proof -
  obtain s where s: "(any_label sv_step)\<^sup>*\<^sup>* (sv_start 1 1 demo_progs) s" "sv_final s" "sv_accepted s = [([demo_command], 0)]"
    "\<not> sv_fault s" "(0, 0) \<in> deleted s" using demo_race_run by blast
  have st: "sv_stopper s = StopDone" using s(2) by (simp add: sv_final_def)
  note race = aio_stop_race [OF zero_less_one zero_less_one demo_progs_small s(1) st s(4), THEN conjunct2, THEN conjunct1]
  have "rc_calls (sv_reqs t ! 0) = []" if "sv_life\<^sup>*\<^sup>* s t" "\<not> sv_fault t" for t
    using race [rule_format, OF s(5) that] by simp
  with s(1-4) show ?thesis by blast
qed

text \<open>
  C9: the service never gets stuck, provided no \<open>Submit\<close> is under way when \<open>Stop\<close> begins. No run ends before
  all requests are submitted or refused and \<open>Stop\<close> has returned; the number of steps is bounded by
  the number of commands and of threads, and two more for each spurious wake-up; every run can be
  continued to the end; and none uses a deleted queue.
\<close>

theorem aio_service_terminates:
  assumes "0 < n" and "0 < k" and "labelled_run calm_step bs (sv_start n k progs) s"
  shows "length bs \<le> sum_list (map (\<lambda>p. sum_list (map (\<lambda>cmds. 9 * length cmds + 2) p)) progs) +
       6 * (n + k) + 3 + Suc n * (3 * (length progs + 1 + (n + k))) + 2 * length (filter id bs) \<and>
     (sv_final s \<or> (\<exists>t. calm_step False s t)) \<and> (\<exists>t. (calm_step False)\<^sup>*\<^sup>* s t \<and> sv_final t) \<and> \<not> sv_fault s"
proof -
  have ok: "sv_ok progs (sv_start n k progs)" by (rule sv_start_ok [OF assms(1,2)])
  note okS = sv_progress.ok_reachable [OF labelled_run_rtranclp [OF assms(3)] ok]
  show ?thesis
    using sv_progress.run_bounded [OF assms(3) ok] sv_progress.not_stuck [OF okS] sv_progress.runs_to_end [OF okS] okS
    unfolding sv_weight_start sv_ok_def by blast
qed

theorem aio_service_terminates_witness:
  "\<exists>t. (calm_step False)\<^sup>*\<^sup>* (sv_start 1 2 [[[demo_command], []], []]) t \<and> sv_final t"
  using aio_service_terminates [of 1 2 "[]" "[[[demo_command], []], []]"] by simp

end
