(* ===== verification/Logger.thy ===== *)
theory Logger
  imports Path Block_Pool Thread "HOL-Library.Monad_Syntax"
begin

text \<open>
  \<^verbatim>\<open>include/xfutil/logger.h\<close>, \<^verbatim>\<open>src/logger.cpp\<close>, \<^verbatim>\<open>src/logger_impl.h\<close> and \<^verbatim>\<open>src/logger_impl.cpp\<close>: messages are formatted into
  blocks of a block pool and queued; a thread writes them to the log file and rotates the file
  when it has grown too large.

  The disk is a map from file names to contents; \<^verbatim>\<open>unlink\<close> and \<^verbatim>\<open>rename\<close> act on it as POSIX says for regular
  files, and the result of opening the log file is an argument. Memory is a map from the address of
  a block to its bytes. In this theory callers and writer take turns and the queue is the list of its
  entries; theories \<open>Logger_Threads\<close> and \<open>Logger_Service\<close> put the same operations, cut into their
  accesses to shared state, around the blocking queue. Times are arguments. \<^const>\<open>None\<close> is undefined behaviour: a null pointer
  used as a string or as a buffer, or a read behind the end of a block.
\<close>

section \<open>Levels and configuration\<close>

datatype LogLevel = LEVEL_DEBUG | LEVEL_INFO | LEVEL_WARN | LEVEL_ERROR | LEVEL_FATAL | LEVEL_MAX

fun level_num :: "LogLevel \<Rightarrow> nat" where
  "level_num LEVEL_DEBUG = 0"
| "level_num LEVEL_INFO = 1"
| "level_num LEVEL_WARN = 2"
| "level_num LEVEL_ERROR = 3"
| "level_num LEVEL_FATAL = 4"
| "level_num LEVEL_MAX = 5"

definition ascii :: "string \<Rightarrow> bytes" where
  "ascii s = map of_char s"

text \<open>
  The table has five entries and four initialisers: two adjacent literals without a comma between
  them are one, and the last entry is a null pointer.
\<close>

definition LEVEL_DESC :: "bytes option list" where
  "LEVEL_DESC = [Some (ascii ''DEBUG''), Some (ascii ''INFO''), Some (ascii ''WARN''),
     Some (ascii ''ERROR'' @ ascii ''FATAL''), None]"

definition FLAG_OUT_FILENAME :: u32 where "FLAG_OUT_FILENAME = 1"
definition FLAG_OUT_FUNCTION :: u32 where "FLAG_OUT_FUNCTION = 2"
definition FLAG_OUT_LINENUM :: u32 where "FLAG_OUT_LINENUM = 4"

record LogConfig =
  cf_file_path :: bytes
  cf_max_file_size :: u64
  cf_max_file_num :: u16
  cf_level :: LogLevel
  cf_flags :: u32

definition LogConfig_default :: "bytes \<Rightarrow> LogConfig" where
  "LogConfig_default path = \<lparr>cf_file_path = path, cf_max_file_size = 50 * 1024 * 1024, cf_max_file_num = 4,
     cf_level = LEVEL_INFO, cf_flags = FLAG_OUT_FILENAME OR FLAG_OUT_LINENUM\<rparr>"

definition BLOCK_SIZE :: nat where "BLOCK_SIZE = 8192"
definition CACHE_NUM :: u32 where "CACHE_NUM = 1024"

section \<open>The implementation\<close>

record LogData =
  ld_buf :: nat
  ld_len :: u32

type_synonym disk = "bytes \<rightharpoonup> bytes"

record LoggerImpl =
  m_conf :: LogConfig
  m_started :: bool
  m_thread :: thread
  m_logfile :: bool
  m_filesize :: u64
  m_data_queue :: "LogData list"
  m_pool :: BlockPool
  lg_disk :: disk
  lg_mem :: "nat \<Rightarrow> bytes"

definition LoggerImpl_new :: "LogConfig \<Rightarrow> disk \<Rightarrow> (nat \<Rightarrow> bytes) \<Rightarrow> LoggerImpl" where
  "LoggerImpl_new conf disk mem =
     \<lparr>m_conf = conf, m_started = False, m_thread = NoThread, m_logfile = False, m_filesize = 0, m_data_queue = [], m_pool = BlockPool_new,
      lg_disk = disk, lg_mem = mem\<rparr>"

definition contents :: "disk \<Rightarrow> bytes \<Rightarrow> bytes" where
  "contents d f = (case d f of None \<Rightarrow> [] | Some x \<Rightarrow> x)"

definition unlink :: "bytes \<Rightarrow> disk \<Rightarrow> disk" where
  "unlink f d = d(f := None)"

definition rename_file :: "bytes \<Rightarrow> bytes \<Rightarrow> disk \<Rightarrow> disk" where
  "rename_file src dst d = (case d src of None \<Rightarrow> d | Some x \<Rightarrow> (d(src := None))(dst := Some x))"

definition open_append :: "bytes \<Rightarrow> disk \<Rightarrow> disk" where
  "open_append f d = (case d f of None \<Rightarrow> d(f := Some []) | Some _ \<Rightarrow> d)"

text \<open>\<^verbatim>\<open>snprintf(path, sizeof(path), "%s.%u", file_path, i)\<close>.\<close>

definition log_name :: "bytes \<Rightarrow> nat \<Rightarrow> bytes" where
  "log_name file_path i = take (MAX_PATH_LEN - 1) (file_path @ [46] @ decimal i)"

fun Rename_loop :: "bytes \<Rightarrow> nat \<Rightarrow> disk \<Rightarrow> disk" where
  "Rename_loop file_path 0 d = d"
| "Rename_loop file_path (Suc i) d =
     Rename_loop file_path i (rename_file (log_name file_path (Suc i)) (log_name file_path (Suc i + 1)) d)"

definition LoggerImpl_Rename :: "LoggerImpl \<Rightarrow> LoggerImpl" where
  "LoggerImpl_Rename l =
     (let p = cf_file_path (m_conf l);
          n = cf_max_file_num (m_conf l);
          d = unlink (log_name p (unat n)) (lg_disk l);
          d = Rename_loop p (unat (n - 1)) d;
          d = rename_file p (log_name p 1) d
      in l\<lparr>lg_disk := d\<rparr>)"

definition LoggerImpl_Reopen :: "bool \<Rightarrow> LoggerImpl \<Rightarrow> bool \<times> LoggerImpl" where
  "LoggerImpl_Reopen open_ok l =
     (let l = l\<lparr>m_logfile := False\<rparr>;
          l = LoggerImpl_Rename l;
          l = l\<lparr>m_filesize := 0\<rparr>
      in if open_ok then (True, l\<lparr>m_logfile := True, lg_disk := open_append (cf_file_path (m_conf l)) (lg_disk l)\<rparr>)
         else (False, l))"

text \<open>
  \<open>Write\<close>: the bytes go behind the contents of the file the descriptor was opened on (nowhere when
  opening failed), the block goes back to the pool.
\<close>

definition LoggerImpl_Write :: "bool \<Rightarrow> LogData \<Rightarrow> LoggerImpl \<Rightarrow> LoggerImpl option" where
  "LoggerImpl_Write open_ok data l = do {
     text \<leftarrow> mem_read (lg_mem l (ld_buf data)) (unat (ld_len data));
     let p = cf_file_path (m_conf l);
     let l = (if m_logfile l then l\<lparr>lg_disk := (lg_disk l)(p := Some (contents (lg_disk l) p @ text))\<rparr> else l);
     let l = l\<lparr>m_filesize := m_filesize l + ucast (ld_len data)\<rparr>;
     let l = l\<lparr>m_pool := snd (BlockPool_Free (ld_buf data) (m_pool l))\<rparr>;
     Some (if m_filesize l \<ge> cf_max_file_size (m_conf l) then snd (LoggerImpl_Reopen open_ok l) else l)
   }"

text \<open>
  The thread: entries from the queue until the mark, a null pointer. \<open>open_ok\<close> says whether a file can
  be opened when the log is rotated. The first component of the result tells whether the thread
  has met the mark; otherwise it waits for more.
\<close>

fun LogThread :: "bool \<Rightarrow> LogData list \<Rightarrow> LoggerImpl \<Rightarrow> (bool \<times> LoggerImpl) option" where
  "LogThread open_ok [] l = Some (False, l\<lparr>m_data_queue := []\<rparr>)"
| "LogThread open_ok (data # q) l =
     (if ld_buf data = 0 then Some (True, l\<lparr>m_data_queue := q\<rparr>)
      else Option.bind (LoggerImpl_Write open_ok data l) (LogThread open_ok q))"

text \<open>
  \<open>Start\<close> opens the file, initialises the pool and starts the thread; \<^const>\<open>None\<close> is the end of the program
  when the object has a thread already. (The capacity of the queue is set here too.)
\<close>

definition LoggerImpl_Start :: "bool \<Rightarrow> nat \<Rightarrow> LogConfig \<Rightarrow> LoggerImpl \<Rightarrow> (bool \<times> LoggerImpl) option" where
  "LoggerImpl_Start open_ok malloc_res conf l =
     (let l = l\<lparr>m_conf := conf, m_logfile := open_ok\<rparr>
      in if \<not> open_ok then Some (False, l)
         else do {
           let p = cf_file_path (m_conf l);
           let l = l\<lparr>lg_disk := open_append p (lg_disk l)\<rparr>;
           let l = l\<lparr>m_filesize := of_nat (length (contents (lg_disk l) p))\<rparr>;
           let l = l\<lparr>m_pool := snd (BlockPool_Init malloc_res (of_nat BLOCK_SIZE) CACHE_NUM (m_pool l))\<rparr>;
           (_, th) \<leftarrow> Thread_Start (m_thread l);
           Some (True, l\<lparr>m_thread := th, m_started := True\<rparr>)
         })"

text \<open>\<open>Close\<close> waits for the thread; a thread that never ends is \<^const>\<open>None\<close>. The destructor closes.\<close>

definition LoggerImpl_Close :: "bool \<Rightarrow> LoggerImpl \<Rightarrow> LoggerImpl option" where
  "LoggerImpl_Close open_ok l =
     (if \<not> m_started l then Some l
      else do {
        let l = l\<lparr>m_data_queue := m_data_queue l @ [\<lparr>ld_buf = 0, ld_len = 0\<rparr>]\<rparr>;
        (ended, l) \<leftarrow> LogThread open_ok (m_data_queue l) l;
        (if ended then Some () else None);
        th \<leftarrow> Thread_Join (m_thread l);
        Some (l\<lparr>m_thread := th, m_logfile := False, m_started := False\<rparr>)
      })"

definition LoggerImpl_destroy :: "bool \<Rightarrow> LoggerImpl \<Rightarrow> LoggerImpl option" where
  "LoggerImpl_destroy open_ok l = LoggerImpl_Close open_ok l"

text \<open>What one call knows of the present: the fields of the local time, and the milliseconds.\<close>

record log_time =
  t_year :: u32
  t_mon :: u32
  t_day :: u32
  t_hour :: u32
  t_min :: u32
  t_sec :: u32
  t_ms :: u32

definition fmt_d :: "int \<Rightarrow> bytes" where
  "fmt_d i = (if i < 0 then 45 # decimal (nat (- i)) else decimal (nat i))"

definition log_line :: "LogConfig \<Rightarrow> LogLevel \<Rightarrow> log_time \<Rightarrow> bytes \<Rightarrow> bytes \<Rightarrow> int \<Rightarrow> bytes \<Rightarrow> bytes option" where
  "log_line conf level t file_name func_name line_num msg =
     (let out = (\<lambda>f. cf_flags conf AND f \<noteq> 0);
          line_buf = (if out FLAG_OUT_LINENUM then take 63 (fmt_d line_num) else []);
          file_name = (if out FLAG_OUT_FILENAME then GetFileName file_name else file_name)
      in if level_num level \<ge> length LEVEL_DESC then None
         else map_option (\<lambda>desc.
           fmt_u 4 (t_year t) @ [45] @ fmt_u 2 (t_mon t) @ [45] @ fmt_u 2 (t_day t) @ [32] @
           fmt_u 2 (t_hour t) @ [58] @ fmt_u 2 (t_min t) @ [58] @ fmt_u 2 (t_sec t) @ [46] @ fmt_u 3 (t_ms t) @
           [32, 91] @ desc @ [93, 32, 91] @
           (if out FLAG_OUT_FILENAME then file_name else []) @ [58] @
           (if out FLAG_OUT_LINENUM then line_buf else []) @ [58] @
           (if out FLAG_OUT_FUNCTION then func_name else []) @ [93, 32] @
           take (BLOCK_SIZE - 1) msg @ [10])
           (LEVEL_DESC ! level_num level))"

text \<open>
  \<open>LogMsg\<close>: the formatted message goes into one block, the whole line into another; the length that
  is queued is the result of \<^verbatim>\<open>snprintf\<close>, the length of the whole line. \<open>e1\<close> and \<open>e2\<close> are the answers of the C
  library should the pool ask it.
\<close>

definition LoggerImpl_LogMsg :: "nat \<Rightarrow> nat \<Rightarrow> LogLevel \<Rightarrow> log_time \<Rightarrow> bytes \<Rightarrow> bytes \<Rightarrow> int \<Rightarrow> bytes \<Rightarrow>
    LoggerImpl \<Rightarrow> LoggerImpl option" where
  "LoggerImpl_LogMsg e1 e2 level t file_name func_name line_num msg l = do {
     let (mbuf, pool) = BlockPool_Alloc e1 (m_pool l);
     (if mbuf = 0 then None else Some ());
     let (buf, pool) = BlockPool_Alloc e2 pool;
     (if buf = 0 then None else Some ());
     line \<leftarrow> log_line (m_conf l) level t file_name func_name line_num msg;
     (len, block) \<leftarrow> snprintf (lg_mem l buf) 0 BLOCK_SIZE line;
     let l = l\<lparr>lg_mem := (lg_mem l)(buf := block), m_pool := snd (BlockPool_Free mbuf pool)\<rparr>;
     Some (l\<lparr>m_data_queue := m_data_queue l @ [\<lparr>ld_buf = buf, ld_len = of_int len\<rparr>]\<rparr>)
   }"

section \<open>The interface\<close>

text \<open>The static logger and its level.\<close>

record Logger =
  s_logger :: LoggerImpl
  s_level :: LogLevel

definition Logger_Start :: "bool \<Rightarrow> nat \<Rightarrow> LogConfig \<Rightarrow> Logger \<Rightarrow> (bool \<times> Logger) option" where
  "Logger_Start open_ok malloc_res conf g = do {
     (ok, l) \<leftarrow> LoggerImpl_Start open_ok malloc_res conf (s_logger g);
     let g = g\<lparr>s_logger := l\<rparr>;
     Some (if ok then (True, g\<lparr>s_level := cf_level conf\<rparr>) else (False, g))
   }"

definition Logger_Close :: "bool \<Rightarrow> Logger \<Rightarrow> Logger option" where
  "Logger_Close open_ok g =
     (let g = g\<lparr>s_level := LEVEL_MAX\<rparr>
      in map_option (\<lambda>l. g\<lparr>s_logger := l\<rparr>) (LoggerImpl_Close open_ok (s_logger g)))"

definition Logger_SetLevel :: "LogLevel \<Rightarrow> Logger \<Rightarrow> Logger" where
  "Logger_SetLevel level g = g\<lparr>s_level := level\<rparr>"

definition Logger_GetLevel :: "Logger \<Rightarrow> LogLevel" where
  "Logger_GetLevel g = s_level g"

definition Logger_LogMsg :: "LogLevel \<Rightarrow> nat \<Rightarrow> nat \<Rightarrow> log_time \<Rightarrow> bytes \<Rightarrow> bytes \<Rightarrow> int \<Rightarrow> bytes \<Rightarrow> Logger \<Rightarrow> Logger option" where
  "Logger_LogMsg level e1 e2 t file_name func_name line_num msg g =
     map_option (\<lambda>l. g\<lparr>s_logger := l\<rparr>)
       (LoggerImpl_LogMsg e1 e2 level t file_name func_name line_num msg (s_logger g))"

text \<open>
  The macros \<^verbatim>\<open>LogDebug\<close> to \<^verbatim>\<open>LogFatal\<close>: the level is tested first. (\<^verbatim>\<open>LogFatal\<close> then ends the process.)
\<close>

definition Log_macro :: "LogLevel \<Rightarrow> nat \<Rightarrow> nat \<Rightarrow> log_time \<Rightarrow> bytes \<Rightarrow> bytes \<Rightarrow> int \<Rightarrow> bytes \<Rightarrow> Logger \<Rightarrow> Logger option" where
  "Log_macro level e1 e2 t file_name func_name line_num msg g =
     (if level_num (Logger_GetLevel g) \<le> level_num level
      then Logger_LogMsg level e1 e2 t file_name func_name line_num msg g
      else Some g)"

section \<open>Rotation\<close>

lemma log_name_plain: "length p \<le> 249 \<Longrightarrow> i < 10 ^ 5 \<Longrightarrow> log_name p i = p @ [46] @ decimal i"
  using decimal_length [of i 5] by (simp add: log_name_def MAX_PATH_LEN_def)

lemma log_name_eq: "length p \<le> 249 \<Longrightarrow> i < 10 ^ 5 \<Longrightarrow> j < 10 ^ 5 \<Longrightarrow> log_name p i = log_name p j \<longleftrightarrow> i = j"
  by (simp add: log_name_plain)

lemma log_name_path: "length p \<le> 249 \<Longrightarrow> i < 10 ^ 5 \<Longrightarrow> log_name p i \<noteq> p"
  by (simp add: log_name_plain)

lemma rename_file_apply:
  "src \<noteq> dst \<Longrightarrow> d dst = None \<Longrightarrow>
   rename_file src dst d q = (if q = dst then d src else if q = src then None else d q)"
  by (auto simp: rename_file_def split: option.splits)

lemma Rename_loop_spec:
  assumes "length p \<le> 249" and "Suc k < 10 ^ 5" and "d (log_name p (Suc k)) = None"
  shows "(\<forall>i. 1 \<le> i \<longrightarrow> i \<le> k \<longrightarrow> Rename_loop p k d (log_name p (Suc i)) = d (log_name p i)) \<and>
     Rename_loop p k d (log_name p 1) = None \<and>
     (\<forall>q. q \<notin> log_name p ` {1..Suc k} \<longrightarrow> Rename_loop p k d q = d q)"
  using assms(2,3)
proof (induction k arbitrary: d)
  case (Suc k)
  define e where "e = rename_file (log_name p (Suc k)) (log_name p (Suc (Suc k))) d"
  have loop: "Rename_loop p (Suc k) d = Rename_loop p k e" by (simp add: e_def)
  have eq: "log_name p i = log_name p j \<longleftrightarrow> i = j" if "i \<le> Suc (Suc k)" "j \<le> Suc (Suc k)" for i j
    using log_name_eq [OF assms(1), of i j] that Suc.prems(1) by simp
  have ap: "e q = (if q = log_name p (Suc (Suc k)) then d (log_name p (Suc k))
      else if q = log_name p (Suc k) then None else d q)" for q
    unfolding e_def using eq [of "Suc k" "Suc (Suc k)"] Suc.prems(2) by (intro rename_file_apply) simp_all
  have "e (log_name p (Suc k)) = None" using ap eq by simp
  with Suc.IH [of e] Suc.prems(1) have
    IH1: "\<And>i. 1 \<le> i \<Longrightarrow> i \<le> k \<Longrightarrow> Rename_loop p k e (log_name p (Suc i)) = e (log_name p i)" and
    IH2: "Rename_loop p k e (log_name p 1) = None" and
    IH3: "\<And>q. q \<notin> log_name p ` {1..Suc k} \<Longrightarrow> Rename_loop p k e q = e q" by simp_all
  have "Rename_loop p k e (log_name p (Suc i)) = d (log_name p i)" if "1 \<le> i" "i \<le> Suc k" for i
  proof (cases "i = Suc k")
    case True
    have "log_name p (Suc (Suc k)) \<noteq> log_name p j" if "j \<in> {1..Suc k}" for j
      using eq [of "Suc (Suc k)" j] that by simp
    then have "log_name p (Suc (Suc k)) \<notin> log_name p ` {1..Suc k}" by blast
    with True IH3 ap show ?thesis by simp
  next
    case False
    with that have "i \<le> k" by simp
    with that IH1 [of i] ap eq [of i "Suc k"] eq [of i "Suc (Suc k)"] show ?thesis by simp
  qed
  moreover have "Rename_loop p k e q = d q" if q: "q \<notin> log_name p ` {1..Suc (Suc k)}" for q
  proof -
    have "q \<notin> log_name p ` {1..Suc k}" "q \<noteq> log_name p (Suc k)" "q \<noteq> log_name p (Suc (Suc k))"
      using q by auto
    with IH3 ap show ?thesis by simp
  qed
  ultimately show ?case unfolding loop using IH2 by blast
qed auto

text \<open>The effect of \<open>Rename\<close> on the disk when the names \<open>1\<close> to \<open>Suc k\<close> rotate.\<close>

lemma Rename_disk:
  assumes "length p \<le> 249" and "Suc k < 10 ^ 5" and "d (log_name p (Suc k)) = None"
  defines "e \<equiv> rename_file p (log_name p 1) (Rename_loop p k d)"
  shows "e (log_name p 1) = d p \<and> (\<forall>i. 1 \<le> i \<longrightarrow> i \<le> k \<longrightarrow> e (log_name p (Suc i)) = d (log_name p i)) \<and>
     e p = None \<and> (\<forall>q. q \<noteq> p \<longrightarrow> q \<notin> log_name p ` {1..Suc k} \<longrightarrow> e q = d q)"
proof -
  note l = Rename_loop_spec [of p k d, OF assms(1-3)]
  have ne: "p \<noteq> log_name p 1" using log_name_path [OF assms(1), of 1] by auto
  have "p \<noteq> log_name p j" if "j \<le> Suc k" for j
    using log_name_path [OF assms(1), of j] assms(2) that by (auto simp del: power_numeral)
  then have "p \<notin> log_name p ` {1..Suc k}" by auto
  with l have p: "Rename_loop p k d p = d p" by blast
  have ap: "e q = (if q = log_name p 1 then d p else if q = p then None else Rename_loop p k d q)" for q
    unfolding e_def using rename_file_apply [OF ne, of "Rename_loop p k d" q] l p by simp
  have "e (log_name p (Suc i)) = d (log_name p i)" if "1 \<le> i" "i \<le> k" for i
    using ap l that log_name_eq [OF assms(1), of "Suc i" 1] log_name_path [OF assms(1), of "Suc i"] assms(2) by simp
  moreover have "e q = d q" if "q \<noteq> p" "q \<notin> log_name p ` {1..Suc k}" for q
    using ap [of q] l that by auto
  ultimately show ?thesis using ap ne by simp
qed

section \<open>Writing\<close>

text \<open>
  What the logger should do with a line: append it to the log file, and start a new file when the
  size reaches the limit. \<open>rotate\<close> is the effect of \<open>Rename\<close> on the disk.
\<close>

definition rotate :: "LogConfig \<Rightarrow> disk \<Rightarrow> disk" where
  "rotate conf d =
     (let p = cf_file_path conf; n = cf_max_file_num conf
      in rename_file p (log_name p 1) (Rename_loop p (unat (n - 1)) (unlink (log_name p (unat n)) d)))"

definition spec_write :: "LogConfig \<Rightarrow> disk \<times> u64 \<Rightarrow> bytes \<Rightarrow> disk \<times> u64" where
  "spec_write conf s line =
     (let p = cf_file_path conf;
          d = (fst s)(p := Some (contents (fst s) p @ line));
          size = snd s + of_nat (length line)
      in if size \<ge> cf_max_file_size conf then (open_append p (rotate conf d), 0) else (d, size))"

abbreviation running :: "LoggerImpl \<Rightarrow> bool \<times> thread" where
  "running l \<equiv> (m_started l, m_thread l)"

text \<open>
  The blocks of the queue hold the lines that are still to be written; they and nothing else are
  in use in the pool.
\<close>

definition queue_ok :: "LoggerImpl \<Rightarrow> bytes list \<Rightarrow> bool" where
  "queue_ok l ls \<longleftrightarrow> m_logfile l \<and> (\<forall>a. length (lg_mem l a) = BLOCK_SIZE) \<and>
     distinct (map ld_buf (m_data_queue l)) \<and> pool_inv (m_pool l) (ld_buf ` set (m_data_queue l)) \<and>
     list_all2 (\<lambda>data line. ld_buf data \<noteq> 0 \<and> unat (ld_len data) = length line \<and> length line < BLOCK_SIZE \<and>
       take (length line) (lg_mem l (ld_buf data)) = line) (m_data_queue l) ls"

lemma Reopen_disk:
  "LoggerImpl_Reopen True l = (True, l\<lparr>m_logfile := True, m_filesize := 0,
     lg_disk := open_append (cf_file_path (m_conf l)) (rotate (m_conf l) (lg_disk l))\<rparr>)"
  by (simp add: LoggerImpl_Reopen_def LoggerImpl_Rename_def rotate_def Let_def)

lemma Write_ok:
  assumes "queue_ok l (line # ls)" and q: "m_data_queue l = data # q"
  shows "\<exists>m. LoggerImpl_Write True data (l\<lparr>m_data_queue := q\<rparr>) = Some m \<and> queue_ok m ls \<and>
     (lg_disk m, m_filesize m) = spec_write (m_conf l) (lg_disk l, m_filesize l) line \<and>
     m_conf m = m_conf l \<and> running m = running l \<and> m_data_queue m = q"
proof -
  let ?a = "ld_buf data" and ?L = "ld_buf ` set (data # q)"
  from assms have h: "m_logfile l" "\<forall>a. length (lg_mem l a) = BLOCK_SIZE" "distinct (map ld_buf (data # q))"
    "pool_inv (m_pool l) ?L" "?a \<noteq> 0" "unat (ld_len data) = length line" "length line < BLOCK_SIZE"
    "take (length line) (lg_mem l ?a) = line"
    and rest: "list_all2 (\<lambda>data line. ld_buf data \<noteq> 0 \<and> unat (ld_len data) = length line \<and> length line < BLOCK_SIZE \<and>
       take (length line) (lg_mem l (ld_buf data)) = line) q ls"
    by (auto simp: queue_ok_def)
  have rd: "mem_read (lg_mem l ?a) (unat (ld_len data)) = Some line" using h by (simp add: mem_read_def)
  have len: "ucast (ld_len data) = (of_nat (length line) :: u64)"
    using h(6,7) by (simp add: word_unat_eq_iff unat_ucast_up unat_of_nat_small BLOCK_SIZE_def)
  have "?L - {?a} = ld_buf ` set q" using h(3) by auto
  then have pi: "pool_inv (snd (BlockPool_Free ?a (m_pool l))) (ld_buf ` set q)"
    using BlockPool_Free_inv(1) [OF h(4), of ?a] by simp
  let ?p = "cf_file_path (m_conf l)"
  let ?m = "l\<lparr>m_data_queue := q, lg_disk := (lg_disk l)(?p := Some (contents (lg_disk l) ?p @ line)),
    m_filesize := m_filesize l + of_nat (length line), m_pool := snd (BlockPool_Free ?a (m_pool l))\<rparr>"
  have w: "LoggerImpl_Write True data (l\<lparr>m_data_queue := q\<rparr>) =
      Some (if m_filesize ?m \<ge> cf_max_file_size (m_conf l) then snd (LoggerImpl_Reopen True ?m) else ?m)"
    using rd h(1) len by (simp add: LoggerImpl_Write_def Let_def)
  have "queue_ok ?m ls" and "queue_ok (snd (LoggerImpl_Reopen True ?m)) ls"
    using h rest pi by (simp_all add: queue_ok_def Reopen_disk)
  then show ?thesis unfolding w by (simp add: Reopen_disk spec_write_def Let_def)
qed

text \<open>The thread writes everything that is queued, then meets the mark.\<close>

lemma LogThread_drains:
  assumes "queue_ok l ls" and "ld_buf mark = 0"
  shows "\<exists>m. LogThread True (m_data_queue l @ [mark]) (l\<lparr>m_data_queue := r\<rparr>) = Some (True, m) \<and>
     lg_disk m = fst (foldl (spec_write (m_conf l)) (lg_disk l, m_filesize l) ls) \<and> queue_ok m [] \<and>
     running m = running l \<and> m_conf m = m_conf l"
  using assms(1)
proof (induction ls arbitrary: l r)
  case Nil
  then have "m_data_queue l = []" by (simp add: queue_ok_def)
  with Nil assms(2) show ?case by (simp add: queue_ok_def)
next
  case (Cons line ls)
  then obtain data q where q: "m_data_queue l = data # q" and d: "ld_buf data \<noteq> 0"
    by (auto simp: queue_ok_def list_all2_Cons2)
  from Write_ok [OF Cons.prems q] obtain m where m: "LoggerImpl_Write True data (l\<lparr>m_data_queue := q\<rparr>) = Some m"
    "queue_ok m ls" "(lg_disk m, m_filesize m) = spec_write (m_conf l) (lg_disk l, m_filesize l) line"
    "m_conf m = m_conf l" "running m = running l" "m_data_queue m = q" by blast
  have "LoggerImpl_Write True data (l\<lparr>m_data_queue := r\<rparr>) = Some (m\<lparr>m_data_queue := r\<rparr>)"
    using m(1) by (auto simp: LoggerImpl_Write_def Let_def Reopen_disk mem_read_def split: if_splits)
  with q d have step: "LogThread True (m_data_queue l @ [mark]) (l\<lparr>m_data_queue := r\<rparr>) =
      LogThread True (m_data_queue m @ [mark]) (m\<lparr>m_data_queue := r\<rparr>)"
    by (simp add: m(6))
  from Cons.IH [OF m(2), of r] show ?case unfolding step using m(3-5) by simp
qed

section \<open>Logging\<close>

text \<open>
  The promise of the C library on two blocks it may be asked for by one call: new memory that
  overlaps neither the cache, nor a block in use, nor each other.
\<close>

definition answers_ok :: "nat \<Rightarrow> nat \<Rightarrow> BlockPool \<Rightarrow> nat set \<Rightarrow> bool" where
  "answers_ok e1 e2 pool L \<longleftrightarrow> e1 \<noteq> 0 \<and> e2 \<noteq> 0 \<and> block_answer_ok e1 pool L \<and> block_answer_ok e2 pool L \<and>
     (e1 + unat (m_block_size pool) \<le> e2 \<or> e2 + unat (m_block_size pool) \<le> e1)"

lemma second_answer_ok:
  assumes "pool_inv pool L" and "answers_ok e1 e2 pool L" and a: "BlockPool_Alloc e1 pool = (x, pool')"
  shows "block_answer_ok e2 pool' (insert x L)"
proof -
  note f = BlockPool_Alloc_fields [OF a]
  have b: "beside pool e2" using assms(2) by (auto simp: answers_ok_def block_answer_ok_def)
  have "e2 + unat (m_block_size pool) \<le> x \<or> x + unat (m_block_size pool) \<le> e2"
  proof (cases "x = e1")
    case False
    with f(4) assms(1) have "x \<in> cached pool" by (auto simp: pool_inv_def)
    with cached_beside_apart [OF this b] cached_in_range [of x pool] b assms(1) show ?thesis
      by (cases x e2 rule: linorder_cases) (auto simp: beside_def pool_inv_def)
  qed (use assms(2) in \<open>auto simp: answers_ok_def\<close>)
  with assms(2) b f show ?thesis by (auto simp: answers_ok_def block_answer_ok_def)
qed

lemma LogMsg_ok:
  assumes ok: "queue_ok l ls" and e: "answers_ok e1 e2 (m_pool l) (ld_buf ` set (m_data_queue l))"
    and line: "log_line (m_conf l) level t file_name func_name line_num msg = Some line" "length line < BLOCK_SIZE"
  shows "\<exists>m. LoggerImpl_LogMsg e1 e2 level t file_name func_name line_num msg l = Some m \<and> queue_ok m (ls @ [line]) \<and>
     lg_disk m = lg_disk l \<and> m_filesize m = m_filesize l \<and> m_conf m = m_conf l \<and> running m = running l"
proof -
  let ?L = "ld_buf ` set (m_data_queue l)"
  from ok have h: "m_logfile l" "\<forall>a. length (lg_mem l a) = BLOCK_SIZE" "distinct (map ld_buf (m_data_queue l))"
    and pi: "pool_inv (m_pool l) ?L" by (auto simp: queue_ok_def)
  obtain x p1 where a1: "BlockPool_Alloc e1 (m_pool l) = (x, p1)" by fastforce
  obtain y p2 where a2: "BlockPool_Alloc e2 p1 = (y, p2)" by fastforce
  from e have e': "e1 \<noteq> 0" "e2 \<noteq> 0" "block_answer_ok e1 (m_pool l) ?L" by (auto simp: answers_ok_def)
  have x0: "x \<noteq> 0" by (rule BlockPool_Alloc_nonzero [OF pi a1 e'(1)])
  from BlockPool_Alloc_inv [OF pi e'(3) a1 x0] have x: "x \<notin> ?L" "pool_inv p1 (insert x ?L)" by auto
  have y0: "y \<noteq> 0" by (rule BlockPool_Alloc_nonzero [OF x(2) a2 e'(2)])
  from BlockPool_Alloc_inv [OF x(2) second_answer_ok [OF pi e a1] a2 y0]
  have y: "y \<noteq> x" "y \<notin> ?L" "pool_inv p2 (insert y (insert x ?L))" by auto
  have "insert y (insert x ?L) - {x} = insert y ?L" using x(1) y(1) by auto
  with BlockPool_Free_inv(1) [OF y(3), of x] have p3: "pool_inv (snd (BlockPool_Free x p2)) (insert y ?L)" by simp
  have t: "take (BLOCK_SIZE - 1) line = line" using line(2) by simp
  have "length (line @ [0]) \<le> length (lg_mem l y)" using h(2) line(2) by simp
  then obtain b where w: "mem_write (lg_mem l y) 0 (line @ [0]) = Some b" by (auto simp: mem_write_def)
  then have b: "take (length line) b = line" "length b = BLOCK_SIZE"
    using mem_write_take [OF w] mem_write_length [OF w] h(2) line(2)
    by (auto simp: min_def dest: arg_cong [where f = "take (length line)"])
  have sn: "snprintf (lg_mem l y) 0 BLOCK_SIZE line = Some (int (length line), b)"
    using w t by (simp add: snprintf_def BLOCK_SIZE_def)
  have len: "unat (of_nat (length line) :: u32) = length line"
    using line(2) by (intro unat_of_nat_small) (simp add: BLOCK_SIZE_def)
  let ?m = "l\<lparr>lg_mem := (lg_mem l)(y := b), m_pool := snd (BlockPool_Free x p2),
    m_data_queue := m_data_queue l @ [\<lparr>ld_buf = y, ld_len = of_nat (length line)\<rparr>]\<rparr>"
  have "LoggerImpl_LogMsg e1 e2 level t file_name func_name line_num msg l = Some ?m"
    using a1 a2 x0 y0 line(1) sn by (simp add: LoggerImpl_LogMsg_def)
  moreover have "queue_ok ?m (ls @ [line])"
  proof -
    have "list_all2 (\<lambda>data line. ld_buf data \<noteq> 0 \<and> unat (ld_len data) = length line \<and> length line < BLOCK_SIZE \<and>
       take (length line) (((lg_mem l)(y := b)) (ld_buf data)) = line) (m_data_queue l) ls"
    proof (rule list.rel_mono_strong)
      show "list_all2 (\<lambda>data line. ld_buf data \<noteq> 0 \<and> unat (ld_len data) = length line \<and> length line < BLOCK_SIZE \<and>
        take (length line) (lg_mem l (ld_buf data)) = line) (m_data_queue l) ls"
        using ok by (simp add: queue_ok_def)
    qed (use y(2) in auto)
    then show ?thesis using h b p3 y0 y(2) len line(2)
      by (simp add: queue_ok_def list_all2_appendI)
  qed
  ultimately show ?thesis by simp
qed

text \<open>
  A running logger: callers queue lines that fit into a block, the thread writes the first line of
  the queue, in any interleaving. The list is the lines logged so far.
\<close>

inductive log_run :: "LoggerImpl \<Rightarrow> LoggerImpl \<Rightarrow> bytes list \<Rightarrow> bool" for l0 where
  start: "log_run l0 l0 []"
| msg: "log_run l0 l ls \<Longrightarrow> answers_ok e1 e2 (m_pool l) (ld_buf ` set (m_data_queue l)) \<Longrightarrow>
    log_line (m_conf l) level t file_name func_name line_num msg = Some line \<Longrightarrow> length line < BLOCK_SIZE \<Longrightarrow>
    LoggerImpl_LogMsg e1 e2 level t file_name func_name line_num msg l = Some m \<Longrightarrow> log_run l0 m (ls @ [line])"
| thread: "log_run l0 l ls \<Longrightarrow> m_data_queue l = data # q \<Longrightarrow>
    LoggerImpl_Write True data (l\<lparr>m_data_queue := q\<rparr>) = Some m \<Longrightarrow> log_run l0 m ls"

lemma log_run_inv:
  assumes "log_run l0 l ls" and "queue_ok l0 []"
  shows "\<exists>written waiting. ls = written @ waiting \<and> queue_ok l waiting \<and>
     (lg_disk l, m_filesize l) = foldl (spec_write (m_conf l0)) (lg_disk l0, m_filesize l0) written \<and>
     m_conf l = m_conf l0 \<and> running l = running l0"
  using assms(1)
proof induction
  case start
  then show ?case using assms(2) by (intro exI [of _ "[]"]) simp
next
  case (msg l ls e1 e2 level t file_name func_name line_num msg line m)
  then obtain a b where h: "ls = a @ b" "queue_ok l b"
    "(lg_disk l, m_filesize l) = foldl (spec_write (m_conf l0)) (lg_disk l0, m_filesize l0) a"
    "m_conf l = m_conf l0" "running l = running l0" by blast
  from LogMsg_ok [OF h(2) msg(2-4)] msg(5) have m: "queue_ok m (b @ [line])" "lg_disk m = lg_disk l"
    "m_filesize m = m_filesize l" "m_conf m = m_conf l" "running m = running l" by auto
  with h show ?case by (intro exI [of _ a] exI [of _ "b @ [line]"]) simp
next
  case (thread l ls data q m)
  then obtain a b where h: "ls = a @ b" "queue_ok l b"
    "(lg_disk l, m_filesize l) = foldl (spec_write (m_conf l0)) (lg_disk l0, m_filesize l0) a"
    "m_conf l = m_conf l0" "running l = running l0" by blast
  from h(2) thread(2) obtain line c where b: "b = line # c" by (auto simp: queue_ok_def list_all2_Cons1)
  from Write_ok [OF h(2) [unfolded b] thread(2)] thread(3) have m: "queue_ok m c"
    "(lg_disk m, m_filesize m) = spec_write (m_conf l) (lg_disk l, m_filesize l) line"
    "m_conf m = m_conf l" "running m = running l" by auto
  then show ?case using h b by (intro exI [of _ "a @ [line]"] exI [of _ c]) simp
qed

lemma Start_ok:
  assumes "LoggerImpl_Start True buf conf (LoggerImpl_new conf0 disk mem) = Some (True, l)" and "buf \<noteq> 0"
    and "\<forall>a. length (mem a) = BLOCK_SIZE"
  shows "queue_ok l [] \<and> running l = (True, Joinable 0) \<and> m_conf l = conf \<and> lg_disk l = open_append (cf_file_path conf) disk \<and>
    m_filesize l = of_nat (length (contents (lg_disk l) (cf_file_path conf)))"
proof -
  have "BLOCK_ALGIN \<le> of_nat BLOCK_SIZE" "of_nat BLOCK_SIZE mod BLOCK_ALGIN = 0"
    by (simp_all add: BLOCK_ALGIN_def BLOCK_SIZE_def)
  from BlockPool_Init_ok [OF this assms(2), of CACHE_NUM]
  have "pool_inv (snd (BlockPool_Init buf (of_nat BLOCK_SIZE) CACHE_NUM BlockPool_new)) {}" by auto
  then show ?thesis
    using assms(1,3) by (auto simp: LoggerImpl_Start_def LoggerImpl_new_def Thread_Start_def Let_def queue_ok_def)
qed

lemma closed_ok:
  assumes "log_run l0 l ls" and "queue_ok l0 []" and "running l0 = (True, Joinable i)"
  shows "\<exists>m. LoggerImpl_Close True l = Some (m\<lparr>m_thread := NoThread, m_logfile := False, m_started := False\<rparr>) \<and>
     queue_ok m [] \<and> lg_disk m = fst (foldl (spec_write (m_conf l0)) (lg_disk l0, m_filesize l0) ls)"
proof -
  from log_run_inv [OF assms(1,2)] obtain a b where h: "ls = a @ b" "queue_ok l b"
    "(lg_disk l, m_filesize l) = foldl (spec_write (m_conf l0)) (lg_disk l0, m_filesize l0) a"
    "m_conf l = m_conf l0" "running l = running l0" by auto
  let ?mark = "\<lparr>ld_buf = 0, ld_len = 0\<rparr>"
  from LogThread_drains [OF h(2), of ?mark "m_data_queue l @ [?mark]"] obtain m where
    "LogThread True (m_data_queue l @ [?mark]) (l\<lparr>m_data_queue := m_data_queue l @ [?mark]\<rparr>) = Some (True, m)"
    "running m = running l" "queue_ok m []"
    "lg_disk m = fst (foldl (spec_write (m_conf l)) (lg_disk l, m_filesize l) b)" by auto
  with h assms(3) show ?thesis
    by (intro exI [of _ m]) (simp add: LoggerImpl_Close_def Thread_Join_def Let_def)
qed

lemma Start_running:
  assumes "running l = (True, Joinable i)"
  shows "LoggerImpl_Start True buf conf l = None"
    and "LoggerImpl_Start False buf conf l = Some (False, l\<lparr>m_conf := conf, m_logfile := False\<rparr>)"
  using assms by (simp_all add: LoggerImpl_Start_def Thread_Start_def Let_def)

lemma Start_again:
  assumes "queue_ok m []"
  shows "\<exists>k. LoggerImpl_Start True buf conf (m\<lparr>m_thread := NoThread, m_logfile := False, m_started := False\<rparr>) = Some (True, k) \<and>
     queue_ok k [] \<and> running k = (True, Joinable 0) \<and> m_conf k = conf \<and> lg_disk k = open_append (cf_file_path conf) (lg_disk m)"
proof -
  have "m_cache_start (m_pool m) \<noteq> 0" using assms by (auto simp: queue_ok_def pool_inv_def)
  then have "snd (BlockPool_Init buf bs num (m_pool m)) = m_pool m" for bs num by (simp add: BlockPool_Init_def)
  with assms show ?thesis by (auto simp: LoggerImpl_Start_def Thread_Start_def Let_def queue_ok_def)
qed

section \<open>Properties\<close>

text \<open>
  After \<open>Start\<close>, whatever callers log (lines shorter than a block) and however the thread is
  scheduled, \<open>Close\<close> returns, and then the disk is what appending the lines one by one, in the order
  they were logged, and rotating the file whenever it reaches the limit would have made of it. No
  line is lost, duplicated or mixed with another, and every block is back in the pool.
\<close>

theorem Logger_writes_everything:
  assumes "LoggerImpl_Start True buf conf (LoggerImpl_new conf0 disk mem) = Some (True, l0)" and "buf \<noteq> 0"
    and "\<forall>a. length (mem a) = BLOCK_SIZE" and "log_run l0 l ls"
  shows "\<exists>m. LoggerImpl_Close True l = Some m \<and> \<not> m_started m \<and> pool_inv (m_pool m) {} \<and>
     lg_disk m = fst (foldl (spec_write conf) (lg_disk l0, m_filesize l0) ls)"
proof -
  note s = Start_ok [OF assms(1-3)]
  from closed_ok [OF assms(4), of 0] s show ?thesis by (auto simp: queue_ok_def)
qed

theorem Logger_writes_everything_witness:
  "\<exists>l0 m. LoggerImpl_Start True 8192 (LogConfig_default [108]) (LoggerImpl_new (LogConfig_default []) Map.empty
       (\<lambda>_. replicate BLOCK_SIZE 0)) = Some (True, l0) \<and> LoggerImpl_Close True l0 = Some m \<and>
     lg_disk m = [[108] \<mapsto> []]"
proof -
  let ?l = "LoggerImpl_new (LogConfig_default []) Map.empty (\<lambda>_. replicate BLOCK_SIZE 0)"
  let ?s = "LoggerImpl_Start True 8192 (LogConfig_default [108]) ?l"
  obtain l0 where s: "?s = Some (True, l0)" and d: "lg_disk l0 = [[108] \<mapsto> []]"
    by (simp add: LoggerImpl_Start_def Let_def LoggerImpl_new_def Thread_Start_def open_append_def LogConfig_default_def)
  from Logger_writes_everything [OF s _ _ log_run.start] d
  have "\<exists>m. LoggerImpl_Close True l0 = Some m \<and> lg_disk m = [[108] \<mapsto> []]" by auto
  with s show ?thesis by blast
qed

text \<open>
  C34: life of a logger. While it runs, a second \<open>Start\<close> ends the program (the running thread is replaced by
  the new one and destroyed), and one whose file cannot be opened leaves the thread without a
  file. \<open>Close\<close> after \<open>Close\<close> does nothing; \<open>Start\<close> after \<open>Close\<close> gives a running logger again, which appends to
  what is on the disk.
\<close>

theorem Logger_lifecycle:
  assumes "LoggerImpl_Start True buf conf (LoggerImpl_new conf0 disk mem) = Some (True, l0)" and "buf \<noteq> 0"
    and "\<forall>a. length (mem a) = BLOCK_SIZE" and "log_run l0 l ls"
  shows "LoggerImpl_Start True buf' conf' l = None \<and>
     (\<exists>k. LoggerImpl_Start False buf' conf' l = Some (False, k) \<and> m_started k \<and> \<not> m_logfile k) \<and>
     (\<exists>m k. LoggerImpl_Close True l = Some m \<and> LoggerImpl_Close open_ok m = Some m \<and>
        LoggerImpl_Start True buf' conf' m = Some (True, k) \<and> queue_ok k [] \<and> m_started k \<and>
        lg_disk k = open_append (cf_file_path conf') (lg_disk m))"
proof -
  note s = Start_ok [OF assms(1-3)]
  from closed_ok [OF assms(4), of 0] s obtain m where
    c: "LoggerImpl_Close True l = Some (m\<lparr>m_thread := NoThread, m_logfile := False, m_started := False\<rparr>)"
    and q: "queue_ok m []" by auto
  have r: "running l = (True, Joinable 0)" using log_run_inv [OF assms(4)] s by auto
  from Start_again [OF q] obtain k where "LoggerImpl_Start True buf' conf'
      (m\<lparr>m_thread := NoThread, m_logfile := False, m_started := False\<rparr>) = Some (True, k)"
    "queue_ok k []" "running k = (True, Joinable 0)" "lg_disk k = open_append (cf_file_path conf') (lg_disk m)" by blast
  with c r Start_running [OF r] show ?thesis by (simp add: LoggerImpl_Close_def)
qed

theorem Logger_lifecycle_witness:
  "\<exists>l. LoggerImpl_Start True 8192 (LogConfig_default [108]) (LoggerImpl_new (LogConfig_default []) Map.empty
       (\<lambda>_. replicate BLOCK_SIZE 0)) = Some (True, l) \<and> LoggerImpl_Start True 8192 (LogConfig_default [109]) l = None"
proof -
  let ?s = "LoggerImpl_Start True 8192 (LogConfig_default [108]) (LoggerImpl_new (LogConfig_default []) Map.empty
    (\<lambda>_. replicate BLOCK_SIZE 0))"
  obtain l where s: "?s = Some (True, l)"
    by (simp add: LoggerImpl_Start_def Let_def LoggerImpl_new_def Thread_Start_def)
  from Logger_lifecycle [OF s _ _ log_run.start] have "LoggerImpl_Start True 8192 (LogConfig_default [109]) l = None" by simp
  with s show ?thesis by blast
qed

text \<open>
  C35: rotation keeps the last \<open>max_file_num\<close> logs: the file becomes number 1, number \<open>i\<close> becomes
  number \<open>i + 1\<close>, the oldest is gone, and no other file is touched.
\<close>

theorem Logger_Rename_rotates:
  assumes "length (cf_file_path (m_conf l)) \<le> 249" and "0 < unat (cf_max_file_num (m_conf l))"
  shows "let p = cf_file_path (m_conf l); n = unat (cf_max_file_num (m_conf l));
             d = lg_disk l; e = lg_disk (LoggerImpl_Rename l)
     in e (log_name p 1) = d p \<and> (\<forall>i. 1 \<le> i \<longrightarrow> i < n \<longrightarrow> e (log_name p (i + 1)) = d (log_name p i)) \<and>
        e p = None \<and> (\<forall>q. q \<noteq> p \<longrightarrow> q \<notin> log_name p ` {1..n} \<longrightarrow> e q = d q)"
proof -
  let ?p = "cf_file_path (m_conf l)" and ?w = "cf_max_file_num (m_conf l)"
  let ?n = "unat ?w" and ?k = "unat (?w - 1)"
  let ?d = "unlink (log_name ?p ?n) (lg_disk l)"
  have k: "Suc ?k = ?n" using assms(2) unat_minus_of_nat [of 1 ?w] by simp
  have n: "?n < 10 ^ 5" using unat_bound [of ?w] by simp
  have "?d (log_name ?p (Suc ?k)) = None" by (simp add: k unlink_def)
  note r = Rename_disk [of ?p ?k ?d, OF assms(1) _ this, unfolded k, OF n]
  have other: "?d (log_name ?p i) = lg_disk l (log_name ?p i)" if "i < ?n" for i
    using that log_name_eq [OF assms(1), of i ?n] n by (simp add: unlink_def)
  have "?d ?p = lg_disk l ?p" using log_name_path [OF assms(1) n] by (auto simp: unlink_def)
  moreover have "?d q = lg_disk l q" if "q \<notin> log_name ?p ` {1..?n}" for q
    using that assms(2) by (auto simp: unlink_def)
  ultimately show ?thesis
    using r other k by (auto simp: LoggerImpl_Rename_def Let_def)
qed

theorem Logger_Rename_rotates_witness:
  "lg_disk (LoggerImpl_Rename (LoggerImpl_new (LogConfig_default [108]) [[108] \<mapsto> [7]] (\<lambda>_. []))) (log_name [108] 1) =
   Some [7]"
  using Logger_Rename_rotates [of "LoggerImpl_new (LogConfig_default [108]) [[108] \<mapsto> [7]] (\<lambda>_. [])"]
  by (simp add: LoggerImpl_new_def LogConfig_default_def Let_def)

text \<open>
  With \<open>max_file_num\<close> zero the counter of the loop starts at 65535: rotation then deletes no log at
  all but shifts 65535 of them.
\<close>

theorem Logger_Rename_zero:
  assumes "length (cf_file_path (m_conf l)) \<le> 249" and "cf_max_file_num (m_conf l) = 0"
    and "lg_disk l (log_name (cf_file_path (m_conf l)) 65536) = None"
  shows "\<forall>i. 1 \<le> i \<longrightarrow> i \<le> 65535 \<longrightarrow>
     lg_disk (LoggerImpl_Rename l) (log_name (cf_file_path (m_conf l)) (i + 1)) =
     lg_disk l (log_name (cf_file_path (m_conf l)) i)"
proof -
  let ?p = "cf_file_path (m_conf l)"
  let ?d = "unlink (log_name ?p 0) (lg_disk l)"
  have other: "?d (log_name ?p i) = lg_disk l (log_name ?p i)" if "1 \<le> i" "i \<le> 65536" for i
    using that log_name_eq [OF assms(1), of i 0] by (simp add: unlink_def)
  then have "?d (log_name ?p (Suc 65535)) = None" using assms(3) by simp
  note r = Rename_disk [of ?p 65535 ?d, OF assms(1) _ this]
  have "unat (cf_max_file_num (m_conf l) - 1) = 65535" using assms(2) by (simp add: unsigned_minus_1_eq_mask mask_eq_exp_minus_1)
  with r other assms(2) show ?thesis by (simp add: LoggerImpl_Rename_def Let_def)
qed

theorem Logger_Rename_zero_witness:
  "lg_disk (LoggerImpl_Rename (LoggerImpl_new ((LogConfig_default [108])\<lparr>cf_max_file_num := 0\<rparr>)
     [log_name [108] 9 \<mapsto> [7]] (\<lambda>_. []))) (log_name [108] 10) = Some [7]"
proof -
  let ?l = "LoggerImpl_new ((LogConfig_default [108])\<lparr>cf_max_file_num := 0\<rparr>) [log_name [108] 9 \<mapsto> [7]] (\<lambda>_. [])"
  have f: "cf_file_path (m_conf ?l) = [108]" "cf_max_file_num (m_conf ?l) = 0" "lg_disk ?l = [log_name [108] 9 \<mapsto> [7]]"
    by (simp_all add: LoggerImpl_new_def LogConfig_default_def)
  have "lg_disk (LoggerImpl_Rename ?l) (log_name (cf_file_path (m_conf ?l)) (9 + 1)) =
      lg_disk ?l (log_name (cf_file_path (m_conf ?l)) 9)"
    using Logger_Rename_zero [of ?l, rule_format, of 9] log_name_eq [of "[108]" 65536 9] by (simp add: f)
  then show ?thesis by (simp add: f)
qed

text \<open>
  The level decides what is logged: between \<open>Start\<close> and \<open>Close\<close> the macros pass on the messages
  at or above the configured level, \<open>SetLevel\<close> moves the threshold, and after \<open>Close\<close> every macro
  leaves the logger alone.
\<close>

theorem Logger_levels:
  assumes "Logger_Start open_ok buf conf g = Some (True, h)"
  shows "(\<forall>level. level_num level < level_num (cf_level conf) \<longrightarrow>
           Log_macro level e1 e2 t file_name func_name line_num msg h = Some h) \<and>
     (\<forall>level. level_num (cf_level conf) \<le> level_num level \<longrightarrow>
           Log_macro level e1 e2 t file_name func_name line_num msg h =
           map_option (\<lambda>l. h\<lparr>s_logger := l\<rparr>) (LoggerImpl_LogMsg e1 e2 level t file_name func_name line_num msg (s_logger h))) \<and>
     (\<forall>k level. level_num level < level_num k \<longrightarrow>
           Log_macro level e1 e2 t file_name func_name line_num msg (Logger_SetLevel k h) = Some (Logger_SetLevel k h)) \<and>
     (\<forall>c level. Logger_Close open_ok h = Some c \<longrightarrow> level \<noteq> LEVEL_MAX \<longrightarrow>
           Log_macro level e1 e2 t file_name func_name line_num msg c = Some c)"
proof -
  have "s_level h = cf_level conf"
    using assms by (auto simp: Logger_Start_def Let_def bind_eq_Some_conv split: if_splits)
  moreover have "s_level c = LEVEL_MAX" if "Logger_Close open_ok h = Some c" for c
    using that by (auto simp: Logger_Close_def Let_def)
  moreover have "level_num level < level_num LEVEL_MAX" if "level \<noteq> LEVEL_MAX" for level
    using that by (cases level) simp_all
  ultimately show ?thesis by (simp add: Log_macro_def Logger_LogMsg_def Logger_GetLevel_def Logger_SetLevel_def not_le [symmetric])
qed

theorem Logger_levels_witness:
  "\<exists>h. Logger_Start True 8192 (LogConfig_default [108])
      \<lparr>s_logger = LoggerImpl_new (LogConfig_default []) Map.empty (\<lambda>_. replicate BLOCK_SIZE 0), s_level = LEVEL_MAX\<rparr> = Some (True, h) \<and>
    Log_macro LEVEL_DEBUG 0 0 t [102] [103] 1 [104] h = Some h"
proof -
  let ?g = "\<lparr>s_logger = LoggerImpl_new (LogConfig_default []) Map.empty (\<lambda>_. replicate BLOCK_SIZE 0), s_level = LEVEL_MAX\<rparr>"
  let ?s = "Logger_Start True 8192 (LogConfig_default [108]) ?g"
  obtain h where s: "?s = Some (True, h)"
    by (simp add: Logger_Start_def LoggerImpl_Start_def LoggerImpl_new_def Thread_Start_def Let_def)
  have "level_num LEVEL_DEBUG < level_num (cf_level (LogConfig_default [108]))" by (simp add: LogConfig_default_def)
  with Logger_levels [OF s, of 0 0 t "[102]" "[103]" 1 "[104]"]
  have "Log_macro LEVEL_DEBUG 0 0 t [102] [103] 1 [104] h = Some h" by blast
  with s show ?thesis by blast
qed

text \<open>
  Of the five levels only the first three print their name. An error is printed as
  \<^verbatim>\<open>ERRORFATAL\<close>, and logging a fatal message, whatever it says, passes a null pointer to \<^verbatim>\<open>snprintf\<close>.
\<close>

theorem Logger_level_names:
  "LEVEL_DESC ! level_num LEVEL_ERROR = Some (ascii ''ERRORFATAL'') \<and>
   LoggerImpl_LogMsg e1 e2 LEVEL_FATAL t file_name func_name line_num msg l = None"
  by (simp add: LEVEL_DESC_def ascii_def LoggerImpl_LogMsg_def log_line_def Let_def Option.bind_eq_None_conv
      split: prod.splits)

end
