(* ===== verification/Logger_Threads.thy ===== *)
theory Logger_Threads
  imports Logger Queue "HOL-Library.Sublist"
begin

text \<open>
  The logger at work (\<^verbatim>\<open>src/logger_impl.cpp\<close>, \<^verbatim>\<open>src/logger.cpp\<close>): any number of threads call the logging macros,
  the writer thread empties the queue, and one thread calls \<open>Close\<close>, all interleaved. The queue is
  the blocking queue of theory \<open>Queue\<close> with the capacity the logger gives it, so callers wait when it is
  full. Every access to something that is shared is a step of its own: reading the level, taking
  a block, printing into it, giving it back, the operations of the queue, writing, rotating. The
  field \<^const>\<open>m_data_queue\<close> of the logger is not used here, the queue with its threads takes its place.

  The C library's \<^verbatim>\<open>malloc\<close>, which the block pool asks when it is empty, is assumed to answer with memory
  that is not in use. Opening the log file again may fail at any rotation.
\<close>

section \<open>The parts of a message and of a write\<close>

definition QUEUE_CAPACITY :: u64 where "QUEUE_CAPACITY = 10000"

text \<open>An argument list of \<open>LogMsg\<close>; the text is what \<^verbatim>\<open>vsnprintf\<close> makes of format and arguments.\<close>

record log_msg =
  lm_level :: LogLevel
  lm_time :: log_time
  lm_file :: bytes
  lm_func :: bytes
  lm_line :: int
  lm_text :: bytes

definition msg_line :: "LogConfig \<Rightarrow> log_msg \<Rightarrow> bytes \<Rightarrow> bytes option" where
  "msg_line conf m text = log_line conf (lm_level m) (lm_time m) (lm_file m) (lm_func m) (lm_line m) text"

text \<open>\<^verbatim>\<open>vsnprintf\<close> into the first block, \<^verbatim>\<open>snprintf\<close> of the line, with the text read from there, into the second.\<close>

definition LogMsg_text :: "nat \<Rightarrow> log_msg \<Rightarrow> LoggerImpl \<Rightarrow> LoggerImpl option" where
  "LogMsg_text msg m l = do {
     (_, block) \<leftarrow> snprintf (lg_mem l msg) 0 BLOCK_SIZE (lm_text m);
     Some (l\<lparr>lg_mem := (lg_mem l)(msg := block)\<rparr>)
   }"

definition LogMsg_line :: "nat \<Rightarrow> nat \<Rightarrow> log_msg \<Rightarrow> LoggerImpl \<Rightarrow> (LogData \<times> LoggerImpl) option" where
  "LogMsg_line msg buf m l = do {
     line \<leftarrow> msg_line (m_conf l) m (cstr (lg_mem l msg));
     (len, block) \<leftarrow> snprintf (lg_mem l buf) 0 BLOCK_SIZE line;
     Some (\<lparr>ld_buf = buf, ld_len = of_int len\<rparr>, l\<lparr>lg_mem := (lg_mem l)(buf := block)\<rparr>)
   }"

text \<open>\<open>Write\<close>: to the file, the block back to the pool, a new file when the limit is reached.\<close>

definition Write_file :: "LogData \<Rightarrow> LoggerImpl \<Rightarrow> LoggerImpl option" where
  "Write_file data l = do {
     text \<leftarrow> mem_read (lg_mem l (ld_buf data)) (unat (ld_len data));
     let p = cf_file_path (m_conf l);
     let l = (if m_logfile l then l\<lparr>lg_disk := (lg_disk l)(p := Some (contents (lg_disk l) p @ text))\<rparr> else l);
     Some (l\<lparr>m_filesize := m_filesize l + ucast (ld_len data)\<rparr>)
   }"

definition Write_free :: "LogData \<Rightarrow> LoggerImpl \<Rightarrow> LoggerImpl" where
  "Write_free data l = l\<lparr>m_pool := snd (BlockPool_Free (ld_buf data) (m_pool l))\<rparr>"

definition Write_rotate :: "bool \<Rightarrow> LoggerImpl \<Rightarrow> LoggerImpl" where
  "Write_rotate open_ok l =
     (if m_filesize l \<ge> cf_max_file_size (m_conf l) then snd (LoggerImpl_Reopen open_ok l) else l)"

lemma LoggerImpl_Write_parts:
  "LoggerImpl_Write open_ok data l = map_option (\<lambda>l. Write_rotate open_ok (Write_free data l)) (Write_file data l)"
  by (simp add: LoggerImpl_Write_def Write_file_def Write_free_def Write_rotate_def Let_def
      map_option_bind comp_def cong: if_cong)

section \<open>Threads\<close>

text \<open>
  Where a caller is: between two messages, or inside the macro with a message that passed the level
  test, the blocks it holds and, at last, the entry it pushes.
\<close>

datatype caller_pc = Between | Checked log_msg | HasMsg log_msg nat | Printed log_msg nat
  | HasBuf log_msg nat nat | Formatted log_msg nat LogData | Pushing log_msg LogData

record caller =
  cl_todo :: "log_msg list"
  cl_pc :: caller_pc

inductive caller_move :: "LogLevel \<Rightarrow> nat set \<Rightarrow> LoggerImpl \<Rightarrow> caller \<Rightarrow> LoggerImpl \<Rightarrow> caller \<Rightarrow> bool"
  for level L where
  pass: "level_num level \<le> level_num (lm_level m) \<Longrightarrow> caller_move level L
    l \<lparr>cl_todo = m # ms, cl_pc = Between\<rparr> l \<lparr>cl_todo = ms, cl_pc = Checked m\<rparr>"
| skip: "\<not> level_num level \<le> level_num (lm_level m) \<Longrightarrow> caller_move level L
    l \<lparr>cl_todo = m # ms, cl_pc = Between\<rparr> l \<lparr>cl_todo = ms, cl_pc = Between\<rparr>"
| alloc_msg: "e \<noteq> 0 \<Longrightarrow> block_answer_ok e (m_pool l) L \<Longrightarrow> BlockPool_Alloc e (m_pool l) = (x, pool) \<Longrightarrow>
    caller_move level L l \<lparr>cl_todo = ms, cl_pc = Checked m\<rparr> (l\<lparr>m_pool := pool\<rparr>) \<lparr>cl_todo = ms, cl_pc = HasMsg m x\<rparr>"
| print_text: "LogMsg_text x m l = Some l' \<Longrightarrow>
    caller_move level L l \<lparr>cl_todo = ms, cl_pc = HasMsg m x\<rparr> l' \<lparr>cl_todo = ms, cl_pc = Printed m x\<rparr>"
| alloc_buf: "e \<noteq> 0 \<Longrightarrow> block_answer_ok e (m_pool l) L \<Longrightarrow> BlockPool_Alloc e (m_pool l) = (y, pool) \<Longrightarrow>
    caller_move level L l \<lparr>cl_todo = ms, cl_pc = Printed m x\<rparr> (l\<lparr>m_pool := pool\<rparr>) \<lparr>cl_todo = ms, cl_pc = HasBuf m x y\<rparr>"
| print_line: "LogMsg_line x y m l = Some (data, l') \<Longrightarrow>
    caller_move level L l \<lparr>cl_todo = ms, cl_pc = HasBuf m x y\<rparr> l' \<lparr>cl_todo = ms, cl_pc = Formatted m x data\<rparr>"
| free_msg: "caller_move level L l \<lparr>cl_todo = ms, cl_pc = Formatted m x data\<rparr>
    (l\<lparr>m_pool := snd (BlockPool_Free x (m_pool l))\<rparr>) \<lparr>cl_todo = ms, cl_pc = Pushing m data\<rparr>"

datatype writer_pc = Popping | Got LogData | Written LogData | Freed | Ended

text \<open>
  The first argument is the answer of the system to the opening of the next file, should rotating ask for it.
\<close>

inductive writer_move :: "bool list \<Rightarrow> LoggerImpl \<Rightarrow> writer_pc \<Rightarrow> LoggerImpl \<Rightarrow> writer_pc \<Rightarrow> bool" where
  write_file: "Write_file data l = Some l' \<Longrightarrow> writer_move [] l (Got data) l' (Written data)"
| free: "writer_move [] l (Written data) (Write_free data l) Freed"
| rotate: "writer_move [ok] l Freed (Write_rotate ok l) Popping"

text \<open>\<open>Close\<close>: set the level, push the mark, wait for the writer, close the file.\<close>

datatype closer_pc = Open | Marking | Joining | Closed

text \<open>
  The whole: callers are the threads \<open>0\<close> to \<open>n - 1\<close> of the queue, the thread that closes is \<open>n\<close>, the writer
  \<open>n + 1\<close>. \<open>sy_lines\<close> is the history of the pushes: the number of the thread and what the block held.
  \<open>sy_opens\<close> is the history of the answers to the opening of files, one for each line written.
\<close>

record log_sys =
  sy_level :: LogLevel
  sy_impl :: LoggerImpl
  sy_queue :: "LogData system"
  sy_callers :: "caller list"
  sy_writer :: writer_pc
  sy_closer :: closer_pc
  sy_lines :: "(nat \<times> bytes) list"
  sy_opens :: "bool list"

abbreviation mark :: LogData where "mark \<equiv> \<lparr>ld_buf = 0, ld_len = 0\<rparr>"

fun pc_blocks :: "caller_pc \<Rightarrow> nat list" where
  "pc_blocks Between = []"
| "pc_blocks (Checked m) = []"
| "pc_blocks (HasMsg m x) = [x]"
| "pc_blocks (Printed m x) = [x]"
| "pc_blocks (HasBuf m x y) = [x, y]"
| "pc_blocks (Formatted m x data) = [x, ld_buf data]"
| "pc_blocks (Pushing m data) = [ld_buf data]"

fun writer_blocks :: "writer_pc \<Rightarrow> nat list" where
  "writer_blocks (Got data) = [ld_buf data]"
| "writer_blocks (Written data) = [ld_buf data]"
| "writer_blocks _ = []"

definition queue_blocks :: "LogData list \<Rightarrow> nat list" where
  "queue_blocks q = filter (\<lambda>x. x \<noteq> 0) (map ld_buf q)"

definition blocks :: "log_sys \<Rightarrow> nat multiset" where
  "blocks s = mset (concat (map (\<lambda>c. pc_blocks (cl_pc c)) (sy_callers s))) + mset (writer_blocks (sy_writer s)) +
     mset (queue_blocks (m_queue (bq (sy_queue s))))"

text \<open>The call of the queue that a thread has come to, and what it does when the call returns.\<close>

definition log_wants :: "log_sys \<Rightarrow> nat \<Rightarrow> LogData call option" where
  "log_wants s i =
     (let n = length (sy_callers s)
      in if i < n then (case cl_pc (sy_callers s ! i) of Pushing m data \<Rightarrow> Some (CPush data) | _ \<Rightarrow> None)
         else if i = n \<and> sy_closer s = Marking then Some (CPush mark)
         else if i = Suc n \<and> sy_writer s = Popping then Some CPop
         else None)"

definition log_return :: "nat \<Rightarrow> log_sys \<Rightarrow> log_sys" where
  "log_return i s =
     (let n = length (sy_callers s)
      in if i < n then
           let data = last (pushed (sy_queue s))
           in s\<lparr>sy_callers := (sy_callers s)[i := (sy_callers s ! i)\<lparr>cl_pc := Between\<rparr>],
                sy_lines := sy_lines s @ [(i, take (unat (ld_len data)) (lg_mem (sy_impl s) (ld_buf data)))]\<rparr>
         else if i = n then s\<lparr>sy_closer := Joining, sy_lines := sy_lines s @ [(n, [])]\<rparr>
         else let data = last (popped (sy_queue s))
              in s\<lparr>sy_writer := (if ld_buf data = 0 then Ended else Got data)\<rparr>)"

inductive log_step :: "bool \<Rightarrow> log_sys \<Rightarrow> log_sys \<Rightarrow> bool" where
  caller: "i < length (sy_callers s) \<Longrightarrow>
    caller_move (sy_level s) (set_mset (blocks s)) (sy_impl s) (sy_callers s ! i) l c \<Longrightarrow>
    log_step False s (s\<lparr>sy_impl := l, sy_callers := (sy_callers s)[i := c]\<rparr>)"
| writer: "writer_move a (sy_impl s) (sy_writer s) l w \<Longrightarrow>
    log_step False s (s\<lparr>sy_impl := l, sy_writer := w, sy_opens := sy_opens s @ a\<rparr>)"
| close: "sy_closer s = Open \<Longrightarrow> log_step False s (s\<lparr>sy_level := LEVEL_MAX, sy_closer := Marking\<rparr>)"
| join: "sy_closer s = Joining \<Longrightarrow> sy_writer s = Ended \<Longrightarrow> Thread_Join (m_thread (sy_impl s)) = Some th \<Longrightarrow>
    log_step False s (s\<lparr>sy_impl := (sy_impl s)\<lparr>m_thread := th, m_logfile := False, m_started := False\<rparr>, sy_closer := Closed\<rparr>)"
| call: "log_wants s i = Some c \<Longrightarrow> i < length (threads (sy_queue s)) \<Longrightarrow> threads (sy_queue s) ! i = Idle \<Longrightarrow>
    log_step False s (s\<lparr>sy_queue := (sy_queue s)\<lparr>threads := (threads (sy_queue s))[i := Ready c]\<rparr>\<rparr>)"
| act: "bq_act i (sy_queue s) q \<Longrightarrow> log_step False s
    (if threads q ! i = Idle then log_return i (s\<lparr>sy_queue := q\<rparr>) else s\<lparr>sy_queue := q\<rparr>)"
| spurious: "i < length (threads (sy_queue s)) \<Longrightarrow> threads (sy_queue s) ! i = Waiting c \<Longrightarrow>
    log_step True s (s\<lparr>sy_queue := (sy_queue s)\<lparr>threads := (threads (sy_queue s))[i := Ready c]\<rparr>\<rparr>)"

text \<open>The logger just after \<open>Start\<close>, with the messages each thread is going to log.\<close>

definition log_start :: "LoggerImpl \<Rightarrow> log_msg list list \<Rightarrow> log_sys" where
  "log_start l progs = \<lparr>sy_level = cf_level (m_conf l), sy_impl = l,
     sy_queue = system_new QUEUE_CAPACITY (length progs + 2),
     sy_callers = map (\<lambda>ms. \<lparr>cl_todo = ms, cl_pc = Between\<rparr>) progs,
     sy_writer = Popping, sy_closer = Open, sy_lines = [], sy_opens = []\<rparr>"

section \<open>The blocks in use\<close>

lemma blocks_caller:
  assumes "i < length (sy_callers s)"
  shows "blocks (s\<lparr>sy_impl := l, sy_callers := (sy_callers s)[i := c]\<rparr>) + mset (pc_blocks (cl_pc (sy_callers s ! i))) =
    blocks s + mset (pc_blocks (cl_pc c))"
  using mset_concat_update [OF assms, of "\<lambda>c. pc_blocks (cl_pc c)" c] by (simp add: blocks_def)

lemma pool_take:
  assumes "sole B" and "0 \<notin># B" and "pool_inv p (set_mset B)" and "e \<noteq> 0"
    and "block_answer_ok e p (set_mset B)" and "BlockPool_Alloc e p = (x, q)"
  shows "sole (add_mset x B) \<and> 0 \<notin># add_mset x B \<and> pool_inv q (set_mset (add_mset x B))"
proof -
  have "x \<noteq> 0" by (rule BlockPool_Alloc_nonzero [OF assms(3,6,4)])
  with BlockPool_Alloc_inv [OF assms(3,5,6)] assms(1,2) show ?thesis by (auto simp: sole_add)
qed

lemma pool_give:
  assumes "sole (add_mset x B)" and "pool_inv p (set_mset (add_mset x B))"
  shows "pool_inv (snd (BlockPool_Free x p)) (set_mset B)"
proof -
  have "set_mset (add_mset x B) - {x} = set_mset B" using assms(1) by (auto simp: sole_add)
  with BlockPool_Free_inv(1) [OF assms(2), of x] show ?thesis by simp
qed

text \<open>Memory safety: no block has two owners, and the pool knows exactly the blocks in use.\<close>

definition log_mem_ok :: "log_sys \<Rightarrow> bool" where
  "log_mem_ok s \<longleftrightarrow> sole (blocks s) \<and> 0 \<notin># blocks s \<and> pool_inv (m_pool (sy_impl s)) (set_mset (blocks s)) \<and>
     (\<forall>a. length (lg_mem (sy_impl s) a) = BLOCK_SIZE)"

lemma snprintf_length: "snprintf buf off n out = Some (k, b) \<Longrightarrow> length b = length buf"
  by (auto simp: snprintf_def dest: mem_write_length split: if_splits)

lemma LogMsg_frame:
  shows "LogMsg_text x m l = Some l' \<Longrightarrow> m_pool l' = m_pool l \<and> m_conf l' = m_conf l \<and> lg_disk l' = lg_disk l \<and>
      m_filesize l' = m_filesize l \<and> m_logfile l' = m_logfile l \<and> running l' = running l \<and>
      (\<forall>a. length (lg_mem l' a) = length (lg_mem l a)) \<and> (\<forall>a. a \<noteq> x \<longrightarrow> lg_mem l' a = lg_mem l a)"
    and "LogMsg_line x y m l = Some (data, l') \<Longrightarrow> ld_buf data = y \<and> m_pool l' = m_pool l \<and> m_conf l' = m_conf l \<and>
      lg_disk l' = lg_disk l \<and> m_filesize l' = m_filesize l \<and> m_logfile l' = m_logfile l \<and> running l' = running l \<and>
      (\<forall>a. length (lg_mem l' a) = length (lg_mem l a)) \<and> (\<forall>a. a \<noteq> y \<longrightarrow> lg_mem l' a = lg_mem l a)"
  by (auto simp: LogMsg_text_def LogMsg_line_def bind_eq_Some_conv dest: snprintf_length)

lemma log_mem_caller:
  assumes ok: "log_mem_ok s" and i: "i < length (sy_callers s)"
    and mv: "caller_move level (set_mset (blocks s)) (sy_impl s) (sy_callers s ! i) l c"
  shows "log_mem_ok (s\<lparr>sy_impl := l, sy_callers := (sy_callers s)[i := c]\<rparr>)"
proof -
  let ?t = "s\<lparr>sy_impl := l, sy_callers := (sy_callers s)[i := c]\<rparr>"
  note b = blocks_caller [OF i, where l = l and c = c]
  from ok have h: "sole (blocks s)" "0 \<notin># blocks s" "pool_inv (m_pool (sy_impl s)) (set_mset (blocks s))"
    "\<forall>a. length (lg_mem (sy_impl s) a) = BLOCK_SIZE" by (auto simp: log_mem_ok_def)
  from mv show ?thesis
  proof cases
    case (pass m ms)
    with b h show ?thesis by (simp add: log_mem_ok_def)
  next
    case (skip m ms)
    with b h show ?thesis by (simp add: log_mem_ok_def)
  next
    case (alloc_msg e x pool ms m)
    with b have "blocks ?t = add_mset x (blocks s)" by simp
    with pool_take [OF h(1-3) alloc_msg(4,5,6)] alloc_msg(2) h(4) show ?thesis by (simp add: log_mem_ok_def)
  next
    case (print_text x m ms)
    with b have "blocks ?t = blocks s" by simp
    with LogMsg_frame(1) [OF print_text(3)] h show ?thesis by (simp add: log_mem_ok_def)
  next
    case (alloc_buf e y pool ms m x)
    with b have "blocks ?t = add_mset y (blocks s)" by simp
    with pool_take [OF h(1-3) alloc_buf(4,5,6)] alloc_buf(2) h(4) show ?thesis by (simp add: log_mem_ok_def)
  next
    case (print_line x y m data ms)
    with b LogMsg_frame(2) [OF print_line(3)] have "blocks ?t = blocks s" by simp
    with LogMsg_frame(2) [OF print_line(3)] h show ?thesis by (simp add: log_mem_ok_def)
  next
    case (free_msg ms m x data)
    with b have e: "blocks s = add_mset x (blocks ?t)" by simp
    with pool_give [of x "blocks ?t"] free_msg(2) h show ?thesis by (simp add: log_mem_ok_def sole_add)
  qed
qed

section \<open>The queue with its threads\<close>

definition log_queue_ok :: "log_sys \<Rightarrow> bool" where
  "log_queue_ok s \<longleftrightarrow> queue_at (log_wants s) QUEUE_CAPACITY (sy_queue s) \<and>
     length (threads (sy_queue s)) = length (sy_callers s) + 2 \<and> length (sy_lines s) = length (pushed (sy_queue s))"

lemma log_wants_plain: "plain_calls (log_wants s)"
  by (auto simp: plain_calls_def log_wants_def Let_def split: caller_pc.splits)

lemma log_wants_push:
  "log_wants s i = Some (CPush v) \<longleftrightarrow> (i < length (sy_callers s) \<and> (\<exists>m. cl_pc (sy_callers s ! i) = Pushing m v)) \<or>
     (i = length (sy_callers s) \<and> sy_closer s = Marking \<and> v = mark)"
  by (auto simp: log_wants_def Let_def split: caller_pc.splits)

lemma log_wants_pop: "log_wants s i = Some CPop \<longleftrightarrow> i = Suc (length (sy_callers s)) \<and> sy_writer s = Popping"
  by (auto simp: log_wants_def Let_def split: caller_pc.splits)

text \<open>The four things an act can be.\<close>

lemma log_act_cases [consumes 2, case_names message marking pop wait]:
  assumes "log_queue_ok s" and a: "bq_act i (sy_queue s) q"
  obtains m data where "i < length (sy_callers s)" "cl_pc (sy_callers s ! i) = Pushing m data" "threads q ! i = Idle"
      "m_queue (bq q) = m_queue (bq (sy_queue s)) @ [data]" "pushed q = pushed (sy_queue s) @ [data]"
      "popped q = popped (sy_queue s)"
      "log_return i (s\<lparr>sy_queue := q\<rparr>) = s\<lparr>sy_queue := q, sy_callers := (sy_callers s)[i := (sy_callers s ! i)\<lparr>cl_pc := Between\<rparr>],
         sy_lines := sy_lines s @ [(i, take (unat (ld_len data)) (lg_mem (sy_impl s) (ld_buf data)))]\<rparr>"
  | "i = length (sy_callers s)" "sy_closer s = Marking" "threads q ! i = Idle"
      "m_queue (bq q) = m_queue (bq (sy_queue s)) @ [mark]" "pushed q = pushed (sy_queue s) @ [mark]"
      "popped q = popped (sy_queue s)"
      "log_return i (s\<lparr>sy_queue := q\<rparr>) = s\<lparr>sy_queue := q, sy_closer := Joining, sy_lines := sy_lines s @ [(i, [])]\<rparr>"
  | data where "i = Suc (length (sy_callers s))" "sy_writer s = Popping" "threads q ! i = Idle"
      "m_queue (bq (sy_queue s)) = data # m_queue (bq q)" "pushed q = pushed (sy_queue s)"
      "popped q = popped (sy_queue s) @ [data]"
      "log_return i (s\<lparr>sy_queue := q\<rparr>) = s\<lparr>sy_queue := q, sy_writer := (if ld_buf data = 0 then Ended else Got data)\<rparr>"
  | "threads q ! i \<noteq> Idle" "m_queue (bq q) = m_queue (bq (sy_queue s))" "pushed q = pushed (sy_queue s)"
      "popped q = popped (sy_queue s)"
proof -
  have "queue_at (log_wants s) QUEUE_CAPACITY (sy_queue s)" using assms(1) by (simp add: log_queue_ok_def)
  from this a log_wants_plain show thesis
  proof (cases rule: queue_at_act_cases)
    case (push v)
    then consider m where "i < length (sy_callers s)" "cl_pc (sy_callers s ! i) = Pushing m v"
      | "i = length (sy_callers s)" "sy_closer s = Marking" "v = mark" by (auto simp: log_wants_push)
    then show ?thesis
    proof cases
      case (1 m)
      with push show ?thesis by (intro that(1) [of m v]) (simp_all add: log_return_def Let_def)
    next
      case 2
      with push show ?thesis by (intro that(2)) (simp_all add: log_return_def Let_def)
    qed
  next
    case (pop v)
    then show ?thesis by (intro that(3) [of v]) (simp_all add: log_wants_pop log_return_def Let_def)
  next
    case wait
    then show ?thesis by (rule that(4))
  qed
qed

lemma log_wants_cong:
  assumes "length (sy_callers t) = length (sy_callers s)"
    and "j < length (sy_callers s) \<Longrightarrow> cl_pc (sy_callers t ! j) = cl_pc (sy_callers s ! j)"
    and "j = length (sy_callers s) \<Longrightarrow> sy_closer t = Marking \<longleftrightarrow> sy_closer s = Marking"
    and "j = Suc (length (sy_callers s)) \<Longrightarrow> sy_writer t = Popping \<longleftrightarrow> sy_writer s = Popping"
  shows "log_wants t j = log_wants s j"
  using assms by (auto simp: log_wants_def Let_def)

text \<open>A thread that moves outside the queue has not come to a call before it moved.\<close>

lemma caller_move_calls: "caller_move level L l c l' c' \<Longrightarrow> cl_pc c \<noteq> Pushing m data"
  by (auto elim: caller_move.cases)

lemma writer_move_calls: "writer_move a l w l' w' \<Longrightarrow> w \<noteq> Popping"
  by (auto elim: writer_move.cases)

lemma log_queue_step:
  assumes st: "log_step b s t" and ok: "log_queue_ok s"
  shows "log_queue_ok t"
proof -
  from ok have q: "queue_at (log_wants s) QUEUE_CAPACITY (sy_queue s)"
    and l: "length (threads (sy_queue s)) = length (sy_callers s) + 2" "length (sy_lines s) = length (pushed (sy_queue s))"
    by (auto simp: log_queue_ok_def)
  have other: "log_queue_ok t"
    if t: "sy_queue t = sy_queue s" "length (sy_callers t) = length (sy_callers s)" "sy_lines t = sy_lines s"
      and w: "\<And>j. log_wants s j \<noteq> None \<Longrightarrow> log_wants t j = log_wants s j"
  proof -
    have "log_wants s j \<noteq> None" if "j < length (threads (sy_queue s))" "threads (sy_queue s) ! j \<noteq> Idle" for j
      using q that by (auto simp: queue_at_def served_def)
    with w have "queue_at (log_wants t) QUEUE_CAPACITY (sy_queue s)" by (intro queue_at_other [OF q]) blast
    with t l show ?thesis by (simp add: log_queue_ok_def)
  qed
  from st show ?thesis
  proof cases
    case (caller i l c)
    have "log_wants t j = log_wants s j" if "log_wants s j \<noteq> None" for j
      using that caller_move_calls [OF caller(4)] caller(2,3)
      by (cases "j = i") (auto simp: log_wants_def Let_def split: caller_pc.splits)
    with caller(2) show ?thesis by (intro other) simp_all
  next
    case (writer a l w)
    have "log_wants t j = log_wants s j" if "log_wants s j \<noteq> None" for j
      using that writer_move_calls [OF writer(3)] writer(2) by (auto simp: log_wants_def Let_def split: if_splits)
    with writer(2) show ?thesis by (intro other) simp_all
  next
    case close
    have "log_wants t j = log_wants s j" if "log_wants s j \<noteq> None" for j
      using that close by (auto simp: log_wants_def Let_def split: if_splits)
    with close(2) show ?thesis by (intro other) simp_all
  next
    case join
    have "log_wants t j = log_wants s j" if "log_wants s j \<noteq> None" for j
      using that join by (auto simp: log_wants_def Let_def split: if_splits)
    with join(2) show ?thesis by (intro other) simp_all
  next
    case (call i c)
    have "log_wants t = log_wants s" using call(2) by (auto simp: fun_eq_iff intro: log_wants_cong)
    with queue_at_call [OF q call(3-5)] l call(2) show ?thesis by (simp add: log_queue_ok_def)
  next
    case (spurious i c)
    have "log_wants t = log_wants s" using spurious(2) by (auto simp: fun_eq_iff intro: log_wants_cong)
    with queue_at_spurious [OF q spurious(3,4)] l spurious(2) show ?thesis by (simp add: log_queue_ok_def)
  next
    case (act i q')
    note f = bq_act_frame(2) [OF act(3)]
    from ok act(3) show ?thesis
    proof (cases rule: log_act_cases)
      case (message m data)
      have "log_wants t j = log_wants s j" if "j \<noteq> i" for j
        using that message(1,3,7) act(2) by (intro log_wants_cong) auto
      from queue_at_act [OF q log_wants_plain act(3) this] message act(2) f l show ?thesis
        by (simp add: log_queue_ok_def)
    next
      case marking
      have "log_wants t j = log_wants s j" if "j \<noteq> i" for j
        using that marking(1,3,7) act(2) by (intro log_wants_cong) auto
      from queue_at_act [OF q log_wants_plain act(3) this] marking act(2) f l show ?thesis
        by (simp add: log_queue_ok_def)
    next
      case (pop data)
      have "log_wants t j = log_wants s j" if "j \<noteq> i" for j
        using that pop(1,3,7) act(2) by (intro log_wants_cong) auto
      from queue_at_act [OF q log_wants_plain act(3) this] pop act(2) f l show ?thesis
        by (simp add: log_queue_ok_def)
    next
      case wait
      have "log_wants t = log_wants s" using act(2) wait(1) by (auto simp: fun_eq_iff intro: log_wants_cong)
      with queue_at_act [OF q log_wants_plain act(3)] wait act(2) f l show ?thesis
        by (simp add: log_queue_ok_def)
    qed
  qed
qed

section \<open>Memory safety\<close>

lemma Reopen_cases:
  "LoggerImpl_Reopen ok l = (ok, l\<lparr>m_logfile := ok, m_filesize := 0,
     lg_disk := (let d = rotate (m_conf l) (lg_disk l) in if ok then open_append (cf_file_path (m_conf l)) d else d)\<rparr>)"
  by (simp add: LoggerImpl_Reopen_def LoggerImpl_Rename_def rotate_def Let_def)

lemma Write_frame:
  shows "Write_file data l = Some l' \<Longrightarrow> m_pool l' = m_pool l \<and> lg_mem l' = lg_mem l \<and> m_conf l' = m_conf l \<and>
      m_logfile l' = m_logfile l \<and> running l' = running l"
    and "m_pool (Write_rotate ok l) = m_pool l \<and> lg_mem (Write_rotate ok l) = lg_mem l \<and>
      m_conf (Write_rotate ok l) = m_conf l \<and> running (Write_rotate ok l) = running l"
  by (auto simp: Write_file_def Write_rotate_def Reopen_cases bind_eq_Some_conv Let_def split: if_splits)

lemma log_mem_writer:
  assumes "log_mem_ok s" and "writer_move a (sy_impl s) (sy_writer s) l w"
  shows "log_mem_ok (s\<lparr>sy_impl := l, sy_writer := w, sy_opens := os\<rparr>)"
  using assms(2)
proof cases
  case (write_file data)
  then have "blocks (s\<lparr>sy_impl := l, sy_writer := w, sy_opens := os\<rparr>) = blocks s" by (simp add: blocks_def)
  with assms(1) Write_frame(1) [OF write_file(4)] show ?thesis by (simp add: log_mem_ok_def)
next
  case (free data)
  then have "blocks s = add_mset (ld_buf data) (blocks (s\<lparr>sy_impl := l, sy_writer := w, sy_opens := os\<rparr>))" by (simp add: blocks_def)
  with assms(1) pool_give [of "ld_buf data"] free show ?thesis by (simp add: log_mem_ok_def Write_free_def sole_add)
next
  case rotate
  then have "blocks (s\<lparr>sy_impl := l, sy_writer := w, sy_opens := os\<rparr>) = blocks s" by (simp add: blocks_def)
  with assms(1) Write_frame(2) [of _ "sy_impl s"] rotate show ?thesis by (simp add: log_mem_ok_def)
qed

lemma blocks_held: "i < length (sy_callers s) \<Longrightarrow> x \<in> set (pc_blocks (cl_pc (sy_callers s ! i))) \<Longrightarrow> x \<in># blocks s"
  by (auto simp: blocks_def)

lemma blocks_same_impl: "log_mem_ok s \<Longrightarrow> blocks t = blocks s \<Longrightarrow> sy_impl t = sy_impl s \<Longrightarrow> log_mem_ok t"
  by (simp add: log_mem_ok_def)

lemma log_mem_step:
  assumes st: "log_step b s t" and ok: "log_mem_ok s" and qok: "log_queue_ok s"
  shows "log_mem_ok t"
  using st
proof cases
  case (caller i l c)
  with log_mem_caller [OF ok] show ?thesis by simp
next
  case (writer a l w)
  with log_mem_writer [OF ok] show ?thesis by simp
next
  case join
  then have "blocks t = blocks s" by (simp add: blocks_def)
  with ok join(2) show ?thesis by (simp add: log_mem_ok_def)
next
  case (act i q)
  from qok act(3) have "blocks t = blocks s"
  proof (cases rule: log_act_cases)
    case (message m data)
    have "ld_buf data \<in># blocks s" using blocks_held [OF message(1), of "ld_buf data"] message(2) by simp
    moreover have "0 \<notin># blocks s" using ok by (simp add: log_mem_ok_def)
    ultimately have "ld_buf data \<noteq> 0" by metis
    with mset_concat_update [OF message(1), of "\<lambda>c. pc_blocks (cl_pc c)" "(sy_callers s ! i)\<lparr>cl_pc := Between\<rparr>"]
      message act(2) show ?thesis by (simp add: blocks_def queue_blocks_def)
  qed (use act(2) in \<open>simp_all add: blocks_def queue_blocks_def\<close>)
  moreover have "sy_impl t = sy_impl s" using act(2) by (simp add: log_return_def Let_def)
  ultimately show ?thesis using ok by (rule_tac blocks_same_impl)
qed (use ok in \<open>simp_all add: log_mem_ok_def blocks_def\<close>)

section \<open>The contents of the blocks\<close>

definition line_of :: "LogConfig \<Rightarrow> log_msg \<Rightarrow> bytes" where
  "line_of conf m = the (msg_line conf m (lm_text m))"

text \<open>A message that fits: its text is a C string, its level has a name, and its line is shorter than a block.\<close>

definition msg_ok :: "LogConfig \<Rightarrow> log_msg \<Rightarrow> bool" where
  "msg_ok conf m \<longleftrightarrow> 0 \<notin> set (lm_text m) \<and> msg_line conf m (lm_text m) = Some (line_of conf m) \<and>
     length (line_of conf m) < BLOCK_SIZE"

definition holds :: "(nat \<Rightarrow> bytes) \<Rightarrow> LogData \<Rightarrow> bytes \<Rightarrow> bool" where
  "holds mem data line \<longleftrightarrow> unat (ld_len data) = length line \<and> take (length line) (mem (ld_buf data)) = line"

fun pc_ok :: "LogConfig \<Rightarrow> (nat \<Rightarrow> bytes) \<Rightarrow> caller_pc \<Rightarrow> bool" where
  "pc_ok conf mem Between \<longleftrightarrow> True"
| "pc_ok conf mem (Checked m) \<longleftrightarrow> msg_ok conf m"
| "pc_ok conf mem (HasMsg m x) \<longleftrightarrow> msg_ok conf m"
| "pc_ok conf mem (Printed m x) \<longleftrightarrow> msg_ok conf m \<and> cstr (mem x) = take (BLOCK_SIZE - 1) (lm_text m)"
| "pc_ok conf mem (HasBuf m x y) \<longleftrightarrow> msg_ok conf m \<and> cstr (mem x) = take (BLOCK_SIZE - 1) (lm_text m)"
| "pc_ok conf mem (Formatted m x data) \<longleftrightarrow> msg_ok conf m \<and> holds mem data (line_of conf m)"
| "pc_ok conf mem (Pushing m data) \<longleftrightarrow> msg_ok conf m \<and> holds mem data (line_of conf m)"

definition entry_ok :: "(nat \<Rightarrow> bytes) \<Rightarrow> LogData \<Rightarrow> nat \<times> bytes \<Rightarrow> bool" where
  "entry_ok mem data p \<longleftrightarrow> ld_buf data = 0 \<or> holds mem data (snd p)"

definition caller_ok :: "LogConfig \<Rightarrow> (nat \<Rightarrow> bytes) \<Rightarrow> caller \<Rightarrow> bool" where
  "caller_ok conf mem c \<longleftrightarrow> (\<forall>m\<in>set (cl_todo c). msg_ok conf m) \<and> pc_ok conf mem (cl_pc c)"

definition log_text_ok :: "LogConfig \<Rightarrow> log_sys \<Rightarrow> bool" where
  "log_text_ok conf s \<longleftrightarrow> m_conf (sy_impl s) = conf \<and>
     (\<forall>i<length (sy_callers s). caller_ok conf (lg_mem (sy_impl s)) (sy_callers s ! i)) \<and>
     list_all2 (entry_ok (lg_mem (sy_impl s))) (m_queue (bq (sy_queue s)))
       (drop (length (popped (sy_queue s))) (sy_lines s)) \<and>
     (\<forall>data. sy_writer s = Got data \<longrightarrow> ld_buf data \<noteq> 0 \<and> 0 < length (popped (sy_queue s)) \<and>
        holds (lg_mem (sy_impl s)) data (snd (sy_lines s ! (length (popped (sy_queue s)) - 1))))"

lemma msg_line_take: "msg_line conf m (take (BLOCK_SIZE - 1) text) = msg_line conf m text"
  by (simp add: msg_line_def log_line_def Let_def)

lemma holds_cong: "mem' (ld_buf data) = mem (ld_buf data) \<Longrightarrow> holds mem' data line = holds mem data line"
  by (simp add: holds_def)

lemma pc_ok_cong: "(\<And>a. a \<in> set (pc_blocks pc) \<Longrightarrow> mem' a = mem a) \<Longrightarrow> pc_ok conf mem' pc = pc_ok conf mem pc"
  by (cases pc) (auto simp: holds_def)

lemma LogMsg_text_ok:
  assumes "\<forall>a. length (lg_mem l a) = BLOCK_SIZE" and "msg_ok conf m"
  shows "\<exists>l'. LogMsg_text x m l = Some l'"
    and "LogMsg_text x m l = Some l' \<Longrightarrow> cstr (lg_mem l' x) = take (BLOCK_SIZE - 1) (lm_text m)"
proof -
  from assms have "0 \<notin> set (lm_text m)" "BLOCK_SIZE \<le> length (lg_mem l x)" "0 < BLOCK_SIZE"
    by (simp_all add: msg_ok_def BLOCK_SIZE_def)
  then obtain b where "snprintf (lg_mem l x) 0 BLOCK_SIZE (lm_text m) = Some (int (length (lm_text m)), b)"
    "cstr b = take (BLOCK_SIZE - 1) (lm_text m)" by (metis snprintf_cstr)
  then show "\<exists>l'. LogMsg_text x m l = Some l'"
    and "LogMsg_text x m l = Some l' \<Longrightarrow> cstr (lg_mem l' x) = take (BLOCK_SIZE - 1) (lm_text m)"
    by (auto simp: LogMsg_text_def)
qed

lemma LogMsg_line_ok:
  assumes "\<forall>a. length (lg_mem l a) = BLOCK_SIZE" and "msg_ok (m_conf l) m"
    and "cstr (lg_mem l x) = take (BLOCK_SIZE - 1) (lm_text m)"
  shows "\<exists>r. LogMsg_line x y m l = Some r"
    and "LogMsg_line x y m l = Some (data, l') \<Longrightarrow> holds (lg_mem l') data (line_of (m_conf l) m)"
proof -
  let ?line = "line_of (m_conf l) m"
  have ml: "msg_line (m_conf l) m (cstr (lg_mem l x)) = Some ?line" and len: "length ?line < BLOCK_SIZE"
    using assms(2) unfolding assms(3) msg_line_take by (simp_all add: msg_ok_def)
  have t: "take (BLOCK_SIZE - 1) ?line = ?line" using len by simp
  have "0 + length (?line @ [0]) \<le> length (lg_mem l y)" using assms(1) len by simp
  then obtain b where w: "mem_write (lg_mem l y) 0 (?line @ [0]) = Some b" by (auto simp: mem_write_def)
  then have b: "take (length ?line) b = ?line" by (auto simp: mem_write_Some_iff)
  have sn: "snprintf (lg_mem l y) 0 BLOCK_SIZE ?line = Some (int (length ?line), b)"
    using w t by (simp add: snprintf_def BLOCK_SIZE_def)
  have "unat (of_nat (length ?line) :: u32) = length ?line"
    using len by (intro unat_of_nat_small) (simp add: BLOCK_SIZE_def)
  with sn ml b show "\<exists>r. LogMsg_line x y m l = Some r"
    and "LogMsg_line x y m l = Some (data, l') \<Longrightarrow> holds (lg_mem l') data ?line"
    by (auto simp: LogMsg_line_def holds_def)
qed

lemma log_queue_lines:
  "log_queue_ok s \<Longrightarrow> length (sy_lines s) = length (popped (sy_queue s)) + length (m_queue (bq (sy_queue s)))"
  by (auto simp: log_queue_ok_def queue_at_def fifo_def)

lemma blocks_apart:
  assumes "sole (blocks s)" and "i < length (sy_callers s)" and x: "x \<in> set (pc_blocks (cl_pc (sy_callers s ! i)))"
  shows "j < length (sy_callers s) \<Longrightarrow> j \<noteq> i \<Longrightarrow> x \<notin> set (pc_blocks (cl_pc (sy_callers s ! j)))"
    and "x \<notin> set (queue_blocks (m_queue (bq (sy_queue s))))" and "x \<notin> set (writer_blocks (sy_writer s))"
proof -
  let ?C = "mset (concat (map (\<lambda>c. pc_blocks (cl_pc c)) (sy_callers s)))"
  have "sole ?C" using assms(1) by (rule sole_subset) (simp add: blocks_def add.assoc)
  from sole_concat_apart [OF this assms(2)] x
  show "j < length (sy_callers s) \<Longrightarrow> j \<noteq> i \<Longrightarrow> x \<notin> set (pc_blocks (cl_pc (sy_callers s ! j)))" by blast
  have "x \<in># ?C" using assms(2) x by auto
  then have "0 < count ?C x" by (simp only: count_greater_zero_iff)
  moreover have "count (blocks s) x \<le> 1" using assms(1) by (simp add: sole_def)
  ultimately have "count (mset (writer_blocks (sy_writer s))) x = 0"
    "count (mset (queue_blocks (m_queue (bq (sy_queue s))))) x = 0"
    unfolding blocks_def count_union by linarith+
  then show "x \<notin> set (queue_blocks (m_queue (bq (sy_queue s))))" and "x \<notin> set (writer_blocks (sy_writer s))"
    by (simp_all add: count_mset_0_iff)
qed

text \<open>A caller changes the memory of its own blocks only, so nobody else notices.\<close>

lemma log_text_frame:
  assumes ok: "log_text_ok conf s" and so: "sole (blocks s)" and i: "i < length (sy_callers s)"
    and own: "\<And>a. lg_mem l a \<noteq> lg_mem (sy_impl s) a \<Longrightarrow> a \<in> set (pc_blocks (cl_pc (sy_callers s ! i)))"
    and "m_conf l = conf" and "caller_ok conf (lg_mem l) c"
  shows "log_text_ok conf (s\<lparr>sy_impl := l, sy_callers := (sy_callers s)[i := c]\<rparr>)"
proof -
  note ap = blocks_apart [OF so i]
  have "caller_ok conf (lg_mem l) (sy_callers s ! j)" if j: "j < length (sy_callers s)" "j \<noteq> i" for j
  proof -
    have "pc_ok conf (lg_mem l) (cl_pc (sy_callers s ! j)) = pc_ok conf (lg_mem (sy_impl s)) (cl_pc (sy_callers s ! j))"
      using own ap(1) [OF _ j] by (intro pc_ok_cong) blast
    with ok j show ?thesis by (simp add: log_text_ok_def caller_ok_def)
  qed
  moreover have "list_all2 (entry_ok (lg_mem l)) (m_queue (bq (sy_queue s)))
      (drop (length (popped (sy_queue s))) (sy_lines s))"
  proof (rule list.rel_mono_strong)
    show "list_all2 (entry_ok (lg_mem (sy_impl s))) (m_queue (bq (sy_queue s)))
      (drop (length (popped (sy_queue s))) (sy_lines s))" using ok by (simp add: log_text_ok_def)
    fix data p
    assume "data \<in> set (m_queue (bq (sy_queue s)))" and e: "entry_ok (lg_mem (sy_impl s)) data p"
    then have "ld_buf data = 0 \<or> ld_buf data \<in> set (queue_blocks (m_queue (bq (sy_queue s))))"
      by (auto simp: queue_blocks_def)
    with own ap(2) have "ld_buf data = 0 \<or> lg_mem l (ld_buf data) = lg_mem (sy_impl s) (ld_buf data)" by blast
    with e show "entry_ok (lg_mem l) data p" by (auto simp: entry_ok_def holds_def)
  qed
  moreover have "holds (lg_mem l) data line" if "sy_writer s = Got data" "holds (lg_mem (sy_impl s)) data line" for data line
  proof -
    have "lg_mem l (ld_buf data) = lg_mem (sy_impl s) (ld_buf data)" using own ap(3) that(1) by fastforce
    with that(2) show ?thesis by (simp add: holds_def)
  qed
  ultimately show ?thesis using ok assms(5,6) i by (auto simp: log_text_ok_def nth_list_update)
qed

lemma log_text_caller:
  assumes ok: "log_text_ok conf s" and mem: "log_mem_ok s" and i: "i < length (sy_callers s)"
    and mv: "caller_move level L (sy_impl s) (sy_callers s ! i) l c"
  shows "log_text_ok conf (s\<lparr>sy_impl := l, sy_callers := (sy_callers s)[i := c]\<rparr>)"
proof (rule log_text_frame [OF ok _ i])
  show "sole (blocks s)" using mem by (simp add: log_mem_ok_def)
  have sz: "\<forall>a. length (lg_mem (sy_impl s) a) = BLOCK_SIZE" using mem by (simp add: log_mem_ok_def)
  have cf: "m_conf (sy_impl s) = conf" and co: "caller_ok conf (lg_mem (sy_impl s)) (sy_callers s ! i)"
    using ok i by (auto simp: log_text_ok_def)
  from mv show "a \<in> set (pc_blocks (cl_pc (sy_callers s ! i)))" if "lg_mem l a \<noteq> lg_mem (sy_impl s) a" for a
    using that by cases (auto dest: LogMsg_frame)
  from mv show "m_conf l = conf" using cf by cases (auto dest: LogMsg_frame)
  from mv show "caller_ok conf (lg_mem l) c"
  proof cases
    case (print_text x m ms)
    then show ?thesis using co LogMsg_text_ok(2) [OF sz] by (auto simp: caller_ok_def)
  next
    case (print_line x y m data ms)
    then show ?thesis using co cf LogMsg_line_ok(2) [OF sz, of m x y data l] by (auto simp: caller_ok_def)
  qed (use co in \<open>auto simp: caller_ok_def\<close>)
qed

lemma caller_ok_nth: "log_text_ok conf s \<Longrightarrow> i < length (sy_callers s) \<Longrightarrow>
    caller_ok conf (lg_mem (sy_impl s)) (sy_callers s ! i)"
  by (simp add: log_text_ok_def)

lemma log_text_step:
  assumes st: "log_step b s t" and ok: "log_text_ok conf s" and mem: "log_mem_ok s" and qok: "log_queue_ok s"
  shows "log_text_ok conf t"
  using st
proof cases
  case (caller i l c)
  with log_text_caller [OF ok mem] show ?thesis by simp
next
  case (writer a l w)
  from writer(3) have "lg_mem l = lg_mem (sy_impl s)" "m_conf l = m_conf (sy_impl s)" "\<And>data. w \<noteq> Got data"
    by (cases; auto simp: Write_free_def Write_frame(2) dest: Write_frame(1))+
  with ok writer(2) show ?thesis by (simp add: log_text_ok_def)
next
  case (act i q)
  let ?k = "length (popped (sy_queue s))"
  note k = log_queue_lines [OF qok]
  have nth: "(sy_lines s @ [z]) ! (?k - Suc 0) = sy_lines s ! (?k - Suc 0)" if "popped (sy_queue s) \<noteq> []" for z
    using that k by (cases "popped (sy_queue s)") (auto simp: nth_append)
  from qok act(3) show ?thesis
  proof (cases rule: log_act_cases)
    case (message m data)
    then have "holds (lg_mem (sy_impl s)) data (line_of conf m)"
      using caller_ok_nth [OF ok message(1)] by (simp add: caller_ok_def)
    then have "entry_ok (lg_mem (sy_impl s)) data (i, take (unat (ld_len data)) (lg_mem (sy_impl s) (ld_buf data)))"
      by (auto simp: entry_ok_def holds_def)
    moreover have "caller_ok conf (lg_mem (sy_impl s)) ((sy_callers s ! i)\<lparr>cl_pc := Between\<rparr>)"
      using caller_ok_nth [OF ok message(1)] by (simp add: caller_ok_def)
    ultimately show ?thesis
      using ok message k act(2) by (auto simp: log_text_ok_def nth_list_update nth list_all2_appendI)
  next
    case marking
    then show ?thesis
      using ok k act(2) by (auto simp: log_text_ok_def entry_ok_def nth list_all2_appendI)
  next
    case (pop data)
    then obtain p ps where d: "drop ?k (sy_lines s) = p # ps" "entry_ok (lg_mem (sy_impl s)) data p"
      "list_all2 (entry_ok (lg_mem (sy_impl s))) (m_queue (bq q)) ps"
      using ok by (auto simp: log_text_ok_def list_all2_Cons1)
    then have "drop (Suc ?k) (sy_lines s) = ps" by (metis drop_Suc tl_drop list.sel(3))
    moreover have "sy_lines s ! ?k = p" using d(1) by (metis nth_via_drop)
    ultimately show ?thesis
      using ok pop act(2) d(2,3) by (auto simp: log_text_ok_def entry_ok_def)
  next
    case wait
    then show ?thesis using ok act(2) by (simp add: log_text_ok_def)
  qed
qed (use ok in \<open>simp_all add: log_text_ok_def\<close>)

section \<open>The mark\<close>

fun pc_msgs :: "caller_pc \<Rightarrow> log_msg list" where
  "pc_msgs Between = []"
| "pc_msgs (Checked m) = [m]"
| "pc_msgs (HasMsg m x) = [m]"
| "pc_msgs (Printed m x) = [m]"
| "pc_msgs (HasBuf m x y) = [m]"
| "pc_msgs (Formatted m x data) = [m]"
| "pc_msgs (Pushing m data) = [m]"

definition inside :: "log_sys \<Rightarrow> nat" where
  "inside s = count_if (\<lambda>c. pc_msgs (cl_pc c) \<noteq> []) (sy_callers s)"

definition no_mark :: "LogData list \<Rightarrow> bool" where
  "no_mark ds \<longleftrightarrow> (\<forall>d\<in>set ds. ld_buf d \<noteq> 0)"

text \<open>
  Entries behind the mark come from callers that had passed the level test before \<open>Close\<close> raised the
  level, at most one from each.
\<close>

definition log_mark_ok :: "LogConfig \<Rightarrow> log_sys \<Rightarrow> bool" where
  "log_mark_ok conf s \<longleftrightarrow>
     (sy_closer s = Open \<or> sy_closer s = Marking \<longrightarrow> no_mark (pushed (sy_queue s))) \<and>
     (sy_closer s = Joining \<or> sy_closer s = Closed \<longrightarrow> (\<exists>before after.
        pushed (sy_queue s) = before @ mark # after \<and> no_mark before \<and> no_mark after \<and>
        length after + inside s \<le> length (sy_callers s))) \<and>
     (sy_writer s \<noteq> Ended \<longrightarrow> no_mark (popped (sy_queue s))) \<and>
     (sy_writer s = Ended \<longrightarrow> (\<exists>before d. popped (sy_queue s) = before @ [d] \<and> ld_buf d = 0 \<and> no_mark before)) \<and>
     (sy_closer s = Closed \<longrightarrow> sy_writer s = Ended) \<and>
     sy_level s = (if sy_closer s = Open then cf_level conf else LEVEL_MAX)"

lemma msg_ok_level:
  assumes "msg_ok conf m"
  shows "level_num (lm_level m) < level_num LEVEL_MAX"
proof (rule ccontr)
  assume "\<not> ?thesis"
  then have "length LEVEL_DESC \<le> level_num (lm_level m)" by (simp add: LEVEL_DESC_def)
  then have "msg_line conf m (lm_text m) = None" by (simp add: msg_line_def log_line_def Let_def)
  with assms show False by (simp add: msg_ok_def)
qed

text \<open>A caller gets into a message only while the logger is open.\<close>

lemma caller_move_msgs:
  assumes "caller_move level L l c l' c'"
  obtains "pc_msgs (cl_pc c') = pc_msgs (cl_pc c)" "cl_todo c' = cl_todo c"
  | m where "level_num level \<le> level_num (lm_level m)" "cl_todo c = m # cl_todo c'" "pc_msgs (cl_pc c) = []"
      "pc_msgs (cl_pc c') = [m]"
  | m where "\<not> level_num level \<le> level_num (lm_level m)" "cl_todo c = m # cl_todo c'" "pc_msgs (cl_pc c) = []"
      "pc_msgs (cl_pc c') = []"
  using assms by cases auto

lemma inside_update:
  assumes "i < length (sy_callers s)"
  shows "inside (s\<lparr>sy_impl := l, sy_callers := (sy_callers s)[i := c]\<rparr>) +
     (if pc_msgs (cl_pc (sy_callers s ! i)) \<noteq> [] then 1 else 0) = inside s + (if pc_msgs (cl_pc c) \<noteq> [] then 1 else 0)"
  using count_update [OF assms, of "\<lambda>c. pc_msgs (cl_pc c) \<noteq> []" c] by (simp add: inside_def)

lemma inside_le: "inside s \<le> length (sy_callers s)"
  by (simp add: inside_def count_if_def)

lemma inside_simps [simp]:
  "inside (s\<lparr>sy_level := v1\<rparr>) = inside s" "inside (s\<lparr>sy_impl := v2\<rparr>) = inside s"
  "inside (s\<lparr>sy_queue := v3\<rparr>) = inside s" "inside (s\<lparr>sy_writer := v4\<rparr>) = inside s"
  "inside (s\<lparr>sy_closer := v5\<rparr>) = inside s" "inside (s\<lparr>sy_lines := v6\<rparr>) = inside s" "inside (s\<lparr>sy_opens := v7\<rparr>) = inside s"
  by (simp_all add: inside_def)

lemma log_mark_caller:
  assumes ok: "log_mark_ok conf s" and tx: "log_text_ok conf s" and i: "i < length (sy_callers s)"
    and mv: "caller_move (sy_level s) L (sy_impl s) (sy_callers s ! i) l c"
  shows "log_mark_ok conf (s\<lparr>sy_impl := l, sy_callers := (sy_callers s)[i := c]\<rparr>)"
proof -
  let ?t = "s\<lparr>sy_impl := l, sy_callers := (sy_callers s)[i := c]\<rparr>"
  have "inside ?t \<le> inside s" if "sy_closer s \<noteq> Open"
    using mv
  proof (cases rule: caller_move_msgs)
    case 1
    with inside_update [OF i, where l = l and c = c] show ?thesis by (simp split: if_splits)
  next
    case (2 m)
    have "msg_ok conf m" using caller_ok_nth [OF tx i] 2(2) by (simp add: caller_ok_def)
    then have "level_num (lm_level m) < level_num LEVEL_MAX" by (rule msg_ok_level)
    moreover have "sy_level s = LEVEL_MAX" using ok that by (simp add: log_mark_ok_def)
    ultimately show ?thesis using 2(1) by simp
  next
    case (3 m)
    with inside_update [OF i, where l = l and c = c] show ?thesis by simp
  qed
  then have "length after + inside ?t \<le> length (sy_callers s)"
    if "length after + inside s \<le> length (sy_callers s)" "sy_closer s \<noteq> Open" for after :: "LogData list"
    using that by (meson add_le_cancel_left le_trans)
  with ok show ?thesis by (auto simp: log_mark_ok_def) blast+
qed

lemma log_mark_step:
  assumes st: "log_step b s t" and ok: "log_mark_ok conf s" and tx: "log_text_ok conf s"
    and mem: "log_mem_ok s" and qok: "log_queue_ok s"
  shows "log_mark_ok conf t"
  using st
proof cases
  case (caller i l c)
  with log_mark_caller [OF ok tx] show ?thesis by simp
next
  case (writer a l w)
  from writer(3) have "sy_writer s \<noteq> Ended" "w \<noteq> Ended" by (cases; simp)+
  with ok writer(2) show ?thesis by (auto simp: log_mark_ok_def)
next
  case (act i q)
  from qok act(3) show ?thesis
  proof (cases rule: log_act_cases)
    case (message m data)
    have "ld_buf data \<in># blocks s" using blocks_held [OF message(1), of "ld_buf data"] message(2) by simp
    then have nz: "ld_buf data \<noteq> 0" using mem by (metis log_mem_ok_def)
    have t: "t = s\<lparr>sy_queue := q, sy_callers := (sy_callers s)[i := (sy_callers s ! i)\<lparr>cl_pc := Between\<rparr>],
         sy_lines := sy_lines s @ [(i, take (unat (ld_len data)) (lg_mem (sy_impl s) (ld_buf data)))]\<rparr>"
      using act(2) message(3,7) by simp
    have "Suc (inside t) = inside s"
      using inside_update [OF message(1), where l = "sy_impl s" and c = "(sy_callers s ! i)\<lparr>cl_pc := Between\<rparr>"] message(2)
      by (simp add: t inside_def)
    moreover have "pushed q = before @ mark # after @ [data]" if "pushed (sy_queue s) = before @ mark # after" for before after
      using that message(5) by simp
    ultimately have "\<exists>before after. pushed q = before @ mark # after \<and> no_mark before \<and> no_mark after \<and>
        length after + inside t \<le> length (sy_callers s)" if "sy_closer s = Joining \<or> sy_closer s = Closed"
      using ok that nz by (fastforce simp: log_mark_ok_def no_mark_def)
    with ok message nz show ?thesis by (simp add: log_mark_ok_def t no_mark_def)
  next
    case marking
    have "\<exists>before after. pushed q = before @ mark # after \<and> no_mark before \<and> no_mark after \<and>
        length after + inside s \<le> length (sy_callers s)"
      using inside_le [of s] ok marking(2,5)
      by (intro exI [of _ "pushed (sy_queue s)"] exI [of _ "[]"]) (simp add: log_mark_ok_def no_mark_def)
    with ok marking act(2) show ?thesis by (simp add: log_mark_ok_def)
  next
    case (pop data)
    then show ?thesis using ok act(2) by (auto simp: log_mark_ok_def no_mark_def)
  next
    case wait
    then show ?thesis using ok act(2) by (auto simp: log_mark_ok_def)
  qed
qed (use ok in \<open>auto simp: log_mark_ok_def\<close>)

end
