(* ===== verification/Logger_Service.thy ===== *)
theory Logger_Service
  imports Logger_Threads
begin

text \<open>
  What the logger of theory \<open>Logger_Threads\<close> achieves, whatever the interleaving and whether or not a
  rotated log file opens again: the disk is always the one that appending and rotating make of the lines
  taken from the queue, every thread's lines come in its order, and the threads get to their end.
\<close>

section \<open>The disk\<close>

text \<open>
  The disk, the size of the current file as the logger counts it, and whether that file is open. A line
  written while it is not is lost, but counts; \<open>ok\<close> is the answer when a new file is opened.
\<close>

type_synonym log_disk = "disk \<times> u64 \<times> bool"

fun spec_append :: "LogConfig \<Rightarrow> log_disk \<Rightarrow> bytes \<Rightarrow> log_disk" where
  "spec_append conf (d, n, is_open) line =
     (let p = cf_file_path conf
      in (if is_open then d(p := Some (contents d p @ line)) else d, n + of_nat (length line), is_open))"

fun spec_rotate :: "LogConfig \<Rightarrow> bool \<Rightarrow> log_disk \<Rightarrow> log_disk" where
  "spec_rotate conf ok (d, n, is_open) =
     (if n \<ge> cf_max_file_size conf
      then (if ok then open_append (cf_file_path conf) (rotate conf d) else rotate conf d, 0, ok)
      else (d, n, is_open))"

definition spec_log :: "LogConfig \<Rightarrow> log_disk \<Rightarrow> bytes \<times> bool \<Rightarrow> log_disk" where
  "spec_log conf s lo = spec_rotate conf (snd lo) (spec_append conf s (fst lo))"

lemma spec_log_True: "spec_log conf (d, n, True) (line, True) = (case spec_write conf (d, n) line of (d, n) \<Rightarrow> (d, n, True))"
  by (simp add: spec_log_def spec_write_def Let_def)

lemma spec_log_below:
  assumes "n + of_nat (length line) < cf_max_file_size conf"
  shows "spec_log conf (d, n, True) (line, ok) = (case spec_write conf (d, n) line of (d, n) \<Rightarrow> (d, n, True))"
proof -
  have "\<not> cf_max_file_size conf \<le> n + of_nat (length line)" using assms by (metis not_le)
  then show ?thesis by (simp add: spec_log_def spec_write_def Let_def)
qed

text \<open>When every file could be opened this is \<^const>\<open>spec_write\<close>, line by line.\<close>

lemma spec_log_all_open:
  assumes "False \<notin> set os" and "length ls = length os"
  shows "foldl (spec_log conf) (d, n, True) (zip ls os) =
     (case foldl (spec_write conf) (d, n) ls of (d, n) \<Rightarrow> (d, n, True))"
  using assms(2,1)
proof (induction ls os arbitrary: d n rule: list_induct2)
  case (Cons line ls ok os)
  then show ?case by (cases "spec_write conf (d, n) line") (simp add: spec_log_True)
qed simp

definition disk_of :: "LoggerImpl \<Rightarrow> log_disk" where
  "disk_of l = (lg_disk l, m_filesize l, m_logfile l)"

lemma Write_file_ok:
  assumes "holds (lg_mem l) data line" and "length (lg_mem l (ld_buf data)) = BLOCK_SIZE"
    and "length line < BLOCK_SIZE"
  shows "\<exists>l'. Write_file data l = Some l'"
    and "Write_file data l = Some l' \<Longrightarrow> disk_of l' = spec_append (m_conf l) (disk_of l) line"
proof -
  have "mem_read (lg_mem l (ld_buf data)) (unat (ld_len data)) = Some line"
    using assms by (simp add: holds_def mem_read_def)
  moreover have "ucast (ld_len data) = (of_nat (length line) :: u64)"
    using assms(1,3) by (simp add: holds_def word_unat_eq_iff unat_ucast_up unat_of_nat_small BLOCK_SIZE_def)
  ultimately show "\<exists>l'. Write_file data l = Some l'"
    and "Write_file data l = Some l' \<Longrightarrow> disk_of l' = spec_append (m_conf l) (disk_of l) line"
    by (auto simp: Write_file_def Let_def disk_of_def)
qed

lemma Write_rotate_disk: "disk_of (Write_rotate ok l) = spec_rotate (m_conf l) ok (disk_of l)"
  by (simp add: Write_rotate_def disk_of_def Reopen_cases Let_def)

text \<open>
  What the lines make of the disk for which the writer is through, one answer each; \<open>disk_at\<close> says where the
  writer is with the line it has taken last, the one of number \<open>k - 1\<close>.
\<close>

definition written :: "LogConfig \<Rightarrow> log_disk \<Rightarrow> (nat \<times> bytes) list \<Rightarrow> bool list \<Rightarrow> log_disk" where
  "written conf d0 ls os = foldl (spec_log conf) d0 (zip (map snd ls) os)"

fun disk_at :: "LogConfig \<Rightarrow> log_disk \<Rightarrow> (nat \<times> bytes) list \<Rightarrow> bool list \<Rightarrow> nat \<Rightarrow> log_disk \<Rightarrow> writer_pc \<Rightarrow> bool" where
  "disk_at conf d0 ls os k d Popping \<longleftrightarrow> length os = k \<and> d = written conf d0 ls os"
| "disk_at conf d0 ls os k d (Got data) \<longleftrightarrow> Suc (length os) = k \<and> d = written conf d0 ls os"
| "disk_at conf d0 ls os k d (Written data) \<longleftrightarrow>
     Suc (length os) = k \<and> d = spec_append conf (written conf d0 ls os) (snd (ls ! length os))"
| "disk_at conf d0 ls os k d Freed \<longleftrightarrow>
     Suc (length os) = k \<and> d = spec_append conf (written conf d0 ls os) (snd (ls ! length os))"
| "disk_at conf d0 ls os k d Ended \<longleftrightarrow> Suc (length os) = k \<and> d = written conf d0 ls os"

definition log_disk_ok :: "LogConfig \<Rightarrow> log_disk \<Rightarrow> log_sys \<Rightarrow> bool" where
  "log_disk_ok conf d0 s \<longleftrightarrow>
     running (sy_impl s) = (if sy_closer s = Closed then (False, NoThread) else (True, Joinable 0)) \<and>
     (\<exists>f. (sy_closer s \<noteq> Closed \<longrightarrow> f = m_logfile (sy_impl s)) \<and>
       disk_at conf d0 (sy_lines s) (sy_opens s) (length (popped (sy_queue s)))
         (lg_disk (sy_impl s), m_filesize (sy_impl s), f) (sy_writer s))"

lemma written_snoc:
  assumes "length os < length ls"
  shows "written conf d0 ls (os @ [ok]) =
     spec_rotate conf ok (spec_append conf (written conf d0 ls os) (snd (ls ! length os)))"
proof -
  from id_take_nth_drop [OF assms] have "zip (map snd ls) (os @ [ok]) =
      zip (map snd (take (length os) ls @ ls ! length os # drop (Suc (length os)) ls)) (os @ [ok])"
    by simp
  moreover from id_take_nth_drop [OF assms] have "zip (map snd ls) os =
      zip (map snd (take (length os) ls @ ls ! length os # drop (Suc (length os)) ls)) os"
    by simp
  ultimately have "zip (map snd ls) (os @ [ok]) = zip (map snd ls) os @ [(snd (ls ! length os), ok)]"
    using assms by (simp add: zip_append1)
  then show ?thesis by (simp add: written_def spec_log_def)
qed

lemma disk_at_append:
  assumes "k \<le> length ls"
  shows "disk_at conf d0 (ls @ xs) os k d w = disk_at conf d0 ls os k d w"
proof -
  have "written conf d0 (ls @ xs) os = written conf d0 ls os" if "length os \<le> length ls"
    using that by (simp add: written_def zip_append1)
  with assms show ?thesis by (cases w) (auto simp: nth_append)
qed

text \<open>A line of the history is shorter than a block: the bytes come from one.\<close>

definition lines_short :: "log_sys \<Rightarrow> bool" where
  "lines_short s \<longleftrightarrow> (\<forall>p\<in>set (sy_lines s). length (snd p) < BLOCK_SIZE)"

lemma lines_short_step:
  assumes st: "log_step b s t" and ok: "lines_short s" and tx: "log_text_ok conf s" and qok: "log_queue_ok s"
  shows "lines_short t"
  using st
proof cases
  case (act i q)
  from qok act(3) show ?thesis
  proof (cases rule: log_act_cases)
    case (message m data)
    have "pc_ok conf (lg_mem (sy_impl s)) (Pushing m data)"
      using caller_ok_nth [OF tx message(1)] message(2) by (simp add: caller_ok_def)
    then have "length (take (unat (ld_len data)) (lg_mem (sy_impl s) (ld_buf data))) < BLOCK_SIZE"
      by (auto simp: holds_def msg_ok_def)
    with ok message(3,7) act(2) show ?thesis by (simp add: lines_short_def del: length_take)
  qed (use ok act(2) in \<open>auto simp: lines_short_def BLOCK_SIZE_def\<close>)
qed (use ok in \<open>simp_all add: lines_short_def\<close>)

lemma log_disk_open:
  assumes "sy_closer s \<noteq> Closed"
  shows "log_disk_ok conf d0 s \<longleftrightarrow> running (sy_impl s) = (True, Joinable 0) \<and>
     disk_at conf d0 (sy_lines s) (sy_opens s) (length (popped (sy_queue s))) (disk_of (sy_impl s)) (sy_writer s)"
  using assms by (simp add: log_disk_ok_def disk_of_def)

lemma log_disk_writer:
  assumes ok: "log_disk_ok conf d0 s" and mem: "log_mem_ok s" and tx: "log_text_ok conf s" and mk: "log_mark_ok conf s"
    and qok: "log_queue_ok s" and sh: "lines_short s" and mv: "writer_move a (sy_impl s) (sy_writer s) l w"
  shows "log_disk_ok conf d0 (s\<lparr>sy_impl := l, sy_writer := w, sy_opens := sy_opens s @ a\<rparr>)"
proof -
  let ?k = "length (popped (sy_queue s))" and ?os = "sy_opens s"
  from mv have "sy_writer s \<noteq> Ended" by cases simp_all
  then have op: "sy_closer s \<noteq> Closed" using mk by (simp add: log_mark_ok_def)
  note ok' = ok [unfolded log_disk_open [OF op]]
  have cf: "m_conf (sy_impl s) = conf" using tx by (simp add: log_text_ok_def)
  have k: "?k \<le> length (sy_lines s)" using log_queue_lines [OF qok] by simp
  have "running l = (True, Joinable 0) \<and>
    disk_at conf d0 (sy_lines s) (?os @ a) ?k (disk_of l) w"
    using mv
  proof cases
    case (write_file data)
    then have d: "holds (lg_mem (sy_impl s)) data (snd (sy_lines s ! (?k - 1)))" "Suc (length ?os) = ?k"
      "disk_of (sy_impl s) = written conf d0 (sy_lines s) ?os"
      using tx ok' by (auto simp: log_text_ok_def)
    have n: "?k - 1 = length ?os" using d(2) by simp
    have "length ?os < length (sy_lines s)" using d(2) k by linarith
    then have "length (snd (sy_lines s ! length ?os)) < BLOCK_SIZE"
      using sh nth_mem by (simp add: lines_short_def)
    moreover have "length (lg_mem (sy_impl s) (ld_buf data)) = BLOCK_SIZE" using mem by (simp add: log_mem_ok_def)
    ultimately have "disk_of l = spec_append conf (written conf d0 (sy_lines s) ?os) (snd (sy_lines s ! length ?os))"
      using Write_file_ok(2) [OF d(1) [unfolded n]] write_file(4) cf d(3) by simp
    with d(2) write_file Write_frame(1) [OF write_file(4)] ok' show ?thesis by simp
  next
    case (free data)
    with ok' show ?thesis by (simp add: Write_free_def disk_of_def)
  next
    case (rotate r)
    with ok' have d: "Suc (length ?os) = ?k"
      "disk_of (sy_impl s) = spec_append conf (written conf d0 (sy_lines s) ?os) (snd (sy_lines s ! length ?os))"
      by simp_all
    then have "length ?os < length (sy_lines s)" using k by linarith
    with d rotate have "disk_of l = written conf d0 (sy_lines s) (?os @ a)"
      using cf by (simp add: Write_rotate_disk written_snoc)
    with d(1) rotate Write_frame(2) [of r "sy_impl s"] ok' show ?thesis by simp
  qed
  with op show ?thesis by (simp add: log_disk_open)
qed

lemma log_disk_step:
  assumes st: "log_step b s t" and ok: "log_disk_ok conf d0 s" and mem: "log_mem_ok s" and tx: "log_text_ok conf s"
    and mk: "log_mark_ok conf s" and qok: "log_queue_ok s" and sh: "lines_short s"
  shows "log_disk_ok conf d0 t"
  using st
proof cases
  case (caller i l c)
  from caller(4) have "disk_of l = disk_of (sy_impl s) \<and> running l = running (sy_impl s)"
    by cases (auto simp: disk_of_def dest: LogMsg_frame)
  with ok caller(2) show ?thesis by (simp add: log_disk_ok_def disk_of_def)
next
  case (writer a l w)
  with log_disk_writer [OF ok mem tx mk qok sh] show ?thesis by simp
next
  case (act i q)
  let ?k = "length (popped (sy_queue s))"
  have k: "?k \<le> length (sy_lines s)" using log_queue_lines [OF qok] by simp
  from qok act(3) show ?thesis
  proof (cases rule: log_act_cases)
    case (pop data)
    have "sy_closer s \<noteq> Closed" using mk pop(2) by (auto simp: log_mark_ok_def)
    with pop ok act(2) show ?thesis by (simp add: log_disk_open)
  qed (use ok act(2) k in \<open>simp_all add: log_disk_ok_def disk_at_append\<close>)
next
  case (join th)
  then have "sy_closer s \<noteq> Closed" by simp
  from ok [unfolded log_disk_open [OF this]] join show ?thesis
    by (auto simp: log_disk_ok_def disk_of_def Thread_Join_def)
qed (use ok in \<open>auto simp: log_disk_ok_def split: if_splits\<close>)

section \<open>The order of the lines\<close>

definition lines_by :: "nat \<Rightarrow> (nat \<times> bytes) list \<Rightarrow> bytes list" where
  "lines_by i ls = map snd (filter (\<lambda>p. fst p = i) ls)"

text \<open>The lines of the messages at or above the level.\<close>

definition due :: "LogConfig \<Rightarrow> log_msg list \<Rightarrow> bytes list" where
  "due conf ms = map (line_of conf) (filter (\<lambda>m. level_num (cf_level conf) \<le> level_num (lm_level m)) ms)"

definition sent :: "LogConfig \<Rightarrow> log_sys \<Rightarrow> nat \<Rightarrow> bytes list" where
  "sent conf s i = lines_by i (sy_lines s) @ map (line_of conf) (pc_msgs (cl_pc (sy_callers s ! i)))"

definition log_order_ok :: "LogConfig \<Rightarrow> log_msg list list \<Rightarrow> log_sys \<Rightarrow> bool" where
  "log_order_ok conf progs s \<longleftrightarrow> length (sy_callers s) = length progs \<and>
     (\<forall>i<length progs. prefix (sent conf s i) (due conf (progs ! i)) \<and>
        (sy_closer s = Open \<longrightarrow> sent conf s i @ due conf (cl_todo (sy_callers s ! i)) = due conf (progs ! i)))"

lemma lines_by_append [simp]: "lines_by i (ls @ ls') = lines_by i ls @ lines_by i ls'"
  and lines_by_Cons [simp]: "lines_by i (p # ls) = (if fst p = i then snd p # lines_by i ls else lines_by i ls)"
  and lines_by_Nil [simp]: "lines_by i [] = []"
  by (simp_all add: lines_by_def)

lemma log_order_caller:
  assumes ok: "log_order_ok conf progs s" and mk: "log_mark_ok conf s" and tx: "log_text_ok conf s"
    and i: "i < length (sy_callers s)"
    and mv: "caller_move (sy_level s) L (sy_impl s) (sy_callers s ! i) l c"
  shows "log_order_ok conf progs (s\<lparr>sy_impl := l, sy_callers := (sy_callers s)[i := c]\<rparr>)"
proof -
  let ?t = "s\<lparr>sy_impl := l, sy_callers := (sy_callers s)[i := c]\<rparr>"
  have other: "sent conf ?t j = sent conf s j" if "j \<noteq> i" for j
    using that by (simp add: sent_def)
  have h: "prefix (sent conf s i) (due conf (progs ! i))"
    "sy_closer s = Open \<Longrightarrow> sent conf s i @ due conf (cl_todo (sy_callers s ! i)) = due conf (progs ! i)"
    using ok i by (auto simp: log_order_ok_def)
  have lv: "sy_level s = (if sy_closer s = Open then cf_level conf else LEVEL_MAX)"
    using mk by (simp add: log_mark_ok_def)
  have "prefix (sent conf ?t i) (due conf (progs ! i)) \<and>
     (sy_closer s = Open \<longrightarrow> sent conf ?t i @ due conf (cl_todo c) = due conf (progs ! i))"
    using mv
  proof (cases rule: caller_move_msgs)
    case 1
    then show ?thesis using h i by (simp add: sent_def)
  next
    case (2 m)
    have "msg_ok conf m" using caller_ok_nth [OF tx i] 2(2) by (simp add: caller_ok_def)
    then have "level_num (lm_level m) < level_num LEVEL_MAX" by (rule msg_ok_level)
    with 2(1) lv have op: "sy_closer s = Open" "sy_level s = cf_level conf" by (auto split: if_splits)
    with 2 h(2) i have "sent conf ?t i @ due conf (cl_todo c) = due conf (progs ! i)" by (simp add: sent_def due_def)
    then show ?thesis by (metis prefixI)
  next
    case (3 m)
    with h i lv show ?thesis by (auto simp: sent_def due_def)
  qed
  then show ?thesis using ok other i by (auto simp: log_order_ok_def nth_list_update)
qed

text \<open>A line that is pushed was on its way before.\<close>

lemma sent_message:
  assumes tx: "log_text_ok conf s" and i: "i < length (sy_callers s)" "cl_pc (sy_callers s ! i) = Pushing m data"
    and j: "j < length (sy_callers s)"
  shows "sent conf (s\<lparr>sy_queue := q, sy_callers := (sy_callers s)[i := (sy_callers s ! i)\<lparr>cl_pc := Between\<rparr>],
     sy_lines := sy_lines s @ [(i, take (unat (ld_len data)) (lg_mem (sy_impl s) (ld_buf data)))]\<rparr>) j = sent conf s j"
proof -
  have "holds (lg_mem (sy_impl s)) data (line_of conf m)"
    using caller_ok_nth [OF tx i(1)] i(2) by (simp add: caller_ok_def)
  then have "take (unat (ld_len data)) (lg_mem (sy_impl s) (ld_buf data)) = line_of conf m" by (simp add: holds_def)
  with i j show ?thesis by (cases "j = i") (simp_all add: sent_def)
qed

lemma log_order_step:
  assumes st: "log_step b s t" and ok: "log_order_ok conf progs s" and mk: "log_mark_ok conf s"
    and tx: "log_text_ok conf s" and qok: "log_queue_ok s"
  shows "log_order_ok conf progs t"
  using st
proof cases
  case (caller i l c)
  with log_order_caller [OF ok mk tx] show ?thesis by simp
next
  case (act i q)
  have n: "length (sy_callers s) = length progs" using ok by (simp add: log_order_ok_def)
  from qok act(3) show ?thesis
  proof (cases rule: log_act_cases)
    case (message m data)
    with act(2) n have "sent conf t j = sent conf s j" if "j < length progs" for j
      using that sent_message [OF tx message(1,2), of j] by simp
    moreover have "cl_todo (sy_callers t ! j) = cl_todo (sy_callers s ! j)" if "j < length progs" for j
      using message act(2) that n by (simp add: nth_list_update)
    ultimately show ?thesis using ok message act(2) by (simp add: log_order_ok_def)
  next
    case marking
    with act(2) n have "sent conf t j = sent conf s j" if "j < length progs" for j
      using that by (simp add: sent_def)
    with ok marking act(2) show ?thesis by (simp add: log_order_ok_def)
  qed (use ok act(2) in \<open>simp_all add: log_order_ok_def sent_def\<close>)
qed (use ok in \<open>simp_all add: log_order_ok_def sent_def\<close>)

text \<open>Once \<open>Close\<close> has begun nothing more is sent: what passed the level test before is all.\<close>

definition closing :: "LogConfig \<Rightarrow> log_sys \<Rightarrow> log_sys \<Rightarrow> bool" where
  "closing conf r s \<longleftrightarrow> sy_closer s \<noteq> Open \<and> length (sy_callers s) = length (sy_callers r) \<and>
     prefix (sy_lines r) (sy_lines s) \<and> (\<forall>j<length (sy_callers r). sent conf s j = sent conf r j)"

lemma closing_step:
  assumes st: "log_step b s t" and cl: "closing conf r s" and mk: "log_mark_ok conf s"
    and tx: "log_text_ok conf s" and qok: "log_queue_ok s"
  shows "closing conf r t"
  using st
proof cases
  case (caller i l c)
  have lv: "sy_level s = LEVEL_MAX" using mk cl by (simp add: log_mark_ok_def closing_def)
  have "pc_msgs (cl_pc c) = pc_msgs (cl_pc (sy_callers s ! i))"
    using caller(4)
  proof (cases rule: caller_move_msgs)
    case (2 m)
    have "msg_ok conf m" using caller_ok_nth [OF tx caller(3)] 2(2) by (simp add: caller_ok_def)
    from msg_ok_level [OF this] 2(1) lv show ?thesis by simp
  qed simp_all
  then have "sent conf t j = sent conf s j" if "j < length (sy_callers s)" for j
    using caller(2,3) that by (cases "j = i") (simp_all add: sent_def)
  with cl caller(2) show ?thesis by (simp add: closing_def)
next
  case (act i q)
  from qok act(3) show ?thesis
  proof (cases rule: log_act_cases)
    case (message m data)
    with cl act(2) sent_message [OF tx message(1,2)] show ?thesis by (auto simp: closing_def prefix_def)
  qed (use cl act(2) in \<open>auto simp: closing_def sent_def prefix_def\<close>)
qed (use cl in \<open>simp_all add: closing_def sent_def\<close>)

text \<open>Entry and line belong together: a mark is the line of the thread that closes, the others are the callers'.\<close>

definition entry_line :: "nat \<Rightarrow> LogData \<Rightarrow> nat \<times> bytes \<Rightarrow> bool" where
  "entry_line n d p \<longleftrightarrow> (if ld_buf d = 0 then p = (n, []) else fst p < n)"

definition log_lines_ok :: "log_sys \<Rightarrow> bool" where
  "log_lines_ok s \<longleftrightarrow> list_all2 (entry_line (length (sy_callers s))) (pushed (sy_queue s)) (sy_lines s)"

lemma entry_lines_callers: "list_all2 (entry_line n) ds ls \<Longrightarrow> no_mark ds \<Longrightarrow> p \<in> set ls \<Longrightarrow> fst p < n"
  by (induction rule: list_all2_induct) (auto simp: entry_line_def no_mark_def)

lemma log_lines_step:
  assumes st: "log_step b s t" and ok: "log_lines_ok s" and mem: "log_mem_ok s" and qok: "log_queue_ok s"
  shows "log_lines_ok t"
  using st
proof cases
  case (act i q)
  from qok act(3) show ?thesis
  proof (cases rule: log_act_cases)
    case (message m data)
    have "ld_buf data \<in># blocks s" using blocks_held [OF message(1), of "ld_buf data"] message(2) by simp
    then have "ld_buf data \<noteq> 0" using mem by (metis log_mem_ok_def)
    with ok message act(2) show ?thesis by (simp add: log_lines_ok_def entry_line_def list_all2_appendI)
  qed (use ok act(2) in \<open>simp_all add: log_lines_ok_def entry_line_def list_all2_appendI\<close>)
next
  case (call i c)
  with ok show ?thesis by (simp add: log_lines_ok_def)
next
  case (spurious i c)
  with ok show ?thesis by (simp add: log_lines_ok_def)
qed (use ok in \<open>simp_all add: log_lines_ok_def\<close>)

section \<open>All together\<close>

definition log_ok :: "LogConfig \<Rightarrow> log_disk \<Rightarrow> log_msg list list \<Rightarrow> log_sys \<Rightarrow> bool" where
  "log_ok conf d0 progs s \<longleftrightarrow> log_queue_ok s \<and> log_mem_ok s \<and> log_text_ok conf s \<and> log_mark_ok conf s \<and>
     lines_short s \<and> log_lines_ok s \<and> log_disk_ok conf d0 s \<and> log_order_ok conf progs s"

lemma log_ok_step: "log_step b s t \<Longrightarrow> log_ok conf d0 progs s \<Longrightarrow> log_ok conf d0 progs t"
  unfolding log_ok_def
  by (blast intro: log_queue_step log_mem_step log_text_step log_mark_step lines_short_step log_lines_step log_disk_step log_order_step)

text \<open>What a program logs fits, and the logger has just started.\<close>

definition progs_ok :: "LogConfig \<Rightarrow> log_msg list list \<Rightarrow> bool" where
  "progs_ok conf progs \<longleftrightarrow> (\<forall>ms\<in>set progs. \<forall>m\<in>set ms. msg_ok conf m)"

lemma log_start_ok:
  assumes "queue_ok l []" and "running l = (True, Joinable 0)" and "progs_ok (m_conf l) progs"
  shows "log_ok (m_conf l) (disk_of l) progs (log_start l progs)"
proof -
  let ?s = "log_start l progs"
  have b: "blocks ?s = {#}"
    by (simp add: blocks_def log_start_def queue_blocks_def comp_def system_new_def BlockingQueue_new_def)
  have q: "m_data_queue l = []" "m_logfile l" "\<forall>a. length (lg_mem l a) = BLOCK_SIZE" "pool_inv (m_pool l) {}"
    using assms(1) by (auto simp: queue_ok_def)
  have "log_queue_ok ?s"
    by (simp add: log_queue_ok_def log_start_def queue_at_new) (simp add: system_new_def)
  moreover have "log_mem_ok ?s" using q by (simp add: log_mem_ok_def b sole_def) (simp add: log_start_def)
  moreover have "log_text_ok (m_conf l) ?s"
    using assms(3) by (auto simp: log_text_ok_def log_start_def caller_ok_def progs_ok_def system_new_def BlockingQueue_new_def)
  moreover have "log_mark_ok (m_conf l) ?s"
    by (simp add: log_mark_ok_def log_start_def no_mark_def system_new_def)
  moreover have "lines_short ?s" by (simp add: lines_short_def log_start_def)
  moreover have "log_lines_ok ?s" by (simp add: log_lines_ok_def log_start_def system_new_def)
  moreover have "log_disk_ok (m_conf l) (disk_of l) ?s"
    using q assms(2) by (simp add: log_disk_open log_start_def written_def system_new_def)
  moreover have "log_order_ok (m_conf l) progs ?s"
    by (simp add: log_order_ok_def log_start_def sent_def)
  ultimately show ?thesis by (simp add: log_ok_def)
qed

section \<open>Progress\<close>

definition callers_done :: "log_sys \<Rightarrow> bool" where
  "callers_done s \<longleftrightarrow> (\<forall>c\<in>set (sy_callers s). c = \<lparr>cl_todo = [], cl_pc = Between\<rparr>)"

definition log_final :: "log_sys \<Rightarrow> bool" where
  "log_final s \<longleftrightarrow> sy_closer s = Closed \<and> callers_done s"

lemma fresh_block:
  assumes "finite L"
  shows "\<exists>e. e \<noteq> 0 \<and> block_answer_ok e pool L"
proof -
  let ?e = "m_cache_end pool + Max (insert 0 L) + unat (m_block_size pool) + 1"
  have "y + unat (m_block_size pool) \<le> ?e" if "y \<in> L" for y
  proof -
    have "y \<le> Max (insert 0 L)" using assms that by (intro Max_ge) auto
    then show ?thesis by linarith
  qed
  then show ?thesis by (intro exI [of _ ?e]) (simp add: block_answer_ok_def beside_def)
qed

text \<open>A caller can move unless it has nothing left to log or has come to its push.\<close>

lemma caller_can_move:
  assumes mem: "log_mem_ok s" and tx: "log_text_ok conf s" and i: "i < length (sy_callers s)"
    and "cl_pc (sy_callers s ! i) = Between \<Longrightarrow> cl_todo (sy_callers s ! i) \<noteq> []"
    and "\<And>m data. cl_pc (sy_callers s ! i) \<noteq> Pushing m data"
  shows "\<exists>l c. caller_move level (set_mset (blocks s)) (sy_impl s) (sy_callers s ! i) l c"
proof -
  obtain ms pc where c: "sy_callers s ! i = \<lparr>cl_todo = ms, cl_pc = pc\<rparr>" by (cases "sy_callers s ! i") auto
  have sz: "\<forall>a. length (lg_mem (sy_impl s) a) = BLOCK_SIZE" using mem by (simp add: log_mem_ok_def)
  have cf: "m_conf (sy_impl s) = conf" and co: "pc_ok conf (lg_mem (sy_impl s)) pc"
    using tx caller_ok_nth [OF tx i] c by (auto simp: log_text_ok_def caller_ok_def)
  obtain e where e: "e \<noteq> 0" "block_answer_ok e (m_pool (sy_impl s)) (set_mset (blocks s))"
    using fresh_block [of "set_mset (blocks s)"] by auto
  obtain x p where x: "BlockPool_Alloc e (m_pool (sy_impl s)) = (x, p)" by fastforce
  show ?thesis
  proof (cases pc)
    case Between
    with assms(4) c obtain m ms' where "ms = m # ms'" by (cases ms) auto
    with Between c show ?thesis
      by (cases "level_num level \<le> level_num (lm_level m)") (auto intro: caller_move.pass caller_move.skip)
  next
    case (Checked m)
    show ?thesis unfolding c Checked by (auto intro: exI caller_move.alloc_msg [OF e x])
  next
    case (HasMsg m y)
    with co obtain l where "LogMsg_text y m (sy_impl s) = Some l" using LogMsg_text_ok(1) [OF sz] by fastforce
    then show ?thesis unfolding c HasMsg by (auto intro: exI caller_move.print_text)
  next
    case (Printed m y)
    show ?thesis unfolding c Printed by (auto intro: exI caller_move.alloc_buf [OF e x])
  next
    case (HasBuf m y z)
    with co cf obtain data l where "LogMsg_line y z m (sy_impl s) = Some (data, l)"
      using LogMsg_line_ok(1) [OF sz, of m y z] by auto
    then show ?thesis unfolding c HasBuf by (auto intro: exI caller_move.print_line)
  next
    case (Formatted m y data)
    show ?thesis unfolding c Formatted by (auto intro: exI caller_move.free_msg)
  next
    case (Pushing m data)
    with assms(5) [of m data] c show ?thesis by simp
  qed
qed

lemma writer_can_move:
  assumes ok: "log_ok conf d0 progs s" and "sy_writer s \<noteq> Popping" and "sy_writer s \<noteq> Ended"
  shows "\<exists>a l w. writer_move a (sy_impl s) (sy_writer s) l w"
proof (cases "sy_writer s")
  case (Got data)
  let ?k = "length (popped (sy_queue s))"
  from ok Got have h: "holds (lg_mem (sy_impl s)) data (snd (sy_lines s ! (?k - 1)))" "0 < ?k"
    "length (lg_mem (sy_impl s) (ld_buf data)) = BLOCK_SIZE"
    by (auto simp: log_ok_def log_text_ok_def log_mem_ok_def)
  have "?k \<le> length (sy_lines s)" using log_queue_lines [of s] ok by (simp add: log_ok_def)
  with h(2) have "sy_lines s ! (?k - 1) \<in> set (sy_lines s)" by (intro nth_mem) linarith
  then have "length (snd (sy_lines s ! (?k - 1))) < BLOCK_SIZE" using ok by (auto simp: log_ok_def lines_short_def)
  from Write_file_ok(1) [OF h(1,3) this] Got show ?thesis by (auto intro: writer_move.write_file)
next
  case (Written data)
  then show ?thesis by (auto intro: writer_move.free)
next
  case Freed
  then show ?thesis by (auto intro: writer_move.rotate)
qed (use assms in auto)

text \<open>
  No deadlock, as long as there are not more threads than places in the queue: the entries behind the mark,
  which nobody takes any more, are at most one for each thread.
\<close>

lemma mark_unique:
  assumes "b @ d # a = c @ e # q" and "no_mark b" and "no_mark a" and "ld_buf d = 0" and "no_mark c" and "ld_buf e = 0"
  shows "a = q"
proof -
  have "takeWhile (\<lambda>d. ld_buf d \<noteq> 0) (b @ d # a) = b" "takeWhile (\<lambda>d. ld_buf d \<noteq> 0) (c @ e # q) = c"
    using assms(2-6) by (auto simp: no_mark_def takeWhile_append2)
  with assms(1) show ?thesis by simp
qed

lemma log_blocked:
  assumes ok: "log_ok conf d0 progs s" and n: "length progs \<le> unat QUEUE_CAPACITY"
    and stuck: "\<And>t. log_step False s t \<Longrightarrow> sy_closer s = Open \<and> sy_closer t \<noteq> Open"
  shows "callers_done s \<and> (sy_closer s = Open \<or> log_final s)"
proof (rule ccontr)
  assume nf: "\<not> ?thesis"
  let ?n = "length (sy_callers s)" and ?q = "sy_queue s"
  from ok have qok: "log_queue_ok s" and mem: "log_mem_ok s" and tx: "log_text_ok conf s" and mk: "log_mark_ok conf s"
    and len: "?n = length progs" by (auto simp: log_ok_def log_order_ok_def)
  have cap: "0 < unat QUEUE_CAPACITY" by (simp add: QUEUE_CAPACITY_def)
  have q: "queue_at (log_wants s) QUEUE_CAPACITY ?q" and l: "length (threads ?q) = ?n + 2"
    and ff: "pushed ?q = popped ?q @ m_queue (bq ?q)" using qok by (auto simp: log_queue_ok_def queue_at_def fifo_def)
  have asleep: "if is_pop c then m_queue (bq ?q) = [] else unat QUEUE_CAPACITY \<le> length (m_queue (bq ?q))"
    if "log_wants s i = Some c" "i < ?n + 2" for i c
  proof (rule queue_at_stuck [OF q])
    show "\<not> bq_act j ?q r" for j r
    proof
      assume a: "bq_act j ?q r"
      from qok a show False
        using stuck [OF log_step.act [OF a]] by (cases rule: log_act_cases) (simp_all split: if_splits)
    qed
    show "threads ?q ! j \<noteq> Idle" if "j < length (threads ?q)" "log_wants s j \<noteq> None" for j
    proof
      assume "threads ?q ! j = Idle"
      with that obtain c where "log_step False s (s\<lparr>sy_queue := ?q\<lparr>threads := (threads ?q)[j := Ready c]\<rparr>\<rparr>)"
        using log_step.call by blast
      from stuck [OF this] show False by simp
    qed
  qed (use that l in simp_all)
  have callers: "(\<exists>m data. cl_pc (sy_callers s ! i) = Pushing m data) \<or> sy_callers s ! i = \<lparr>cl_todo = [], cl_pc = Between\<rparr>"
    if i: "i < ?n" for i
  proof (rule ccontr)
    assume c: "\<not> ?thesis"
    then have "cl_pc (sy_callers s ! i) = Between \<Longrightarrow> cl_todo (sy_callers s ! i) \<noteq> []"
      by (cases "sy_callers s ! i") simp
    from caller_can_move [OF mem tx i this, of "sy_level s"] c obtain l c' where
      "caller_move (sy_level s) (set_mset (blocks s)) (sy_impl s) (sy_callers s ! i) l c'" by blast
    from stuck [OF log_step.caller [OF i this]] show False by simp
  qed
  have pushing: "unat QUEUE_CAPACITY \<le> length (m_queue (bq ?q))" if "i < ?n" "cl_pc (sy_callers s ! i) = Pushing m data" for i m data
    using asleep [of i "CPush data"] that by (simp add: log_wants_push)
  have marking: "unat QUEUE_CAPACITY \<le> length (m_queue (bq ?q))" if "sy_closer s = Marking"
    using asleep [of ?n "CPush mark"] that by (simp add: log_wants_push)
  have "sy_writer s = Popping \<or> sy_writer s = Ended"
  proof (rule ccontr)
    assume "\<not> ?thesis"
    with writer_can_move [OF ok] obtain a l w where "writer_move a (sy_impl s) (sy_writer s) l w" by blast
    from stuck [OF log_step.writer [OF this]] show False by simp
  qed
  then show False
  proof
    assume w: "sy_writer s = Popping"
    then have e: "m_queue (bq ?q) = []" using asleep [of "Suc ?n" CPop] by (simp add: log_wants_pop)
    have "sy_callers s ! i = \<lparr>cl_todo = [], cl_pc = Between\<rparr>" if "i < ?n" for i
      using callers [OF that] pushing [OF that] cap e by auto
    then have "callers_done s" by (auto simp: callers_done_def in_set_conv_nth)
    with nf have "sy_closer s \<noteq> Open" by simp
    with marking cap e have "sy_closer s = Joining \<or> sy_closer s = Closed" by (cases "sy_closer s") auto
    then obtain b a where "pushed ?q = b @ mark # a" using mk by (auto simp: log_mark_ok_def)
    then have "mark \<in> set (pushed ?q)" by simp
    then have "mark \<in> set (popped ?q)" unfolding ff e by simp
    moreover have "no_mark (popped ?q)" using mk w by (simp add: log_mark_ok_def)
    ultimately show False by (auto simp: no_mark_def)
  next
    assume w: "sy_writer s = Ended"
    then obtain b d where p: "popped ?q = b @ [d]" "ld_buf d = 0" "no_mark b" using mk by (auto simp: log_mark_ok_def)
    have "\<not> no_mark (pushed ?q)" using ff p by (simp add: no_mark_def)
    then have "sy_closer s = Joining \<or> sy_closer s = Closed" using mk by (cases "sy_closer s") (auto simp: log_mark_ok_def)
    moreover have "sy_closer s \<noteq> Joining"
    proof
      assume j: "sy_closer s = Joining"
      with ok have "Thread_Join (m_thread (sy_impl s)) = Some NoThread"
        by (simp add: log_ok_def log_disk_ok_def Thread_Join_def)
      from stuck [OF log_step.join [OF j w this]] j show False by simp
    qed
    ultimately have cl: "sy_closer s = Closed" by simp
    with nf obtain i where i: "i < ?n" "sy_callers s ! i \<noteq> \<lparr>cl_todo = [], cl_pc = Between\<rparr>"
      by (auto simp: log_final_def callers_done_def in_set_conv_nth)
    with callers obtain m data where m: "cl_pc (sy_callers s ! i) = Pushing m data" by blast
    obtain b' a where m': "pushed ?q = b' @ mark # a" "no_mark b'" "no_mark a" "length a + inside s \<le> ?n"
      using mk cl by (auto simp: log_mark_ok_def)
    have "a = m_queue (bq ?q)"
      by (rule mark_unique [of b' mark _ b d]) (use m' p ff in simp_all)
    moreover have "0 < inside s" unfolding inside_def count_pos using i(1) m by (auto intro!: bexI [of _ "sy_callers s ! i"])
    ultimately show False using pushing [OF i(1) m] m'(4) n len by simp
  qed
qed

lemma log_not_stuck:
  assumes "log_ok conf d0 progs s" and "length progs \<le> unat QUEUE_CAPACITY" and "\<not> log_final s"
  shows "\<exists>t. log_step False s t"
proof (rule ccontr)
  assume no: "\<nexists>t. log_step False s t"
  then have "sy_closer s \<noteq> Open" using log_step.close by blast
  with log_blocked [OF assms(1,2)] no assms(3) show False by blast
qed

text \<open>A bound on the steps that are left.\<close>

fun pc_weight :: "caller_pc \<Rightarrow> nat" where
  "pc_weight Between = 0"
| "pc_weight (Pushing m data) = 13"
| "pc_weight (Formatted m x data) = 14"
| "pc_weight (HasBuf m x y) = 15"
| "pc_weight (Printed m x) = 16"
| "pc_weight (HasMsg m x) = 17"
| "pc_weight (Checked m) = 18"

fun writer_weight :: "writer_pc \<Rightarrow> nat" where
  "writer_weight (Got data) = 3"
| "writer_weight (Written data) = 2"
| "writer_weight Freed = 1"
| "writer_weight _ = 0"

fun closer_weight :: "closer_pc \<Rightarrow> nat" where
  "closer_weight Open = 15"
| "closer_weight Marking = 14"
| "closer_weight Joining = 1"
| "closer_weight Closed = 0"

definition caller_weight :: "caller \<Rightarrow> nat" where
  "caller_weight c = 19 * length (cl_todo c) + pc_weight (cl_pc c)"

definition log_weight :: "log_sys \<Rightarrow> nat" where
  "log_weight s = sum_list (map caller_weight (sy_callers s)) + writer_weight (sy_writer s) +
     closer_weight (sy_closer s) + 10 * length (m_queue (bq (sy_queue s))) + threads_weight (sy_queue s)"

lemma caller_move_weight: "caller_move level L l c l' c' \<Longrightarrow> caller_weight c' < caller_weight c"
  by (cases rule: caller_move.cases) (auto simp: caller_weight_def)

lemma writer_move_weight: "writer_move a l w l' w' \<Longrightarrow> writer_weight w' < writer_weight w"
  by (cases rule: writer_move.cases) auto

lemma log_weight_step:
  assumes st: "log_step False s t" and qok: "log_queue_ok s"
  shows "log_weight t < log_weight s"
  using st
proof cases
  case (caller i l c)
  with sum_list_update_nat [OF caller(2), of caller_weight c] caller_move_weight [OF caller(3)]
  show ?thesis by (simp add: log_weight_def)
next
  case (writer a l w)
  with writer_move_weight [OF writer(2)] show ?thesis by (simp add: log_weight_def)
next
  case (call i c)
  with threads_weight_set [OF call(3), of "Ready c"] show ?thesis by (simp add: log_weight_def)
next
  case (act i q)
  from qok have "queue_at (log_wants s) QUEUE_CAPACITY (sy_queue s)" by (simp add: log_queue_ok_def)
  note w = queue_at_act_weight [OF this act(2)]
  from qok act(2) show ?thesis
  proof (cases rule: log_act_cases)
    case (message m data)
    have "caller_weight ((sy_callers s ! i)\<lparr>cl_pc := Between\<rparr>) + 13 = caller_weight (sy_callers s ! i)"
      using message(2) by (simp add: caller_weight_def)
    with sum_list_update_nat [OF message(1), of caller_weight "(sy_callers s ! i)\<lparr>cl_pc := Between\<rparr>"] message w(1) act(1)
    show ?thesis by (simp add: log_weight_def)
  next
    case marking
    with w(1) act(1) show ?thesis by (simp add: log_weight_def)
  next
    case (pop data)
    with w(1) act(1) show ?thesis by (simp add: log_weight_def)
  next
    case wait
    with w(2) act(1) show ?thesis by (simp add: log_weight_def)
  qed
qed (simp_all add: log_weight_def)

lemma log_weight_spurious:
  assumes "log_step True s t"
  shows "log_weight t \<le> Suc (log_weight s)"
  using assms
proof cases
  case (spurious i c)
  with threads_weight_set [OF spurious(2), of "Ready c"] show ?thesis by (simp add: log_weight_def)
qed simp_all

lemma log_weight_start:
  "log_weight (log_start l progs) = 19 * sum_list (map length progs) + 3 * length progs + 21"
proof -
  have "sum_list (map caller_weight (map (\<lambda>ms. \<lparr>cl_todo = ms, cl_pc = Between\<rparr>) progs)) = 19 * sum_list (map length progs)"
    by (induction progs) (simp_all add: caller_weight_def)
  then show ?thesis
    by (simp add: log_weight_def log_start_def threads_weight_def system_new_def BlockingQueue_new_def sum_list_replicate)
qed

interpretation log_progress: bounded_progress log_step
    "\<lambda>s. log_ok conf d0 progs s \<and> length progs \<le> unat QUEUE_CAPACITY" log_final log_weight
  for conf :: LogConfig and d0 :: log_disk and progs :: "log_msg list list"
proof
  fix b s t
  assume st: "log_step b s t" and ok: "log_ok conf d0 progs s \<and> length progs \<le> unat QUEUE_CAPACITY"
  then show "log_ok conf d0 progs t \<and> length progs \<le> unat QUEUE_CAPACITY" by (blast intro: log_ok_step)
next
  fix s t
  assume "log_step False s t" and "log_ok conf d0 progs s \<and> length progs \<le> unat QUEUE_CAPACITY"
  then show "log_weight t < log_weight s" by (intro log_weight_step) (auto simp: log_ok_def)
next
  fix s t
  assume "log_step True s t"
  then show "log_weight t \<le> Suc (log_weight s)" by (rule log_weight_spurious)
next
  fix s
  assume "log_ok conf d0 progs s \<and> length progs \<le> unat QUEUE_CAPACITY" and "\<not> log_final s"
  then show "\<exists>t. log_step False s t" using log_not_stuck by blast
qed

text \<open>While the logger is open the callers get to their end.\<close>

definition open_step :: "bool \<Rightarrow> log_sys \<Rightarrow> log_sys \<Rightarrow> bool" where
  "open_step b s t \<longleftrightarrow> log_step b s t \<and> sy_closer t = Open"

interpretation log_callers: bounded_progress open_step
    "\<lambda>s. log_ok conf d0 progs s \<and> length progs \<le> unat QUEUE_CAPACITY \<and> sy_closer s = Open" callers_done log_weight
  for conf :: LogConfig and d0 :: log_disk and progs :: "log_msg list list"
proof
  fix b s t
  assume st: "open_step b s t" and ok: "log_ok conf d0 progs s \<and> length progs \<le> unat QUEUE_CAPACITY \<and> sy_closer s = Open"
  then show "log_ok conf d0 progs t \<and> length progs \<le> unat QUEUE_CAPACITY \<and> sy_closer t = Open"
    by (auto simp: open_step_def intro: log_ok_step)
next
  fix s t
  assume "open_step False s t" and "log_ok conf d0 progs s \<and> length progs \<le> unat QUEUE_CAPACITY \<and> sy_closer s = Open"
  then show "log_weight t < log_weight s" by (intro log_weight_step) (auto simp: log_ok_def open_step_def)
next
  fix s t
  assume "open_step True s t"
  then show "log_weight t \<le> Suc (log_weight s)" by (auto simp: open_step_def intro: log_weight_spurious)
next
  fix s
  assume ok: "log_ok conf d0 progs s \<and> length progs \<le> unat QUEUE_CAPACITY \<and> sy_closer s = Open" and nd: "\<not> callers_done s"
  show "\<exists>t. open_step False s t"
  proof (rule ccontr)
    assume "\<nexists>t. open_step False s t"
    then have "sy_closer s = Open \<and> sy_closer t \<noteq> Open" if "log_step False s t" for t
      using that ok by (auto simp: open_step_def)
    with log_blocked [of conf d0 progs s] ok nd show False by blast
  qed
qed

text \<open>The queue inside the logger runs as the queue alone does.\<close>

lemma log_step_queue:
  assumes "log_step b s t"
  shows "bq_step\<^sup>*\<^sup>* (sy_queue s) (sy_queue t)"
  using assms
proof cases
  case (call i c)
  then show ?thesis using bq_step.call [of i "sy_queue s" c] by auto
next
  case (act i q)
  then have "sy_queue t = q" by (simp add: log_return_def Let_def)
  with act(3) show ?thesis using bq_step.act [of i "sy_queue s" q] by auto
next
  case (spurious i c)
  then show ?thesis using bq_step.spurious [of i "sy_queue s" c] by auto
qed simp_all

interpretation log_queue: simulation "any_label log_step" bq_step "\<lambda>s q. q = sy_queue s"
proof
  fix s t :: log_sys and q :: "LogData system"
  assume "any_label log_step s t" and "q = sy_queue s"
  then show "\<exists>r. bq_step\<^sup>*\<^sup>* q r \<and> r = sy_queue t" using log_step_queue by (auto simp: any_label_def)
qed

lemma log_queue_runs:
  assumes "(any_label log_step)\<^sup>*\<^sup>* (log_start l progs) s"
  shows "bq_step\<^sup>*\<^sup>* (system_new QUEUE_CAPACITY (length progs + 2)) (sy_queue s)"
proof -
  have "sy_queue (log_start l progs) = system_new QUEUE_CAPACITY (length progs + 2)" by (simp add: log_start_def)
  with log_queue.follow_run [OF assms refl] show ?thesis by simp
qed

section \<open>Closing\<close>

lemma log_ok_reachable:
  "(any_label log_step)\<^sup>*\<^sup>* s t \<Longrightarrow> log_ok conf d0 progs s \<Longrightarrow> log_ok conf d0 progs t"
  by (induction rule: rtranclp_induct) (auto simp: any_label_def intro: log_ok_step)

lemma started_ok:
  assumes "LoggerImpl_Start True buf conf (LoggerImpl_new conf0 disk mem) = Some (True, l)" and "buf \<noteq> 0"
    and "\<forall>a. length (mem a) = BLOCK_SIZE" and "progs_ok conf progs"
  shows "log_ok conf (lg_disk l, m_filesize l, True) progs (log_start l progs)"
proof -
  from Start_ok [OF assms(1-3)] have "m_logfile l" by (simp add: queue_ok_def)
  then show ?thesis using Start_ok [OF assms(1-3)] log_start_ok [of l progs] assms(4)
    unfolding disk_of_def by (metis (full_types))
qed

text \<open>The lines in front of the mark are on the disk when the logger is closed.\<close>

lemma closed_disk:
  assumes ok: "log_ok conf d0 progs s" and "sy_closer s = Closed"
  shows "\<exists>before after. sy_lines s = before @ (length progs, []) # after \<and> length after + inside s \<le> length progs \<and>
     length (popped (sy_queue s)) = Suc (length before) \<and> m_queue (bq (sy_queue s)) = drop (Suc (length before)) (pushed (sy_queue s)) \<and>
     sy_writer s = Ended \<and> no_mark (m_queue (bq (sy_queue s))) \<and>
     (\<forall>p\<in>set before. fst p < length progs) \<and> length (sy_opens s) = length before \<and>
     lg_disk (sy_impl s) = fst (foldl (spec_log conf) d0 (zip (map snd before) (sy_opens s)))"
proof -
  let ?q = "sy_queue s"
  from ok have qok: "log_queue_ok s" and mk: "log_mark_ok conf s" and dk: "log_disk_ok conf d0 s"
    and ll: "log_lines_ok s" and len: "length (sy_callers s) = length progs" by (auto simp: log_ok_def log_order_ok_def)
  have w: "sy_writer s = Ended" using mk assms(2) by (simp add: log_mark_ok_def)
  obtain b a where m: "pushed ?q = b @ mark # a" "no_mark b" "no_mark a" "length a + inside s \<le> length progs"
    using mk assms(2) len by (auto simp: log_mark_ok_def)
  obtain c d where p: "popped ?q = c @ [d]" "ld_buf d = 0" "no_mark c" using mk w by (auto simp: log_mark_ok_def)
  have ff: "pushed ?q = popped ?q @ m_queue (bq ?q)" using qok by (auto simp: log_queue_ok_def queue_at_def fifo_def)
  have aq: "a = m_queue (bq ?q)" by (rule mark_unique [of b mark _ c d]) (use m p ff in simp_all)
  then have bc: "length b = length c" using m(1) p(1) ff by simp
  from ll m(1) len obtain before x after where l: "sy_lines s = before @ x # after" "length before = length b"
    "length after = length a" "x = (length progs, [])"
    "list_all2 (entry_line (length progs)) b before"
    by (auto simp: log_lines_ok_def list_all2_append1 list_all2_Cons1 entry_line_def [of _ mark] dest: list_all2_lengthD)
  have "fst y < length progs" if "y \<in> set before" for y
    by (rule entry_lines_callers [OF l(5) m(2) that])
  moreover from dk w p(1) bc l(2) obtain n f where os: "length (sy_opens s) = length before"
    "(lg_disk (sy_impl s), n, f) = written conf d0 (sy_lines s) (sy_opens s)" by (auto simp: log_disk_ok_def)
  then have "lg_disk (sy_impl s) = fst (foldl (spec_log conf) d0 (zip (map snd before) (sy_opens s)))"
    unfolding l(1) written_def by (simp add: zip_append1) (metis fst_conv)
  moreover have "m_queue (bq ?q) = drop (Suc (length before)) (pushed ?q)" using m(1) l(2) aq by simp
  ultimately show ?thesis using l m(3,4) p(1) bc aq w os(1) by (intro exI [of _ before] exI [of _ after]) simp
qed

text \<open>Behind the mark: a thread that logs has there the one message that it was about when \<open>Close\<close> began.\<close>

definition behind :: "nat \<Rightarrow> (nat \<times> bytes) list \<Rightarrow> (nat \<times> bytes) list" where
  "behind n ls = tl (dropWhile (\<lambda>p. fst p \<noteq> n) ls)"

definition log_behind_ok :: "log_sys \<Rightarrow> bool" where
  "log_behind_ok s \<longleftrightarrow> (sy_closer s = Joining \<or> sy_closer s = Closed \<longrightarrow>
     length (sy_callers s) \<in> fst ` set (sy_lines s) \<and>
     (\<forall>i<length (sy_callers s). length (lines_by i (behind (length (sy_callers s)) (sy_lines s))) +
        length (pc_msgs (cl_pc (sy_callers s ! i))) \<le> 1))"

lemma behind_append: "n \<in> fst ` set ls \<Longrightarrow> behind n (ls @ xs) = behind n ls @ xs"
proof -
  assume "n \<in> fst ` set ls"
  then obtain p where p: "p \<in> set ls" "\<not> fst p \<noteq> n" by auto
  then have "dropWhile (\<lambda>p. fst p \<noteq> n) ls \<noteq> []" by (auto simp: dropWhile_eq_Nil_conv)
  with dropWhile_append1 [of p ls "\<lambda>p. fst p \<noteq> n" xs] p show ?thesis by (simp add: behind_def)
qed

lemma behind_split: "\<forall>p\<in>set before. fst p < n \<Longrightarrow> behind n (before @ (n, x) # after) = after"
  unfolding behind_def by (subst dropWhile_append2) auto

lemma log_behind_step:
  assumes st: "log_step b s t" and ok: "log_behind_ok s" and lo: "log_ok conf d0 progs s"
  shows "log_behind_ok t"
proof -
  from lo have qok: "log_queue_ok s" and mk: "log_mark_ok conf s" and tx: "log_text_ok conf s" and ll: "log_lines_ok s"
    by (auto simp: log_ok_def)
  have one: "length (pc_msgs pc) \<le> 1" for pc by (cases pc) simp_all
  show ?thesis using st
  proof cases
    case (caller i l c)
    have "pc_msgs (cl_pc c) = pc_msgs (cl_pc (sy_callers s ! i))" if "sy_closer s = Joining \<or> sy_closer s = Closed"
      using caller(4)
    proof (cases rule: caller_move_msgs)
      case (2 m)
      have "msg_ok conf m" using caller_ok_nth [OF tx caller(3)] 2(2) by (simp add: caller_ok_def)
      from msg_ok_level [OF this] 2(1) mk that show ?thesis by (auto simp: log_mark_ok_def)
    qed simp_all
    then have "length (pc_msgs (cl_pc ((sy_callers s)[i := c] ! j))) = length (pc_msgs (cl_pc (sy_callers s ! j)))"
      if "sy_closer s = Joining \<or> sy_closer s = Closed" for j
      using that caller(3) by (cases "j = i") simp_all
    with ok caller(2) show ?thesis by (simp add: log_behind_ok_def)
  next
    case (act i q)
    from qok act(3) show ?thesis
    proof (cases rule: log_act_cases)
      case (message m data)
      with ok act(2) show ?thesis by (auto simp: log_behind_ok_def behind_append nth_list_update)
    next
      case marking
      have "no_mark (pushed (sy_queue s))" using mk marking(2) by (simp add: log_mark_ok_def)
      with ll have "\<forall>p\<in>set (sy_lines s). fst p < length (sy_callers s)"
        by (auto simp: log_lines_ok_def dest: entry_lines_callers)
      from behind_split [OF this, of "[]" "[]"] act(2) marking one show ?thesis by (simp add: log_behind_ok_def)
    qed (use ok act(2) in \<open>simp_all add: log_behind_ok_def\<close>)
  qed (use ok in \<open>simp_all add: log_behind_ok_def\<close>)
qed

lemma log_behind_reachable:
  assumes "(any_label log_step)\<^sup>*\<^sup>* (log_start l progs) s" and "log_ok conf d0 progs (log_start l progs)"
  shows "log_behind_ok s"
  using assms(1)
proof (induction rule: rtranclp_induct)
  case base
  show ?case by (simp add: log_behind_ok_def log_start_def)
next
  case (step s t)
  then show ?case using log_ok_reachable [OF step(1) assms(2)] log_behind_step unfolding any_label_def by blast
qed

text \<open>When nobody logs any more, closing adds the mark and nothing else.\<close>

definition quiet :: "log_sys \<Rightarrow> log_sys \<Rightarrow> bool" where
  "quiet r s \<longleftrightarrow> sy_callers s = sy_callers r \<and>
     (if sy_closer s = Open \<or> sy_closer s = Marking then sy_lines s = sy_lines r
      else sy_lines s = sy_lines r @ [(length (sy_callers r), [])])"

lemma idle_no_move: "caller_move level L l c l' c' \<Longrightarrow> c \<noteq> \<lparr>cl_todo = [], cl_pc = Between\<rparr>"
  by (cases rule: caller_move.cases) auto

lemma quiet_step:
  assumes st: "log_step b s t" and q: "quiet r s" and idle: "callers_done r"
    and qok: "log_queue_ok s"
  shows "quiet r t"
  using st
proof cases
  case (caller i l c)
  then have "sy_callers s ! i = \<lparr>cl_todo = [], cl_pc = Between\<rparr>" using q idle by (metis nth_mem quiet_def callers_done_def)
  with idle_no_move [OF caller(4)] show ?thesis by simp
next
  case (act i q')
  from qok act(3) show ?thesis
  proof (cases rule: log_act_cases)
    case (message m data)
    then have "sy_callers s ! i = \<lparr>cl_todo = [], cl_pc = Between\<rparr>" using q idle by (metis nth_mem quiet_def callers_done_def)
    with message(2) show ?thesis by simp
  qed (use q act(2) in \<open>auto simp: quiet_def\<close>)
qed (use q in \<open>auto simp: quiet_def\<close>)

lemma quiet_run:
  assumes "(any_label log_step)\<^sup>*\<^sup>* r s" and "log_ok conf d0 progs r" and "sy_closer r = Open"
    and idle: "callers_done r"
  shows "quiet r s"
  using assms(1)
proof (induction rule: rtranclp_induct)
  case base
  then show ?case using assms(3) by (simp add: quiet_def)
next
  case (step s t)
  then show ?case using log_ok_reachable [OF step(1) assms(2)] quiet_step [OF _ step(3) idle]
    by (auto simp: any_label_def log_ok_def)
qed

section \<open>A run\<close>

text \<open>A logger with one caller that has one message, for the witnesses.\<close>

definition demo_conf :: LogConfig where
  "demo_conf = LogConfig_default [108]"

definition demo_msg :: log_msg where
  "demo_msg = \<lparr>lm_level = LEVEL_INFO, lm_time = \<lparr>t_year = 0, t_mon = 1, t_day = 1, t_hour = 0, t_min = 0, t_sec = 0, t_ms = 0\<rparr>,
     lm_file = [102], lm_func = [103], lm_line = 1, lm_text = [104]\<rparr>"

definition demo_logger :: LoggerImpl where
  "demo_logger = snd (the (LoggerImpl_Start True 8192 demo_conf
     (LoggerImpl_new (LogConfig_default []) Map.empty (\<lambda>_. replicate BLOCK_SIZE 0))))"

lemma demo_start:
  "LoggerImpl_Start True 8192 demo_conf (LoggerImpl_new (LogConfig_default []) Map.empty (\<lambda>_. replicate BLOCK_SIZE 0)) =
     Some (True, demo_logger)" "\<forall>a. length ((\<lambda>_ :: nat. replicate BLOCK_SIZE (0 :: u8)) a) = BLOCK_SIZE"
  by (simp_all add: demo_logger_def LoggerImpl_Start_def LoggerImpl_new_def Thread_Start_def Let_def)

lemma demo_progs_ok: "progs_ok demo_conf [[demo_msg]]"
proof -
  have "\<exists>line. msg_line demo_conf demo_msg (lm_text demo_msg) = Some line \<and> length line < BLOCK_SIZE"
    by (simp add: msg_line_def log_line_def demo_msg_def demo_conf_def LogConfig_default_def LEVEL_DESC_def ascii_def
        FLAG_OUT_LINENUM_def FLAG_OUT_FILENAME_def FLAG_OUT_FUNCTION_def Let_def fmt_u_def fmt_d_def decimal_small
        BLOCK_SIZE_def GetFileName_def strrchr_def)
  then show ?thesis by (auto simp: progs_ok_def msg_ok_def line_of_def demo_msg_def)
qed

lemma demo_ok: "log_ok demo_conf (lg_disk demo_logger, m_filesize demo_logger, True) [[demo_msg]] (log_start demo_logger [[demo_msg]])"
  by (rule started_ok [OF demo_start(1) _ demo_start(2) demo_progs_ok]) simp

lemma demo_below: "m_filesize demo_logger + of_nat (length (line_of demo_conf demo_msg)) < cf_max_file_size demo_conf"
proof -
  have "m_filesize demo_logger = 0"
    using Start_ok [OF demo_start(1) _ demo_start(2)] by (simp add: open_append_def contents_def)
  moreover have "length (line_of demo_conf demo_msg) < BLOCK_SIZE"
    using demo_progs_ok by (auto simp: progs_ok_def msg_ok_def demo_msg_def demo_conf_def LogConfig_default_def)
  then have "unat (of_nat (length (line_of demo_conf demo_msg)) :: u64) < 8192"
    by (simp add: unat_of_nat_small BLOCK_SIZE_def)
  then have "of_nat (length (line_of demo_conf demo_msg)) < (8192 :: u64)" by (simp add: word_less_nat_alt)
  then have "of_nat (length (line_of demo_conf demo_msg)) < cf_max_file_size demo_conf"
    by (rule less_le_trans) (simp add: demo_conf_def LogConfig_default_def)
  ultimately show ?thesis by simp
qed

lemma demo_run:
  "\<exists>r s. (any_label log_step)\<^sup>*\<^sup>* (log_start demo_logger [[demo_msg]]) r \<and> sy_closer r = Open \<and> callers_done r \<and>
     (any_label log_step)\<^sup>*\<^sup>* r s \<and> log_final s"
proof -
  let ?d = "(lg_disk demo_logger, m_filesize demo_logger, True)" and ?s = "log_start demo_logger [[demo_msg]]"
  have cap: "length [[demo_msg]] \<le> unat QUEUE_CAPACITY" by (simp add: QUEUE_CAPACITY_def)
  have "sy_closer ?s = Open" by (simp add: log_start_def)
  with demo_ok cap have ok: "log_ok demo_conf ?d [[demo_msg]] ?s \<and> length [[demo_msg]] \<le> unat QUEUE_CAPACITY \<and> sy_closer ?s = Open"
    by simp
  obtain r where r: "(open_step False)\<^sup>*\<^sup>* ?s r" "callers_done r" using log_callers.runs_to_end [OF ok] by blast
  have "sy_closer r = Open" using log_callers.ok_reachable [OF rtranclp_any_label [where step = open_step and l = False, OF r(1)] ok] by simp
  have "open_step False \<le> log_step False" by (auto simp: open_step_def)
  from rtranclp_mono [OF this] r(1) have run: "(any_label log_step)\<^sup>*\<^sup>* ?s r" by (blast intro: rtranclp_any_label)
  from log_ok_reachable [OF this demo_ok] cap obtain s where "(log_step False)\<^sup>*\<^sup>* r s" "log_final s"
    using log_progress.runs_to_end by blast
  with run r(2) \<open>sy_closer r = Open\<close> show ?thesis by (blast intro: rtranclp_any_label)
qed

text \<open>A run in which the mark gets in front of a message that had passed the level test.\<close>

lemma closing_run:
  assumes "(any_label log_step)\<^sup>*\<^sup>* r s" and "log_ok conf d0 progs r" and "closing conf r r"
  shows "closing conf r s"
  using assms(1)
proof (induction rule: rtranclp_induct)
  case (step s t)
  then show ?case using log_ok_reachable [OF step(1) assms(2)] closing_step
    by (fastforce simp: any_label_def log_ok_def)
qed (rule assms(3))

lemma log_two_steps: "log_step False r s \<Longrightarrow> log_step False s t \<Longrightarrow> (any_label log_step)\<^sup>*\<^sup>* r t"
proof -
  assume "log_step False r s" and "log_step False s t"
  then have "(log_step False)\<^sup>*\<^sup>* r t" using converse_rtranclp_into_rtranclp [of "log_step False" r s t] by simp
  then show ?thesis by (rule rtranclp_any_label)
qed

lemma mark_steps:
  assumes "sy_closer s = Marking" and "length (sy_callers s) = 1"
    and "sy_queue s = \<lparr>bq = BlockingQueue_new QUEUE_CAPACITY, threads = [Idle, Idle, Idle], pushed = [], popped = []\<rparr>"
  shows "\<exists>q. (any_label log_step)\<^sup>*\<^sup>* s (s\<lparr>sy_queue := q, sy_closer := Joining, sy_lines := sy_lines s @ [(1, [])]\<rparr>)"
proof -
  let ?b = "(BlockingQueue_new QUEUE_CAPACITY)\<lparr>m_queue := [mark]\<rparr>"
  let ?r = "\<lparr>bq = BlockingQueue_new QUEUE_CAPACITY, threads = [Idle, Ready (CPush mark), Idle], pushed = [], popped = []\<rparr>"
  let ?q = "\<lparr>bq = ?b, threads = [Idle, Idle, Idle], pushed = [mark], popped = []\<rparr>"
  have 1: "log_step False s (s\<lparr>sy_queue := ?r\<rparr>)"
    using log_step.call [of s 1 "CPush mark"] assms by (simp add: log_wants_def)
  have "put_body (CPush mark) (BlockingQueue_new QUEUE_CAPACITY) = Some ?b"
    by (simp add: put_body_def Push_body_def queue_full_def BlockingQueue_new_def QUEUE_CAPACITY_def)
  then have "bq_act 1 (sy_queue (s\<lparr>sy_queue := ?r\<rparr>)) ?q"
    using bq_act.put [of 1 ?r "CPush mark" ?b "[Idle, Idle, Idle]"] by (simp add: notify_one_def)
  from log_step.act [OF this] have 2: "log_step False (s\<lparr>sy_queue := ?r\<rparr>) (log_return 1 (s\<lparr>sy_queue := ?q\<rparr>))" by simp
  have "log_return 1 (s\<lparr>sy_queue := ?q\<rparr>) = s\<lparr>sy_queue := ?q, sy_closer := Joining, sy_lines := sy_lines s @ [(1, [])]\<rparr>"
    using assms(2) by (simp add: log_return_def)
  then show ?thesis
    using log_two_steps [OF 1 2] by auto
qed

lemma demo_race:
  "\<exists>s. (any_label log_step)\<^sup>*\<^sup>* (log_start demo_logger [[demo_msg]]) s \<and> closing demo_conf s s \<and>
     sy_lines s = [(1, [])] \<and> sent demo_conf s 0 = [line_of demo_conf demo_msg]"
proof -
  let ?s0 = "log_start demo_logger [[demo_msg]]"
  let ?s1 = "?s0\<lparr>sy_impl := sy_impl ?s0, sy_callers := (sy_callers ?s0)[0 := \<lparr>cl_todo = [], cl_pc = Checked demo_msg\<rparr>]\<rparr>"
  let ?s2 = "?s1\<lparr>sy_level := LEVEL_MAX, sy_closer := Marking\<rparr>"
  have conf: "m_conf demo_logger = demo_conf" using Start_ok [OF demo_start(1) _ demo_start(2)] by simp
  have 1: "log_step False ?s0 ?s1"
    by (rule log_step.caller) (auto simp: log_start_def conf demo_conf_def demo_msg_def LogConfig_default_def intro: caller_move.pass)
  have 2: "log_step False ?s1 ?s2" by (rule log_step.close) (simp add: log_start_def)
  obtain q where 3: "(any_label log_step)\<^sup>*\<^sup>* ?s2 (?s2\<lparr>sy_queue := q, sy_closer := Joining, sy_lines := sy_lines ?s2 @ [(1, [])]\<rparr>)"
    using mark_steps [of ?s2] by (auto simp: log_start_def system_new_def numeral_3_eq_3)
  from log_two_steps [OF 1 2] 3
  have "(any_label log_step)\<^sup>*\<^sup>* ?s0 (?s2\<lparr>sy_queue := q, sy_closer := Joining, sy_lines := sy_lines ?s2 @ [(1, [])]\<rparr>)"
    by (rule rtranclp_trans)
  moreover have "closing demo_conf s s \<and> sy_lines s = [(1, [])] \<and> sent demo_conf s 0 = [line_of demo_conf demo_msg]"
    if "s = ?s2\<lparr>sy_queue := q, sy_closer := Joining, sy_lines := sy_lines ?s2 @ [(1, [])]\<rparr>" for s
    by (simp add: that closing_def log_start_def sent_def)
  ultimately show ?thesis by blast
qed

section \<open>Properties\<close>

text \<open>
  C6: the logger, its queue and its threads together. Any number of threads log, interleaved in any way with
  the writer; once they have finished somebody calls \<open>Close\<close>, and when that returns the disk is what
  the lines make of it: appended one by one, rotated at the limit, except that what comes while a new
  file could not be opened is lost. When every file could be opened that is plain appending and
  rotating. The lines are those of the messages at or above the level, those of one thread in its
  order, and nothing else; the queue is empty and every block is back in the pool. (\<^verbatim>\<open>write\<close>,
  \<^verbatim>\<open>rename\<close> and \<^verbatim>\<open>unlink\<close> are taken to do what they are asked; only \<^verbatim>\<open>open\<close> may fail.)
\<close>

theorem logger_threads_write_everything:
  assumes "LoggerImpl_Start True buf conf (LoggerImpl_new conf0 disk mem) = Some (True, l)" and "buf \<noteq> 0"
    and "\<forall>a. length (mem a) = BLOCK_SIZE" and "progs_ok conf progs"
    and "(any_label log_step)\<^sup>*\<^sup>* (log_start l progs) r" and "sy_closer r = Open" and "callers_done r"
    and "(any_label log_step)\<^sup>*\<^sup>* r s" and "sy_closer s = Closed"
  shows "lg_disk (sy_impl s) = fst (foldl (spec_log conf) (lg_disk l, m_filesize l, True) (zip (map snd (sy_lines r)) (sy_opens s))) \<and>
     length (sy_opens s) = length (sy_lines r) \<and>
     (False \<notin> set (sy_opens s) \<longrightarrow>
        lg_disk (sy_impl s) = fst (foldl (spec_write conf) (lg_disk l, m_filesize l) (map snd (sy_lines r)))) \<and>
     (\<forall>p\<in>set (sy_lines r). fst p < length progs) \<and>
     (\<forall>i<length progs. lines_by i (sy_lines r) = due conf (progs ! i)) \<and>
     m_queue (bq (sy_queue s)) = [] \<and> pool_inv (m_pool (sy_impl s)) {} \<and> \<not> m_started (sy_impl s)"
proof -
  let ?d = "(lg_disk l, m_filesize l, True)"
  have ok: "log_ok conf ?d progs r" by (rule log_ok_reachable [OF assms(5) started_ok [OF assms(1-4)]])
  have okS: "log_ok conf ?d progs s" by (rule log_ok_reachable [OF assms(8) ok])
  from quiet_run [OF assms(8) ok assms(6,7)] have q: "sy_callers s = sy_callers r"
    "sy_lines s = sy_lines r @ [(length (sy_callers r), [])]" using assms(9) by (auto simp: quiet_def)
  have len: "length (sy_callers r) = length progs" using ok by (simp add: log_ok_def log_order_ok_def)
  from closed_disk [OF okS assms(9)] obtain before after where
    c: "sy_lines s = before @ (length progs, []) # after" "length (popped (sy_queue s)) = Suc (length before)"
    "sy_writer s = Ended" "\<forall>p\<in>set before. fst p < length progs"
    "lg_disk (sy_impl s) = fst (foldl (spec_log conf) ?d (zip (map snd before) (sy_opens s)))"
    "length (sy_opens s) = length before" by blast
  have by_callers: "fst p < length progs" if "p \<in> set (sy_lines r)" for p
  proof -
    have "no_mark (pushed (sy_queue r))" "list_all2 (entry_line (length progs)) (pushed (sy_queue r)) (sy_lines r)"
      using ok assms(6) len by (auto simp: log_ok_def log_mark_ok_def log_lines_ok_def)
    with that show ?thesis using entry_lines_callers by blast
  qed
  let ?x = "(length progs, [] :: bytes)"
  have "?x \<notin> set (sy_lines r)" "?x \<notin> set before" using by_callers c(4) by fastforce+
  then have "takeWhile (\<lambda>p. p \<noteq> ?x) (sy_lines r @ ?x # []) = sy_lines r"
    "takeWhile (\<lambda>p. p \<noteq> ?x) (before @ ?x # after) = before" by (subst takeWhile_append2; fastforce)+
  moreover have "sy_lines r @ [?x] = before @ ?x # after" using c(1) q(2) len by simp
  ultimately have r: "sy_lines r = before" by simp
  have "after = []" using c(1) q(2) r by simp
  then have "length (sy_lines s) = Suc (length before)" using c(1) by simp
  then have e: "m_queue (bq (sy_queue s)) = []"
    using log_queue_lines [of s] okS c(2) by (simp add: log_ok_def)
  have "pc_blocks (cl_pc c) = []" if "c \<in> set (sy_callers s)" for c
    using assms(7) that q(1) by (auto simp: callers_done_def)
  then have "blocks s = {#}" using e c(3) by (simp add: blocks_def queue_blocks_def)
  then have "pool_inv (m_pool (sy_impl s)) {}" using okS by (simp add: log_ok_def log_mem_ok_def)
  moreover have "lines_by i (sy_lines r) = due conf (progs ! i)" if "i < length progs" for i
  proof -
    have "sy_callers r ! i = \<lparr>cl_todo = [], cl_pc = Between\<rparr>" using assms(7) that len by (simp add: callers_done_def)
    moreover have "sent conf r i @ due conf (cl_todo (sy_callers r ! i)) = due conf (progs ! i)"
      using ok assms(6) that by (simp add: log_ok_def log_order_ok_def)
    ultimately show ?thesis by (simp add: sent_def due_def)
  qed
  moreover have "\<not> m_started (sy_impl s)" using okS assms(9) by (simp add: log_ok_def log_disk_ok_def)
  moreover have "lg_disk (sy_impl s) = fst (foldl (spec_write conf) (lg_disk l, m_filesize l) (map snd before))"
    if "False \<notin> set (sy_opens s)"
    using c(5) spec_log_all_open [OF that, of "map snd before"] c(6) by (simp split: prod.splits)
  ultimately show ?thesis using c(4-6) e r by simp
qed

theorem logger_threads_write_everything_witness:
  "\<exists>r s. (any_label log_step)\<^sup>*\<^sup>* (log_start demo_logger [[demo_msg]]) r \<and> (any_label log_step)\<^sup>*\<^sup>* r s \<and> sy_closer s = Closed \<and>
     lg_disk (sy_impl s) = fst (spec_write demo_conf (lg_disk demo_logger, m_filesize demo_logger) (line_of demo_conf demo_msg))"
proof -
  obtain r s where rs: "(any_label log_step)\<^sup>*\<^sup>* (log_start demo_logger [[demo_msg]]) r" "sy_closer r = Open" "callers_done r"
    "(any_label log_step)\<^sup>*\<^sup>* r s" "sy_closer s = Closed" using demo_run by (auto simp: log_final_def)
  note t = logger_threads_write_everything [OF demo_start(1) _ demo_start(2) demo_progs_ok rs, simplified]
  have "filter (\<lambda>p. fst p = 0) (sy_lines r) = sy_lines r" using t by (simp add: filter_id_conv)
  then have "map snd (sy_lines r) = lines_by 0 (sy_lines r)" by (simp add: lines_by_def)
  also have "\<dots> = [line_of demo_conf demo_msg]"
    using t by (simp add: due_def demo_conf_def demo_msg_def LogConfig_default_def)
  finally have m: "map snd (sy_lines r) = [line_of demo_conf demo_msg]" .
  from t have "length (sy_opens s) = length (map snd (sy_lines r))" by simp
  then obtain ok where "sy_opens s = [ok]" by (auto simp: m length_Suc_conv)
  with t have "lg_disk (sy_impl s) = fst (spec_log demo_conf (lg_disk demo_logger, m_filesize demo_logger, True) (line_of demo_conf demo_msg, ok))"
    by (simp add: m)
  with spec_log_below [OF demo_below] have "lg_disk (sy_impl s) =
      fst (spec_write demo_conf (lg_disk demo_logger, m_filesize demo_logger) (line_of demo_conf demo_msg))"
    by (simp split: prod.splits)
  then show ?thesis using rs by blast
qed

text \<open>
  C10: the logger always gets to its end. With up to 10000 threads that log (the capacity of the queue) no
  run gets stuck before everything is logged and \<open>Close\<close> has returned; a run has at most
  \<open>19 * m + 3 * n + 21\<close> steps for \<open>n\<close> threads and \<open>m\<close> messages, and two more for each spurious wake-up;
  and every run can be continued to the end.
\<close>

theorem logger_threads_terminate:
  assumes "LoggerImpl_Start True buf conf (LoggerImpl_new conf0 disk mem) = Some (True, l)" and "buf \<noteq> 0"
    and "\<forall>a. length (mem a) = BLOCK_SIZE" and "progs_ok conf progs" and "length progs \<le> 10000"
    and "labelled_run log_step bs (log_start l progs) s"
  shows "length bs \<le> 19 * sum_list (map length progs) + 3 * length progs + 21 + 2 * length (filter id bs) \<and>
     (log_final s \<or> (\<exists>t. log_step False s t)) \<and> (\<exists>t. (log_step False)\<^sup>*\<^sup>* s t \<and> log_final t)"
proof -
  have ok: "log_ok conf (lg_disk l, m_filesize l, True) progs (log_start l progs) \<and> length progs \<le> unat QUEUE_CAPACITY"
    using started_ok [OF assms(1-4)] assms(5) by (simp add: QUEUE_CAPACITY_def)
  note okS = log_progress.ok_reachable [OF labelled_run_rtranclp [OF assms(6)] ok]
  show ?thesis
    using log_progress.run_bounded [OF assms(6) ok] log_progress.not_stuck [OF okS] log_progress.runs_to_end [OF okS]
    unfolding log_weight_start by blast
qed

theorem logger_threads_terminate_witness:
  "\<exists>t. (log_step False)\<^sup>*\<^sup>* (log_start demo_logger [[demo_msg], []]) t \<and> log_final t"
proof -
  have "progs_ok demo_conf [[demo_msg], []]" using demo_progs_ok by (simp add: progs_ok_def)
  from logger_threads_terminate [OF demo_start(1) _ demo_start(2) this, of "[]"] show ?thesis by simp
qed

text \<open>
  C15: what a \<open>Close\<close> that does not wait for the callers costs. A message whose thread had passed the level
  test before \<open>Close\<close> raised the level can be queued behind the mark: at most one of each thread. It is not
  written by the time \<open>Close\<close> returns: the disk is what the lines in front of the mark make of it, and of every
  thread they are the first of its lines, in order, followed by the one behind the mark. The lines behind the
  mark stay in \<open>m_data_queue\<close>, one entry each, in a block of the pool that is not given back; nothing empties the
  queue, so the thread of a later \<open>Start\<close> would find them. The witness is a run that ends with the
  only message of the only thread left behind.
\<close>

theorem logger_close_race:
  assumes "LoggerImpl_Start True buf conf (LoggerImpl_new conf0 disk mem) = Some (True, l)" and "buf \<noteq> 0"
    and "\<forall>a. length (mem a) = BLOCK_SIZE" and "progs_ok conf progs"
    and "(any_label log_step)\<^sup>*\<^sup>* (log_start l progs) s" and "sy_closer s = Closed"
  shows "\<exists>before after. sy_lines s = before @ (length progs, []) # after \<and> length after \<le> length progs \<and>
     lg_disk (sy_impl s) = fst (foldl (spec_log conf) (lg_disk l, m_filesize l, True) (zip (map snd before) (sy_opens s))) \<and>
     length (sy_opens s) = length before \<and> (\<forall>p\<in>set before. fst p < length progs) \<and>
     (\<forall>i<length progs. prefix (lines_by i before @ lines_by i after) (due conf (progs ! i)) \<and> length (lines_by i after) \<le> 1) \<and>
     list_all2 (\<lambda>data p. fst p < length progs \<and> ld_buf data \<noteq> 0 \<and> holds (lg_mem (sy_impl s)) data (snd p))
       (m_queue (bq (sy_queue s))) after \<and>
     ld_buf ` set (m_queue (bq (sy_queue s))) \<subseteq> set_mset (blocks s) \<and> pool_inv (m_pool (sy_impl s)) (set_mset (blocks s))"
proof -
  note start = started_ok [OF assms(1-4)]
  have ok: "log_ok conf (lg_disk l, m_filesize l, True) progs s" by (rule log_ok_reachable [OF assms(5) start])
  then have len: "length (sy_callers s) = length progs" and tx: "log_text_ok conf s" and mem: "log_mem_ok s"
    and ll: "list_all2 (entry_line (length progs)) (pushed (sy_queue s)) (sy_lines s)"
    by (auto simp: log_ok_def log_order_ok_def log_lines_ok_def)
  let ?q = "m_queue (bq (sy_queue s))"
  from closed_disk [OF ok assms(6)] obtain before after where
    c: "sy_lines s = before @ (length progs, []) # after" "length after + inside s \<le> length progs"
    "length (popped (sy_queue s)) = Suc (length before)" "?q = drop (Suc (length before)) (pushed (sy_queue s))"
    "lg_disk (sy_impl s) = fst (foldl (spec_log conf) (lg_disk l, m_filesize l, True) (zip (map snd before) (sy_opens s)))"
    "length (sy_opens s) = length before" "\<forall>p\<in>set before. fst p < length progs" "no_mark ?q" by blast
  have "prefix (lines_by i before @ lines_by i after) (due conf (progs ! i)) \<and> length (lines_by i after) \<le> 1" if "i < length progs" for i
  proof -
    have "prefix (lines_by i before @ lines_by i after) (sent conf s i)" using that by (simp add: sent_def c(1))
    also have "prefix (sent conf s i) (due conf (progs ! i))" using ok that by (simp add: log_ok_def log_order_ok_def)
    finally show ?thesis
      using log_behind_reachable [OF assms(5) start] behind_split [OF c(7)] that assms(6) c(1) len
      by (auto simp: log_behind_ok_def)
  qed
  moreover have "list_all2 (\<lambda>data p. fst p < length progs \<and> ld_buf data \<noteq> 0 \<and> holds (lg_mem (sy_impl s)) data (snd p)) ?q after"
  proof -
    have "list_all2 (entry_ok (lg_mem (sy_impl s))) ?q after" using tx c(1,3) by (simp add: log_text_ok_def)
    moreover have "list_all2 (entry_line (length progs)) ?q after"
      using list_all2_dropI [OF ll, of "Suc (length before)"] c(1,4) by simp
    moreover have "\<forall>i<length ?q. ld_buf (?q ! i) \<noteq> 0" using c(8) nth_mem unfolding no_mark_def by blast
    ultimately show ?thesis by (auto simp: list_all2_conv_all_nth entry_ok_def entry_line_def)
  qed
  moreover have "ld_buf ` set ?q \<subseteq> set_mset (blocks s)"
    using c(8) by (auto simp: blocks_def queue_blocks_def no_mark_def)
  moreover have "pool_inv (m_pool (sy_impl s)) (set_mset (blocks s))" using mem by (simp add: log_mem_ok_def)
  ultimately show ?thesis using c by (intro exI [of _ before] exI [of _ after]) simp
qed

theorem logger_close_race_witness:
  "\<exists>s. (any_label log_step)\<^sup>*\<^sup>* (log_start demo_logger [[demo_msg]]) s \<and> log_final s \<and>
     lines_by 0 (sy_lines s) = [line_of demo_conf demo_msg] \<and> lg_disk (sy_impl s) = lg_disk demo_logger"
proof -
  obtain r where r: "(any_label log_step)\<^sup>*\<^sup>* (log_start demo_logger [[demo_msg]]) r" "closing demo_conf r r"
    "sy_lines r = [(1, [])]" "sent demo_conf r 0 = [line_of demo_conf demo_msg]" using demo_race by blast
  note ok = log_ok_reachable [OF r(1) demo_ok]
  moreover have "length [[demo_msg]] \<le> unat QUEUE_CAPACITY" by (simp add: QUEUE_CAPACITY_def)
  ultimately obtain s where s: "(log_step False)\<^sup>*\<^sup>* r s" "log_final s" using log_progress.runs_to_end by blast
  then have rs: "(any_label log_step)\<^sup>*\<^sup>* r s" by (blast intro: rtranclp_any_label)
  have "length (sy_callers r) = 1" using ok by (simp add: log_ok_def log_order_ok_def)
  with closing_run [OF rs ok r(2)] r(3,4) obtain ls where
    ls: "sy_lines s = (1, []) # ls" "sent demo_conf s 0 = [line_of demo_conf demo_msg]" "length (sy_callers s) = 1"
    by (auto simp: closing_def prefix_def)
  have "sy_callers s ! 0 = \<lparr>cl_todo = [], cl_pc = Between\<rparr>" using s(2) ls(3) by (simp add: log_final_def callers_done_def)
  with ls(2) have l: "lines_by 0 (sy_lines s) = [line_of demo_conf demo_msg]" by (simp add: sent_def)
  have run: "(any_label log_step)\<^sup>*\<^sup>* (log_start demo_logger [[demo_msg]]) s" using r(1) rs by simp
  from s(2) have "sy_closer s = Closed" by (simp add: log_final_def)
  from logger_close_race [OF demo_start(1) _ demo_start(2) demo_progs_ok run this] obtain before after where
    "sy_lines s = before @ (1, []) # after" "\<forall>p\<in>set before. fst p < 1"
    "lg_disk (sy_impl s) = fst (foldl (spec_log demo_conf) (lg_disk demo_logger, m_filesize demo_logger, True)
       (zip (map snd before) (sy_opens s)))" by auto
  with ls(1) have "lg_disk (sy_impl s) = lg_disk demo_logger" by (cases before) auto
  with run s(2) l show ?thesis by blast
qed

text \<open>
  C8: memory safety of the logger under every interleaving: the blocks that threads print into, that wait in
  the queue and that the writer writes are all different, the pool holds none of them, a thread
  that holds a block finds in it what it printed, and the queue stays within its capacity.
\<close>

theorem logger_threads_memory_safe:
  assumes "LoggerImpl_Start True buf conf (LoggerImpl_new conf0 disk mem) = Some (True, l)" and "buf \<noteq> 0"
    and "\<forall>a. length (mem a) = BLOCK_SIZE" and "progs_ok conf progs"
    and "(any_label log_step)\<^sup>*\<^sup>* (log_start l progs) s"
  shows "sole (blocks s) \<and> pool_inv (m_pool (sy_impl s)) (set_mset (blocks s)) \<and>
     (\<forall>c\<in>set (sy_callers s). pc_ok conf (lg_mem (sy_impl s)) (cl_pc c)) \<and>
     length (m_queue (bq (sy_queue s))) \<le> 10000"
proof -
  have ok: "log_ok conf (lg_disk l, m_filesize l, True) progs s"
    by (rule log_ok_reachable [OF assms(5) started_ok [OF assms(1-4)]])
  then have "pc_ok conf (lg_mem (sy_impl s)) (cl_pc c)" if "c \<in> set (sy_callers s)" for c
    using that by (auto simp: log_ok_def log_text_ok_def caller_ok_def in_set_conv_nth)
  moreover have "length (m_queue (bq (sy_queue s))) \<le> unat QUEUE_CAPACITY"
    using bq_reachable_safe [OF log_queue_runs [OF assms(5)]] bq_reachable_capacity [OF log_queue_runs [OF assms(5)]]
    by (simp add: bq_safe_def)
  ultimately show ?thesis using ok by (simp add: log_ok_def log_mem_ok_def QUEUE_CAPACITY_def)
qed

theorem logger_threads_memory_safe_witness:
  "\<exists>s. (any_label log_step)\<^sup>*\<^sup>* (log_start demo_logger [[demo_msg]]) s \<and> log_final s \<and> sole (blocks s)"
proof -
  obtain r s where rs: "(any_label log_step)\<^sup>*\<^sup>* (log_start demo_logger [[demo_msg]]) r"
    "(any_label log_step)\<^sup>*\<^sup>* r s" "log_final s" using demo_run by blast
  then have run: "(any_label log_step)\<^sup>*\<^sup>* (log_start demo_logger [[demo_msg]]) s" by simp
  from logger_threads_memory_safe [OF demo_start(1) _ demo_start(2) demo_progs_ok run] run rs(3) show ?thesis by auto
qed

text \<open>
  The small steps are \<open>LogMsg\<close> and \<open>Write\<close>. One caller that is not interrupted takes the steps of the threads
  to exactly the state that the sequential \<open>LogMsg\<close> reaches, apart from the contents of the block
  it has given back; and the three parts of the writer are \<open>Write\<close>.
\<close>

theorem logger_steps_compose:
  assumes "LoggerImpl_LogMsg e1 e2 (lm_level m) (lm_time m) (lm_file m) (lm_func m) (lm_line m) (lm_text m) l = Some l'"
    and "\<forall>a. length (lg_mem l a) = BLOCK_SIZE" and "0 \<notin> set (lm_text m)"
    and "BlockPool_Alloc e1 (m_pool l) = (x, p)" and "BlockPool_Alloc e2 p = (y, p')" and "x \<noteq> y"
  shows "(\<exists>l1 l2 data. LogMsg_text x m (l\<lparr>m_pool := p\<rparr>) = Some l1 \<and>
       LogMsg_line x y m (l1\<lparr>m_pool := p'\<rparr>) = Some (data, l2) \<and>
       l' = l2\<lparr>m_pool := snd (BlockPool_Free x (m_pool l2)), m_data_queue := m_data_queue l2 @ [data],
              lg_mem := (lg_mem l2)(x := lg_mem l x)\<rparr>) \<and>
     (\<forall>open_ok data. LoggerImpl_Write open_ok data l =
        map_option (\<lambda>l. Write_rotate open_ok (Write_free data l)) (Write_file data l))"
proof -
  from assms(1,4,5) obtain line len block where
    ml: "msg_line (m_conf l) m (lm_text m) = Some line" and
    sn: "snprintf (lg_mem l y) 0 BLOCK_SIZE line = Some (len, block)" and
    l': "l' = l\<lparr>lg_mem := (lg_mem l)(y := block), m_pool := snd (BlockPool_Free x p'),
       m_data_queue := m_data_queue l @ [\<lparr>ld_buf = y, ld_len = of_int len\<rparr>]\<rparr>"
    by (auto simp: LoggerImpl_LogMsg_def msg_line_def bind_eq_Some_conv Let_def split: if_splits)
  have "BLOCK_SIZE \<le> length (lg_mem l x)" "0 < BLOCK_SIZE" using assms(2) by (simp_all add: BLOCK_SIZE_def)
  with assms(3) obtain b where
    b: "snprintf (lg_mem l x) 0 BLOCK_SIZE (lm_text m) = Some (int (length (lm_text m)), b)"
    "cstr b = take (BLOCK_SIZE - 1) (lm_text m)" by (metis snprintf_cstr)
  let ?l1 = "l\<lparr>m_pool := p, lg_mem := (lg_mem l)(x := b)\<rparr>"
  let ?l2 = "?l1\<lparr>m_pool := p', lg_mem := (lg_mem l)(x := b, y := block)\<rparr>"
  have "LogMsg_text x m (l\<lparr>m_pool := p\<rparr>) = Some ?l1" using b(1) by (simp add: LogMsg_text_def)
  moreover have "LogMsg_line x y m (?l1\<lparr>m_pool := p'\<rparr>) = Some (\<lparr>ld_buf = y, ld_len = of_int len\<rparr>, ?l2)"
    using b(2) ml sn assms(6) by (simp add: LogMsg_line_def msg_line_take [simplified])
  moreover have "(lg_mem l)(x := b, y := block, x := lg_mem l x) = (lg_mem l)(y := block)"
    using assms(6) by (auto simp: fun_eq_iff)
  then have "l' = ?l2\<lparr>m_pool := snd (BlockPool_Free x (m_pool ?l2)),
      m_data_queue := m_data_queue ?l2 @ [\<lparr>ld_buf = y, ld_len = of_int len\<rparr>], lg_mem := (lg_mem ?l2)(x := lg_mem l x)\<rparr>"
    unfolding l' by simp
  ultimately show ?thesis using LoggerImpl_Write_parts by blast
qed

theorem logger_steps_compose_witness:
  "\<exists>e1 e2 l' x p y p' l1 l2 data.
     LoggerImpl_LogMsg e1 e2 (lm_level demo_msg) (lm_time demo_msg) (lm_file demo_msg) (lm_func demo_msg) (lm_line demo_msg)
       (lm_text demo_msg) demo_logger = Some l' \<and>
     BlockPool_Alloc e1 (m_pool demo_logger) = (x, p) \<and> BlockPool_Alloc e2 p = (y, p') \<and>
     LogMsg_text x demo_msg (demo_logger\<lparr>m_pool := p\<rparr>) = Some l1 \<and>
     LogMsg_line x y demo_msg (l1\<lparr>m_pool := p'\<rparr>) = Some (data, l2)"
proof -
  let ?pool = "m_pool demo_logger"
  from Start_ok [OF demo_start(1) _ demo_start(2)] have q: "queue_ok demo_logger []" "m_conf demo_logger = demo_conf" by simp_all
  then have e: "m_data_queue demo_logger = []" "pool_inv ?pool {}" "\<forall>a. length (lg_mem demo_logger a) = BLOCK_SIZE"
    by (auto simp: queue_ok_def)
  obtain e1 where e1: "e1 \<noteq> 0" "block_answer_ok e1 ?pool {}" using fresh_block [of "{}"] by auto
  obtain e2 where e2: "e2 \<noteq> 0" "block_answer_ok e2 ?pool {e1}" using fresh_block [of "{e1}"] by auto
  have an: "answers_ok e1 e2 ?pool {}" using e1 e2 by (auto simp: answers_ok_def block_answer_ok_def)
  obtain x p where x: "BlockPool_Alloc e1 ?pool = (x, p)" by fastforce
  obtain y p' where y: "BlockPool_Alloc e2 p = (y, p')" by fastforce
  have "x \<noteq> 0" by (rule BlockPool_Alloc_nonzero [OF e(2) x e1(1)])
  with BlockPool_Alloc_inv [OF e(2) e1(2) x] have p: "pool_inv p {x}" by simp
  have "y \<noteq> 0" by (rule BlockPool_Alloc_nonzero [OF p y e2(1)])
  with BlockPool_Alloc_inv [OF p _ y] second_answer_ok [OF e(2) an x] have "x \<noteq> y" by auto
  have m: "msg_ok demo_conf demo_msg" using demo_progs_ok by (simp add: progs_ok_def)
  then have line: "log_line (m_conf demo_logger) (lm_level demo_msg) (lm_time demo_msg) (lm_file demo_msg) (lm_func demo_msg)
      (lm_line demo_msg) (lm_text demo_msg) = Some (line_of demo_conf demo_msg)" "length (line_of demo_conf demo_msg) < BLOCK_SIZE"
    and "0 \<notin> set (lm_text demo_msg)" by (auto simp: msg_ok_def msg_line_def q(2))
  from LogMsg_ok [OF q(1) _ line, of e1 e2] an e(1) obtain l' where
    "LoggerImpl_LogMsg e1 e2 (lm_level demo_msg) (lm_time demo_msg) (lm_file demo_msg) (lm_func demo_msg) (lm_line demo_msg)
       (lm_text demo_msg) demo_logger = Some l'" by auto
  from logger_steps_compose [OF this e(3) \<open>0 \<notin> set (lm_text demo_msg)\<close> x y \<open>x \<noteq> y\<close>] this x y
  show ?thesis by blast
qed

end
