(* ===== verification/Spec2Isabelle.thy ===== *)
theory Spec2Isabelle
  imports Types Transition Hash Bloom_Filter Intrusive_List Memory_Block Block_Pool Memory_Pool Buffer Pack Unpack
    Lru_Cache Lru_Refinement Queue Ini_File Time Path Directory File File_Watcher Thread Lock Aio Aio_Service Logger
    Logger_Threads Logger_Service
begin

text \<open>
  A verification development for xfutil, a base library in C++: byte and string handling, encodings,
  memory management, caches and queues, files, threads, logging. The sources are under
  \<^verbatim>\<open>src/include/xfutil\<close> (headers, called by their base name below) and \<^verbatim>\<open>src/src\<close>. The code is compiled
  for 64 bit Linux with signed plain \<^verbatim>\<open>char\<close>; assertions are off in the release build, and the models
  take the code without them.

  \<^bold>\<open>The parts and how they interact.\<close> Encodings (\<^verbatim>\<open>coding\<close>) work on strings and views (\<^verbatim>\<open>strutil\<close>). Memory
  comes from three layers: \<^verbatim>\<open>memory_block\<close> carves one region into elements, \<^verbatim>\<open>block_pool\<close> keeps large
  blocks, \<^verbatim>\<open>memory_pool\<close> combines the two with intrusive lists (\<^verbatim>\<open>list\<close>) into a thread safe allocator.
  \<^verbatim>\<open>buffer\<close> hands out memory on top of a block pool, and \<^verbatim>\<open>pack\<close> and \<^verbatim>\<open>unpack\<close> write and read values over
  such blocks with the encodings. \<^verbatim>\<open>bloom_filter\<close> uses \<^verbatim>\<open>hash\<close>. \<^verbatim>\<open>lru_cache\<close> and \<^verbatim>\<open>queue\<close> stand alone.
  \<^verbatim>\<open>ini_file\<close> uses the trimming of \<^verbatim>\<open>strutil\<close>. \<^verbatim>\<open>path\<close>, \<^verbatim>\<open>directory\<close> and \<^verbatim>\<open>file\<close> wrap the file system,
  \<^verbatim>\<open>file_watcher\<close> uses them. \<^verbatim>\<open>logger\<close> formats messages into blocks of a block pool that a thread writes
  to a file; \<^verbatim>\<open>aio\<close> distributes commands over queues that groups of threads serve.

  \<^bold>\<open>Theories.\<close> Each theory has its definitions first, named as in the source (overloads and methods get
  the class or a width as prefix or suffix), then the vocabulary of its specification, lemmas, and
  properties with witnesses.

    \<^item> \<open>Xf_Prelude\<close>: the types \<open>u8\<close> to \<open>u64\<close> and \<open>bytes\<close>, bounds checked memory copies, lemmas on words,
      the collections \<open>codec_defs\<close>, \<open>codec_rt\<close>, \<open>codec_len\<close>. \<open>C_Library\<close>: \<^verbatim>\<open>strtol\<close>, \<^verbatim>\<open>snprintf\<close>, \<^verbatim>\<open>strrchr\<close>.
      \<open>Types\<close> (\<^verbatim>\<open>types.h\<close>, the allocation wrappers of \<^verbatim>\<open>strutil.h\<close>): asserted sizes, macros.
    \<^item> \<open>Transition\<close>: the locales \<open>simulation\<close> (every run of a system is matched by its specification) and
      \<open>bounded_progress\<close> (a measure that every step lowers, a step as long as the goal is not reached:
      runs are bounded and every run can be completed), with lemmas on multisets of resources.
    \<^item> \<open>Strutil\<close> (\<^verbatim>\<open>strutil.h\<close>, \<^verbatim>\<open>strutil.cpp\<close>): \<open>String\<close> as a buffer with size and capacity, \<open>StrView\<close> as bytes and
      a size. Histories of a string keep its class invariant and refine byte sequences; comparison is
      the lexicographic order; trimming, prefixes, \<open>StrCpy\<close>.
    \<^item> \<open>Coding\<close> (\<^verbatim>\<open>coding.h\<close>, \<^verbatim>\<open>coding.cpp\<close>): streams of fixed, variable and zig-zag integers and strings are
      read back; sizes; malformed input.
    \<^item> \<open>Hash\<close>, \<open>Bloom_Filter\<close> (\<^verbatim>\<open>hash.h\<close>, \<^verbatim>\<open>hash.cpp\<close>, \<^verbatim>\<open>bloom_filter.h\<close>, \<^verbatim>\<open>bloom_filter.cpp\<close>): the hash is a polynomial
      in its seed; a filter has no false negatives and its answers are exact for the bits it set.
    \<^item> \<open>Intrusive_List\<close> (\<^verbatim>\<open>list.h\<close>): pointer assignments refine sequences of nodes and frame disjoint lists.
    \<^item> \<open>Memory_Block\<close>, \<open>Block_Pool\<close>, \<open>Memory_Pool\<close> (\<^verbatim>\<open>memory_block.h\<close>, \<^verbatim>\<open>memory_block.cpp\<close>, \<^verbatim>\<open>block_pool.h\<close>,
      \<^verbatim>\<open>block_pool.cpp\<close>, \<^verbatim>\<open>memory_pool.h\<close>, \<^verbatim>\<open>memory_pool.cpp\<close>): addresses are numbers, free lists live in the memory
      they describe. The locale \<open>allocator\<close> states what an allocator promises (fresh, disjoint elements,
      whatever the history), and is interpreted on all three; the memory pool also under every
      interleaving of threads at the granularity of its locks.
    \<^item> \<open>Buffer\<close>, \<open>Pack\<close>, \<open>Unpack\<close> (\<^verbatim>\<open>buffer.h\<close>, \<^verbatim>\<open>buffer.cpp\<close>, \<^verbatim>\<open>pack.h\<close>, \<^verbatim>\<open>pack.cpp\<close>, \<^verbatim>\<open>unpack.h\<close>, \<^verbatim>\<open>unpack.cpp\<close>):
      regions handed out are disjoint, blocks are given back, packing stays inside its blocks. This
      theory composes them into the round trip over a block pool.
    \<^item> \<open>Lru_Cache\<close> (\<^verbatim>\<open>lru_cache.h\<close>): two lists and two maps of iterators; no history uses an erased iterator.
      \<open>Lru_Refinement\<close>: the cache is one of two plain sequences, result by result; its hot list is in the
      order of the last hits, the entries that leave it are the least recently used ones, and the limit of
      that list has no effect.
    \<^item> \<open>Queue\<close> (\<^verbatim>\<open>queue.h\<close>): the methods under their lock, and a step relation of threads that wait on the two
      condition variables. A thread with a time-out that has been notified can still be too late for the lock, and
      leaves without looking (\<open>too_late\<close>). In all runs values are conserved, order is kept, and the threads simulate
      an atomic bounded buffer, in which a call waits exactly while its guard is false; no wake-up is lost
      in the runs without \<open>too_late\<close> (\<open>prompt_step\<close>), and such a step loses one. The lemmas of the last sections
      (\<open>queue_at\<close>, \<open>thread_weight\<close>) are for components that put their own code around a queue.
    \<^item> \<open>Ini_File\<close>, \<open>Time\<close> (\<^verbatim>\<open>ini_file.h\<close>, \<^verbatim>\<open>ini_file.cpp\<close>, \<^verbatim>\<open>time.h\<close>, \<^verbatim>\<open>time.cpp\<close>): parsing and printing round
      trips, and where printing does not survive.
    \<^item> \<open>Path\<close>, \<open>Directory\<close>, \<open>File\<close>, \<open>File_Watcher\<close> (headers and sources of these names): system calls are
      parameters, as functions on a state or as answers; walks of directory trees end and visit or
      remove exactly the tree, copying copies, interrupted calls are repeated, events are reported.
    \<^item> \<open>Thread\<close> (\<^verbatim>\<open>thread.h\<close>, \<^verbatim>\<open>thread.cpp\<close>, \<^verbatim>\<open>process.h\<close>, \<^verbatim>\<open>sysinfo.h\<close>, \<^verbatim>\<open>xfutil.cpp\<close>), \<open>Lock\<close> (\<^verbatim>\<open>rwlock.h\<close>, \<^verbatim>\<open>spinlock.h\<close>):
      life cycles; guards of interleaved threads exclude each other as long as no thread opens a guard inside its
      own write guard (\<open>careful\<close>), which the code allows and which breaks the exclusion.
    \<^item> \<open>Aio\<close> (\<^verbatim>\<open>aio.h\<close>, \<^verbatim>\<open>aio.cpp\<close>, \<^verbatim>\<open>aio_cmd.cpp\<close>, \<^verbatim>\<open>aio_request.h\<close>, \<^verbatim>\<open>aio_request.cpp\<close>): commands of a request run
      interleaved with their atomic counters; the callback comes once; submitting routes, stopping drains.
    \<^item> \<open>Aio_Service\<close> (\<^verbatim>\<open>aio.cpp\<close>): the service at work. Threads that submit requests, the worker threads,
      each at its queue or at the shared one, and one thread that calls \<open>Stop\<close> interleave, step by step.
      When \<open>Stop\<close> does not overlap a \<open>Submit\<close>, every run answers every command once and ends in the
      stopped state; when it does, commands are stranded, and the others are still answered once. The use of a
      queue that \<open>Stop\<close> has deleted is a step that sets \<open>sv_fault\<close>, and the theorems about all runs speak of
      what happens as long as there was none; \<open>sv_life\<close> adds later calls of \<open>Start\<close>, which makes new queues
      and finds the old entries of the shared one.
    \<^item> \<open>Logger\<close> (\<^verbatim>\<open>logger.h\<close>, \<^verbatim>\<open>logger.cpp\<close>, \<^verbatim>\<open>logger_impl.h\<close>, \<^verbatim>\<open>logger_impl.cpp\<close>): what was logged is on disk after
      closing, rotated; levels.
    \<^item> \<open>Logger_Threads\<close>, \<open>Logger_Service\<close> (\<^verbatim>\<open>logger.cpp\<close>, \<^verbatim>\<open>logger_impl.cpp\<close>): logging threads, the writer
      and one thread that closes, interleaved around the blocking queue with its capacity, with
      \<open>LogMsg\<close> and \<open>Write\<close> cut at every access to shared state. The first theory has the system and the
      safety of its memory, the second what the files hold at the end, that the end is reached, and the
      race between closing and logging: which lines are left in the queue when \<open>Close\<close> returns.

  \<^bold>\<open>Conventions.\<close> Integers keep their width as words and wrap. A result \<^const>\<open>None\<close> of type option is
  undefined behaviour, an exception or a call that does not return, as the theory says; errors the
  code reports are booleans and codes in the result, as in the source. What lies outside the
  sources (the C library's allocator, clocks, the file system, \<^verbatim>\<open>inotify\<close>) is an argument with what the
  code relies on as a named hypothesis.

  \<^bold>\<open>Loops, bounds, fuel.\<close> Loops with an index or a pointer are functions with a measure. Loops that
  repeat system calls need not end and are partial functions into option; the theorems prove that
  they return, under the condition that the calls are not interrupted for ever. Recursion into
  directories counts down a depth; any bound at least as large as the depth of the tree gives the
  result, and the theorems are stated for all such bounds. The address space is taken to be
  47 bits wide where sizes are added.

  \<^bold>\<open>Not modelled.\<close> Sleeping, yielding, thread and process numbers (they only call the system); the
  expansion of the variadic arguments of a log message (\<^verbatim>\<open>vsnprintf\<close>), whose result is an argument;
  weak memory effects below the locks and atomics; the branches for systems other than Linux. The
  interleaved models of the logger and of \<^verbatim>\<open>aio\<close> start after \<open>Start\<close>; one thread closes or stops, at any
  moment, and what that costs when others are still at work is part of the theorems. That of the logger ends
  with \<open>Close\<close>, that of \<^verbatim>\<open>aio\<close> goes on with later starts and stops. They take
  \<^verbatim>\<open>malloc\<close> to find memory; the sequential models have that failure. A rotated log file may fail to
  open in all of them, while \<^verbatim>\<open>write\<close>, \<^verbatim>\<open>rename\<close> and \<^verbatim>\<open>unlink\<close> on the log files are taken to succeed.
  \<open>SetCapacity\<close> is not called while threads are inside the queue. The events that \<open>File_Watcher\<close> reads in its theorem
  on \<open>Read\<close> have names; a theorem of its own shows what becomes of one without. The tests and build files are outside the library.
\<close>

section \<open>Packing and unpacking over a block pool\<close>

lemma pool_ok_Init:
  assumes "BlockPool_Init buf bs num BlockPool_new = (True, pool)"
    and "buf + unat bs * unat num < 2 ^ 63"
  shows "pool_ok pool"
proof -
  from assms(1) have "BLOCK_ALGIN \<le> bs" "bs mod BLOCK_ALGIN = 0" "buf \<noteq> 0"
    by (auto simp: BlockPool_Init_def BlockPool_new_def Let_def split: if_splits)
  with BlockPool_Init_ok [of bs buf num] assms(1) have p: "m_block_size pool = bs"
    "m_free_blocks pool = map (\<lambda>i. buf + i * unat bs) [0..<unat num]" by auto
  have "4096 \<le> unat bs" "unat bs mod 4096 = 0"
    using \<open>BLOCK_ALGIN \<le> bs\<close> \<open>bs mod BLOCK_ALGIN = 0\<close>
    by (simp_all add: BLOCK_ALGIN_def word_le_nat_alt flip: unat_eq_0 add: unat_mod)
  moreover from this obtain k where "unat bs = 4096 * k" by (auto simp: mod_eq_0_iff_dvd)
  moreover have "unat bs < 4294967296" using unat_bound [of bs] by simp
  ultimately have sz: "4096 \<le> unat bs" "unat bs \<le> 2 ^ 32 - 4096" by simp_all
  have "addr_ok (buf + i * unat bs)" if "i < unat num" for i
  proof -
    have "i * unat bs \<le> unat bs * unat num" using that by (simp add: mult.commute)
    then show ?thesis using assms(2) \<open>buf \<noteq> 0\<close> unfolding addr_ok_def by linarith
  qed
  with p sz show ?thesis by (auto simp: pool_ok_def)
qed

text \<open>
  C1: whatever sequence of values a client packs (booleans, integers of every width and sign in
  variable or fixed length, floats, doubles, strings below 2 MiB) over a block pool that \<open>Init\<close>
  set up, packing succeeds without writing outside a block, and unpacking the blocks with the same
  sequence of overloads succeeds and gives the same values in the same order; after the last value
  every further read fails.
\<close>

theorem pack_unpack_roundtrip:
  assumes "BlockPool_Init buf bs num BlockPool_new = (True, pool)"
    and "buf + unat bs * unat num < 2 ^ 63" and "env_ok env"
    and "list_all item_ok its" and "list_all2 same_kind ts its"
  shows "\<exists>pk its' u. Pack_struct env its (Packer_new env (BlockBuffer_new pool)) = Some pk \<and>
     Unpack_struct ts (Unpacker_new (m_block_buffer pk)) = Some (True, its', u) \<and>
     list_all2 item_eq its' its \<and> (\<forall>t. \<exists>v u'. Unpack_item t u = Some (False, v, u'))"
proof -
  have new: "packed (Packer_new env (BlockBuffer_new pool)) [[]]"
    by (rule packed_new [OF pool_ok_Init [OF assms(1,2)] assms(3)])
  obtain pk Bs where pk: "Pack_struct env its (Packer_new env (BlockBuffer_new pool)) = Some pk"
    "packed pk Bs" "concat Bs = concat [[]] @ its"
    by (rule Pack_struct_packed [OF new assms(3,4)])
  have "concat Bs = its @ []" using pk(3) by simp
  from Unpack_struct_unread [OF Unpacker_new_unread [OF pk(2)] this assms(5,4)] obtain its' u Bs'
    where u: "Unpack_struct ts (Unpacker_new (m_block_buffer pk)) = Some (True, its', u)"
      "list_all2 item_eq its' its" "unread u Bs'" "concat Bs' = []" by blast
  with pk(1) Unpack_item_end [OF u(3,4)] show ?thesis by blast
qed

theorem pack_unpack_roundtrip_witness:
  "\<exists>pk its' u. Pack_struct (\<lambda>_. (10000, \<lambda>_. 0)) [I16 0xFFFF, IView (StrView_Set [104, 105] 2)]
       (Packer_new (\<lambda>_. (10000, \<lambda>_. 0)) (BlockBuffer_new
         (snd (BlockPool_Init 20000 4096 3 BlockPool_new)))) = Some pk \<and>
     Unpack_struct [I16 0, IView StrView_Init] (Unpacker_new (m_block_buffer pk)) =
       Some (True, its', u) \<and>
     list_all2 item_eq its' [I16 0xFFFF, IView (StrView_Set [104, 105] 2)]"
proof -
  let ?env = "\<lambda>_ :: nat. (10000 :: nat, \<lambda>_ :: nat. 0 :: u8)"
  let ?pool = "snd (BlockPool_Init 20000 4096 3 BlockPool_new)"
  have init: "BlockPool_Init 20000 4096 3 BlockPool_new = (True, ?pool)"
    by (simp add: BlockPool_Init_def BlockPool_new_def BLOCK_ALGIN_def Let_def)
  have fits: "20000 + unat (4096 :: u32) * unat (3 :: u32) < 2 ^ 63" by simp
  have env: "env_ok ?env" by (simp add: env_ok_def addr_ok_def)
  have ok: "list_all item_ok [I16 0xFFFF, IView (StrView_Set [104, 105] 2)]"
    by (simp add: view_ok_def StrView_Set_def)
  have kinds: "list_all2 same_kind [I16 0, IView StrView_Init]
      [I16 0xFFFF, IView (StrView_Set [104, 105] 2)]"
    by (simp add: same_kind_def)
  from pack_unpack_roundtrip [OF init fits env ok kinds] show ?thesis by blast
qed

end
